(* ===== verification/Prelude.thy ===== *)
theory Prelude
  imports Main "HOL-Library.Char_ord" "HOL-Library.List_Lexorder" "HOL-Library.Multiset"
begin

text \<open>
  Shared ground of the development: what the C++ code uses of the language and of its
  standard library.
  \<^item> errors as values: \<open>error + 'a\<close> with a bind, and \<open>ok\<close>, the total-correctness
    reading of a computation (it returns, and its result satisfies a predicate);
  \<^item> raw arrays with checked accesses (\<open>aget\<close>, \<open>aset\<close>), so that an access outside
    an array is an error of the model and never an unspecified value;
  \<^item> \<open>std::string\<close>: \<open>at\<close>, \<open>find\<close>, \<open>substr\<close>, \<open>erase\<close>;
  \<^item> \<open>std::map\<close> as an association list kept in key order;
  \<^item> counting loops as \<open>mfold\<close>, with an invariant rule.
\<close>

named_theorems safe_simps \<open>rewrite rules that turn \<open>ok\<close> of a computation into a condition\<close>
named_theorems map_simps \<open>lookups after insertions in the ordered maps\<close>

section \<open>Errors as values\<close>

text \<open>
  \<open>OutOfRange\<close> is the exception of \<open>string::at\<close> and \<open>string::substr\<close> (never caught
  in this program), \<open>BadIndex\<close> an access outside a raw array or through a wild pointer,
  \<open>NullDeref\<close> a dereferenced null pointer, \<open>NotFinite\<close> a floating-point division by zero
  (its infinite result is outside the model), \<open>ExitCode\<close> a call of \<open>exit\<close>,
  \<open>OutOfFuel\<close> a loop that has not ended within the fuel given to it.
\<close>

datatype error = OutOfRange | BadIndex | NullDeref | NotFinite | ExitCode nat | OutOfFuel

definition sbind :: "'e + 'a \<Rightarrow> ('a \<Rightarrow> 'e + 'b) \<Rightarrow> 'e + 'b" where
  "sbind m f = (case m of Inl e \<Rightarrow> Inl e | Inr x \<Rightarrow> f x)"

lemma sbind_Inr [simp]: "sbind (Inr x) f = f x"
  by (simp add: sbind_def)

lemma sbind_Inl [simp]: "sbind (Inl e) f = Inl e"
  by (simp add: sbind_def)

lemma sbind_Inr_right [simp]: "sbind m Inr = m"
  by (cases m) auto

lemma sbind_cong [fundef_cong]:
  "m = m' \<Longrightarrow> (\<And>x. m' = Inr x \<Longrightarrow> f x = f' x) \<Longrightarrow> sbind m f = sbind m' f'"
  by (cases m') (auto simp: sbind_def)

lemma sbind_eq_Inr: "sbind m f = Inr y \<longleftrightarrow> (\<exists>x. m = Inr x \<and> f x = Inr y)"
  by (cases m) auto

lemma sbind_assoc: "sbind (sbind m f) g = sbind m (\<lambda>x. sbind (f x) g)"
  by (cases m) auto

definition ok :: "'e + 'a \<Rightarrow> ('a \<Rightarrow> bool) \<Rightarrow> bool" where
  "ok m Q \<longleftrightarrow> (case m of Inl e \<Rightarrow> False | Inr x \<Rightarrow> Q x)"

lemma ok_Inr [simp, safe_simps]: "ok (Inr x) Q = Q x"
  by (simp add: ok_def)

lemma ok_Inl [simp, safe_simps]: "ok (Inl e) Q = False"
  by (simp add: ok_def)

lemma ok_sbind [simp, safe_simps]: "ok (sbind m f) Q = ok m (\<lambda>x. ok (f x) Q)"
  by (cases m) auto

lemma ok_if [safe_simps]: "ok (if b then m else n) Q = (if b then ok m Q else ok n Q)"
  by simp

lemma ok_iff: "ok m Q \<longleftrightarrow> (\<exists>x. m = Inr x \<and> Q x)"
  by (cases m) auto

lemma ok_mono: "ok m P \<Longrightarrow> (\<And>x. m = Inr x \<Longrightarrow> P x \<Longrightarrow> Q x) \<Longrightarrow> ok m Q"
  by (cases m) auto

lemma ok_pairE:
  assumes "ok m (\<lambda>(a, b). P a b)"
  obtains a b where "m = Inr (a, b)" "P a b"
  using assms by (auto simp: ok_iff)

lemma ok_conj: "ok m P \<Longrightarrow> ok m Q \<Longrightarrow> ok m (\<lambda>x. P x \<and> Q x)"
  by (cases m) auto

section \<open>Raw arrays\<close>

definition aget :: "'a list \<Rightarrow> nat \<Rightarrow> error + 'a" where
  "aget xs i = (if i < length xs then Inr (xs ! i) else Inl BadIndex)"

definition aset :: "'a list \<Rightarrow> nat \<Rightarrow> 'a \<Rightarrow> error + 'a list" where
  "aset xs i v = (if i < length xs then Inr (xs[i := v]) else Inl BadIndex)"

lemma aget_in [simp]: "i < length xs \<Longrightarrow> aget xs i = Inr (xs ! i)"
  by (simp add: aget_def)

lemma aset_in [simp]: "i < length xs \<Longrightarrow> aset xs i v = Inr (xs[i := v])"
  by (simp add: aset_def)

lemma ok_aget [safe_simps]: "ok (aget xs i) Q \<longleftrightarrow> i < length xs \<and> Q (xs ! i)"
  by (simp add: aget_def)

lemma ok_aset [safe_simps]: "ok (aset xs i v) Q \<longleftrightarrow> i < length xs \<and> Q (xs[i := v])"
  by (simp add: aset_def)

text \<open>An array index that the code holds in an \<open>int\<close>.\<close>

definition agetI :: "'a list \<Rightarrow> int \<Rightarrow> error + 'a" where
  "agetI xs i = (if i < 0 then Inl BadIndex else aget xs (nat i))"

definition asetI :: "'a list \<Rightarrow> int \<Rightarrow> 'a \<Rightarrow> error + 'a list" where
  "asetI xs i v = (if i < 0 then Inl BadIndex else aset xs (nat i) v)"

lemma ok_agetI [safe_simps]: "ok (agetI xs i) Q \<longleftrightarrow> 0 \<le> i \<and> nat i < length xs \<and> Q (xs ! nat i)"
  by (auto simp: agetI_def safe_simps)

lemma ok_asetI [safe_simps]: "ok (asetI xs i v) Q \<longleftrightarrow> 0 \<le> i \<and> nat i < length xs \<and> Q (xs[nat i := v])"
  by (auto simp: asetI_def safe_simps)

text \<open>Dereferencing a list that stands for a chain of cells: the first cell, if there is one.\<close>

definition deref :: "'a list \<Rightarrow> error + 'a" where
  "deref xs = (case xs of [] \<Rightarrow> Inl NullDeref | x # _ \<Rightarrow> Inr x)"

lemma deref_Cons [simp]: "deref (x # xs) = Inr x"
  by (simp add: deref_def)

lemma ok_deref [safe_simps]: "ok (deref xs) Q \<longleftrightarrow> xs \<noteq> [] \<and> Q (hd xs)"
  by (cases xs) (auto simp: deref_def)

section \<open>Counting loops\<close>

fun mfold :: "('s \<Rightarrow> 'a \<Rightarrow> 'e + 's) \<Rightarrow> 's \<Rightarrow> 'a list \<Rightarrow> 'e + 's" where
  "mfold f s [] = Inr s"
| "mfold f s (x # xs) = sbind (f s x) (\<lambda>s'. mfold f s' xs)"

lemma mfold_append: "mfold f s (xs @ ys) = sbind (mfold f s xs) (\<lambda>s'. mfold f s' ys)"
  by (induction xs arbitrary: s) (simp_all add: sbind_assoc)

lemma mfold_cong [fundef_cong]:
  "s = s' \<Longrightarrow> xs = ys \<Longrightarrow> (\<And>x t. x \<in> set ys \<Longrightarrow> f t x = g t x) \<Longrightarrow> mfold f s xs = mfold g s' ys"
proof (induction ys arbitrary: s s' xs)
  case (Cons y ys)
  then show ?case by (cases xs) (auto intro!: sbind_cong)
qed simp

text \<open>The invariant rule: the loop returns, and the invariant holds for all the elements done.\<close>

lemma mfold_ok_prefix:
  assumes "I [] s"
    and "\<And>ys z zs t. xs = ys @ z # zs \<Longrightarrow> I ys t \<Longrightarrow> ok (f t z) (I (ys @ [z]))"
  shows "ok (mfold f s xs) (I xs)"
  using assms
proof (induction xs rule: rev_induct)
  case (snoc x xs)
  have "ok (mfold f s xs) (I xs)"
    using snoc.prems by (intro snoc.IH) auto
  then show ?case
    using snoc.prems(2)[of xs x "[]"] by (auto simp: mfold_append elim!: ok_mono)
qed simp

lemma mfold_ok:
  assumes "I s"
    and "\<And>x t. x \<in> set xs \<Longrightarrow> I t \<Longrightarrow> ok (f t x) I"
  shows "ok (mfold f s xs) I"
  using mfold_ok_prefix[of "\<lambda>_. I" s xs f] assms by auto

lemma mfold_ok_upt:
  assumes "a \<le> b" "I a s"
    and "\<And>i t. a \<le> i \<Longrightarrow> i < b \<Longrightarrow> I i t \<Longrightarrow> ok (f t i) (I (Suc i))"
  shows "ok (mfold f s [a..<b]) (I b)"
  using assms
proof (induction b rule: dec_induct)
  case (step n)
  have "ok (mfold f s [a..<n]) (I n)"
    using step by auto
  then show ?case
    using step.hyps step.prems(2)[of n] by (force simp: mfold_append elim!: ok_mono)
qed simp

lemma mfold_pure:
  assumes "I s"
    and "\<And>x t. x \<in> set xs \<Longrightarrow> I t \<Longrightarrow> f t x = Inr (g t x) \<and> I (g t x)"
  shows "mfold f s xs = Inr (foldl g s xs)"
  using assms by (induction xs arbitrary: s) auto

section \<open>Strings\<close>

definition str_at :: "string \<Rightarrow> int \<Rightarrow> error + char" where
  "str_at s i = (if 0 \<le> i \<and> i < int (length s) then Inr (s ! nat i) else Inl OutOfRange)"

fun find_suf :: "string \<Rightarrow> string \<Rightarrow> nat \<Rightarrow> int" where
  "find_suf pat [] k = (if pat = [] then int k else - 1)"
| "find_suf pat (c # cs) k =
     (if take (length pat) (c # cs) = pat then int k else find_suf pat cs (Suc k))"

text \<open>
  \<open>int(s.find(pat, p))\<close>: the least position from \<open>p\<close> on at which \<open>pat\<close> occurs.
  \<open>npos\<close> is \<open>-1\<close> after the conversion to \<open>int\<close>, and the comparison of such an
  \<open>int\<close> with \<open>string::npos\<close> is the comparison with \<open>-1\<close>. A negative start
  position becomes a huge unsigned one, from which nothing is found.
\<close>

definition str_find :: "string \<Rightarrow> string \<Rightarrow> int \<Rightarrow> int" where
  "str_find s pat p =
     (if p < 0 \<or> int (length s) < p then - 1 else find_suf pat (drop (nat p) s) (nat p))"

text \<open>\<open>s.substr(p, n)\<close>; a negative count is converted to a huge one.\<close>

definition str_substr :: "string \<Rightarrow> int \<Rightarrow> int \<Rightarrow> error + string" where
  "str_substr s p n =
     (if p < 0 \<or> int (length s) < p then Inl OutOfRange
      else if n < 0 then Inr (drop (nat p) s)
      else Inr (take (nat n) (drop (nat p) s)))"

text \<open>\<open>s.erase(p, n)\<close>.\<close>

definition str_erase :: "string \<Rightarrow> int \<Rightarrow> int \<Rightarrow> error + string" where
  "str_erase s p n =
     (if p < 0 \<or> int (length s) < p then Inl OutOfRange
      else if n < 0 then Inr (take (nat p) s)
      else Inr (take (nat p) s @ drop (nat p + nat n) s))"

text \<open>The test that the sources write out as four ranges of character codes.\<close>

definition is_alnum :: "char \<Rightarrow> bool" where
  "is_alnum c \<longleftrightarrow> (let k = of_char c :: nat in
     65 \<le> k \<and> k \<le> 90 \<or> 97 \<le> k \<and> k \<le> 122 \<or> 48 \<le> k \<and> k \<le> 57)"

definition is_ident :: "char \<Rightarrow> bool" where
  "is_ident c \<longleftrightarrow> is_alnum c \<or> c = CHR ''_''"

definition TAB :: char where "TAB = CHR 0x09"
definition NL :: char where "NL = CHR 0x0A"
definition NUL :: char where "NUL = CHR 0x00"

definition is_blank :: "char \<Rightarrow> bool" where
  "is_blank c \<longleftrightarrow> c = CHR '' '' \<or> c = TAB"

lemma str_at_in [simp]: "0 \<le> i \<Longrightarrow> i < int (length s) \<Longrightarrow> str_at s i = Inr (s ! nat i)"
  by (simp add: str_at_def)

lemma ok_str_at [safe_simps]:
  "ok (str_at s i) Q \<longleftrightarrow> 0 \<le> i \<and> i < int (length s) \<and> Q (s ! nat i)"
  by (auto simp: str_at_def)

lemma str_at_eq_Inr:
  "str_at s i = Inr c \<longleftrightarrow> 0 \<le> i \<and> i < int (length s) \<and> c = s ! nat i"
  by (auto simp: str_at_def)

lemma find_suf_cases:
  "find_suf pat cs k = - 1 \<and> (\<forall>j \<le> length cs. take (length pat) (drop j cs) \<noteq> pat) \<or>
   (\<exists>j \<le> length cs. find_suf pat cs k = int (k + j) \<and> take (length pat) (drop j cs) = pat \<and>
      (\<forall>i < j. take (length pat) (drop i cs) \<noteq> pat))"
proof (induction cs arbitrary: k)
  case Nil
  then show ?case by auto
next
  case (Cons c cs)
  show ?case
  proof (cases "take (length pat) (c # cs) = pat")
    case True
    then show ?thesis by (intro disjI2 exI[of _ 0]) auto
  next
    case False
    from Cons[of "Suc k"] show ?thesis
    proof (elim disjE exE conjE)
      assume a: "find_suf pat cs (Suc k) = - 1"
        and b: "\<forall>j \<le> length cs. take (length pat) (drop j cs) \<noteq> pat"
      have "take (length pat) (drop j (c # cs)) \<noteq> pat" if "j \<le> length (c # cs)" for j
        using False b that by (cases j) auto
      with a False show ?thesis by simp
    next
      fix j assume a: "j \<le> length cs" "find_suf pat cs (Suc k) = int (Suc k + j)"
        and b: "take (length pat) (drop j cs) = pat"
        and m: "\<forall>i < j. take (length pat) (drop i cs) \<noteq> pat"
      have "take (length pat) (drop i (c # cs)) \<noteq> pat" if "i < Suc j" for i
        using False m that by (cases i) auto
      with a b False show ?thesis by (intro disjI2 exI[of _ "Suc j"]) auto
    qed
  qed
qed

text \<open>What \<open>find\<close> returns: \<open>-1\<close>, or a position where the pattern occurs.\<close>

lemma str_find_found:
  assumes "str_find s pat p \<noteq> - 1"
  shows "p \<le> str_find s pat p" "0 \<le> p" "str_find s pat p + int (length pat) \<le> int (length s)"
    "take (length pat) (drop (nat (str_find s pat p)) s) = pat"
proof -
  let ?k = "nat p"
  have p: "0 \<le> p" "p \<le> int (length s)" and f: "str_find s pat p = find_suf pat (drop ?k s) ?k"
    using assms by (auto simp: str_find_def split: if_splits)
  from find_suf_cases[of pat "drop ?k s" ?k] assms f obtain j where
    j: "j \<le> length (drop ?k s)" "str_find s pat p = int (?k + j)"
       "take (length pat) (drop j (drop ?k s)) = pat" by auto
  have "length pat \<le> length (drop j (drop ?k s))"
    using j(3) by (metis length_take min.cobounded1)
  with j p show "p \<le> str_find s pat p" "str_find s pat p + int (length pat) \<le> int (length s)"
    "take (length pat) (drop (nat (str_find s pat p)) s) = pat"
    by (auto simp: add.commute drop_drop nat_add_distrib)
  show "0 \<le> p" by (rule p)
qed

lemma str_find_ge: "- 1 \<le> str_find s pat p"
  using str_find_found[of s pat p] by (cases "str_find s pat p = - 1") auto

section \<open>Ordered maps\<close>

text \<open>
  \<open>std::map\<close> as an association list in increasing key order (the order of its iterators).
  \<open>insert\<close> leaves the map alone when the key is present. Strings are ordered as
  \<open>std::string\<close> orders them: lexicographically by unsigned character codes.
\<close>

type_synonym ('k, 'v) smap = "('k \<times> 'v) list"

abbreviation sfind :: "('k, 'v) smap \<Rightarrow> 'k \<Rightarrow> 'v option" where
  "sfind m k \<equiv> map_of m k"

fun sinsert :: "'k::linorder \<Rightarrow> 'v \<Rightarrow> ('k, 'v) smap \<Rightarrow> ('k, 'v) smap" where
  "sinsert k v [] = [(k, v)]"
| "sinsert k v ((k', v') # m) =
     (if k < k' then (k, v) # (k', v') # m
      else if k = k' then (k', v') # m
      else (k', v') # sinsert k v m)"

text \<open>Assignment through an iterator (\<open>it->second = v\<close>), for a key that is present.\<close>

fun supdate :: "'k \<Rightarrow> 'v \<Rightarrow> ('k, 'v) smap \<Rightarrow> ('k, 'v) smap" where
  "supdate k v [] = []"
| "supdate k v ((k', v') # m) = (if k = k' then (k, v) # m else (k', v') # supdate k v m)"

definition smap_ok :: "('k::linorder, 'v) smap \<Rightarrow> bool" where
  "smap_ok m \<longleftrightarrow> sorted_wrt (<) (map fst m)"

definition skeys :: "('k, 'v) smap \<Rightarrow> 'k set" where
  "skeys m = fst ` set m"

lemma skeys_Nil [simp]: "skeys [] = {}"
  by (simp add: skeys_def)

lemma finite_skeys [simp]: "finite (skeys m)"
  by (simp add: skeys_def)

lemma smap_ok_Nil [simp]: "smap_ok []"
  by (simp add: smap_ok_def)

lemma smap_ok_Cons: "smap_ok ((k, v) # m) \<longleftrightarrow> (\<forall>k' \<in> fst ` set m. k < k') \<and> smap_ok m"
  by (auto simp: smap_ok_def)

lemma fst_sinsert [simp, map_simps]:
  "fst ` set (sinsert k v m) = insert k (fst ` set m)"
proof (induction m)
  case (Cons a m)
  then show ?case by (cases a) auto
qed simp

lemma smap_ok_sinsert [simp]: "smap_ok m \<Longrightarrow> smap_ok (sinsert k v m)"
proof (induction m)
  case (Cons a m)
  then show ?case by (cases a) (force simp: smap_ok_Cons)
qed (simp add: smap_ok_Cons)

lemma skeys_sinsert [simp, map_simps]: "skeys (sinsert k v m) = insert k (skeys m)"
  by (simp add: skeys_def)

lemma smap_ok_distinct: "smap_ok m \<Longrightarrow> distinct (map fst m)"
  unfolding smap_ok_def by (metis strict_sorted_iff)

lemma sfind_None_iff: "sfind m k = None \<longleftrightarrow> k \<notin> skeys m"
  by (simp add: map_of_eq_None_iff skeys_def)

lemma sfind_dom: "sfind m k = Some v \<Longrightarrow> k \<in> skeys m"
  by (metis option.distinct(1) sfind_None_iff)

text \<open>\<open>find\<close> after \<open>insert\<close>, for maps in key order.\<close>

lemma sfind_sinsert [map_simps]:
  "smap_ok m \<Longrightarrow> sfind (sinsert k v m) =
     (if sfind m k = None then (sfind m)(k \<mapsto> v) else sfind m)"
proof (induction m)
  case (Cons a m)
  obtain k' v' where a: "a = (k', v')" by force
  have ok: "smap_ok m" "\<forall>x \<in> fst ` set m. k' < x"
    using Cons.prems a by (auto simp: smap_ok_Cons)
  have none: "k < k' \<Longrightarrow> sfind m k = None"
    using ok(2) by (force simp: map_of_eq_None_iff)
  show ?case
    using Cons.IH[OF ok(1)] none a by (auto simp: fun_eq_iff)
qed (auto simp: fun_eq_iff)

lemma sfind_supdate [map_simps]:
  "sfind (supdate k v m) = (if sfind m k = None then sfind m else (sfind m)(k \<mapsto> v))"
  by (induction m) (auto simp: fun_eq_iff)

lemma fst_supdate [simp, map_simps]: "map fst (supdate k v m) = map fst m"
  by (induction m) auto

lemma smap_ok_supdate [simp]: "smap_ok (supdate k v m) = smap_ok m"
  by (simp add: smap_ok_def)

lemma length_sinsert:
  "smap_ok m \<Longrightarrow> length (sinsert k v m) = (if sfind m k = None then Suc (length m) else length m)"
proof (induction m)
  case (Cons a m)
  obtain k' v' where a: "a = (k', v')" by force
  have ok: "smap_ok m" "\<forall>x \<in> fst ` set m. k' < x"
    using Cons.prems a by (auto simp: smap_ok_Cons)
  have "k < k' \<Longrightarrow> sfind m k = None"
    using ok(2) by (force simp: map_of_eq_None_iff)
  with Cons.IH[OF ok(1)] a show ?case by auto
qed simp

lemma set_sinsert:
  "smap_ok m \<Longrightarrow> sfind m k = None \<Longrightarrow> set (sinsert k v m) = insert (k, v) (set m)"
proof (induction m)
  case (Cons a m)
  then show ?case by (cases a) (auto simp: smap_ok_Cons split: if_splits)
qed simp

section \<open>List facts shared by the components\<close>

lemma count_list_upd:
  "i < length xs \<Longrightarrow> count_list (xs[i := v]) a + (if xs ! i = a then 1 else 0)
     = count_list xs a + (if v = a then 1 else 0)"
proof (induction xs arbitrary: i)
  case (Cons x xs)
  show ?case
  proof (cases i)
    case (Suc j)
    with Cons.IH[of j] Cons.prems show ?thesis by auto
  qed auto
qed simp

lemma mset_swap_list:
  "i < length xs \<Longrightarrow> j < length xs \<Longrightarrow> mset (xs[i := xs ! j, j := xs ! i]) = mset xs"
  by (rule mset_swap)

lemma distinct_length_le_bound:
  "distinct xs \<Longrightarrow> set xs \<subseteq> {..<n} \<Longrightarrow> length xs \<le> (n::nat)"
  by (metis card_lessThan card_mono distinct_card finite_lessThan)

end
