(* ===== verification/Doubles.thy ===== *)
theory Doubles
  imports Prelude Complex_Main
begin

text \<open>
  The C++ types \<open>double\<close> and \<open>float\<close>. A finite floating-point number is its rational
  value; every arithmetic operation is the exact operation followed by rounding to the nearest
  representable number, ties to even, with 53 bits of precision (\<open>double\<close>) or 24
  (\<open>float\<close>). The values of this program are quotients and sums of machine integers, far
  from the ends of the exponent range, so overflow, subnormal numbers and NaN are not modelled;
  a division by zero is an explicit case wherever the code can reach one.
\<close>

type_synonym double = rat
type_synonym float = rat

function ilog2 :: "int \<Rightarrow> nat" where
  "ilog2 n = (if n \<le> 1 then 0 else Suc (ilog2 (n div 2)))"
  by pat_completeness auto
termination
  by (relation "measure nat") auto

declare ilog2.simps [simp del]

definition scale2 :: "int \<Rightarrow> rat \<Rightarrow> rat" where
  "scale2 s x = (if 0 \<le> s then x * 2 ^ nat s else x / 2 ^ nat (- s))"

text \<open>Round to the nearest integer, ties to even.\<close>

definition rne :: "rat \<Rightarrow> int" where
  "rne x = (let f = \<lfloor>x\<rfloor>; r = x - of_int f in
     if r < 1/2 then f else if 1/2 < r then f + 1 else if even f then f else f + 1)"

text \<open>The binary exponent: the \<open>e\<close> with \<open>2\<^sup>e \<le> \<bar>x\<bar> < 2\<^sup>e\<^sup>+\<^sup>1\<close>.\<close>

definition fexp :: "rat \<Rightarrow> int" where
  "fexp x = (let (n, d) = quotient_of \<bar>x\<bar>; e = int (ilog2 n) - int (ilog2 d)
             in if scale2 (- e) \<bar>x\<bar> < 1 then e - 1 else e)"

definition rnd :: "nat \<Rightarrow> rat \<Rightarrow> rat" where
  "rnd p x = (if x = 0 then 0 else
     let s = int p - 1 - fexp x in scale2 (- s) (of_int (rne (scale2 s x))))"

abbreviation rnd_double :: "rat \<Rightarrow> double" where "rnd_double \<equiv> rnd 53"
abbreviation rnd_float :: "rat \<Rightarrow> float" where "rnd_float \<equiv> rnd 24"

definition dadd :: "double \<Rightarrow> double \<Rightarrow> double" where "dadd x y = rnd_double (x + y)"
definition dsub :: "double \<Rightarrow> double \<Rightarrow> double" where "dsub x y = rnd_double (x - y)"
definition dmul :: "double \<Rightarrow> double \<Rightarrow> double" where "dmul x y = rnd_double (x * y)"
definition ddiv :: "double \<Rightarrow> double \<Rightarrow> double" where "ddiv x y = rnd_double (x / y)"
definition double_of_int :: "int \<Rightarrow> double" where "double_of_int i = rnd_double (of_int i)"
definition float_of_int :: "int \<Rightarrow> float" where "float_of_int i = rnd_float (of_int i)"
definition fdiv :: "float \<Rightarrow> float \<Rightarrow> float" where "fdiv x y = rnd_float (x / y)"

section \<open>Scaling by powers of two\<close>

lemma scale2_powi: "scale2 s x = x * 2 powi s"
  by (auto simp: scale2_def power_int_def field_simps)

lemma scale2_mono: "x \<le> y \<Longrightarrow> scale2 s x \<le> scale2 s y"
  by (simp add: scale2_powi mult_right_mono)

lemma scale2_inverse [simp]: "scale2 (- s) (scale2 s x) = x"
  by (simp add: scale2_powi power_int_minus field_simps)

lemma scale2_0 [simp]: "scale2 s 0 = 0"
  by (simp add: scale2_def)

lemma scale2_nonneg: "0 \<le> x \<Longrightarrow> 0 \<le> scale2 s x"
  by (simp add: scale2_powi)

section \<open>Rounding to an integer\<close>

lemma rne_of_int [simp]: "rne (of_int i) = i"
  by (simp add: rne_def)

lemma rne_floor: "rne x = \<lfloor>x\<rfloor> \<or> rne x = \<lfloor>x\<rfloor> + 1"
  by (simp add: rne_def Let_def)

lemma rne_mono: "x \<le> y \<Longrightarrow> rne x \<le> rne y"
proof -
  assume xy: "x \<le> y"
  then have f: "\<lfloor>x\<rfloor> \<le> \<lfloor>y\<rfloor>" by (rule floor_mono)
  show ?thesis
  proof (cases "\<lfloor>x\<rfloor> = \<lfloor>y\<rfloor>")
    case True
    with xy show ?thesis by (auto simp: rne_def Let_def)
  next
    case False
    with f have "\<lfloor>x\<rfloor> + 1 \<le> \<lfloor>y\<rfloor>" by linarith
    with rne_floor[of x] rne_floor[of y] show ?thesis by linarith
  qed
qed

section \<open>The exponent\<close>

lemma ilog2_bounds: "0 < n \<Longrightarrow> 2 ^ ilog2 n \<le> n \<and> n < 2 ^ Suc (ilog2 n)"
proof (induction n rule: ilog2.induct)
  case (1 n)
  show ?case
  proof (cases "n \<le> 1")
    case True
    with "1.prems" show ?thesis by (simp add: ilog2.simps[of n])
  next
    case False
    with "1.IH" have "2 ^ ilog2 (n div 2) \<le> n div 2 \<and> n div 2 < 2 ^ Suc (ilog2 (n div 2))"
      by simp
    with False show ?thesis by (auto simp: ilog2.simps[of n])
  qed
qed

lemma ilog2_rat:
  assumes "0 < n" shows "(2::rat) ^ ilog2 n \<le> of_int n" "of_int n < (2::rat) ^ Suc (ilog2 n)"
  using ilog2_bounds[OF assms]
  by (metis of_int_le_iff of_int_numeral of_int_power, metis of_int_less_iff of_int_numeral of_int_power)

lemma fexp_bounds:
  assumes "x \<noteq> 0"
  shows "2 powi fexp x \<le> \<bar>x\<bar>" "\<bar>x\<bar> < 2 powi (fexp x + 1)"
proof -
  obtain n d where q: "quotient_of \<bar>x\<bar> = (n, d)" by force
  have d: "0 < d" and xnd: "\<bar>x\<bar> = of_int n / of_int d"
    using quotient_of_denom_pos[OF q] quotient_of_div[OF q] by auto
  have n: "0 < n"
    using assms d xnd by (metis abs_eq_0 divide_eq_0_iff linorder_neqE of_int_0_less_iff
        of_int_eq_0_iff of_int_less_0_iff zero_less_abs_iff zero_less_divide_iff less_asym)
  define a b where "a = ilog2 n" and "b = ilog2 d"
  have nb: "(2::rat) ^ a \<le> of_int n" "of_int n < (2::rat) ^ Suc a"
    and db: "(2::rat) ^ b \<le> of_int d" "of_int d < (2::rat) ^ Suc b"
    using ilog2_rat[OF n] ilog2_rat[OF d] by (simp_all add: a_def b_def)
  define e where "e = int a - int b"
  have pw: "2 powi e = (2::rat) ^ a / 2 ^ b"
    by (simp add: e_def power_int_diff)
  have "\<bar>x\<bar> < 2 ^ Suc a / 2 ^ b"
    unfolding xnd using nb db n d by (intro frac_less) auto
  then have hi: "\<bar>x\<bar> < 2 powi (e + 1)"
    by (simp add: power_int_add pw mult.commute)
  have "2 ^ a / 2 ^ Suc b < \<bar>x\<bar>"
    unfolding xnd using nb db n d by (intro frac_less2) auto
  then have lo: "2 powi (e - 1) \<le> \<bar>x\<bar>"
    by (simp add: power_int_diff pw)
  have fe: "fexp x = (if \<bar>x\<bar> < 2 powi e then e - 1 else e)"
    by (simp add: fexp_def q a_def[symmetric] b_def[symmetric] e_def[symmetric] scale2_powi
        power_int_minus field_simps)
  show "2 powi fexp x \<le> \<bar>x\<bar>" "\<bar>x\<bar> < 2 powi (fexp x + 1)"
    using hi lo by (auto simp: fe)
qed

lemma powi_le_imp: "(2::rat) powi a < 2 powi b \<Longrightarrow> a < b"
  by (metis linorder_not_less one_le_numeral power_int_increasing)

lemma fexp_mono:
  assumes "0 < x" "x \<le> y" shows "fexp x \<le> fexp y"
proof -
  have "2 powi fexp x < (2::rat) powi (fexp y + 1)"
    using fexp_bounds[of x] fexp_bounds[of y] assms by simp
  then show ?thesis using powi_le_imp by fastforce
qed

section \<open>Rounding\<close>

lemma rnd_0 [simp]: "rnd p 0 = 0"
  by (simp add: rnd_def)

lemma rnd_powi:
  "x \<noteq> 0 \<Longrightarrow> rnd p x = of_int (rne (x * 2 powi (int p - 1 - fexp x))) * 2 powi (fexp x - (int p - 1))"
  by (simp add: rnd_def Let_def scale2_powi)

lemma rnd_between:
  assumes "0 < x" "0 < p"
  shows "2 powi fexp x \<le> rnd p x" "rnd p x \<le> 2 powi (fexp x + 1)"
proof -
  let ?e = "fexp x" and ?s = "int p - 1 - fexp x"
  have x: "2 powi ?e \<le> x" "x < 2 powi (?e + 1)"
    using fexp_bounds[of x] assms by auto
  have "2 powi ?e * 2 powi ?s \<le> x * 2 powi ?s" "x * 2 powi ?s \<le> 2 powi (?e + 1) * 2 powi ?s"
    using x by (auto intro!: mult_right_mono)
  moreover have "2 powi ?e * 2 powi ?s = (of_int (2 ^ (p - 1)) :: rat)"
    "2 powi (?e + 1) * 2 powi ?s = (of_int (2 ^ p) :: rat)"
    using assms(2) by (simp_all add: power_int_add[symmetric] flip: power_int_of_nat)
  ultimately have "of_int (2 ^ (p - 1)) \<le> x * 2 powi ?s" "x * 2 powi ?s \<le> of_int (2 ^ p)"
    by simp_all
  then have r: "2 ^ (p - 1) \<le> rne (x * 2 powi ?s)" "rne (x * 2 powi ?s) \<le> 2 ^ p"
    using rne_mono rne_of_int by metis+
  have c: "2 powi ?e = of_int (2 ^ (p - 1)) * (2::rat) powi (?e - (int p - 1))"
    "2 powi (?e + 1) = of_int (2 ^ p) * (2::rat) powi (?e - (int p - 1))"
    using assms(2) by (simp_all add: power_int_add[symmetric] flip: power_int_of_nat)
  show "2 powi ?e \<le> rnd p x" "rnd p x \<le> 2 powi (?e + 1)"
    using r assms unfolding c by (auto simp: rnd_powi intro!: mult_right_mono simp del: of_int_power)
qed

text \<open>Rounding is monotone on the non-negative numbers.\<close>

lemma rnd_mono:
  assumes "0 \<le> x" "x \<le> y" "0 < p"
  shows "rnd p x \<le> rnd p y"
proof (cases "x = 0")
  case True
  show ?thesis
  proof (cases "y = 0")
    case False
    then have "2 powi fexp y \<le> rnd p y" using assms by (intro rnd_between) auto
    moreover have "(0::rat) \<le> 2 powi fexp y" by simp
    ultimately show ?thesis using True by (simp del: zero_le_power_int)
  qed (simp add: True)
next
  case False
  with assms have pos: "0 < x" "0 < y" by auto
  have "fexp x \<le> fexp y" using pos assms(2) by (intro fexp_mono)
  then consider "fexp x = fexp y" | "fexp x + 1 \<le> fexp y" by linarith
  then show ?thesis
  proof cases
    case 1
    have "rne (x * 2 powi (int p - 1 - fexp y)) \<le> rne (y * 2 powi (int p - 1 - fexp y))"
      using assms(2) by (intro rne_mono mult_right_mono) auto
    then show ?thesis using pos by (simp add: rnd_powi 1 mult_right_mono)
  next
    case 2
    have "rnd p x \<le> 2 powi (fexp x + 1)" using pos assms(3) by (intro rnd_between)
    also have "\<dots> \<le> 2 powi fexp y" using 2 by (intro power_int_increasing) auto
    also have "\<dots> \<le> rnd p y" using pos assms(3) by (intro rnd_between)
    finally show ?thesis .
  qed
qed

lemma rnd_nonneg: "0 \<le> x \<Longrightarrow> 0 < p \<Longrightarrow> 0 \<le> rnd p x"
  using rnd_mono[of 0 x p] by simp

text \<open>Integers of at most \<open>p\<close> bits are representable, so conversions of them are exact.\<close>

lemma rnd_of_int:
  assumes "\<bar>i\<bar> < 2 ^ p"
  shows "rnd p (of_int i) = of_int i"
proof (cases "i = 0")
  case False
  let ?x = "of_int i :: rat" and ?e = "fexp (of_int i)"
  have "2 powi ?e \<le> \<bar>?x\<bar>" using fexp_bounds[of ?x] False by simp
  also have "\<bar>?x\<bar> < of_int (2 ^ p)" using assms by (simp only: of_int_abs[symmetric] of_int_less_iff)
  also have "(of_int (2 ^ p) :: rat) = 2 powi int p" by simp
  finally have "?e < int p" by (rule powi_le_imp)
  then have "2 powi (int p - 1 - ?e) = (of_int (2 ^ nat (int p - 1 - ?e)) :: rat)"
    by (simp add: power_int_def)
  then have "rne (?x * 2 powi (int p - 1 - ?e)) = i * 2 ^ nat (int p - 1 - ?e)"
    by (metis of_int_mult rne_of_int)
  then have "rnd p ?x = ?x * 2 powi (int p - 1 - ?e) * 2 powi (?e - (int p - 1))"
    using False \<open>?e < int p\<close> by (simp add: rnd_powi power_int_def)
  also have "\<dots> = ?x" by (simp add: mult.assoc power_int_add[symmetric])
  finally show ?thesis .
qed simp

lemma rnd_1 [simp]: "0 < p \<Longrightarrow> rnd p 1 = 1"
  using rnd_of_int[of 1 p] by simp

lemma rnd_le_1: "0 \<le> x \<Longrightarrow> x \<le> 1 \<Longrightarrow> 0 < p \<Longrightarrow> rnd p x \<le> 1"
  using rnd_mono[of x 1 p] by simp

lemma double_of_int_exact: "\<bar>i\<bar> < 2 ^ 53 \<Longrightarrow> double_of_int i = of_int i"
  unfolding double_of_int_def by (rule rnd_of_int)

lemma float_of_int_nonneg: "0 \<le> i \<Longrightarrow> 0 \<le> float_of_int i"
  by (simp add: float_of_int_def rnd_nonneg)

lemma float_of_int_mono: "0 \<le> i \<Longrightarrow> i \<le> j \<Longrightarrow> float_of_int i \<le> float_of_int j"
  by (simp add: float_of_int_def rnd_mono)

text \<open>A quotient of two rounded integers in order stays in the unit interval.\<close>

lemma fdiv_unit:
  assumes "0 \<le> i" "i \<le> j" "0 < j"
  shows "0 \<le> fdiv (float_of_int i) (float_of_int j)" "fdiv (float_of_int i) (float_of_int j) \<le> 1"
proof -
  have "1 \<le> float_of_int j" using float_of_int_mono[of 1 j] assms by (simp add: float_of_int_def)
  then have "0 \<le> float_of_int i / float_of_int j" "float_of_int i / float_of_int j \<le> 1"
    using float_of_int_nonneg[of i] float_of_int_mono[of i j] assms by (auto simp: divide_le_eq)
  then show "0 \<le> fdiv (float_of_int i) (float_of_int j)" "fdiv (float_of_int i) (float_of_int j) \<le> 1"
    by (simp_all add: fdiv_def rnd_nonneg rnd_le_1)
qed

end
