(* ===== verification/Hypergraph.thy ===== *)
theory Hypergraph
  imports Doubles
begin

text \<open>
  The two representations of a hypergraph: the flat arrays of \<open>CHypergraph\<close>
  (\<open>src/CArchitecture/CHypergraph.h\<close>) and the adjacency lists of \<open>CMygraph\<close>
  (\<open>src/CArchitecture/Multilevel.h\<close>), with the constructor that builds the second from the
  first. A chain of \<open>ArcNodeV\<close> or \<open>ArcNodeH\<close> cells is the list of its entries from
  \<open>firstarc\<close> on. Memory that \<open>malloc\<close> or \<open>new\<close> returns holds unknown values: they are
  parameters of the definitions.
\<close>

section \<open>The data\<close>

text \<open>
  Pointers between hypergraphs (\<open>fatherGraph\<close>, \<open>leftSon\<close>, \<open>rightSon\<close>) are indices into
  the list of the hypergraphs allocated so far. A null array is the empty list.
\<close>

record CHypergraph =
  hyperstring :: string
  verticestring :: string
  answerstring :: string
  nvtxs :: nat
  trueNvtxs :: nat
  nhedges :: nat
  vwgts :: "int list"
  eptr :: "nat list"
  eind :: "nat list"
  hewgts :: "int list"
  npart :: int
  ubfactor :: int
  part :: "int list"
  inOptions :: "int list"
  fatherGraph :: "nat option"
  leftSon :: "nat option"
  rightSon :: "nat option"
  coupling :: float
  cohesion :: float
  gfloor :: nat
  Modu :: double
  is_parted :: bool
  mapForG1 :: "(nat, nat) smap"
  mapForG2 :: "(nat, nat) smap"
  mapForFather :: "(nat, nat) smap"

text \<open>The constructor sets five fields; strings and maps start empty, the rest is unset memory.\<close>

definition CHypergraph_init :: "CHypergraph \<Rightarrow> CHypergraph" where
  "CHypergraph_init mem = mem\<lparr>hyperstring := [], verticestring := [], answerstring := [],
     mapForG1 := [], mapForG2 := [], mapForFather := [],
     coupling := 0, cohesion := 0, leftSon := None, rightSon := None, fatherGraph := None\<rparr>"

text \<open>\<open>new int[n]\<close>: an array with unknown contents.\<close>

definition fresh :: "(nat \<Rightarrow> 'a) \<Rightarrow> nat \<Rightarrow> 'a list" where
  "fresh mem n = map mem [0..<n]"

lemma length_fresh [simp]: "length (fresh mem n) = n"
  by (simp add: fresh_def)

lemma nth_fresh [simp]: "i < n \<Longrightarrow> fresh mem n ! i = mem i"
  by (simp add: fresh_def)

record Vnode =
  v_node :: nat
  Vweight :: int
  v_nodeNum :: int
  v_firstarc :: "nat list"

record HEnode =
  Enode :: nat
  e_nodeNum :: int
  e_firstarc :: "nat list"
  Hweight :: int

text \<open>
  \<open>pMyHashForVert\<close> is an array of chains of vertex numbers; the \<open>truePos\<close> of the array's
  own cells is written once and never read, so only the chains are kept.
\<close>

datatype CMygraph = CMygraph
  (pAllVertices: "Vnode list")
  (pAllEdges: "HEnode list")
  (fathergraph: "CMygraph option")
  (keyTokey: "(nat, nat) smap")
  (pMyHashForVert: "nat list list")
  (nvetes: nat)
  (g_nhedges: nat)
  (maxHweight: int)

definition CMygraph_init :: CMygraph where
  "CMygraph_init = CMygraph [] [] None [] [] 0 0 1"

text \<open>The values of unset \<open>Vnode\<close> and \<open>HEnode\<close> cells.\<close>

record mem_cells =
  mem_v :: "nat \<Rightarrow> Vnode"
  mem_e :: "nat \<Rightarrow> HEnode"

section \<open>Building the adjacency lists\<close>

definition init_vertex :: "mem_cells \<Rightarrow> CHypergraph \<Rightarrow> Vnode list \<Rightarrow> nat \<Rightarrow> error + Vnode list" where
  "init_vertex mem p V m =
     sbind (aget V m) (\<lambda>v. let v = v\<lparr>v_firstarc := [], v_nodeNum := 0\<rparr> in
       if vwgts p \<noteq> [] then sbind (aget (vwgts p) m) (\<lambda>w. aset V m (v\<lparr>Vweight := w\<rparr>))
       else aset V m v)"

definition init_edge :: "mem_cells \<Rightarrow> CHypergraph \<Rightarrow> HEnode list \<times> int \<Rightarrow> nat \<Rightarrow> error + HEnode list \<times> int" where
  "init_edge mem p = (\<lambda>(E, mx) m.
     sbind (aget E m) (\<lambda>e. let e = e\<lparr>e_firstarc := [], e_nodeNum := 0\<rparr> in
       if hewgts p \<noteq> [] then sbind (aget (hewgts p) m) (\<lambda>w.
         sbind (aset E m (e\<lparr>Hweight := w\<rparr>)) (\<lambda>E. Inr (E, if mx > w then mx else w)))
       else sbind (aset E m e) (\<lambda>E. Inr (E, mx))))"

text \<open>One pin: vertex \<open>v\<close> goes to the front of edge \<open>e\<close>'s chain and edge \<open>e\<close> to the
  front of \<open>v\<close>'s chain; both weighted counters grow.\<close>

definition add_pin :: "nat \<Rightarrow> Vnode list \<times> HEnode list \<Rightarrow> nat \<Rightarrow> error + Vnode list \<times> HEnode list" where
  "add_pin e = (\<lambda>(V, E) v.
     sbind (aget E e) (\<lambda>en. sbind (aget V v) (\<lambda>vn.
     sbind (aset E e (en\<lparr>e_firstarc := v # e_firstarc en, e_nodeNum := e_nodeNum en + Vweight vn\<rparr>)) (\<lambda>E'.
     sbind (aset V v (vn\<lparr>v_firstarc := e # v_firstarc vn, v_nodeNum := v_nodeNum vn + Hweight en\<rparr>)) (\<lambda>V'.
       Inr (V', E'))))))"

definition add_edge :: "CHypergraph \<Rightarrow> Vnode list \<times> HEnode list \<Rightarrow> nat \<Rightarrow> error + Vnode list \<times> HEnode list" where
  "add_edge p = (\<lambda>(V, E) edgecount.
     sbind (aget E edgecount) (\<lambda>en. sbind (aset E edgecount (en\<lparr>Enode := edgecount\<rparr>)) (\<lambda>E.
     sbind (aget (eptr p) edgecount) (\<lambda>a. sbind (aget (eptr p) (edgecount + 1)) (\<lambda>b.
       mfold (\<lambda>s j. sbind (aget (eind p) j) (add_pin edgecount s)) (V, E) [a..<b])))))"

definition CMygraph_of :: "mem_cells \<Rightarrow> CHypergraph \<Rightarrow> error + CMygraph" where
  "CMygraph_of mem p =
     sbind (mfold (init_vertex mem p) (fresh (mem_v mem) (nvtxs p)) [0..<nvtxs p]) (\<lambda>V.
     sbind (mfold (init_edge mem p) (fresh (mem_e mem) (nhedges p), 1) [0..<nhedges p]) (\<lambda>(E, mx).
     sbind (mfold (add_edge p) (V, E) [0..<nhedges p]) (\<lambda>(V, E).
       Inr (CMygraph V E None [] [] (nvtxs p) (nhedges p) mx))))"

section \<open>Well-formed hypergraphs\<close>

text \<open>The vertices of edge \<open>e\<close>, in the order of the flat arrays.\<close>

definition edge_pins :: "CHypergraph \<Rightarrow> nat \<Rightarrow> nat list" where
  "edge_pins p e = map ((!) (eind p)) [eptr p ! e..<eptr p ! (e + 1)]"

text \<open>
  What the two creators of hypergraphs establish. The arrays of a sub-hypergraph are allocated
  at the size of its father's, so they may be longer than their used part.
\<close>

definition wf_hyper :: "CHypergraph \<Rightarrow> bool" where
  "wf_hyper p \<longleftrightarrow>
     nvtxs p \<le> length (vwgts p) \<and> nvtxs p \<le> length (part p) \<and>
     nhedges p \<le> length (hewgts p) \<and> nhedges p < length (eptr p) \<and>
     eptr p ! nhedges p \<le> length (eind p) \<and>
     (\<forall>e < nhedges p. eptr p ! e < eptr p ! (e + 1)) \<and>
     (\<forall>e < nhedges p. \<forall>v \<in> set (edge_pins p e). v < nvtxs p) \<and>
     (\<forall>e < nhedges p. distinct (edge_pins p e)) \<and>
     (\<forall>v < nvtxs p. \<exists>e < nhedges p. v \<in> set (edge_pins p e)) \<and>
     (\<forall>v < nvtxs p. vwgts p ! v = 1) \<and>
     (\<forall>e < nhedges p. 0 \<le> hewgts p ! e)"

lemma wf_eptr_mono:
  assumes "wf_hyper p" "a \<le> b" "b \<le> nhedges p"
  shows "eptr p ! a \<le> eptr p ! b"
  using assms(2,3)
proof (induction b rule: dec_induct)
  case (step n)
  have "eptr p ! n < eptr p ! (n + 1)" using assms(1) step by (auto simp: wf_hyper_def)
  with step show ?case by simp
qed simp

lemma wf_pins_nonempty: "wf_hyper p \<Longrightarrow> e < nhedges p \<Longrightarrow> edge_pins p e \<noteq> []"
  by (auto simp: wf_hyper_def edge_pins_def)

lemma wf_eind_bound:
  assumes "wf_hyper p" "e < nhedges p"
  shows "eptr p ! (e + 1) \<le> length (eind p)"
  using wf_eptr_mono[of p "e + 1" "nhedges p"] assms by (auto simp: wf_hyper_def)

section \<open>The constructor builds the incidence structure of the flat arrays\<close>

text \<open>All pins \<open>(edge, vertex)\<close> of the first \<open>n\<close> edges, in the order of the loop.\<close>

definition pins :: "CHypergraph \<Rightarrow> nat \<Rightarrow> (nat \<times> nat) list" where
  "pins p n = concat (map (\<lambda>e. map (Pair e) (edge_pins p e)) [0..<n])"

lemma pins_Suc: "pins p (Suc n) = pins p n @ map (Pair n) (edge_pins p n)"
  by (simp add: pins_def)

lemma filter_pins_edge:
  "filter (\<lambda>x. fst x = e) (pins p n) = (if e < n then map (Pair e) (edge_pins p e) else [])"
proof (induction n)
  case (Suc n)
  have "filter (\<lambda>x. fst x = e) (map (Pair n) xs) = (if e = n then map (Pair n) xs else [])" for xs :: "nat list"
    by (auto simp: filter_map comp_def)
  with Suc show ?case by (auto simp: pins_Suc less_Suc_eq)
qed (simp add: pins_def)

lemma set_pins: "(e, v) \<in> set (pins p n) \<longleftrightarrow> e < n \<and> v \<in> set (edge_pins p e)"
  by (auto simp: pins_def)

text \<open>The adjacency lists after a list of pins has been added.\<close>

definition built :: "CHypergraph \<Rightarrow> (nat \<times> nat) list \<Rightarrow> Vnode list \<times> HEnode list \<Rightarrow> bool" where
  "built p ps = (\<lambda>(V, E). length V = nvtxs p \<and> length E = nhedges p \<and>
     (\<forall>v < nvtxs p. let qs = filter (\<lambda>x. snd x = v) ps in
        Vweight (V ! v) = vwgts p ! v \<and> v_firstarc (V ! v) = rev (map fst qs) \<and>
        v_nodeNum (V ! v) = sum_list (map (\<lambda>x. hewgts p ! fst x) qs)) \<and>
     (\<forall>e < nhedges p. let qs = filter (\<lambda>x. fst x = e) ps in
        Hweight (E ! e) = hewgts p ! e \<and> e_firstarc (E ! e) = rev (map snd qs) \<and>
        e_nodeNum (E ! e) = sum_list (map (\<lambda>x. vwgts p ! snd x) qs)))"

lemma add_pin_built:
  assumes "built p ps s" "e < nhedges p" "v < nvtxs p"
  shows "ok (add_pin e s v) (\<lambda>s'. built p (ps @ [(e, v)]) s' \<and>
           map Enode (snd s') = map Enode (snd s))"
proof -
  obtain V E where s: "s = (V, E)" by force
  have len: "length V = nvtxs p" "length E = nhedges p" using assms(1) s by (auto simp: built_def)
  have en: "map Enode (E[e := (E ! e)\<lparr>e_firstarc := v # e_firstarc (E ! e), e_nodeNum := n\<rparr>]) = map Enode E" for n
    using len assms(2) by (auto simp: map_update intro!: nth_equalityI simp: nth_list_update)
  show ?thesis
    using assms len en unfolding s add_pin_def built_def
    by (auto simp: safe_simps nth_list_update Let_def)
qed

lemma add_edge_built:
  assumes wf: "wf_hyper p" and e: "e < nhedges p" and b: "built p (pins p e) s"
    and en: "\<forall>k < e. Enode (snd s ! k) = k"
  shows "ok (add_edge p s e) (\<lambda>s'. built p (pins p (Suc e)) s' \<and> (\<forall>k < Suc e. Enode (snd s' ! k) = k))"
proof -
  obtain V E where s: "s = (V, E)" by force
  have len: "length V = nvtxs p" "length E = nhedges p" using b s by (auto simp: built_def)
  let ?E = "E[e := (E ! e)\<lparr>Enode := e\<rparr>]"
  let ?I = "\<lambda>js s'. built p (pins p e @ map (Pair e) (map ((!) (eind p)) js)) s' \<and>
              map Enode (snd s') = map Enode ?E"
  have ep: "e < length (eptr p)" "e + 1 < length (eptr p)" using wf e by (auto simp: wf_hyper_def)
  have bnd: "eptr p ! (e + 1) \<le> length (eind p)" using wf e by (rule wf_eind_bound)
  have "ok (mfold (\<lambda>s j. sbind (aget (eind p) j) (add_pin e s)) (V, ?E) [eptr p ! e..<eptr p ! (e + 1)])
          (?I [eptr p ! e..<eptr p ! (e + 1)])"
  proof (rule mfold_ok_prefix[where I = ?I], goal_cases)
    case 1
    show ?case using b s len e by (auto simp: built_def Let_def nth_list_update)
  next
    case (2 ys j zs t)
    have j: "j \<in> set [eptr p ! e..<eptr p ! (e + 1)]" by (simp only: 2(1)) simp
    then have "j < length (eind p)" "eind p ! j \<in> set (edge_pins p e)"
      using bnd by (auto simp: edge_pins_def)
    moreover from this have "eind p ! j < nvtxs p" using wf e by (auto simp: wf_hyper_def)
    ultimately show ?case
      using 2(2) add_pin_built[of p "pins p e @ map (Pair e) (map ((!) (eind p)) ys)" t e "eind p ! j"] e
      by (auto simp: safe_simps comp_def elim!: ok_mono)
  qed
  moreover have "Enode (snd s' ! k) = k"
    if "map Enode (snd s') = map Enode ?E" "k < Suc e" for s' :: "Vnode list \<times> HEnode list" and k
  proof -
    have "length (snd s') = length E" using map_eq_imp_length_eq[OF that(1)] by simp
    then have "Enode (snd s' ! k) = Enode (?E ! k)"
      using that len e by (metis length_list_update less_trans_Suc nth_map less_SucE less_trans)
    then show ?thesis using that en s len e by (auto simp: nth_list_update)
  qed
  ultimately show ?thesis
    using e len ep unfolding s add_edge_def
    by (auto simp: safe_simps pins_Suc edge_pins_def elim!: ok_mono)
qed

lemma init_vertices_ok:
  assumes "wf_hyper p"
  shows "ok (mfold (init_vertex mem p) (fresh (mem_v mem) (nvtxs p)) [0..<nvtxs p])
     (\<lambda>V. length V = nvtxs p \<and> (\<forall>v < nvtxs p. Vweight (V ! v) = vwgts p ! v \<and>
            v_firstarc (V ! v) = [] \<and> v_nodeNum (V ! v) = 0))"
  using assms
  by (intro mfold_ok_upt[where I = "\<lambda>m V. length V = nvtxs p \<and> (\<forall>v < m. Vweight (V ! v) = vwgts p ! v \<and>
            v_firstarc (V ! v) = [] \<and> v_nodeNum (V ! v) = 0)"])
    (auto simp: init_vertex_def safe_simps wf_hyper_def Let_def nth_list_update less_Suc_eq)

lemma init_edges_ok:
  assumes "wf_hyper p"
  shows "ok (mfold (init_edge mem p) (fresh (mem_e mem) (nhedges p), 1) [0..<nhedges p])
     (\<lambda>(E, mx). length E = nhedges p \<and> 1 \<le> mx \<and> (\<forall>e < nhedges p. Hweight (E ! e) = hewgts p ! e \<and>
            e_firstarc (E ! e) = [] \<and> e_nodeNum (E ! e) = 0 \<and> hewgts p ! e \<le> mx))"
proof (rule mfold_ok_upt[where I = "\<lambda>m (E, mx). length E = nhedges p \<and> 1 \<le> mx \<and>
         (\<forall>e < m. Hweight (E ! e) = hewgts p ! e \<and>
            e_firstarc (E ! e) = [] \<and> e_nodeNum (E ! e) = 0 \<and> hewgts p ! e \<le> mx)"], goal_cases)
  case (3 i t)
  then show ?case using assms
    by (cases t) (auto simp: init_edge_def safe_simps wf_hyper_def Let_def nth_list_update less_Suc_eq)
qed auto

text \<open>The abstract view of an adjacency-list graph that the algorithms rely on.\<close>

definition edges_of :: "CMygraph \<Rightarrow> nat list list" where
  "edges_of g = map e_firstarc (pAllEdges g)"

definition wf_mygraph :: "CMygraph \<Rightarrow> bool" where
  "wf_mygraph g \<longleftrightarrow>
     length (pAllVertices g) = nvetes g \<and> length (pAllEdges g) = g_nhedges g \<and>
     (\<forall>e < g_nhedges g. e_firstarc (pAllEdges g ! e) \<noteq> [] \<and> distinct (e_firstarc (pAllEdges g ! e)) \<and>
        (\<forall>v \<in> set (e_firstarc (pAllEdges g ! e)). v < nvetes g) \<and>
        e_nodeNum (pAllEdges g ! e) = int (length (e_firstarc (pAllEdges g ! e))) \<and>
        0 \<le> Hweight (pAllEdges g ! e) \<and> Hweight (pAllEdges g ! e) \<le> maxHweight g) \<and>
     (\<forall>v < nvetes g. Vweight (pAllVertices g ! v) = 1 \<and>
        (\<forall>e \<in> set (v_firstarc (pAllVertices g ! v)). e < g_nhedges g) \<and>
        (\<forall>e < g_nhedges g. e \<in> set (v_firstarc (pAllVertices g ! v)) \<longleftrightarrow>
           v \<in> set (e_firstarc (pAllEdges g ! e))) \<and>
        v_firstarc (pAllVertices g ! v) \<noteq> []) \<and> 1 \<le> maxHweight g"

lemma wf_edge_facts:
  assumes "wf_mygraph g" "e < g_nhedges g"
  shows "e < length (pAllEdges g)" "e_firstarc (pAllEdges g ! e) \<noteq> []"
    "distinct (e_firstarc (pAllEdges g ! e))"
    "\<forall>v \<in> set (e_firstarc (pAllEdges g ! e)). v < nvetes g"
    "0 \<le> Hweight (pAllEdges g ! e)" "Hweight (pAllEdges g ! e) \<le> maxHweight g"
    "e_nodeNum (pAllEdges g ! e) = int (length (e_firstarc (pAllEdges g ! e)))"
  using assms by (auto simp: wf_mygraph_def)

lemma wf_vertex_facts:
  assumes "wf_mygraph g" "v < nvetes g"
  shows "v < length (pAllVertices g)" "Vweight (pAllVertices g ! v) = 1"
    "\<forall>e \<in> set (v_firstarc (pAllVertices g ! v)). e < g_nhedges g"
proof -
  have "length (pAllVertices g) = nvetes g" using assms(1) unfolding wf_mygraph_def by blast
  with assms(2) show "v < length (pAllVertices g)" by simp
  show "Vweight (pAllVertices g ! v) = 1" "\<forall>e \<in> set (v_firstarc (pAllVertices g ! v)). e < g_nhedges g"
    using assms unfolding wf_mygraph_def by blast+
qed

text \<open>What the constructor returns, field by field.\<close>

definition mygraph_spec :: "CHypergraph \<Rightarrow> CMygraph \<Rightarrow> bool" where
  "mygraph_spec p g \<longleftrightarrow> nvetes g = nvtxs p \<and> g_nhedges g = nhedges p \<and>
     fathergraph g = None \<and> keyTokey g = [] \<and>
     length (pAllVertices g) = nvtxs p \<and> length (pAllEdges g) = nhedges p \<and>
     (\<forall>e < nhedges p. pAllEdges g ! e = \<lparr>Enode = e, e_nodeNum = (\<Sum>v\<leftarrow>edge_pins p e. vwgts p ! v),
        e_firstarc = rev (edge_pins p e), Hweight = hewgts p ! e\<rparr> \<and> hewgts p ! e \<le> maxHweight g) \<and>
     (\<forall>v < nvtxs p. Vweight (pAllVertices g ! v) = vwgts p ! v \<and>
        v_firstarc (pAllVertices g ! v) = rev (map fst (filter (\<lambda>x. snd x = v) (pins p (nhedges p))))) \<and>
     1 \<le> maxHweight g"

lemma CMygraph_of_spec:
  assumes wf: "wf_hyper p"
  shows "ok (CMygraph_of mem p) (mygraph_spec p)"
proof -
  obtain V where V: "mfold (init_vertex mem p) (fresh (mem_v mem) (nvtxs p)) [0..<nvtxs p] = Inr V"
    "length V = nvtxs p" "\<forall>v < nvtxs p. Vweight (V ! v) = vwgts p ! v \<and>
            v_firstarc (V ! v) = [] \<and> v_nodeNum (V ! v) = 0"
    using init_vertices_ok[OF wf, of mem] by (auto simp: ok_iff)
  obtain E mx where E: "mfold (init_edge mem p) (fresh (mem_e mem) (nhedges p), 1) [0..<nhedges p] = Inr (E, mx)"
    "length E = nhedges p" "1 \<le> mx" "\<forall>e < nhedges p. Hweight (E ! e) = hewgts p ! e \<and>
            e_firstarc (E ! e) = [] \<and> e_nodeNum (E ! e) = 0 \<and> hewgts p ! e \<le> mx"
    using init_edges_ok[OF wf, of mem] by (auto simp: ok_iff)
  have "ok (mfold (add_edge p) (V, E) [0..<nhedges p])
     (\<lambda>s. built p (pins p (nhedges p)) s \<and> (\<forall>k < nhedges p. Enode (snd s ! k) = k))"
  proof (rule mfold_ok_upt[where I = "\<lambda>n s. built p (pins p n) s \<and> (\<forall>k < n. Enode (snd s ! k) = k)"], goal_cases)
    case 2
    show ?case using V E by (simp add: built_def pins_def)
  next
    case (3 i t)
    then show ?case using wf by (intro add_edge_built) auto
  qed simp
  then obtain V' E' where s: "mfold (add_edge p) (V, E) [0..<nhedges p] = Inr (V', E')"
    "built p (pins p (nhedges p)) (V', E')" "\<forall>k < nhedges p. Enode (E' ! k) = k"
    by (auto simp: ok_iff)
  have "mygraph_spec p (CMygraph V' E' None [] [] (nvtxs p) (nhedges p) mx)"
    using s(2,3) E(3,4) by (auto simp: mygraph_spec_def built_def Let_def filter_pins_edge comp_def)
  then show ?thesis using V(1) E(1) s(1) by (simp add: CMygraph_of_def)
qed

lemma mygraph_spec_inc:
  assumes "mygraph_spec p g" "v < nvtxs p"
  shows "e \<in> set (v_firstarc (pAllVertices g ! v)) \<longleftrightarrow> e < nhedges p \<and> v \<in> set (edge_pins p e)"
  using assms set_pins[of e v p "nhedges p"] by (force simp: mygraph_spec_def)

lemma mygraph_spec_wf:
  assumes wf: "wf_hyper p" and sp: "mygraph_spec p g"
  shows "wf_mygraph g"
proof -
  have one: "(\<Sum>v\<leftarrow>edge_pins p e. vwgts p ! v) = int (length (edge_pins p e))" if "e < nhedges p" for e
  proof -
    have "map ((!) (vwgts p)) (edge_pins p e) = map (\<lambda>_. 1) (edge_pins p e)"
      using wf that by (intro map_cong) (auto simp: wf_hyper_def)
    then show ?thesis by (simp only: sum_list_triv)
  qed
  note inc = mygraph_spec_inc[OF sp]
  have ne: "v_firstarc (pAllVertices g ! v) \<noteq> []" if v: "v < nvtxs p" for v
  proof -
    obtain e where "e < nhedges p" "v \<in> set (edge_pins p e)" using wf v by (auto simp: wf_hyper_def)
    with inc[OF v] show ?thesis by (metis empty_iff list.set(1))
  qed
  show ?thesis
    using wf sp one inc ne wf_pins_nonempty[OF wf]
    by (simp add: wf_mygraph_def mygraph_spec_def wf_hyper_def)
qed

text \<open>
  C24. On a well-formed hypergraph the constructor \<open>CMygraph(CHypergraph*)\<close> stays inside its
  arrays and its result is the incidence structure of the flat arrays: the chain of an edge
  holds its vertices in reverse order with their total weight, a vertex's chain holds exactly
  the edges that contain it, and the counts and weights are those of the input.
\<close>

theorem CMygraph_of_correct:
  assumes "wf_hyper p"
  shows "\<exists>g. CMygraph_of mem p = Inr g \<and> nvetes g = nvtxs p \<and> g_nhedges g = nhedges p \<and>
     (\<forall>e < nhedges p. pAllEdges g ! e = \<lparr>Enode = e, e_nodeNum = int (length (edge_pins p e)),
        e_firstarc = rev (edge_pins p e), Hweight = hewgts p ! e\<rparr>) \<and>
     (\<forall>v < nvtxs p. Vweight (pAllVertices g ! v) = vwgts p ! v \<and>
        (\<forall>e. e \<in> set (v_firstarc (pAllVertices g ! v)) \<longleftrightarrow> e < nhedges p \<and> v \<in> set (edge_pins p e)))"
proof -
  obtain g where g: "CMygraph_of mem p = Inr g" and sp: "mygraph_spec p g"
    using CMygraph_of_spec[OF assms] by (auto simp: ok_iff)
  have wf: "wf_mygraph g" using assms sp by (rule mygraph_spec_wf)
  have "e_nodeNum (pAllEdges g ! e) = int (length (edge_pins p e))" if "e < nhedges p" for e
    using wf sp that by (auto simp: wf_mygraph_def mygraph_spec_def)
  with g sp mygraph_spec_inc[OF sp] show ?thesis by (auto simp: mygraph_spec_def)
qed

text \<open>Two edges of two vertices each, sharing nothing: the smallest hypergraph worth cutting.\<close>

definition sample_hyper :: CHypergraph where
  "sample_hyper = \<lparr>hyperstring = [], verticestring = [], answerstring = [], nvtxs = 4, trueNvtxs = 4,
     nhedges = 2, vwgts = [1, 1, 1, 1], eptr = [0, 2, 4], eind = [0, 1, 2, 3], hewgts = [1, 1],
     npart = 2, ubfactor = 10, part = [0, 0, 0, 0], inOptions = [0, 10, 1, 1, 1, 0, 0, - 1, 0],
     fatherGraph = None, leftSon = None, rightSon = None, coupling = 0, cohesion = 1, gfloor = 1,
     Modu = 0, is_parted = False, mapForG1 = [], mapForG2 = [], mapForFather = []\<rparr>"

definition sample_mem :: mem_cells where
  "sample_mem = \<lparr>mem_v = \<lambda>_. \<lparr>v_node = 9, Vweight = 7, v_nodeNum = 5, v_firstarc = []\<rparr>,
     mem_e = \<lambda>_. \<lparr>Enode = 9, e_nodeNum = 7, e_firstarc = [], Hweight = 5\<rparr>\<rparr>"

lemma wf_sample: "wf_hyper sample_hyper"
  unfolding wf_hyper_def by code_simp

lemma sample_graph:
  obtains g where "CMygraph_of sample_mem sample_hyper = Inr g" "wf_mygraph g" "nvetes g = 4"
    "mygraph_spec sample_hyper g"
proof -
  obtain g where g: "CMygraph_of sample_mem sample_hyper = Inr g" "mygraph_spec sample_hyper g"
    using CMygraph_of_spec[OF wf_sample] by (auto simp: ok_iff)
  have "nvetes g = nvtxs sample_hyper" using g(2) by (simp add: mygraph_spec_def)
  then have "nvetes g = 4" by (simp add: sample_hyper_def)
  with that g mygraph_spec_wf[OF wf_sample g(2)] show thesis by blast
qed

theorem CMygraph_of_correct_witness:
  "wf_hyper sample_hyper \<and>
   (\<exists>g. CMygraph_of sample_mem sample_hyper = Inr g \<and> nvetes g = nvtxs sample_hyper \<and>
     g_nhedges g = nhedges sample_hyper \<and>
     (\<forall>e < nhedges sample_hyper. pAllEdges g ! e = \<lparr>Enode = e,
        e_nodeNum = int (length (edge_pins sample_hyper e)),
        e_firstarc = rev (edge_pins sample_hyper e), Hweight = hewgts sample_hyper ! e\<rparr>) \<and>
     (\<forall>v < nvtxs sample_hyper. Vweight (pAllVertices g ! v) = vwgts sample_hyper ! v \<and>
        (\<forall>e. e \<in> set (v_firstarc (pAllVertices g ! v)) \<longleftrightarrow> e < nhedges sample_hyper \<and> v \<in> set (edge_pins sample_hyper e))))"
  using CMygraph_of_correct[OF wf_sample] wf_sample by blast

end
