(* ===== verification/Modularity.thy ===== *)
theory Modularity
  imports Hypergraph
begin

text \<open>
  Cut edges, cut vertices and the modularity of a bipartition: \<open>FindCutEdges\<close>,
  \<open>FindCutNodes\<close> and \<open>ComputeModularity\<close> of \<open>src/CArchitecture/Multilevel.cpp\<close>.
\<close>

section \<open>The code\<close>

fun scan_cut :: "int list \<Rightarrow> int \<Rightarrow> nat list \<Rightarrow> error + bool" where
  "scan_cut pr part_num [] = Inr False"
| "scan_cut pr part_num (v # vs) =
     sbind (aget pr v) (\<lambda>x. if x \<noteq> part_num then Inr True else scan_cut pr part_num vs)"

text \<open>
  The head of the loops over the edges: the part of the first vertex (the chain is dereferenced
  without a test) and whether some other vertex of the edge is in another part.
\<close>

definition edge_cut :: "CMygraph \<Rightarrow> int list \<Rightarrow> nat \<Rightarrow> error + bool \<times> int" where
  "edge_cut g pr i =
     sbind (aget (pAllEdges g) i) (\<lambda>en. sbind (deref (e_firstarc en)) (\<lambda>v. sbind (aget pr v) (\<lambda>part_num.
     sbind (scan_cut pr part_num (e_firstarc en)) (\<lambda>cut. Inr (cut, part_num)))))"

definition FindCutEdges :: "CMygraph \<Rightarrow> int list \<Rightarrow> error + nat list" where
  "FindCutEdges g pr =
     mfold (\<lambda>cutedges i. sbind (edge_cut g pr i) (\<lambda>(cut, _). Inr (if cut then cutedges @ [i] else cutedges)))
       [] [0..<g_nhedges g]"

definition push_new :: "(nat, bool) smap \<times> nat list \<Rightarrow> nat \<Rightarrow> error + (nat, bool) smap \<times> nat list" where
  "push_new = (\<lambda>(ExitInList, cutNodes) v.
     Inr (if sfind ExitInList v = None then (sinsert v True ExitInList, cutNodes @ [v])
          else (ExitInList, cutNodes)))"

definition FindCutNodes :: "CMygraph \<Rightarrow> nat list \<Rightarrow> error + nat list" where
  "FindCutNodes g cutedges =
     sbind (mfold (\<lambda>s e. sbind (aget (pAllEdges g) e) (\<lambda>en. mfold push_new s (e_firstarc en))) ([], []) cutedges)
       (\<lambda>(_, cutNodes). Inr cutNodes)"

record modu =
  innerEdgeValue :: "double list"
  innerVertCount :: "int list"
  cutEdgeValue :: double
  cutVertCount :: int
  mapForInner :: "(nat, bool) smap"
  mapForCut :: "(nat, bool) smap"

text \<open>\<open>double(Hweight) * (1.0 - double(1.0 / nodeNum))\<close>\<close>

definition edge_value :: "HEnode \<Rightarrow> error + double" where
  "edge_value en = (if e_nodeNum en = 0 then Inl NotFinite
     else Inr (dmul (double_of_int (Hweight en)) (dsub 1 (ddiv 1 (double_of_int (e_nodeNum en))))))"

definition count_inner :: "CMygraph \<Rightarrow> int \<Rightarrow> modu \<Rightarrow> nat \<Rightarrow> error + modu" where
  "count_inner g part_num s v =
     (if sfind (mapForInner s) v = None then
        sbind (aget (pAllVertices g) v) (\<lambda>vn. sbind (agetI (innerVertCount s) part_num) (\<lambda>c.
        sbind (asetI (innerVertCount s) part_num (c + Vweight vn)) (\<lambda>cs.
          Inr (s\<lparr>innerVertCount := cs, mapForInner := sinsert v True (mapForInner s)\<rparr>))))
      else Inr s)"

definition count_cut :: "modu \<Rightarrow> nat \<Rightarrow> error + modu" where
  "count_cut s v =
     Inr (if sfind (mapForCut s) v = None
          then s\<lparr>cutVertCount := cutVertCount s + 1, mapForCut := sinsert v True (mapForCut s)\<rparr> else s)"

definition modu_edge :: "CMygraph \<Rightarrow> int list \<Rightarrow> modu \<Rightarrow> nat \<Rightarrow> error + modu" where
  "modu_edge g pr s i =
     sbind (edge_cut g pr i) (\<lambda>(cut, part_num). sbind (aget (pAllEdges g) i) (\<lambda>en.
       if \<not> cut then
         sbind (edge_value en) (\<lambda>x. sbind (agetI (innerEdgeValue s) part_num) (\<lambda>y.
         sbind (asetI (innerEdgeValue s) part_num (dadd y x)) (\<lambda>vs.
           mfold (count_inner g part_num) (s\<lparr>innerEdgeValue := vs\<rparr>) (e_firstarc en))))
       else
         mfold count_cut (s\<lparr>cutEdgeValue := dadd (cutEdgeValue s) (double_of_int (Hweight en))\<rparr>) (e_firstarc en)))"

text \<open>The closing formula, and the value given to a bipartition with an empty inner part.\<close>

definition modu_formula :: "double \<Rightarrow> double \<Rightarrow> int \<Rightarrow> int \<Rightarrow> double \<Rightarrow> double" where
  "modu_formula e0 e1 c0 c1 ce =
     (if c0 \<noteq> 0 \<and> c1 \<noteq> 0 then
        dsub (dsub (dmul 2 (dadd (ddiv e0 (double_of_int c0)) (ddiv e1 (double_of_int c1))))
                (ddiv ce (double_of_int c0))) (ddiv ce (double_of_int c1))
      else - 1000)"

definition ComputeModularity :: "CMygraph \<Rightarrow> int list \<Rightarrow> error + double" where
  "ComputeModularity g pr =
     sbind (mfold (modu_edge g pr) \<lparr>innerEdgeValue = [0, 0], innerVertCount = [0, 0], cutEdgeValue = 0,
              cutVertCount = 0, mapForInner = [], mapForCut = []\<rparr> [0..<g_nhedges g]) (\<lambda>s.
       Inr (modu_formula (innerEdgeValue s ! 0) (innerEdgeValue s ! 1)
              (innerVertCount s ! 0) (innerVertCount s ! 1) (cutEdgeValue s)))"

section \<open>Bipartitions and their cut edges\<close>

definition bipart :: "CMygraph \<Rightarrow> int list \<Rightarrow> bool" where
  "bipart g pr \<longleftrightarrow> length pr = nvetes g \<and> (\<forall>v < nvetes g. pr ! v = 0 \<or> pr ! v = 1)"

definition epins :: "CMygraph \<Rightarrow> nat \<Rightarrow> nat list" where
  "epins g e = e_firstarc (pAllEdges g ! e)"

definition is_cut :: "CMygraph \<Rightarrow> int list \<Rightarrow> nat \<Rightarrow> bool" where
  "is_cut g pr e \<longleftrightarrow> (\<exists>u \<in> set (epins g e). \<exists>w \<in> set (epins g e). pr ! u \<noteq> pr ! w)"

lemma bipart_update: "bipart g pr \<Longrightarrow> x = 0 \<or> x = 1 \<Longrightarrow> bipart g (pr[v := x])"
  by (cases "v < length pr") (auto simp: bipart_def nth_list_update list_update_beyond)

lemma scan_cut_eq:
  "\<forall>v \<in> set vs. v < length pr \<Longrightarrow> scan_cut pr k vs = Inr (\<exists>v \<in> set vs. pr ! v \<noteq> k)"
  by (induction vs) auto

lemma edge_cut_eq:
  assumes g: "wf_mygraph g" "length pr = nvetes g" and e: "e < g_nhedges g"
  shows "edge_cut g pr e = Inr (is_cut g pr e, pr ! hd (epins g e))"
proof -
  note f = wf_edge_facts[OF g(1) e]
  have pins: "\<forall>v \<in> set (epins g e). v < length pr" using f(4) g(2) by (simp add: epins_def)
  have ne: "epins g e \<noteq> []" using f(2) by (simp add: epins_def)
  then have hd: "hd (epins g e) \<in> set (epins g e)" by simp
  then have "is_cut g pr e \<longleftrightarrow> (\<exists>v \<in> set (epins g e). pr ! v \<noteq> pr ! hd (epins g e))"
    unfolding is_cut_def by metis
  moreover have "deref (epins g e) = Inr (hd (epins g e))" using ne by (cases "epins g e") auto
  ultimately show ?thesis
    using f(1) hd pins scan_cut_eq[OF pins] by (simp add: edge_cut_def epins_def[symmetric])
qed

lemma FindCutEdges_eq:
  assumes "wf_mygraph g" "length pr = nvetes g"
  shows "FindCutEdges g pr = Inr (filter (is_cut g pr) [0..<g_nhedges g])"
proof -
  have gen: "mfold (\<lambda>cs i. sbind (edge_cut g pr i) (\<lambda>(cut, _). Inr (if cut then cs @ [i] else cs))) acc is
      = Inr (acc @ filter (is_cut g pr) is)" if "\<forall>i \<in> set is. i < g_nhedges g" for acc "is"
    using that by (induction "is" arbitrary: acc) (auto simp: edge_cut_eq[OF assms])
  show ?thesis by (simp add: FindCutEdges_def gen)
qed

lemma push_news_ok:
  assumes "smap_ok X" "skeys X = set ns" "distinct ns"
  shows "ok (mfold push_new (X, ns) vs) (\<lambda>(X', ns'). smap_ok X' \<and> skeys X' = set ns' \<and> distinct ns' \<and>
     set ns' = set ns \<union> set vs)"
  using assms
proof (induction vs arbitrary: X ns)
  case (Cons v vs)
  show ?case
  proof (cases "sfind X v = None")
    case True
    then have "v \<notin> set ns" using Cons.prems by (simp add: sfind_None_iff)
    with True Cons.prems Cons.IH[of "sinsert v True X" "ns @ [v]"] show ?thesis
      by (auto simp: push_new_def elim!: ok_mono)
  next
    case False
    then have "v \<in> set ns" using Cons.prems by (simp add: sfind_None_iff del: not_None_eq)
    with False Cons.prems Cons.IH[of X ns] show ?thesis
      by (auto simp: push_new_def insert_absorb simp del: not_None_eq elim!: ok_mono)
  qed
qed simp

lemma FindCutNodes_ok:
  assumes g: "wf_mygraph g" and es: "\<forall>e \<in> set es. e < g_nhedges g"
  shows "ok (FindCutNodes g es) (\<lambda>ns. distinct ns \<and> set ns = (\<Union>e \<in> set es. set (epins g e)))"
proof -
  have "ok (mfold (\<lambda>s e. sbind (aget (pAllEdges g) e) (\<lambda>en. mfold push_new s (e_firstarc en))) (X, ns) es)
      (\<lambda>(X', ns'). distinct ns' \<and> set ns' = set ns \<union> (\<Union>e \<in> set es. set (epins g e)))"
    if "smap_ok X" "skeys X = set ns" "distinct ns" for X ns
    using that es
  proof (induction es arbitrary: X ns)
    case (Cons e es)
    obtain X' ns' where 1: "mfold push_new (X, ns) (epins g e) = Inr (X', ns')" "smap_ok X'" "skeys X' = set ns'"
       "distinct ns'" "set ns' = set ns \<union> set (epins g e)"
      using push_news_ok[OF Cons.prems(1-3), of "epins g e"] by (auto simp: ok_iff)
    have "e < length (pAllEdges g)" using wf_edge_facts(1)[OF g] Cons.prems by simp
    then show ?case using 1 Cons.IH[OF 1(2-4)] Cons.prems(4)
      by (auto simp: epins_def[symmetric] Un_assoc elim!: ok_mono)
  qed simp
  from this[of "[]" "[]"] show ?thesis by (auto simp: FindCutNodes_def elim!: ok_mono)
qed

text \<open>
  C26. \<open>FindCutEdges\<close> returns, in increasing order, exactly the hyperedges with vertices in two
  different parts, and \<open>FindCutNodes\<close> of them returns each of their vertices exactly once; no
  chain of a well-formed hypergraph is dereferenced when it is null.
\<close>

theorem FindCut_correct:
  assumes "wf_mygraph g" "length pr = nvetes g"
  shows "\<exists>es ns. FindCutEdges g pr = Inr es \<and> FindCutNodes g es = Inr ns \<and>
     es = filter (\<lambda>e. \<exists>u \<in> set (epins g e). \<exists>w \<in> set (epins g e). pr ! u \<noteq> pr ! w) [0..<g_nhedges g] \<and>
     distinct ns \<and> set ns = (\<Union>e \<in> set es. set (epins g e))"
  using FindCutEdges_eq[OF assms] FindCutNodes_ok[OF assms(1), of "filter (is_cut g pr) [0..<g_nhedges g]"]
  by (auto simp: ok_iff is_cut_def[abs_def])

theorem FindCut_correct_witness:
  "\<exists>g es ns. CMygraph_of sample_mem sample_hyper = Inr g \<and> FindCutEdges g [0, 1, 1, 1] = Inr es \<and>
     FindCutNodes g es = Inr ns \<and> distinct ns"
proof -
  obtain g where g: "CMygraph_of sample_mem sample_hyper = Inr g" "wf_mygraph g" "nvetes g = 4"
    by (rule sample_graph)
  have "length [0, 1, 1, 1 :: int] = nvetes g" using g(3) by simp
  from FindCut_correct[OF g(2) this] g(1) show ?thesis by blast
qed

section \<open>The value of \<open>ComputeModularity\<close>\<close>

text \<open>
  The inner vertices of part \<open>k\<close> among the first \<open>n\<close> hyperedges: those of the uncut ones
  inside that part.
\<close>

definition inner_verts :: "CMygraph \<Rightarrow> int list \<Rightarrow> nat \<Rightarrow> int \<Rightarrow> nat set" where
  "inner_verts g pr n k = {v. \<exists>e < n. \<not> is_cut g pr e \<and> v \<in> set (epins g e) \<and> pr ! v = k}"

definition hedge_value :: "CMygraph \<Rightarrow> nat \<Rightarrow> double" where
  "hedge_value g e = dmul (double_of_int (Hweight (pAllEdges g ! e)))
     (dsub 1 (ddiv 1 (double_of_int (int (length (epins g e))))))"

definition inner_value :: "CMygraph \<Rightarrow> int list \<Rightarrow> nat \<Rightarrow> int \<Rightarrow> double" where
  "inner_value g pr n k = foldl (\<lambda>x e. dadd x (hedge_value g e)) 0
     (filter (\<lambda>e. \<not> is_cut g pr e \<and> pr ! hd (epins g e) = k) [0..<n])"

definition cut_value :: "CMygraph \<Rightarrow> int list \<Rightarrow> nat \<Rightarrow> double" where
  "cut_value g pr n = foldl (\<lambda>x e. dadd x (double_of_int (Hweight (pAllEdges g ! e)))) 0
     (filter (is_cut g pr) [0..<n])"

text \<open>
  The specification: twice the inner values per inner vertex of both parts, less the value of the
  cut per inner vertex of either part; \<open>-1000\<close> for a part without inner vertices.
\<close>

definition per_inner :: "CMygraph \<Rightarrow> int list \<Rightarrow> double \<Rightarrow> int \<Rightarrow> double" where
  "per_inner g pr x k = ddiv x (double_of_int (int (card (inner_verts g pr (g_nhedges g) k))))"

definition modularity :: "CMygraph \<Rightarrow> int list \<Rightarrow> double" where
  "modularity g pr = (let m = g_nhedges g in
     if inner_verts g pr m 0 = {} \<or> inner_verts g pr m 1 = {} then - 1000
     else let gain = dadd (per_inner g pr (inner_value g pr m 0) 0) (per_inner g pr (inner_value g pr m 1) 1);
              loss = (\<lambda>k. per_inner g pr (cut_value g pr m) k)
          in dsub (dsub (dmul 2 gain) (loss 0)) (loss 1))"

definition modu_inv :: "CMygraph \<Rightarrow> int list \<Rightarrow> nat \<Rightarrow> modu \<Rightarrow> bool" where
  "modu_inv g pr n s \<longleftrightarrow>
     innerEdgeValue s = [inner_value g pr n 0, inner_value g pr n 1] \<and>
     innerVertCount s = [int (card (inner_verts g pr n 0)), int (card (inner_verts g pr n 1))] \<and>
     cutEdgeValue s = cut_value g pr n \<and>
     smap_ok (mapForInner s) \<and> skeys (mapForInner s) = inner_verts g pr n 0 \<union> inner_verts g pr n 1"

lemma finite_inner_verts [simp]: "finite (inner_verts g pr n k)"
proof -
  have "inner_verts g pr n k \<subseteq> (\<Union>e < n. set (epins g e))" by (auto simp: inner_verts_def)
  then show ?thesis by (rule finite_subset) auto
qed

lemma inner_verts_part: "v \<in> inner_verts g pr n k \<Longrightarrow> pr ! v = k"
  by (auto simp: inner_verts_def)

lemma inner_verts_Suc:
  "inner_verts g pr (Suc n) k = inner_verts g pr n k \<union>
     (if is_cut g pr n then {} else {v \<in> set (epins g n). pr ! v = k})"
  by (auto simp: inner_verts_def less_Suc_eq)

text \<open>Counting the vertices of an uncut hyperedge of part \<open>k\<close>.\<close>

lemma count_inners_ok:
  assumes g: "wf_mygraph g" and k: "k = 0 \<or> k = 1"
    and vs: "\<forall>v \<in> set vs. v < nvetes g \<and> pr ! v = k"
    and s: "innerVertCount s = [int (card (A 0)), int (card (A 1))]" "smap_ok (mapForInner s)"
      "skeys (mapForInner s) = A 0 \<union> A 1" "finite (A 0)" "finite (A 1)"
      "\<forall>v \<in> A 0. pr ! v = 0" "\<forall>v \<in> A 1. pr ! v = 1"
  shows "ok (mfold (count_inner g k) s vs) (\<lambda>s'. let B = A(k := A k \<union> set vs) in
     innerVertCount s' = [int (card (B 0)), int (card (B 1))] \<and> smap_ok (mapForInner s') \<and>
     skeys (mapForInner s') = B 0 \<union> B 1 \<and> innerEdgeValue s' = innerEdgeValue s \<and>
     cutEdgeValue s' = cutEdgeValue s)"
  using vs s
proof (induction vs arbitrary: s A)
  case (Cons v vs)
  have v: "v < length (pAllVertices g)" "Vweight (pAllVertices g ! v) = 1"
    using wf_vertex_facts[OF g] Cons.prems(1) by auto
  show ?case
  proof (cases "sfind (mapForInner s) v = None")
    case True
    then have new: "v \<notin> A 0" "v \<notin> A 1" using Cons.prems(4) by (auto simp: sfind_None_iff)
    let ?A = "A(k := insert v (A k))"
    let ?s = "s\<lparr>innerVertCount := [int (card (?A 0)), int (card (?A 1))],
               mapForInner := sinsert v True (mapForInner s)\<rparr>"
    have st: "count_inner g k s v = Inr ?s"
      using True v k new Cons.prems(2,5,6) by (auto simp: count_inner_def agetI_def asetI_def)
    have "ok (mfold (count_inner g k) ?s vs) (\<lambda>s'. let B = ?A(k := ?A k \<union> set vs) in
       innerVertCount s' = [int (card (B 0)), int (card (B 1))] \<and> smap_ok (mapForInner s') \<and>
       skeys (mapForInner s') = B 0 \<union> B 1 \<and> innerEdgeValue s' = innerEdgeValue ?s \<and>
       cutEdgeValue s' = cutEdgeValue ?s)"
      using Cons.prems k by (intro Cons.IH) auto
    then show ?thesis using st by (auto simp: Let_def elim!: ok_mono)
  next
    case False
    then have "v \<in> A 0 \<union> A 1" using Cons.prems(4) by (simp add: sfind_None_iff del: not_None_eq)
    then have "insert v (A k) = A k" using Cons.prems(1,7,8) k by auto
    then have "A k \<union> set (v # vs) = A k \<union> set vs" by auto
    then have "A(k := A k \<union> set (v # vs)) = A(k := A k \<union> set vs)" by simp
    moreover have "count_inner g k s v = Inr s" using False by (simp add: count_inner_def del: not_None_eq)
    moreover have "\<forall>v \<in> set vs. v < nvetes g \<and> pr ! v = k" using Cons.prems(1) by simp
    note Cons.IH[OF this Cons.prems(2-)]
    ultimately show ?thesis by (simp only: mfold.simps sbind_Inr)
  qed
qed (simp add: Let_def)

lemma count_cuts_ok:
  "ok (mfold count_cut s vs) (\<lambda>s'. innerEdgeValue s' = innerEdgeValue s \<and>
     innerVertCount s' = innerVertCount s \<and> cutEdgeValue s' = cutEdgeValue s \<and> mapForInner s' = mapForInner s)"
  by (rule mfold_ok) (auto simp: count_cut_def)

lemma modu_edge_ok:
  assumes g: "wf_mygraph g" and pr: "bipart g pr" and i: "i < g_nhedges g" and s: "modu_inv g pr i s"
  shows "ok (modu_edge g pr s i) (modu_inv g pr (Suc i))"
proof (cases "is_cut g pr i")
  case True
  have len: "length pr = nvetes g" using pr by (simp add: bipart_def)
  let ?s = "s\<lparr>cutEdgeValue := dadd (cutEdgeValue s) (double_of_int (Hweight (pAllEdges g ! i)))\<rparr>"
  have "ok (mfold count_cut ?s (epins g i)) (modu_inv g pr (Suc i))"
    using s True by (intro ok_mono[OF count_cuts_ok[of ?s]])
      (auto simp: modu_inv_def inner_value_def cut_value_def inner_verts_Suc)
  then show ?thesis
    using True edge_cut_eq[OF g len i] wf_edge_facts(1)[OF g i] by (simp add: modu_edge_def epins_def)
next
  case False
  have len: "length pr = nvetes g" using pr by (simp add: bipart_def)
  note f = wf_edge_facts[OF g i]
  define k where "k = pr ! hd (epins g i)"
  have hd: "hd (epins g i) \<in> set (epins g i)" using f(2) by (simp add: epins_def)
  have same: "\<forall>v \<in> set (epins g i). v < nvetes g \<and> pr ! v = k"
    using False hd f(4) unfolding is_cut_def k_def epins_def by blast
  then have k: "k = 0 \<or> k = 1" using pr hd by (auto simp: bipart_def)
  have val: "edge_value (pAllEdges g ! i) = Inr (hedge_value g i)"
    using f(2,7) by (simp add: edge_value_def hedge_value_def epins_def)
  define vs where "vs = [inner_value g pr (Suc i) 0, inner_value g pr (Suc i) 1]"
  have upd: "sbind (agetI (innerEdgeValue s) k) (\<lambda>y. asetI (innerEdgeValue s) k (dadd y (hedge_value g i))) = Inr vs"
    using k s False by (auto simp: modu_inv_def agetI_def asetI_def vs_def inner_value_def k_def)
  let ?s = "s\<lparr>innerEdgeValue := vs\<rparr>"
  have "ok (mfold (count_inner g k) ?s (epins g i)) (\<lambda>s'. let B = (inner_verts g pr i)(k := inner_verts g pr i k \<union> set (epins g i)) in
     innerVertCount s' = [int (card (B 0)), int (card (B 1))] \<and> smap_ok (mapForInner s') \<and>
     skeys (mapForInner s') = B 0 \<union> B 1 \<and> innerEdgeValue s' = innerEdgeValue ?s \<and>
     cutEdgeValue s' = cutEdgeValue ?s)"
    using s same k by (intro count_inners_ok[OF g]) (auto simp: modu_inv_def dest: inner_verts_part)
  moreover have "(inner_verts g pr i)(k := inner_verts g pr i k \<union> set (epins g i)) = inner_verts g pr (Suc i)"
    using same False by (auto simp: inner_verts_Suc fun_eq_iff)
  ultimately have "ok (mfold (count_inner g k) ?s (epins g i)) (modu_inv g pr (Suc i))"
    using s False by (auto simp: modu_inv_def Let_def vs_def cut_value_def elim!: ok_mono)
  moreover have "modu_edge g pr s i = mfold (count_inner g k) ?s (epins g i)"
    using False edge_cut_eq[OF g len i] f(1) val upd
    by (auto simp: modu_edge_def epins_def k_def sbind_eq_Inr)
  ultimately show ?thesis by simp
qed

text \<open>The closing formula of the code computes it.\<close>

lemma modularity_formula:
  "modularity g pr = (let m = g_nhedges g in modu_formula (inner_value g pr m 0) (inner_value g pr m 1)
     (int (card (inner_verts g pr m 0))) (int (card (inner_verts g pr m 1))) (cut_value g pr m))"
  unfolding modularity_def modu_formula_def per_inner_def Let_def by simp

lemma ComputeModularity_eq:
  assumes "wf_mygraph g" "bipart g pr"
  shows "ComputeModularity g pr = Inr (modularity g pr)"
proof -
  have "ok (mfold (modu_edge g pr) \<lparr>innerEdgeValue = [0, 0], innerVertCount = [0, 0], cutEdgeValue = 0,
              cutVertCount = 0, mapForInner = [], mapForCut = []\<rparr> [0..<g_nhedges g]) (modu_inv g pr (g_nhedges g))"
    using assms by (intro mfold_ok_upt[where I = "modu_inv g pr"] modu_edge_ok)
      (auto simp: modu_inv_def inner_value_def cut_value_def inner_verts_def)
  then show ?thesis by (auto simp: ok_iff ComputeModularity_def modularity_formula modu_inv_def Let_def)
qed

lemma modularity_pos_inner:
  "- 1000 < modularity g pr \<Longrightarrow> inner_verts g pr (g_nhedges g) k \<noteq> {}" if "k = 0 \<or> k = 1"
  using that by (auto simp: modularity_def Let_def split: if_splits)

text \<open>
  C14. For a well-formed hypergraph and a bipartition of its vertices, \<open>ComputeModularity\<close> stays
  inside its arrays, divides by no zero and returns, with \<open>E k\<close> the accumulated values of the uncut
  hyperedges of part \<open>k\<close>, \<open>C k\<close> the number of the vertices they cover and \<open>X\<close> the accumulated weight
  of the cut hyperedges, the number \<open>2 (E 0 / C 0 + E 1 / C 1) - X / C 0 - X / C 1\<close>, rounded after
  every operation; and \<open>-1000\<close> when one part holds no uncut hyperedge.
\<close>

theorem ComputeModularity_correct:
  assumes "wf_mygraph g" "bipart g pr"
    and "E = inner_value g pr (g_nhedges g)" "X = cut_value g pr (g_nhedges g)"
    and "C = (\<lambda>k. double_of_int (int (card (inner_verts g pr (g_nhedges g) k))))"
  shows "ComputeModularity g pr = Inr (
     if inner_verts g pr (g_nhedges g) 0 = {} \<or> inner_verts g pr (g_nhedges g) 1 = {} then - 1000
     else dsub (dsub (dmul 2 (dadd (ddiv (E 0) (C 0)) (ddiv (E 1) (C 1)))) (ddiv X (C 0))) (ddiv X (C 1)))"
  using ComputeModularity_eq[OF assms(1,2)] by (simp add: modularity_def per_inner_def Let_def assms(3-5))

theorem ComputeModularity_correct_witness:
  "\<exists>g. CMygraph_of sample_mem sample_hyper = Inr g \<and> bipart g [0, 0, 1, 1] \<and> ComputeModularity g [0, 0, 1, 1] = Inr 1 \<and>
     dsub (dsub (dmul 2 (dadd (per_inner g [0, 0, 1, 1] (inner_value g [0, 0, 1, 1] (g_nhedges g) 0) 0)
         (per_inner g [0, 0, 1, 1] (inner_value g [0, 0, 1, 1] (g_nhedges g) 1) 1)))
       (per_inner g [0, 0, 1, 1] (cut_value g [0, 0, 1, 1] (g_nhedges g)) 0))
       (per_inner g [0, 0, 1, 1] (cut_value g [0, 0, 1, 1] (g_nhedges g)) 1) = 1"
proof -
  obtain g where g: "CMygraph_of sample_mem sample_hyper = Inr g" "wf_mygraph g" "nvetes g = 4"
    by (rule sample_graph)
  have b: "bipart g [0, 0, 1, 1]" using g(3) by (auto simp: bipart_def numeral_eq_Suc less_Suc_eq)
  have "sbind (CMygraph_of sample_mem sample_hyper) (\<lambda>g. ComputeModularity g [0, 0, 1, 1]) = Inr 1"
    by code_simp
  then have c: "ComputeModularity g [0, 0, 1, 1] = Inr 1" using g(1) by simp
  show ?thesis using ComputeModularity_correct[OF g(2) b refl refl refl] c g(1) b
    by (auto simp: per_inner_def split: if_splits)
qed

end
