(* ===== verification/HeapSort.thy ===== *)
theory HeapSort
  imports Doubles
begin

text \<open>
  The max-heap of \<open>src/CArchitecture/HeapSort.cpp\<close>: an array of candidate moves, each a
  vertex with the modularity its move would give, ordered by modularity and, for equal
  modularities, by the rank of the vertex (a smaller rank comes first). The array accesses of
  the code are checked accesses of the model.
\<close>

section \<open>The code\<close>

record ModStruct =
  node :: nat
  dMod :: double

record CHeapSort =
  renew :: bool

definition CHeapSort_init :: CHeapSort where
  "CHeapSort_init = \<lparr>renew = True\<rparr>"

text \<open>One of the two tests of the loop body: the child replaces \<open>largest\<close> when it wins.\<close>

definition pick :: "ModStruct list \<Rightarrow> nat \<Rightarrow> int list \<Rightarrow> nat \<Rightarrow> nat \<Rightarrow> error + nat" where
  "pick A hLen Node_Rank largest child =
     (if child < hLen then
        sbind (aget A largest) (\<lambda>a. sbind (aget A child) (\<lambda>b.
          if dMod a \<le> dMod b then
            if dMod a = dMod b then
              sbind (aget Node_Rank (node a)) (\<lambda>ra. sbind (aget Node_Rank (node b)) (\<lambda>rb.
                Inr (if ra > rb then child else largest)))
            else Inr child
          else Inr largest))
      else Inr largest)"

definition swap_cells :: "ModStruct list \<Rightarrow> nat \<Rightarrow> nat \<Rightarrow> error + ModStruct list" where
  "swap_cells A j i = sbind (aget A j) (\<lambda>t. sbind (aget A i) (\<lambda>u.
     sbind (aset A j u) (\<lambda>A'. aset A' i t)))"

lemma pick_cases: "pick A h R l c = Inr k \<Longrightarrow> k = l \<or> k = c \<and> c < h"
  by (auto simp: pick_def sbind_eq_Inr split: if_splits)

function AdjustHeap :: "ModStruct list \<Rightarrow> nat \<Rightarrow> nat \<Rightarrow> int list \<Rightarrow> error + ModStruct list" where
  "AdjustHeap A hLen i Node_Rank =
     (let left = 2 * i + 1; right = 2 * i + 2 in
      if left < hLen \<or> right < hLen then
        sbind (pick A hLen Node_Rank i left) (\<lambda>l1.
        sbind (pick A hLen Node_Rank l1 right) (\<lambda>largest.
          if i \<noteq> largest then
            sbind (swap_cells A largest i) (\<lambda>A'. AdjustHeap A' hLen largest Node_Rank)
          else Inr A))
      else Inr A)"
  by pat_completeness auto
termination
proof (relation "measure (\<lambda>(A, h, i, R). h - i)", goal_cases)
  case (2 A h i R left right l1 largest A')
  then have "i < largest \<and> largest < h"
    by (auto dest!: pick_cases)
  then show ?case by auto
qed auto

declare AdjustHeap.simps [simp del]

text \<open>\<open>for (i = hLen/2 - 1; i >= 0; i--)\<close>\<close>

definition BuildHeap :: "ModStruct list \<Rightarrow> nat \<Rightarrow> int list \<Rightarrow> error + ModStruct list" where
  "BuildHeap A hLen Node_Rank =
     mfold (\<lambda>A i. AdjustHeap A hLen i Node_Rank) A (rev [0..<hLen div 2])"

text \<open>The body of \<open>HeapSort\<close> is commented out in the source: it leaves the array alone.\<close>

definition HeapSort :: "ModStruct list \<Rightarrow> nat \<Rightarrow> int list \<Rightarrow> error + ModStruct list" where
  "HeapSort A aLen Node_Rank = Inr A"

definition getMax :: "CHeapSort \<Rightarrow> ModStruct list \<Rightarrow> nat \<Rightarrow> int list \<Rightarrow> error + ModStruct list" where
  "getMax self A hLen Node_Rank =
     (if renew self = True then
        sbind (BuildHeap A hLen Node_Rank) (\<lambda>A.
          if hLen = 0 then Inl BadIndex else swap_cells A (hLen - 1) 0)
      else AdjustHeap A hLen 0 Node_Rank)"

section \<open>Array heaps over a total preorder\<close>

text \<open>
  The heap argument does not depend on what is compared. The interface: a total preorder on the
  cells, \<open>below x y\<close> saying that \<open>y\<close> may stand above \<open>x\<close>.
\<close>

definition parent :: "nat \<Rightarrow> nat" where
  "parent c = (c - 1) div 2"

lemma parent_less: "0 < c \<Longrightarrow> parent c < c"
  by (auto simp: parent_def)

lemma parent_eq_iff: "0 < c \<Longrightarrow> parent c = i \<longleftrightarrow> c = 2 * i + 1 \<or> c = 2 * i + 2"
  by (auto simp: parent_def)

definition heap_from :: "('a \<Rightarrow> 'a \<Rightarrow> bool) \<Rightarrow> 'a list \<Rightarrow> nat \<Rightarrow> nat \<Rightarrow> bool" where
  "heap_from below A m h \<longleftrightarrow>
     (\<forall>c < h. 0 < c \<longrightarrow> m \<le> parent c \<longrightarrow> below (A ! c) (A ! parent c))"

text \<open>
  A heap from \<open>m\<close> on but for the cell \<open>i\<close>, whose children are still below its parent.
\<close>

definition heap_hole :: "('a \<Rightarrow> 'a \<Rightarrow> bool) \<Rightarrow> 'a list \<Rightarrow> nat \<Rightarrow> nat \<Rightarrow> nat \<Rightarrow> bool" where
  "heap_hole below A m h i \<longleftrightarrow>
     (\<forall>c < h. 0 < c \<longrightarrow> m \<le> parent c \<longrightarrow> parent c \<noteq> i \<longrightarrow> below (A ! c) (A ! parent c)) \<and>
     (\<forall>c < h. 0 < c \<longrightarrow> parent c = i \<longrightarrow> 0 < i \<longrightarrow> m \<le> parent i \<longrightarrow> below (A ! c) (A ! parent i))"

locale cell_order =
  fixes below :: "'a \<Rightarrow> 'a \<Rightarrow> bool"
  assumes below_total: "below x y \<or> below y x"
    and below_trans: "below x y \<Longrightarrow> below y z \<Longrightarrow> below x z"
begin

lemma below_refl: "below x x"
  using below_total[of x x] by simp

lemma heap_root_max:
  assumes "heap_from below A 0 h" "c < h"
  shows "below (A ! c) (A ! 0)"
  using assms(2)
proof (induction c rule: less_induct)
  case (less c)
  show ?case
  proof (cases "c = 0")
    case False
    then have p: "parent c < c" by (simp add: parent_less)
    have "below (A ! c) (A ! parent c)" using assms(1) less.prems False by (auto simp: heap_from_def)
    moreover have "below (A ! parent c) (A ! 0)" using less.IH[OF p] less.prems p by simp
    ultimately show ?thesis by (rule below_trans)
  qed (simp add: below_refl)
qed

lemma heap_hole_new:
  "heap_from below A (Suc i) h \<Longrightarrow> heap_hole below A i h i"
  by (auto simp: heap_from_def heap_hole_def parent_def)

lemma heap_hole_closed:
  assumes "heap_hole below A m h i"
    and "\<And>c. c < h \<Longrightarrow> 0 < c \<Longrightarrow> parent c = i \<Longrightarrow> below (A ! c) (A ! i)"
  shows "heap_from below A m h"
  using assms unfolding heap_from_def heap_hole_def by metis

lemma heap_hole_down:
  assumes hole: "heap_hole below A m h i" and h: "h \<le> length A" and m: "m \<le> i"
    and l: "l < h" "0 < l" "parent l = i"
    and up: "below (A ! i) (A ! l)"
    and sib: "\<And>c. c < h \<Longrightarrow> 0 < c \<Longrightarrow> parent c = i \<Longrightarrow> below (A ! c) (A ! l)"
  shows "heap_hole below (A[l := A ! i, i := A ! l]) m h l"
proof -
  let ?B = "A[l := A ! i, i := A ! l]"
  have il: "i < l" using l parent_less by auto
  have B: "?B ! k = (if k = i then A ! l else if k = l then A ! i else A ! k)" if "k < h" for k
    using that h il l by (auto simp: nth_list_update)
  have "below (?B ! c) (?B ! parent c)"
    if c: "c < h" "0 < c" "m \<le> parent c" "parent c \<noteq> l" for c
  proof -
    have pc: "parent c < h" "parent c < c" using c parent_less[of c] by auto
    have pi: "c = i \<Longrightarrow> below (A ! l) (A ! parent i)"
      using hole l c m by (auto simp: heap_hole_def)
    show ?thesis
      using hole c pc il l up sib pi unfolding heap_hole_def
      by (simp add: B below_refl)
  qed
  moreover have "below (?B ! c) (?B ! parent l)"
    if c: "c < h" "0 < c" "parent c = l" for c
  proof -
    have "c \<noteq> i" "c \<noteq> l" using c il parent_less[of c] by auto
    moreover have "below (A ! c) (A ! l)"
      using hole c m il unfolding heap_hole_def by (metis less_imp_le nat_neq_iff order_trans)
    ultimately show ?thesis using c il l by (simp add: B)
  qed
  ultimately show ?thesis by (simp add: heap_hole_def)
qed

end

section \<open>The order of the candidate moves\<close>

definition below :: "int list \<Rightarrow> ModStruct \<Rightarrow> ModStruct \<Rightarrow> bool" where
  "below R a b \<longleftrightarrow> dMod a < dMod b \<or> dMod a = dMod b \<and> R ! node b \<le> R ! node a"

interpretation moves: cell_order "below R" for R
  by unfold_locales (auto simp: below_def)

definition ranked :: "int list \<Rightarrow> ModStruct list \<Rightarrow> bool" where
  "ranked R A \<longleftrightarrow> (\<forall>a \<in> set A. node a < length R)"

lemma ranked_nth: "ranked R A \<Longrightarrow> k < length A \<Longrightarrow> node (A ! k) < length R"
  by (simp add: ranked_def)

lemma pick_ok:
  assumes "ranked R A" "h \<le> length A" "l < h"
  shows "ok (pick A h R l c) (\<lambda>k. k < h \<and> (k = l \<or> k = c) \<and> below R (A ! l) (A ! k) \<and>
           (c < h \<longrightarrow> below R (A ! c) (A ! k)))"
  using assms moves.below_refl
  by (auto simp: pick_def safe_simps ranked_nth below_def)

lemma swap_cells_ok [safe_simps]:
  "ok (swap_cells A j i) Q \<longleftrightarrow> i < length A \<and> j < length A \<and> Q (A[j := A ! i, i := A ! j])"
  by (auto simp: swap_cells_def safe_simps)

lemma ranked_mset: "mset A' = mset A \<Longrightarrow> ranked R A' = ranked R A"
  by (auto simp: ranked_def dest: mset_eq_setD)

text \<open>Sifting down fills the hole: it returns, permutes the heap's cells and restores the order.\<close>

lemma AdjustHeap_ok:
  assumes "ranked R A" "h \<le> length A" "i < h" "m \<le> i" "heap_hole (below R) A m h i"
  shows "ok (AdjustHeap A h i R) (\<lambda>A'. heap_from (below R) A' m h \<and> mset A' = mset A \<and>
           (\<forall>k. h \<le> k \<longrightarrow> A' ! k = A ! k))"
  using assms
proof (induction A h i R rule: AdjustHeap.induct)
  case (1 A h i R)
  have chd: "\<And>c. 0 < c \<Longrightarrow> parent c = i \<longleftrightarrow> c = 2 * i + 1 \<or> c = 2 * i + 2"
    by (rule parent_eq_iff)
  show ?case
  proof (cases "2 * i + 1 < h \<or> 2 * i + 2 < h")
    case False
    then have "heap_from (below R) A m h"
      using "1.prems"(5) by (intro moves.heap_hole_closed[of R A m h i]) (auto simp: chd)
    with False show ?thesis by (simp add: AdjustHeap.simps[of A h i R])
  next
    case True
    obtain l1 where l1: "pick A h R i (2 * i + 1) = Inr l1" "l1 < h" "l1 = i \<or> l1 = 2 * i + 1"
      "below R (A ! i) (A ! l1)" "2 * i + 1 < h \<longrightarrow> below R (A ! (2 * i + 1)) (A ! l1)"
      using pick_ok[OF "1.prems"(1,2,3)] by (auto simp: ok_iff)
    obtain l2 where l2: "pick A h R l1 (2 * i + 2) = Inr l2" "l2 < h" "l2 = l1 \<or> l2 = 2 * i + 2"
      "below R (A ! l1) (A ! l2)" "2 * i + 2 < h \<longrightarrow> below R (A ! (2 * i + 2)) (A ! l2)"
      using pick_ok[OF "1.prems"(1,2) l1(2)] by (auto simp: ok_iff)
    have top: "below R (A ! c) (A ! l2)" if "c < h" "0 < c" "parent c = i" for c
      using l1 l2 that moves.below_trans by (auto simp: chd)
    have unf: "AdjustHeap A h i R = (if i \<noteq> l2 then sbind (swap_cells A l2 i) (\<lambda>A'. AdjustHeap A' h l2 R) else Inr A)"
      using True l1(1) l2(1) by (simp add: AdjustHeap.simps[of A h i R])
    show ?thesis
    proof (cases "i = l2")
      case True
      then have "heap_from (below R) A m h"
        using top "1.prems"(5) by (intro moves.heap_hole_closed[of R A m h i]) auto
      with True show ?thesis by (subst unf) simp
    next
      case False
      then have l2c: "0 < l2" "parent l2 = i" "i < l2" using l1 l2 by (auto simp: chd)
      let ?B = "A[l2 := A ! i, i := A ! l2]"
      have len: "i < length A" "l2 < length A" using "1.prems" l2 by auto
      have sw: "swap_cells A l2 i = Inr ?B" using len by (simp add: swap_cells_def)
      have hole: "heap_hole (below R) ?B m h l2"
        using "1.prems" l2 l2c top l1 moves.below_trans by (intro moves.heap_hole_down) blast+
      have ms: "mset ?B = mset A" using len by (intro mset_swap)
      have "ok (AdjustHeap ?B h l2 R) (\<lambda>A'. heap_from (below R) A' m h \<and> mset A' = mset ?B \<and>
              (\<forall>k. h \<le> k \<longrightarrow> A' ! k = ?B ! k))"
        using "1.IH"[OF refl refl True l1(1) l2(1) False sw] "1.prems" l2 l2c hole ranked_mset[OF ms]
        by simp
      then show ?thesis
        using False sw ms "1.prems"(3) l2(2) by (auto simp: unf elim!: ok_mono)
    qed
  qed
qed

text \<open>Building the heap from the last inner cell down to the root.\<close>

lemma BuildHeap_ok:
  assumes "ranked R A" "h \<le> length A"
  shows "ok (BuildHeap A h R) (\<lambda>A'. heap_from (below R) A' 0 h \<and> mset A' = mset A \<and>
           (\<forall>k. h \<le> k \<longrightarrow> A' ! k = A ! k))"
proof -
  have "ok (mfold (\<lambda>A i. AdjustHeap A h i R) A (rev [0..<h div 2]))
     (\<lambda>A'. heap_from (below R) A' (h div 2 - length (rev [0..<h div 2])) h \<and> mset A' = mset A \<and>
           (\<forall>k. h \<le> k \<longrightarrow> A' ! k = A ! k))"
  proof (rule mfold_ok_prefix[where I = "\<lambda>ys A'. heap_from (below R) A' (h div 2 - length ys) h \<and>
           mset A' = mset A \<and> (\<forall>k. h \<le> k \<longrightarrow> A' ! k = A ! k)"], goal_cases)
    case 1
    show ?case by (auto simp: heap_from_def parent_def)
  next
    case (2 ys z zs B)
    have "length ys < length (rev [0..<h div 2])" by (simp add: 2(1) del: length_rev)
    moreover have "z = rev [0..<h div 2] ! length ys" by (simp add: 2(1))
    ultimately have z: "z = h div 2 - Suc (length ys)" "length ys < h div 2"
      by (simp_all add: rev_nth)
    then have hd: "h div 2 - length ys = Suc z" by simp
    have B: "mset B = mset A" "\<forall>k. h \<le> k \<longrightarrow> B ! k = A ! k" "heap_from (below R) B (Suc z) h"
      using 2(2) hd by auto
    have "heap_hole (below R) B z h z"
      using B(3) by (rule moves.heap_hole_new)
    moreover have "length B = length A" using B(1) by (rule mset_eq_length)
    ultimately have "ok (AdjustHeap B h z R) (\<lambda>A'. heap_from (below R) A' z h \<and> mset A' = mset B \<and>
           (\<forall>k. h \<le> k \<longrightarrow> A' ! k = B ! k))"
      using assms z ranked_mset[OF B(1)] by (intro AdjustHeap_ok) auto
    then show ?case using B z hd by (auto elim!: ok_mono)
  qed
  then show ?thesis by (simp add: BuildHeap_def)
qed

section \<open>What the heap gives its client\<close>

text \<open>
  C23. With \<open>renew\<close> set, \<open>getMax\<close> accesses only cells of the array, permutes the
  \<open>hLen\<close> cells of the heap, leaves the cells behind them alone, and puts in the last heap
  cell a candidate that no other candidate of the heap beats: none has a larger modularity, and
  among those with the same modularity none has a smaller rank.
\<close>

theorem getMax_renew_max:
  assumes "ranked R A" "0 < h" "h \<le> length A" "renew self"
  shows "\<exists>A'. getMax self A h R = Inr A' \<and> mset A' = mset A \<and>
     (\<forall>k. h \<le> k \<longrightarrow> A' ! k = A ! k) \<and>
     (\<forall>k < h. dMod (A' ! k) < dMod (A' ! (h - 1)) \<or>
        dMod (A' ! k) = dMod (A' ! (h - 1)) \<and> R ! node (A' ! (h - 1)) \<le> R ! node (A' ! k))"
proof -
  obtain B where B: "BuildHeap A h R = Inr B" "heap_from (below R) B 0 h" "mset B = mset A"
    "\<forall>k. h \<le> k \<longrightarrow> B ! k = A ! k"
    using BuildHeap_ok[OF assms(1,3)] by (auto simp: ok_iff)
  have len: "length B = length A" using B(3) by (rule mset_eq_length)
  have h: "h - 1 < length B" "0 < length B" using assms len by auto
  let ?C = "B[h - 1 := B ! 0, 0 := B ! (h - 1)]"
  have g: "getMax self A h R = Inr ?C"
    using assms h B(1) by (simp add: getMax_def swap_cells_def)
  have C: "?C ! k = (if k = 0 then B ! (h - 1) else if k = h - 1 then B ! 0 else B ! k)" if "k < length B" for k
    using that h by (auto simp: nth_list_update)
  have top: "?C ! (h - 1) = B ! 0" using h by (cases "h = 1") (auto simp: nth_list_update)
  have "below R (?C ! k) (?C ! (h - 1))" if "k < h" for k
  proof -
    have "k < length B" using that assms(3) len by simp
    then have "\<exists>j < h. ?C ! k = B ! j" using that assms(2) C[of k] by (metis diff_less zero_less_one)
    with moves.heap_root_max[OF B(2)] top show ?thesis by auto
  qed
  then have "\<forall>k < h. dMod (?C ! k) < dMod (?C ! (h - 1)) \<or>
        dMod (?C ! k) = dMod (?C ! (h - 1)) \<and> R ! node (?C ! (h - 1)) \<le> R ! node (?C ! k)"
    by (auto simp: below_def)
  moreover have "mset ?C = mset A" using mset_swap[OF h(2,1)] B(3) by simp
  moreover have "\<forall>k. h \<le> k \<longrightarrow> ?C ! k = A ! k" using B(4) assms(2) by auto
  ultimately show ?thesis using g by blast
qed

definition sample_moves :: "ModStruct list" where
  "sample_moves = [\<lparr>node = 0, dMod = 1\<rparr>, \<lparr>node = 1, dMod = 3\<rparr>, \<lparr>node = 2, dMod = 2\<rparr>]"

theorem getMax_renew_max_witness:
  "\<exists>A'. getMax \<lparr>renew = True\<rparr> sample_moves 3 [0, 1, 2] = Inr A' \<and> mset A' = mset sample_moves \<and>
     (\<forall>k. 3 \<le> k \<longrightarrow> A' ! k = sample_moves ! k) \<and>
     (\<forall>k < 3. dMod (A' ! k) < dMod (A' ! (3 - 1)) \<or>
        dMod (A' ! k) = dMod (A' ! (3 - 1)) \<and> [0, 1, 2] ! node (A' ! (3 - 1)) \<le> ([0, 1, 2] :: int list) ! node (A' ! k))"
  by (rule getMax_renew_max) (auto simp: ranked_def sample_moves_def)

text \<open>
  C40. With \<open>renew\<close> not set, \<open>getMax\<close> only sifts down from the root and swaps nothing
  into the last heap cell: on a heap whose root was just replaced it returns a heap with the
  same cells, and the best candidate is in cell \<open>0\<close>, not in the cell \<open>hLen - 1\<close> that
  \<open>HillClimbing\<close> reads next.
\<close>

theorem getMax_no_renew_root:
  assumes "ranked R A" "0 < h" "h \<le> length A" "\<not> renew self" "heap_from (below R) A 1 h"
  shows "\<exists>A'. getMax self A h R = Inr A' \<and> mset A' = mset A \<and> heap_from (below R) A' 0 h \<and>
     (\<forall>k < h. below R (A' ! k) (A' ! 0))"
proof -
  have "heap_hole (below R) A 0 h 0"
    using moves.heap_hole_new[of R A 0 h] assms(5) by simp
  then obtain A' where "AdjustHeap A h 0 R = Inr A'" "heap_from (below R) A' 0 h" "mset A' = mset A"
    using AdjustHeap_ok[of R A h 0 0] assms by (auto simp: ok_iff)
  with moves.heap_root_max assms(4) show ?thesis by (auto simp: getMax_def)
qed

theorem getMax_no_renew_root_witness:
  "(\<exists>A'. getMax \<lparr>renew = False\<rparr> sample_moves 3 [0, 1, 2] = Inr A' \<and> mset A' = mset sample_moves \<and>
     heap_from (below [0, 1, 2]) A' 0 3 \<and> (\<forall>k < 3. below [0, 1, 2] (A' ! k) (A' ! 0)))
   \<and> (\<exists>A'. getMax \<lparr>renew = False\<rparr> sample_moves 3 [0, 1, 2] = Inr A' \<and> dMod (A' ! 2) < dMod (A' ! 0))"
proof (intro conjI)
  show "\<exists>A'. getMax \<lparr>renew = False\<rparr> sample_moves 3 [0, 1, 2] = Inr A' \<and> mset A' = mset sample_moves \<and>
     heap_from (below [0, 1, 2]) A' 0 3 \<and> (\<forall>k < 3. below [0, 1, 2] (A' ! k) (A' ! 0))"
    by (rule getMax_no_renew_root) (auto simp: ranked_def sample_moves_def heap_from_def parent_def)
  have "getMax \<lparr>renew = False\<rparr> sample_moves 3 [0, 1, 2] =
      Inr [\<lparr>node = 1, dMod = 3\<rparr>, \<lparr>node = 0, dMod = 1\<rparr>, \<lparr>node = 2, dMod = 2\<rparr>]"
    by code_simp
  then show "\<exists>A'. getMax \<lparr>renew = False\<rparr> sample_moves 3 [0, 1, 2] = Inr A' \<and> dMod (A' ! 2) < dMod (A' ! 0)"
    by simp
qed

end
