(* ===== verification/HillClimb.thy ===== *)
theory HillClimb
  imports Modularity HeapSort
begin

text \<open>
  The refinement of a bipartition by moving cut vertices: \<open>NodeRank\<close>,
  \<open>FindZeroNodeCount\<close>, \<open>HillClimbing\<close>, \<open>OptimalSteps\<close>, \<open>HillClimbingBigEdgeFirst\<close> and
  \<open>myFM\<close> of \<open>src/CArchitecture/Multilevel.cpp\<close>.
\<close>

section \<open>Ranks of the cut vertices\<close>

text \<open>The largest \<open>nodeNum\<close> of the cut edges, at least 0.\<close>

definition max_nodeNum :: "CMygraph \<Rightarrow> nat list \<Rightarrow> error + int" where
  "max_nodeNum g cutEdges = mfold (\<lambda>mx e. sbind (aget (pAllEdges g) e) (\<lambda>en.
     Inr (if e_nodeNum en > mx then e_nodeNum en else mx))) 0 cutEdges"

definition add_size_bucket :: "CMygraph \<Rightarrow> nat list list \<Rightarrow> nat \<Rightarrow> error + nat list list" where
  "add_size_bucket g NodeMap e = sbind (aget (pAllEdges g) e) (\<lambda>en.
     sbind (agetI NodeMap (e_nodeNum en)) (\<lambda>chain. asetI NodeMap (e_nodeNum en) (e # chain)))"

definition size_buckets :: "CMygraph \<Rightarrow> nat list \<Rightarrow> int \<Rightarrow> error + nat list list" where
  "size_buckets g cutEdges mx =
     mfold (add_size_bucket g) (replicate (nat (mx + 1)) []) cutEdges"

text \<open>\<open>RankValue\<close> and \<open>step\<close> always change together; both are kept, as in the code.\<close>

record ranking =
  ExitInList :: "(nat, bool) smap"
  Node_Rank :: "int list"
  RankValue :: int
  rstep :: nat

definition rank_node :: "ranking \<Rightarrow> nat \<Rightarrow> error + ranking" where
  "rank_node s v =
     (if sfind (ExitInList s) v = None then
        sbind (aset (Node_Rank s) v (RankValue s)) (\<lambda>R.
          Inr \<lparr>ExitInList = sinsert v True (ExitInList s), Node_Rank = R,
               RankValue = RankValue s + 1, rstep = rstep s + 1\<rparr>)
      else Inr s)"

fun rank_pins :: "nat \<Rightarrow> ranking \<Rightarrow> nat list \<Rightarrow> error + ranking" where
  "rank_pins cnt s [] = Inr s"
| "rank_pins cnt s (v # vs) =
     sbind (rank_node s v) (\<lambda>s. if cnt \<le> rstep s then Inr s else rank_pins cnt s vs)"

fun rank_chain :: "CMygraph \<Rightarrow> nat \<Rightarrow> ranking \<Rightarrow> nat list \<Rightarrow> error + ranking" where
  "rank_chain g cnt s [] = Inr s"
| "rank_chain g cnt s (e # es) =
     sbind (aget (pAllEdges g) e) (\<lambda>en. sbind (rank_pins cnt s (e_firstarc en)) (\<lambda>s.
       if cnt \<le> rstep s then Inr s else rank_chain g cnt s es))"

fun rank_buckets :: "CMygraph \<Rightarrow> nat list list \<Rightarrow> nat \<Rightarrow> ranking \<Rightarrow> nat list \<Rightarrow> error + ranking" where
  "rank_buckets g NodeMap cnt s [] = Inr s"
| "rank_buckets g NodeMap cnt s (i # is) =
     sbind (aget NodeMap i) (\<lambda>chain.
       if chain = [] then rank_buckets g NodeMap cnt s is
       else sbind (rank_chain g cnt s chain) (\<lambda>s.
         if cnt \<le> rstep s then Inr s else rank_buckets g NodeMap cnt s is))"

text \<open>\<open>while (step < cutNodes.size())\<close>\<close>

fun rank_loop :: "nat \<Rightarrow> CMygraph \<Rightarrow> nat list list \<Rightarrow> nat \<Rightarrow> ranking \<Rightarrow> error + ranking" where
  "rank_loop 0 g NodeMap cnt s = Inl OutOfFuel"
| "rank_loop (Suc fuel) g NodeMap cnt s =
     (if rstep s < cnt
      then sbind (rank_buckets g NodeMap cnt s (rev [0..<length NodeMap])) (rank_loop fuel g NodeMap cnt)
      else Inr s)"

definition NodeRank :: "CMygraph \<Rightarrow> nat list \<Rightarrow> nat list \<Rightarrow> int list \<Rightarrow> error + int list" where
  "NodeRank g cutNodes cutEdges R =
     sbind (max_nodeNum g cutEdges) (\<lambda>mx. sbind (size_buckets g cutEdges mx) (\<lambda>NodeMap.
     sbind (rank_loop 2 g NodeMap (length cutNodes)
              \<lparr>ExitInList = [], Node_Rank = R, RankValue = 0, rstep = 0\<rparr>) (\<lambda>s.
       Inr (Node_Rank s))))"

section \<open>Counting the vertices of part 0\<close>

definition zero_pin :: "int list \<Rightarrow> nat \<Rightarrow> int list \<times> Vnode list \<Rightarrow> nat \<Rightarrow> error + int list \<times> Vnode list" where
  "zero_pin pr e = (\<lambda>(PartZero, pCutNodes) v.
     sbind (aget pr v) (\<lambda>x.
     sbind (if x = 0 then sbind (aget PartZero e) (\<lambda>c. aset PartZero e (c + 1)) else Inr PartZero) (\<lambda>PartZero.
     sbind (aget pCutNodes v) (\<lambda>vn.
     sbind (aset pCutNodes v (vn\<lparr>v_firstarc := e # v_firstarc vn, v_nodeNum := v_nodeNum vn + 1\<rparr>)) (\<lambda>pCutNodes.
       Inr (PartZero, pCutNodes))))))"

definition FindZeroNodeCount :: "CMygraph \<Rightarrow> nat list \<Rightarrow> int list \<Rightarrow> int list \<Rightarrow> Vnode list \<Rightarrow>
    error + int list \<times> Vnode list" where
  "FindZeroNodeCount g cutEdges PartZero pr pCutNodes =
     mfold (\<lambda>s e. sbind (aget (pAllEdges g) e) (\<lambda>en. mfold (zero_pin pr e) s (e_firstarc en)))
       (PartZero, pCutNodes) cutEdges"

section \<open>Hill climbing\<close>

record Stone =
  curModu :: double
  s_node :: int
  isChanged :: bool

text \<open>The modularity after moving \<open>node\<close> to the other part; the array is restored.\<close>

definition trial :: "CMygraph \<Rightarrow> int list \<Rightarrow> nat \<Rightarrow> error + double" where
  "trial g pr nd = sbind (aget pr nd) (\<lambda>x.
     if x = 0 then ComputeModularity g (pr[nd := 1])
     else if x = 1 then ComputeModularity g (pr[nd := 0])
     else Inr 0)"

definition initial_moves :: "CMygraph \<Rightarrow> int list \<Rightarrow> nat list \<Rightarrow> error + ModStruct list" where
  "initial_moves g pr cutNodes =
     mfold (\<lambda>A v. sbind (trial g pr v) (\<lambda>m. Inr (A @ [\<lparr>node = v, dMod = m\<rparr>]))) [] cutNodes"

text \<open>
  The update of \<open>PartZeroNodeCount\<close> for one edge of the moved vertex, whose part is \<open>x\<close>.
  The second branch repeats the test of the source, \<open>part_res[..] == 0\<close>, which cannot hold there.
\<close>

definition renew_edge :: "CMygraph \<Rightarrow> int \<Rightarrow> int list \<times> bool \<Rightarrow> nat \<Rightarrow> error + int list \<times> bool" where
  "renew_edge g x = (\<lambda>(PartZero, renew) e.
     if x = 0 then
       sbind (aget PartZero e) (\<lambda>c. sbind (aget (pAllEdges g) e) (\<lambda>en.
         let renew = (renew \<or> c = e_nodeNum en) in
         sbind (aset PartZero e (c - 1)) (\<lambda>PartZero. Inr (PartZero, renew \<or> c - 1 = 0))))
     else if x = 1 then
       let renew = (renew \<or> x = 0) in
       sbind (aget PartZero e) (\<lambda>c. sbind (aset PartZero e (c + 1)) (\<lambda>PartZero.
       sbind (aget (pAllEdges g) e) (\<lambda>en. Inr (PartZero, renew \<or> c + 1 = e_nodeNum en))))
     else Inr (PartZero, renew))"

definition refresh :: "CMygraph \<Rightarrow> int list \<Rightarrow> ModStruct list \<Rightarrow> nat \<Rightarrow> error + ModStruct list" where
  "refresh g pr A i = sbind (aget A i) (\<lambda>a. sbind (trial g pr (node a)) (\<lambda>m. aset A i (a\<lparr>dMod := m\<rparr>)))"

record climb =
  cl_part :: "int list"
  cl_zero :: "int list"
  cl_list :: "ModStruct list"
  HeapLen :: nat
  fixnum :: nat
  mySort :: CHeapSort
  Hill :: "Stone list"
  maxModu :: double

text \<open>One move: the body of the loop after the test \<open>HeapLen == 0\<close>.\<close>

definition climb_move :: "CMygraph \<Rightarrow> Vnode list \<Rightarrow> climb \<Rightarrow> error + climb" where
  "climb_move g pCutNodes st =
     sbind (aget (cl_list st) (HeapLen st)) (\<lambda>a.
     sbind (aget pCutNodes (node a)) (\<lambda>vn. sbind (aget (cl_part st) (node a)) (\<lambda>x.
     sbind (mfold (renew_edge g x) (cl_zero st, False) (v_firstarc vn)) (\<lambda>(zero, rn).
     sbind (aset (cl_part st) (node a) (if x = 1 then 0 else 1)) (\<lambda>pr.
       let st = st\<lparr>cl_part := pr, cl_zero := zero,
                   Hill := \<lparr>curModu = dMod a, s_node = int (node a), isChanged = True\<rparr> # Hill st,
                   maxModu := (if dMod a > maxModu st then dMod a else maxModu st)\<rparr> in
       if rn then
         sbind (mfold (refresh g pr) (cl_list st) [0..<HeapLen st]) (\<lambda>A.
           Inr (st\<lparr>cl_list := A, mySort := (mySort st)\<lparr>renew := True\<rparr>\<rparr>))
       else Inr st)))))"

text \<open>
  \<open>while (fixnum < cutNodes.size() && fixnum < iDistance)\<close>: the first argument is
  \<open>iDistance - fixnum\<close>.
\<close>

fun climb_loop :: "nat \<Rightarrow> CMygraph \<Rightarrow> nat \<Rightarrow> int list \<Rightarrow> Vnode list \<Rightarrow> climb \<Rightarrow> error + climb" where
  "climb_loop 0 g cnt R pCutNodes st = Inr st"
| "climb_loop (Suc k) g cnt R pCutNodes st =
     (if fixnum st < cnt then
        sbind (getMax (mySort st) (cl_list st) (HeapLen st) R) (\<lambda>A.
          let st = st\<lparr>cl_list := A, mySort := (mySort st)\<lparr>renew := False\<rparr>,
                      fixnum := fixnum st + 1, HeapLen := HeapLen st - 1\<rparr> in
          if HeapLen st = 0 then Inr st
          else sbind (climb_move g pCutNodes st) (climb_loop k g cnt R pCutNodes))
      else Inr st)"

fun rollback :: "double \<Rightarrow> int list \<Rightarrow> Stone list \<Rightarrow> error + int list" where
  "rollback mx pr [] = Inr pr"
| "rollback mx pr (s # hill) =
     (if curModu s = mx then Inr pr
      else if isChanged s then
        sbind (agetI pr (s_node s)) (\<lambda>x. sbind (asetI pr (s_node s) (if x = 0 then 1 else 0)) (\<lambda>pr.
          rollback mx pr hill))
      else rollback mx pr hill)"

definition iDistance :: nat where
  "iDistance = 20"

definition HillClimbing :: "CMygraph \<Rightarrow> int list \<Rightarrow> nat list \<Rightarrow> int list \<Rightarrow> int list \<Rightarrow> Vnode list \<Rightarrow>
    error + int list \<times> double" where
  "HillClimbing g pr cutNodes R PartZero pCutNodes =
     sbind (ComputeModularity g pr) (\<lambda>m0. sbind (initial_moves g pr cutNodes) (\<lambda>A.
     sbind (climb_loop iDistance g (length cutNodes) R pCutNodes
        \<lparr>cl_part = pr, cl_zero = PartZero, cl_list = A, HeapLen = length cutNodes, fixnum = 0,
         mySort = CHeapSort_init, Hill = [\<lparr>curModu = m0, s_node = - 1, isChanged = False\<rparr>],
         maxModu = m0\<rparr>) (\<lambda>st.
     sbind (rollback (maxModu st) (cl_part st) (Hill st)) (\<lambda>pr. Inr (pr, maxModu st)))))"

section \<open>The other two strategies of the source, and the driver\<close>

text \<open>The scan of \<open>OptimalSteps\<close> for the best vertex that is not fixed.\<close>

definition optimal_scan :: "CMygraph \<Rightarrow> int list \<Rightarrow> int list \<Rightarrow> (nat, bool) smap \<Rightarrow> double \<Rightarrow>
    double \<times> int \<Rightarrow> nat \<Rightarrow> error + double \<times> int" where
  "optimal_scan g R pr fixed cur0 = (\<lambda>(addmodu, fix) v.
     if sfind fixed v \<noteq> None then Inr (addmodu, fix)
     else sbind (trial g pr v) (\<lambda>cur.
       let d = dsub cur cur0;
           (addmodu, fix) = (if d > addmodu then (d, int v) else (addmodu, fix)) in
       if d = addmodu then
         sbind (aget R v) (\<lambda>rv. sbind (agetI R fix) (\<lambda>rf.
           Inr (if rv < rf then (d, int v) else (addmodu, fix))))
       else Inr (addmodu, fix)))"

text \<open>The argument counts \<open>cutNodes.size() - fixnum\<close>.\<close>

fun optimal_loop :: "nat \<Rightarrow> CMygraph \<Rightarrow> nat list \<Rightarrow> int list \<Rightarrow> int list \<Rightarrow> (nat, bool) smap \<Rightarrow>
    error + int list \<times> double" where
  "optimal_loop 0 g cutNodes R pr fixed = sbind (ComputeModularity g pr) (\<lambda>m. Inr (pr, m))"
| "optimal_loop (Suc k) g cutNodes R pr fixed =
     sbind (ComputeModularity g pr) (\<lambda>m.
     sbind (mfold (optimal_scan g R pr fixed m) (0, - 1) cutNodes) (\<lambda>(addmodu, fix).
       if fix = - 1 then Inr (pr, m)
       else sbind (agetI pr fix) (\<lambda>x. sbind (asetI pr fix (if x = 1 then 0 else 1)) (\<lambda>pr.
         optimal_loop k g cutNodes R pr (sinsert (nat fix) True fixed)))))"

definition OptimalSteps :: "CMygraph \<Rightarrow> nat list \<Rightarrow> int list \<Rightarrow> int list \<Rightarrow> error + int list \<times> double" where
  "OptimalSteps g cutNodes pr R = optimal_loop (length cutNodes) g cutNodes R pr []"

text \<open>
  \<open>HillClimbingBigEdgeFirst\<close> collects at most \<open>iDistance\<close> vertices in the order of
  \<open>NodeRank\<close>, moves them one after the other and goes back to the best state.
\<close>

record picking =
  p_exit :: "(nat, bool) smap"
  NodesList :: "nat list"
  p_step :: nat

definition pick_node :: "picking \<Rightarrow> nat \<Rightarrow> picking" where
  "pick_node s v = (if sfind (p_exit s) v = None
     then \<lparr>p_exit = sinsert v True (p_exit s), NodesList = NodesList s @ [v], p_step = p_step s + 1\<rparr> else s)"

fun pick_pins :: "nat \<Rightarrow> picking \<Rightarrow> nat list \<Rightarrow> picking" where
  "pick_pins bnd s [] = s"
| "pick_pins bnd s (v # vs) =
     (let s = pick_node s v in if bnd \<le> p_step s then s else pick_pins bnd s vs)"

fun pick_chain :: "CMygraph \<Rightarrow> nat \<Rightarrow> picking \<Rightarrow> nat list \<Rightarrow> error + picking" where
  "pick_chain g bnd s [] = Inr s"
| "pick_chain g bnd s (e # es) =
     sbind (aget (pAllEdges g) e) (\<lambda>en. let s = pick_pins bnd s (e_firstarc en) in
       if bnd \<le> p_step s then Inr s else pick_chain g bnd s es)"

fun pick_buckets :: "CMygraph \<Rightarrow> nat list list \<Rightarrow> nat \<Rightarrow> picking \<Rightarrow> nat list \<Rightarrow> error + picking" where
  "pick_buckets g NodeMap bnd s [] = Inr s"
| "pick_buckets g NodeMap bnd s (i # is) =
     sbind (aget NodeMap i) (\<lambda>chain.
       if chain = [] then pick_buckets g NodeMap bnd s is
       else sbind (pick_chain g bnd s chain) (\<lambda>s.
         if bnd \<le> p_step s then Inr s else pick_buckets g NodeMap bnd s is))"

fun pick_loop :: "nat \<Rightarrow> CMygraph \<Rightarrow> nat list list \<Rightarrow> nat \<Rightarrow> picking \<Rightarrow> error + picking" where
  "pick_loop 0 g NodeMap bnd s = Inl OutOfFuel"
| "pick_loop (Suc fuel) g NodeMap bnd s =
     (if p_step s < bnd
      then sbind (pick_buckets g NodeMap bnd s (rev [0..<length NodeMap])) (pick_loop fuel g NodeMap bnd)
      else Inr s)"

text \<open>The moves: the stack of stones, the partition and the best value so far.\<close>

definition big_move :: "CMygraph \<Rightarrow> int list \<times> Stone list \<times> double \<Rightarrow> nat \<Rightarrow>
    error + int list \<times> Stone list \<times> double" where
  "big_move g = (\<lambda>(pr, hill, mx) v.
     sbind (aget pr v) (\<lambda>x. sbind (aset pr v (if x = 0 then 1 else 0)) (\<lambda>pr.
     sbind (ComputeModularity g pr) (\<lambda>m.
       Inr (pr, \<lparr>curModu = m, s_node = int v, isChanged = True\<rparr> # hill, if m > mx then m else mx)))))"

text \<open>Here the move of a stone is undone before the stone's value is compared.\<close>

fun big_rollback :: "double \<Rightarrow> int list \<Rightarrow> Stone list \<Rightarrow> error + int list" where
  "big_rollback mx pr [] = Inr pr"
| "big_rollback mx pr (s # hill) =
     sbind (if isChanged s
            then sbind (agetI pr (s_node s)) (\<lambda>x. asetI pr (s_node s) (if x = 0 then 1 else 0))
            else Inr pr) (\<lambda>pr.
       if curModu s = mx then Inr pr else big_rollback mx pr hill)"

definition HillClimbingBigEdgeFirst :: "CMygraph \<Rightarrow> int list \<Rightarrow> nat list \<Rightarrow> nat list \<Rightarrow> error + int list" where
  "HillClimbingBigEdgeFirst g pr cutNodes cutEdges =
     sbind (max_nodeNum g cutEdges) (\<lambda>mx. sbind (size_buckets g cutEdges mx) (\<lambda>NodeMap.
     sbind (pick_loop 2 g NodeMap (min iDistance (length cutNodes))
              \<lparr>p_exit = [], NodesList = [], p_step = 0\<rparr>) (\<lambda>s.
     sbind (ComputeModularity g pr) (\<lambda>m0.
     sbind (mfold (big_move g) (pr, [\<lparr>curModu = m0, s_node = - 1, isChanged = False\<rparr>], m0) (NodesList s))
       (\<lambda>(pr, hill, mx). big_rollback mx pr hill)))))"

text \<open>
  \<open>memset(Node_Rank, -1, nvetes)\<close> writes \<open>nvetes\<close> bytes, not \<open>nvetes\<close> integers: the
  integers that lie wholly in the first \<open>nvetes\<close> bytes become \<open>-1\<close>.
\<close>

definition rank_memset :: "(nat \<Rightarrow> int) \<Rightarrow> nat \<Rightarrow> int list" where
  "rank_memset mem n = map (\<lambda>i. if 4 * (i + 1) \<le> n then - 1 else mem i) [0..<n]"

definition cut_node_cells :: "CMygraph \<Rightarrow> error + Vnode list" where
  "cut_node_cells g = mfold (\<lambda>V i. sbind (aget (pAllVertices g) i) (\<lambda>vn.
     Inr (V @ [\<lparr>v_node = i, Vweight = Vweight vn, v_nodeNum = 0, v_firstarc = []\<rparr>]))) [] [0..<nvetes g]"

definition myFM :: "(nat \<Rightarrow> int) \<Rightarrow> CMygraph \<Rightarrow> int list \<Rightarrow> error + int list \<times> double" where
  "myFM mem g pr =
     sbind (FindCutEdges g pr) (\<lambda>cutEdges. sbind (FindCutNodes g cutEdges) (\<lambda>cutNodes.
     sbind (NodeRank g cutNodes cutEdges (rank_memset mem (nvetes g))) (\<lambda>R.
     sbind (cut_node_cells g) (\<lambda>pCutNodes.
     sbind (FindZeroNodeCount g cutEdges (replicate (g_nhedges g) 0) pr pCutNodes) (\<lambda>(zero, pCutNodes).
       HillClimbing g pr cutNodes R zero pCutNodes)))))"

section \<open>Flipping vertices\<close>

definition flip :: "int list \<Rightarrow> nat \<Rightarrow> int list" where
  "flip pr v = pr[v := (if pr ! v = 1 then 0 else 1)]"

abbreviation flips :: "int list \<Rightarrow> nat list \<Rightarrow> int list" where
  "flips pr vs \<equiv> foldl flip pr vs"

lemma bipart_flip [simp]: "bipart g pr \<Longrightarrow> bipart g (flip pr v)"
  by (simp add: flip_def bipart_update)

lemma bipart_flips [simp]: "bipart g pr \<Longrightarrow> bipart g (flips pr vs)"
  by (induction vs arbitrary: pr) auto

lemma bipart_length: "bipart g pr \<Longrightarrow> length pr = nvetes g"
  by (simp add: bipart_def)

lemma bipart_nth: "bipart g pr \<Longrightarrow> v < nvetes g \<Longrightarrow> pr ! v = 0 \<or> pr ! v = 1"
  by (simp add: bipart_def)

lemma flip_flip: "bipart g pr \<Longrightarrow> v < nvetes g \<Longrightarrow> flip (flip pr v) v = pr"
  using bipart_nth[of g pr v] bipart_length[of g pr] by (auto simp: flip_def list_update_same_conv)

lemma trial_eq:
  assumes "wf_mygraph g" "bipart g pr" "v < nvetes g"
  shows "trial g pr v = Inr (modularity g (flip pr v))"
  using ComputeModularity_eq[OF assms(1) bipart_flip[OF assms(2)], of v] bipart_nth[OF assms(2,3)]
    bipart_length[OF assms(2)] assms(3)
  by (auto simp: trial_def flip_def)

lemma initial_moves_eq:
  assumes "wf_mygraph g" "bipart g pr" "\<forall>v \<in> set vs. v < nvetes g"
  shows "initial_moves g pr vs = Inr (map (\<lambda>v. \<lparr>node = v, dMod = modularity g (flip pr v)\<rparr>) vs)"
proof -
  have "mfold (\<lambda>A v. sbind (trial g pr v) (\<lambda>m. Inr (A @ [\<lparr>node = v, dMod = m\<rparr>]))) acc vs =
      Inr (acc @ map (\<lambda>v. \<lparr>node = v, dMod = modularity g (flip pr v)\<rparr>) vs)" for acc
    using assms(3) by (induction vs arbitrary: acc) (auto simp: trial_eq[OF assms(1,2)])
  then show ?thesis by (simp add: initial_moves_def)
qed

text \<open>Recomputing the values of the candidates still in the heap.\<close>

lemma refresh_ok:
  assumes "wf_mygraph g" "bipart g pr" "h \<le> length A" "\<forall>a \<in> set A. node a < nvetes g"
  shows "ok (mfold (refresh g pr) A [0..<h]) (\<lambda>A'. map node A' = map node A \<and> drop h A' = drop h A \<and>
     (\<forall>k < h. dMod (A' ! k) = modularity g (flip pr (node (A ! k)))))"
proof (rule mfold_ok_upt[where I = "\<lambda>n A'. map node A' = map node A \<and> drop h A' = drop h A \<and>
     (\<forall>k < n. dMod (A' ! k) = modularity g (flip pr (node (A ! k))))"], goal_cases)
  case (3 i B)
  have len: "length B = length A" using 3 map_eq_imp_length_eq by blast
  have nd: "node (B ! i) = node (A ! i)" "node (A ! i) < nvetes g"
    using 3 len assms(3,4) by (auto dest: arg_cong[where f = "\<lambda>l. l ! i"])
  have "map node (B[i := (B ! i)\<lparr>dMod := d\<rparr>]) = map node A" for d
    using 3 len nd assms(3) by (simp add: map_update list_update_same_conv)
  then show ?case
    using 3 len nd assms by (auto simp: refresh_def safe_simps trial_eq nth_list_update less_Suc_eq)
qed auto

text \<open>Whatever the values, \<open>getMax\<close> only permutes the cells of the heap.\<close>

lemma AdjustHeap_perm:
  assumes "ranked R A" "h \<le> length A" "i < h"
  shows "ok (AdjustHeap A h i R) (\<lambda>A'. mset A' = mset A \<and> (\<forall>k. h \<le> k \<longrightarrow> A' ! k = A ! k))"
  using assms
proof (induction A h i R rule: AdjustHeap.induct)
  case (1 A h i R)
  show ?case
  proof (cases "2 * i + 1 < h \<or> 2 * i + 2 < h")
    case True
    obtain l1 where l1: "pick A h R i (2 * i + 1) = Inr l1" "l1 < h"
      using pick_ok[OF "1.prems"] by (auto simp: ok_iff)
    obtain l2 where l2: "pick A h R l1 (2 * i + 2) = Inr l2" "l2 < h"
      using pick_ok[OF "1.prems"(1,2) l1(2)] by (auto simp: ok_iff)
    let ?B = "A[l2 := A ! i, i := A ! l2]"
    have len: "i < length A" "l2 < length A" using "1.prems" l2 by auto
    have sw: "swap_cells A l2 i = Inr ?B" using len by (simp add: swap_cells_def)
    have ms: "mset ?B = mset A" using len by (intro mset_swap)
    have rest: "\<forall>k. h \<le> k \<longrightarrow> ?B ! k = A ! k" using "1.prems"(3) l2(2) by auto
    have "ok (AdjustHeap ?B h l2 R) (\<lambda>A'. mset A' = mset ?B \<and> (\<forall>k. h \<le> k \<longrightarrow> A' ! k = ?B ! k))" if "i \<noteq> l2"
      using "1.IH"[OF refl refl True l1(1) l2(1) that sw] "1.prems" l2 ranked_mset[OF ms] by simp
    then have "i \<noteq> l2 \<Longrightarrow> ok (AdjustHeap ?B h l2 R) (\<lambda>A'. mset A' = mset A \<and> (\<forall>k. h \<le> k \<longrightarrow> A' ! k = A ! k))"
      unfolding ms using rest by (auto elim!: ok_mono)
    moreover have "AdjustHeap A h i R = (if i \<noteq> l2 then AdjustHeap ?B h l2 R else Inr A)"
      using True l1(1) l2(1) sw by (simp add: AdjustHeap.simps[of A h i R])
    ultimately show ?thesis by simp
  qed (simp add: AdjustHeap.simps[of A h i R])
qed

lemma getMax_perm:
  assumes "ranked R A" "h \<le> length A" "0 < h"
  shows "ok (getMax self A h R) (\<lambda>A'. mset A' = mset A \<and> drop h A' = drop h A)"
proof -
  have dr: "drop h A' = drop h A" if "mset A' = mset A" "\<forall>k. h \<le> k \<longrightarrow> A' ! k = A ! k" for A'
    using that mset_eq_length[OF that(1)] by (auto intro: nth_equalityI)
  show ?thesis
  proof (cases "renew self")
    case True
    then obtain B where B: "BuildHeap A h R = Inr B" "mset B = mset A" "\<forall>k. h \<le> k \<longrightarrow> B ! k = A ! k"
      using BuildHeap_ok[OF assms(1,2)] by (auto simp: ok_iff)
    have h: "h - 1 < length B" "0 < length B" using assms mset_eq_length[OF B(2)] by auto
    let ?C = "B[h - 1 := B ! 0, 0 := B ! (h - 1)]"
    have "mset ?C = mset A" using mset_swap[OF h(2,1)] B(2) by simp
    moreover have "\<forall>k. h \<le> k \<longrightarrow> ?C ! k = A ! k" using B(3) assms(3) by auto
    ultimately have "mset ?C = mset A \<and> drop h ?C = drop h A" using dr by blast
    with True B(1) h assms(3) show ?thesis by (simp add: getMax_def swap_cells_def)
  next
    case False
    have "ok (AdjustHeap A h 0 R) (\<lambda>A'. mset A' = mset A \<and> drop h A' = drop h A)"
      by (rule ok_mono[OF AdjustHeap_perm[OF assms]]) (use dr in blast)
    with False show ?thesis by (simp add: getMax_def)
  qed
qed

section \<open>The climb\<close>

text \<open>
  The stack of stones after the moves \<open>vs\<close> with the values \<open>ms\<close>, on top of the stone of the
  start, and the way back to the highest stone.
\<close>

definition stones :: "double \<Rightarrow> double list \<Rightarrow> nat list \<Rightarrow> Stone list" where
  "stones m0 ms vs = rev (\<lparr>curModu = m0, s_node = - 1, isChanged = False\<rparr> #
     map (\<lambda>(m, v). \<lparr>curModu = m, s_node = int v, isChanged = True\<rparr>) (zip ms vs))"

lemma stones_snoc:
  "length ms = length vs \<Longrightarrow> stones m0 (ms @ [m]) (vs @ [v]) =
     \<lparr>curModu = m, s_node = int v, isChanged = True\<rparr> # stones m0 ms vs"
  by (simp add: stones_def)

lemma rollback_ok:
  assumes "bipart g pr" "length ms = length vs" "\<forall>v \<in> set vs. v < nvetes g" "mx \<in> set (m0 # ms)"
  shows "\<exists>j \<le> length vs. rollback mx (flips pr vs) (stones m0 ms vs) = Inr (flips pr (take j vs)) \<and>
     (m0 # ms) ! j = mx"
  using assms(2-)
proof (induction ms vs rule: rev_induct2)
  case 1
  then show ?case by (simp add: stones_def)
next
  case (4 m ms v vs)
  show ?case
  proof (cases "m = mx")
    case True
    with 4 show ?thesis by (intro exI[of _ "length (vs @ [v])"]) (auto simp: stones_snoc nth_append nth_Cons')
  next
    case False
    let ?q = "flips pr vs"
    have q: "bipart g ?q" "v < nvetes g" using assms(1) 4 by auto
    obtain j where j: "j \<le> length vs" "rollback mx ?q (stones m0 ms vs) = Inr (flips pr (take j vs))"
        "(m0 # ms) ! j = mx"
      using 4 False by auto
    have x: "flip ?q v ! v = 0 \<or> flip ?q v ! v = 1" "length (flip ?q v) = nvetes g"
      using bipart_nth[OF bipart_flip[OF q(1)] q(2)] bipart_length[OF bipart_flip[OF q(1)]] by auto
    have "(flip ?q v)[v := (if flip ?q v ! v = 0 then 1 else 0)] = flip (flip ?q v) v"
      using x(1) by (auto simp: flip_def)
    also have "\<dots> = ?q" using flip_flip[OF q] .
    finally have "rollback mx (flip ?q v) (stones m0 (ms @ [m]) (vs @ [v])) = rollback mx ?q (stones m0 ms vs)"
      using False x q(2) 4 by (simp add: stones_snoc agetI_def asetI_def)
    with j 4 show ?thesis by (intro exI[of _ j]) (auto simp: nth_append nth_Cons')
  qed
qed auto

text \<open>
  The moves made so far: \<open>vs\<close> in their order with the recorded values \<open>ms\<close>. A recorded
  value is the modularity of the moved vertex flipped on top of some of the earlier moves, those
  that had been made when the values were last recomputed.
\<close>

definition climbed :: "CMygraph \<Rightarrow> int list \<Rightarrow> nat list \<Rightarrow> nat list \<Rightarrow> double list \<Rightarrow> climb \<Rightarrow> bool" where
  "climbed g pr ns vs ms st \<longleftrightarrow>
     cl_part st = flips pr vs \<and> Hill st = stones (modularity g pr) ms vs \<and> length ms = length vs \<and>
     maxModu st \<in> set (modularity g pr # ms) \<and> (\<forall>m \<in> set (modularity g pr # ms). m \<le> maxModu st) \<and>
     (\<forall>k < length vs. \<exists>i \<le> k. ms ! k = modularity g (flip (flips pr (take i vs)) (vs ! k))) \<and>
     distinct vs \<and> set vs \<subseteq> set ns"

definition heaped :: "CMygraph \<Rightarrow> int list \<Rightarrow> nat list \<Rightarrow> nat list \<Rightarrow> climb \<Rightarrow> bool" where
  "heaped g pr ns vs st \<longleftrightarrow> length (cl_zero st) = g_nhedges g \<and>
     mset (map node (cl_list st)) = mset ns \<and> HeapLen st \<le> length (cl_list st) \<and>
     vs = rev (map node (drop (HeapLen st) (cl_list st))) \<and> fixnum st + HeapLen st = length ns \<and>
     (\<exists>i \<le> length vs. \<forall>a \<in> set (take (HeapLen st) (cl_list st)).
        dMod a = modularity g (flip (flips pr (take i vs)) (node a)))"

definition cut_cells_ok :: "CMygraph \<Rightarrow> Vnode list \<Rightarrow> bool" where
  "cut_cells_ok g V \<longleftrightarrow> length V = nvetes g \<and> (\<forall>v < nvetes g. \<forall>e \<in> set (v_firstarc (V ! v)). e < g_nhedges g)"

lemma renew_edges_ok:
  assumes "wf_mygraph g" "length Z = g_nhedges g" "\<forall>e \<in> set es. e < g_nhedges g"
  shows "ok (mfold (renew_edge g x) (Z, b) es) (\<lambda>(Z', _). length Z' = g_nhedges g)"
proof (rule mfold_ok, goal_cases)
  case (2 e t)
  then have "e < length (pAllEdges g)" "e < g_nhedges g" using wf_edge_facts(1)[OF assms(1)] assms(3) by auto
  with 2 show ?case by (cases t) (auto simp: renew_edge_def safe_simps Let_def)
qed (use assms in auto)

lemma climbed_move:
  assumes "climbed g pr ns vs ms st" "v \<in> set ns" "v \<notin> set vs" "i \<le> length vs"
    "m = modularity g (flip (flips pr (take i vs)) v)"
    "cl_part st' = flip (cl_part st) v"
    "Hill st' = \<lparr>curModu = m, s_node = int v, isChanged = True\<rparr> # Hill st"
    "maxModu st' = (if m > maxModu st then m else maxModu st)"
  shows "climbed g pr ns (vs @ [v]) (ms @ [m]) st'"
proof -
  have "\<forall>k < length (vs @ [v]). \<exists>i \<le> k. (ms @ [m]) ! k = modularity g (flip (flips pr (take i (vs @ [v]))) ((vs @ [v]) ! k))"
  proof (intro allI impI)
    fix k assume "k < length (vs @ [v])"
    then consider "k < length vs" | "k = length vs" by force
    then show "\<exists>i \<le> k. (ms @ [m]) ! k = modularity g (flip (flips pr (take i (vs @ [v]))) ((vs @ [v]) ! k))"
    proof cases
      case 1
      then obtain i where "i \<le> k" "ms ! k = modularity g (flip (flips pr (take i vs)) (vs ! k))"
        using assms(1) unfolding climbed_def by blast
      with 1 assms(1) show ?thesis by (intro exI[of _ i]) (auto simp: climbed_def nth_append)
    next
      case 2
      with assms(1,4,5) show ?thesis by (intro exI[of _ i]) (auto simp: climbed_def nth_append)
    qed
  qed
  then show ?thesis using assms(1-3,6-8) by (auto simp: climbed_def stones_snoc)
qed

lemma heaped_facts:
  assumes "heaped g pr ns vs st"
  shows "set (map node (cl_list st)) = set ns" "length (cl_list st) = length ns"
    "distinct ns \<Longrightarrow> distinct (map node (cl_list st))"
  using assms mset_eq_setD[of "map node (cl_list st)" ns] mset_eq_length[of "map node (cl_list st)" ns]
    mset_eq_imp_distinct_iff[of "map node (cl_list st)" ns] by (auto simp: heaped_def)

lemma heapedI:
  assumes "length (cl_zero st) = g_nhedges g" "mset (map node (cl_list st)) = mset ns"
    "HeapLen st \<le> length (cl_list st)" "vs = rev (map node (drop (HeapLen st) (cl_list st)))"
    "fixnum st + HeapLen st = length ns" "i \<le> length vs"
    "\<forall>a \<in> set (take (HeapLen st) (cl_list st)). dMod a = modularity g (flip (flips pr (take i vs)) (node a))"
  shows "heaped g pr ns vs st"
  using assms unfolding heaped_def by blast

text \<open>The vertex of the cell behind the heap has not been moved before.\<close>

lemma picked:
  assumes "distinct ns" "mset (map node A) = mset ns" "h < length A" "vs = rev (map node (drop (Suc h) A))"
  shows "node (A ! h) \<in> set ns" "node (A ! h) \<notin> set vs" "vs @ [node (A ! h)] = rev (map node (drop h A))"
proof -
  have nodes: "set (map node A) = set ns" "distinct (map node A)" using assms(1,2) mset_eq_setD mset_eq_imp_distinct_iff by metis+
  have dr: "drop h A = A ! h # drop (Suc h) A" using assms(3) by (rule Cons_nth_drop_Suc[symmetric])
  show "node (A ! h) \<in> set ns" using nodes(1) assms(3) by auto
  have "distinct (map node (drop h A))" using nodes(2) by (metis distinct_drop drop_map)
  then show "node (A ! h) \<notin> set vs" using dr assms(4) by simp
  show "vs @ [node (A ! h)] = rev (map node (drop h A))" using dr assms(4) by simp
qed

text \<open>After a refresh of the cells of the heap, they hold the values for the new bipartition.\<close>

lemma refreshed:
  assumes g: "wf_mygraph g" "bipart g q" and A: "\<forall>a \<in> set A. node a < nvetes g" "h < length A"
  obtains B where "mfold (refresh g (flip q v)) A [0..<h] = Inr B" "map node B = map node A" "drop h B = drop h A" "length B = length A"
    "\<forall>a \<in> set (take h B). dMod a = modularity g (flip (flip q v) (node a))"
proof -
  obtain B where B: "mfold (refresh g (flip q v)) A [0..<h] = Inr B" "map node B = map node A"
      "drop h B = drop h A" "\<forall>k < h. dMod (B ! k) = modularity g (flip (flip q v) (node (A ! k)))"
    using refresh_ok[OF g(1) bipart_flip[OF g(2)], of h A v] A by (auto simp: ok_iff)
  have lenB: "length B = length A" using B(2) map_eq_imp_length_eq by blast
  have "node (B ! k) = node (A ! k)" if "k < length A" for k using B(2) lenB that by (metis nth_map)
  then have "\<forall>a \<in> set (take h B). dMod a = modularity g (flip (flip q v) (node a))"
    using B(4) A(2) lenB by (auto simp: in_set_conv_nth)
  then show thesis by (rule that[OF B(1-3) lenB])
qed

text \<open>Taking the cell \<open>HeapLen - 1\<close> and moving its vertex.\<close>

lemma climb_move_ok:
  assumes g: "wf_mygraph g" "bipart g pr" "cut_cells_ok g V"
    and ns: "distinct ns" "\<forall>v \<in> set ns. v < nvetes g"
    and c: "climbed g pr ns vs ms st"
    and h: "length (cl_zero st) = g_nhedges g" "mset (map node (cl_list st)) = mset ns" "h < length (cl_list st)"
      "HeapLen st = h" "vs = rev (map node (drop (Suc h) (cl_list st)))" "fixnum st + h = length ns"
    and i: "i \<le> length vs" "\<forall>a \<in> set (take (Suc h) (cl_list st)). dMod a = modularity g (flip (flips pr (take i vs)) (node a))"
  shows "ok (climb_move g V st) (\<lambda>st'. \<exists>v m. climbed g pr ns (vs @ [v]) (ms @ [m]) st' \<and>
     heaped g pr ns (vs @ [v]) st' \<and> fixnum st' = fixnum st)"
proof -
  define A where "A = cl_list st"
  define v where "v = node (A ! h)"
  define m where "m = dMod (A ! h)"
  note h' = h[folded A_def] and i' = i[folded A_def]
  note pk = picked[OF ns(1) h'(2,3,5), folded v_def]
  have v: "v < nvetes g" and nodes: "\<forall>a \<in> set A. node a < nvetes g"
    using pk(1) ns(2) mset_eq_setD[OF h'(2)] by auto
  have mv: "m = modularity g (flip (flips pr (take i vs)) v)"
    using i'(2) h'(3) by (auto simp: v_def m_def take_Suc_conv_app_nth)
  have part: "cl_part st = flips pr vs" "bipart g (cl_part st)" using c g(2) by (auto simp: climbed_def)
  have len: "v < length V" "v < length (cl_part st)" "\<forall>e \<in> set (v_firstarc (V ! v)). e < g_nhedges g"
    using g(3) v bipart_length[OF part(2)] by (auto simp: cut_cells_ok_def)
  obtain Z b where Z: "mfold (renew_edge g (cl_part st ! v)) (cl_zero st, False) (v_firstarc (V ! v)) = Inr (Z, b)"
      "length Z = g_nhedges g"
    using renew_edges_ok[OF g(1) h'(1) len(3), of "cl_part st ! v" False] by (auto simp: ok_iff)
  define st1 where "st1 = st\<lparr>cl_part := flip (cl_part st) v, cl_zero := Z,
     Hill := \<lparr>curModu = m, s_node = int v, isChanged = True\<rparr> # Hill st,
     maxModu := (if m > maxModu st then m else maxModu st)\<rparr>"
  have eq: "climb_move g V st = (if b then sbind (mfold (refresh g (flip (cl_part st) v)) A [0..<h]) (\<lambda>A.
           Inr (st1\<lparr>cl_list := A, mySort := (mySort st1)\<lparr>renew := True\<rparr>\<rparr>)) else Inr st1)"
    using h'(3,4) len Z(1)
    by (simp add: climb_move_def A_def[symmetric] v_def[symmetric] m_def[symmetric] flip_def st1_def Let_def)
  have cl: "climbed g pr ns (vs @ [v]) (ms @ [m]) (st1\<lparr>cl_list := B, mySort := so\<rparr>)" for B so
    using c pk(1,2) i(1) mv by (rule climbed_move) (simp_all add: st1_def)
  have fx: "fixnum st1 = fixnum st" and st1: "st1\<lparr>cl_list := A, mySort := mySort st\<rparr> = st1" by (simp_all add: st1_def A_def)
  show ?thesis
  proof (cases b)
    case False
    have "\<forall>a \<in> set (take h A). dMod a = modularity g (flip (flips pr (take i (vs @ [v]))) (node a))" "i \<le> length (vs @ [v])"
      using i' h'(3) by (auto simp: take_Suc_conv_app_nth)
    then have "heaped g pr ns (vs @ [v]) st1"
      using h'(1-4,6) Z(2) pk(3) by (intro heapedI[where i = i]) (simp_all add: st1_def A_def[symmetric])
    moreover have "climbed g pr ns (vs @ [v]) (ms @ [m]) st1" using cl[where B = A and so = "mySort st"] st1 by simp
    ultimately show ?thesis using False eq fx by auto
  next
    case True
    obtain B where B: "mfold (refresh g (flip (cl_part st) v)) A [0..<h] = Inr B" "map node B = map node A" "drop h B = drop h A" "length B = length A"
        "\<forall>a \<in> set (take h B). dMod a = modularity g (flip (flip (cl_part st) v) (node a))"
      by (rule refreshed[OF g(1) part(2) nodes h'(3)])
    have "\<forall>a \<in> set (take h B). dMod a = modularity g (flip (flips pr (take (length (vs @ [v])) (vs @ [v]))) (node a))"
      using B(5) part(1) by simp
    then have "heaped g pr ns (vs @ [v]) (st1\<lparr>cl_list := B, mySort := so\<rparr>)" for so
      using h'(1-4,6) Z(2) pk(3) B(2-4)
      by (intro heapedI[where i = "length (vs @ [v])"]) (simp_all add: st1_def mset_map[symmetric] del: mset_map)
    with True eq B(1) cl fx show ?thesis by auto
  qed
qed

text \<open>One turn of the loop before the move: the best cell is taken from the heap.\<close>

lemma climb_pick:
  assumes g: "wf_mygraph g" "bipart g pr" "cut_cells_ok g V" "length R = nvetes g"
    and ns: "distinct ns" "\<forall>v \<in> set ns. v < nvetes g"
    and st: "climbed g pr ns vs ms st" "heaped g pr ns vs st" "fixnum st < length ns"
  obtains st1 and h :: nat where "\<forall>k. climb_loop (Suc k) g (length ns) R V st =
      (if h = 0 then Inr st1 else sbind (climb_move g V st1) (climb_loop k g (length ns) R V))"
    "climbed g pr ns vs ms st1"
    "ok (climb_move g V st1) (\<lambda>st'. \<exists>v m. climbed g pr ns (vs @ [v]) (ms @ [m]) st' \<and> heaped g pr ns (vs @ [v]) st' \<and> fixnum st' = fixnum st1)"
proof -
  define h where "h = HeapLen st - 1"
  have hp: "HeapLen st = Suc h" "Suc h \<le> length (cl_list st)" using st(2,3) by (auto simp: heaped_def h_def)
  have rk: "ranked R (cl_list st)" using heaped_facts(1)[OF st(2)] ns(2) g(4) by (force simp: ranked_def)
  obtain A where A: "getMax (mySort st) (cl_list st) (Suc h) R = Inr A" "mset A = mset (cl_list st)"
      "drop (Suc h) A = drop (Suc h) (cl_list st)"
    using getMax_perm[OF rk hp(2), of "mySort st"] by (auto simp: ok_iff)
  define st1 where "st1 = st\<lparr>cl_list := A, mySort := (mySort st)\<lparr>renew := False\<rparr>, fixnum := fixnum st + 1, HeapLen := h\<rparr>"
  have eq: "\<forall>k. climb_loop (Suc k) g (length ns) R V st =
      (if h = 0 then Inr st1 else sbind (climb_move g V st1) (climb_loop k g (length ns) R V))"
    using st(3) A(1) hp(1) by (simp add: st1_def Let_def)
  have c1: "climbed g pr ns vs ms st1" using st(1) by (simp add: climbed_def st1_def)
  have lenA: "length A = length (cl_list st)" using A(2) by (rule mset_eq_length)
  have "mset (take (Suc h) A) + mset (drop (Suc h) A) = mset (take (Suc h) (cl_list st)) + mset (drop (Suc h) (cl_list st))"
    by (metis A(2) append_take_drop_id mset_append)
  then have setA: "set (take (Suc h) A) = set (take (Suc h) (cl_list st))" using A(3) by (auto dest: mset_eq_setD)
  obtain i where i: "i \<le> length vs" "\<forall>a \<in> set (take (Suc h) A). dMod a = modularity g (flip (flips pr (take i vs)) (node a))"
    using st(2) setA hp(1) unfolding heaped_def by auto
  show thesis
  proof (rule that[OF eq c1], rule climb_move_ok[OF g(1-3) ns c1, of h])
    show "mset (map node (cl_list st1)) = mset ns" using st(2) A(2) by (simp add: heaped_def st1_def)
    show "vs = rev (map node (drop (Suc h) (cl_list st1)))" using st(2) A(3) hp(1) by (simp add: heaped_def st1_def)
  qed (use st(2) hp lenA i in \<open>auto simp: st1_def heaped_def\<close>)
qed

lemma climb_loop_ok:
  assumes g: "wf_mygraph g" "bipart g pr" "cut_cells_ok g V" "length R = nvetes g"
    and ns: "distinct ns" "\<forall>v \<in> set ns. v < nvetes g"
    and st: "climbed g pr ns vs ms st" "heaped g pr ns vs st"
  shows "ok (climb_loop k g (length ns) R V st) (\<lambda>st'. \<exists>us ls. climbed g pr ns (vs @ us) (ms @ ls) st' \<and> length us \<le> k)"
  using st
proof (induction k arbitrary: vs ms st)
  case 0
  then show ?case by (auto intro!: exI[of _ "[]"])
next
  case (Suc k)
  show ?case
  proof (cases "fixnum st < length ns")
    case False
    with Suc.prems(1) show ?thesis by (auto intro!: exI[of _ "[]"])
  next
    case True
    obtain st1 and h :: nat where s: "\<forall>k. climb_loop (Suc k) g (length ns) R V st =
        (if h = 0 then Inr st1 else sbind (climb_move g V st1) (climb_loop k g (length ns) R V))" "climbed g pr ns vs ms st1"
      "ok (climb_move g V st1) (\<lambda>st'. \<exists>v m. climbed g pr ns (vs @ [v]) (ms @ [m]) st' \<and> heaped g pr ns (vs @ [v]) st' \<and> fixnum st' = fixnum st1)"
      by (rule climb_pick[OF g ns Suc.prems True])
    then obtain st' v m where m: "climb_move g V st1 = Inr st'" "climbed g pr ns (vs @ [v]) (ms @ [m]) st'"
        "heaped g pr ns (vs @ [v]) st'" by (auto simp: ok_iff)
    have "ok (climb_loop k g (length ns) R V st') (\<lambda>st'. \<exists>us ls. climbed g pr ns (vs @ us) (ms @ ls) st' \<and> length us \<le> Suc k)"
    proof (rule ok_mono[OF Suc.IH[OF m(2,3)]])
      fix x assume "\<exists>us ls. climbed g pr ns ((vs @ [v]) @ us) ((ms @ [m]) @ ls) x \<and> length us \<le> k"
      then obtain us ls where "climbed g pr ns (vs @ v # us) (ms @ m # ls) x" "length us \<le> k" by auto
      then show "\<exists>us ls. climbed g pr ns (vs @ us) (ms @ ls) x \<and> length us \<le> Suc k"
        by (intro exI[of _ "v # us"] exI[of _ "m # ls"]) simp
    qed
    moreover have "\<exists>us ls. climbed g pr ns (vs @ us) (ms @ ls) st1 \<and> length us \<le> Suc k"
      using s(2) by (intro exI[of _ "[]"]) simp
    ultimately show ?thesis unfolding s(1)[rule_format] using m(1) by simp
  qed
qed

text \<open>
  The result of the climb, for a caller: a bipartition that differs from the start by flips of at
  most \<open>iDistance\<close> different cut vertices, with a recorded value that is not below the start.
\<close>

definition climb_result :: "CMygraph \<Rightarrow> int list \<Rightarrow> nat set \<Rightarrow> int list \<times> double \<Rightarrow> bool" where
  "climb_result g pr C = (\<lambda>(pr', m). modularity g pr \<le> m \<and>
     (\<exists>vs. distinct vs \<and> set vs \<subseteq> C \<and> length vs \<le> iDistance \<and> pr' = flips pr vs \<and>
       (if vs = [] then m = modularity g pr
        else \<exists>i < length vs. m = modularity g (flip (flips pr (take i vs)) (last vs)))))"

lemma HillClimbing_ok:
  assumes g: "wf_mygraph g" "bipart g pr" "cut_cells_ok g V" "length R = nvetes g"
    and ns: "distinct ns" "\<forall>v \<in> set ns. v < nvetes g" and Z: "length Z = g_nhedges g"
  shows "ok (HillClimbing g pr ns R Z V) (climb_result g pr (set ns))"
proof -
  let ?m0 = "modularity g pr"
  let ?A = "map (\<lambda>v. \<lparr>node = v, dMod = modularity g (flip pr v)\<rparr>) ns"
  let ?st = "\<lparr>cl_part = pr, cl_zero = Z, cl_list = ?A, HeapLen = length ns, fixnum = 0,
         mySort = CHeapSort_init, Hill = [\<lparr>curModu = ?m0, s_node = - 1, isChanged = False\<rparr>],
         maxModu = ?m0\<rparr>"
  have "climbed g pr ns [] [] ?st" by (simp add: climbed_def stones_def)
  moreover have "heaped g pr ns [] ?st" using Z by (simp add: heaped_def comp_def)
  ultimately obtain st vs ms where st: "climb_loop iDistance g (length ns) R V ?st = Inr st"
      "climbed g pr ns vs ms st" "length vs \<le> iDistance"
    using climb_loop_ok[OF g ns, of "[]" "[]" ?st iDistance] by (auto simp: ok_iff)
  have ms: "length ms = length vs" "\<forall>v \<in> set vs. v < nvetes g" "maxModu st \<in> set (?m0 # ms)"
      "cl_part st = flips pr vs" "Hill st = stones ?m0 ms vs"
    using st(2) ns(2) unfolding climbed_def by blast+
  from rollback_ok[OF g(2) ms(1-3)] obtain j where j: "j \<le> length vs"
      "rollback (maxModu st) (cl_part st) (Hill st) = Inr (flips pr (take j vs))" "(?m0 # ms) ! j = maxModu st"
    unfolding ms(4,5) by blast
  have "HillClimbing g pr ns R Z V = Inr (flips pr (take j vs), maxModu st)"
    using st(1) j(2) ComputeModularity_eq[OF g(1,2)] initial_moves_eq[OF g(1,2) ns(2)]
    by (simp add: HillClimbing_def)
  moreover have "climb_result g pr (set ns) (flips pr (take j vs), maxModu st)"
  proof -
    have "?m0 \<le> maxModu st" "distinct (take j vs)" "set (take j vs) \<subseteq> set ns"
      using st(2) by (auto simp: climbed_def distinct_take dest!: in_set_takeD)
    moreover have "if take j vs = [] then maxModu st = ?m0
        else \<exists>i < length (take j vs). maxModu st = modularity g (flip (flips pr (take i (take j vs))) (last (take j vs)))"
    proof (cases j)
      case (Suc k)
      then have k: "k < length vs" "ms ! k = maxModu st" using j by auto
      then obtain i where i: "i \<le> k" "maxModu st = modularity g (flip (flips pr (take i vs)) (vs ! k))"
        using st(2) unfolding climbed_def by metis
      have "last (take (Suc k) vs) = vs ! k" using k(1) by (simp add: take_Suc_conv_app_nth)
      with i k Suc show ?thesis by (auto simp: min_def intro!: exI[of _ i])
    qed (use j in simp)
    ultimately show ?thesis using st(3) unfolding climb_result_def by (auto intro!: exI[of _ "take j vs"])
  qed
  ultimately show ?thesis by simp
qed

section \<open>The ranks\<close>

text \<open>The three nested loops visit one flat list of vertices, and stop when all have a rank.\<close>

lemma rank_pins_append:
  "xs \<noteq> [] \<Longrightarrow> rank_pins cnt s (xs @ ys) =
     sbind (rank_pins cnt s xs) (\<lambda>s. if cnt \<le> rstep s then Inr s else rank_pins cnt s ys)"
proof (induction xs arbitrary: s)
  case (Cons x xs)
  show ?case
  proof (cases xs)
    case Nil
    then show ?thesis by (cases "rank_node s x") auto
  next
    case (Cons y zs)
    then show ?thesis using Cons.IH by (cases "rank_node s x") auto
  qed
qed simp

lemma rank_chain_flat:
  assumes "wf_mygraph g" "\<forall>e \<in> set es. e < g_nhedges g"
  shows "rank_chain g cnt s es = rank_pins cnt s (concat (map (epins g) es))"
  using assms(2)
proof (induction es arbitrary: s)
  case (Cons e es)
  have e: "e < length (pAllEdges g)" "epins g e \<noteq> []"
    using wf_edge_facts[OF assms(1)] Cons.prems by (simp_all add: epins_def)
  show ?case
    using e Cons by (cases "rank_pins cnt s (epins g e)") (auto simp: rank_pins_append epins_def[symmetric])
qed simp

lemma rank_chain_append:
  "xs \<noteq> [] \<Longrightarrow> rank_chain g cnt s (xs @ ys) =
     sbind (rank_chain g cnt s xs) (\<lambda>s. if cnt \<le> rstep s then Inr s else rank_chain g cnt s ys)"
proof (induction xs arbitrary: s)
  case (Cons x xs)
  show ?case
  proof (cases xs)
    case Nil
    then show ?thesis by (auto simp: sbind_def split: sum.splits)
  next
    case (Cons y zs)
    then show ?thesis using Cons.IH by (auto simp: sbind_def split: sum.splits)
  qed
qed simp

lemma rank_buckets_flat:
  assumes "\<forall>i \<in> set is. i < length NodeMap"
  shows "rank_buckets g NodeMap cnt s is = rank_chain g cnt s (concat (map ((!) NodeMap) is))"
  using assms
proof (induction "is" arbitrary: s)
  case (Cons i "is")
  then show ?case
    by (cases "NodeMap ! i = []"; cases "rank_chain g cnt s (NodeMap ! i)") (auto simp: rank_chain_append)
qed simp

text \<open>First occurrences, in order.\<close>

definition add_new :: "'a list \<Rightarrow> 'a \<Rightarrow> 'a list" where
  "add_new os v = (if v \<in> set os then os else os @ [v])"

lemma set_add_news [simp]: "set (foldl add_new os vs) = set os \<union> set vs"
  by (induction vs arbitrary: os) (auto simp: add_new_def)

lemma distinct_add_news [simp]: "distinct (foldl add_new os vs) = distinct os"
  by (induction vs arbitrary: os) (auto simp: add_new_def)

lemma add_news_prefix: "\<exists>zs. foldl add_new os vs = os @ zs \<and> set zs \<subseteq> set vs - set os"
proof (induction vs arbitrary: os)
  case (Cons v vs)
  show ?case
    using Cons[of "add_new os v"] by (fastforce simp: add_new_def)
qed simp

definition rank_inv :: "CMygraph \<Rightarrow> int list \<Rightarrow> nat list \<Rightarrow> ranking \<Rightarrow> bool" where
  "rank_inv g R os s \<longleftrightarrow> smap_ok (ExitInList s) \<and> skeys (ExitInList s) = set os \<and> distinct os \<and>
     RankValue s = int (length os) \<and> rstep s = length os \<and> length (Node_Rank s) = nvetes g \<and>
     (\<forall>i < length os. Node_Rank s ! (os ! i) = int i) \<and>
     (\<forall>v < nvetes g. v \<notin> set os \<longrightarrow> Node_Rank s ! v = R ! v)"

lemma rank_node_ok:
  assumes "rank_inv g R os s" "v < nvetes g" "set os \<subseteq> {..<nvetes g}"
  shows "ok (rank_node s v) (rank_inv g R (add_new os v))"
proof (cases "v \<in> set os")
  case True
  then have "sfind (ExitInList s) v \<noteq> None" using assms(1) by (simp add: sfind_None_iff rank_inv_def del: not_None_eq)
  with True assms(1) show ?thesis by (simp add: rank_node_def add_new_def del: not_None_eq)
next
  case False
  then have "sfind (ExitInList s) v = None" using assms(1) by (simp add: sfind_None_iff rank_inv_def)
  moreover have "os ! i \<noteq> v" if "i < length os" for i using False that by (metis nth_mem)
  ultimately show ?thesis
    using False assms by (auto simp: rank_node_def add_new_def rank_inv_def safe_simps nth_append nth_list_update less_Suc_eq)
qed

lemma rank_pins_ok:
  assumes "rank_inv g R os s" "\<forall>v \<in> set vs. v < nvetes g" "set os \<subseteq> {..<nvetes g}"
  shows "ok (rank_pins cnt s vs) (\<lambda>s'. \<exists>k \<le> length vs. rank_inv g R (foldl add_new os (take k vs)) s' \<and>
     (k = length vs \<or> cnt \<le> rstep s'))"
  using assms
proof (induction vs arbitrary: os s)
  case (Cons v vs)
  obtain s1 where s1: "rank_node s v = Inr s1" "rank_inv g R (add_new os v) s1"
    using rank_node_ok[OF Cons.prems(1), of v] Cons.prems by (auto simp: ok_iff)
  show ?case
  proof (cases "cnt \<le> rstep s1")
    case True
    with s1 show ?thesis by (auto intro!: exI[of _ 1])
  next
    case False
    have "set (add_new os v) \<subseteq> {..<nvetes g}" using Cons.prems by (auto simp: add_new_def)
    then have "ok (rank_pins cnt s1 vs) (\<lambda>s'. \<exists>k \<le> length vs. rank_inv g R (foldl add_new (add_new os v) (take k vs)) s' \<and>
       (k = length vs \<or> cnt \<le> rstep s'))"
      using Cons s1 by auto
    then have "ok (rank_pins cnt s1 vs) (\<lambda>s'. \<exists>k \<le> length (v # vs). rank_inv g R (foldl add_new os (take k (v # vs))) s' \<and>
       (k = length (v # vs) \<or> cnt \<le> rstep s'))"
      by (rule ok_mono) (metis Suc_le_mono foldl_Cons length_Cons take_Suc_Cons)
    with s1 False show ?thesis by simp
  qed
qed auto

lemma rank_all:
  assumes "\<forall>v \<in> set vs. v < nvetes g" "length R = nvetes g"
  shows "ok (rank_pins (card (set vs)) \<lparr>ExitInList = [], Node_Rank = R, RankValue = 0, rstep = 0\<rparr> vs)
     (\<lambda>s. rank_inv g R (foldl add_new [] vs) s \<and> rstep s = card (set vs))"
proof (rule ok_mono[OF rank_pins_ok[of g R "[]"]])
  fix s assume "\<exists>k \<le> length vs. rank_inv g R (foldl add_new [] (take k vs)) s \<and> (k = length vs \<or> card (set vs) \<le> rstep s)"
  then obtain k where k: "k \<le> length vs" "rank_inv g R (foldl add_new [] (take k vs)) s" "k = length vs \<or> card (set vs) \<le> rstep s"
    by blast
  let ?os = "foldl add_new [] (take k vs)"
  have st: "rstep s = card (set (take k vs))"
    using k(2) distinct_card[of ?os] by (auto simp: rank_inv_def)
  then have "card (set vs) \<le> card (set (take k vs))" using k(3) by auto
  then have all: "set (take k vs) = set vs" by (intro card_seteq) (auto dest: in_set_takeD)
  moreover obtain zs where "foldl add_new ?os (drop k vs) = ?os @ zs" "set zs \<subseteq> set (drop k vs) - set ?os"
    using add_news_prefix[of ?os "drop k vs"] by blast
  moreover have "set (drop k vs) \<subseteq> set vs" by (rule set_drop_subset)
  ultimately have "foldl add_new ?os (drop k vs) = ?os @ zs \<and> set zs = {}"
    by (metis Diff_eq_empty_iff Un_empty_left foldl_Nil list.set(1) set_add_news subset_empty)
  then have "foldl add_new ?os (drop k vs) = ?os" by simp
  then have "foldl add_new [] vs = ?os" by (metis append_take_drop_id foldl_append)
  with k(2) st all show "rank_inv g R (foldl add_new [] vs) s \<and> rstep s = card (set vs)" by simp
qed (use assms in \<open>auto simp: rank_inv_def\<close>)

text \<open>The buckets hold the cut edges by size, and reading them downwards gives the large ones first.\<close>

lemma max_nodeNum_ok:
  assumes "wf_mygraph g" "\<forall>e \<in> set es. e < g_nhedges g"
  shows "ok (max_nodeNum g es) (\<lambda>mx. 0 \<le> mx \<and> (\<forall>e \<in> set es. int (length (epins g e)) \<le> mx))"
  unfolding max_nodeNum_def
proof (rule mfold_ok_prefix[where I = "\<lambda>ys mx. 0 \<le> mx \<and> (\<forall>e \<in> set ys. int (length (epins g e)) \<le> mx)"], goal_cases)
  case (2 ys z zs t)
  then have "z < g_nhedges g" using assms(2) by simp
  from wf_edge_facts(1,7)[OF assms(1) this] 2(2) show ?case
    by (auto simp: safe_simps epins_def)
qed simp

lemma size_buckets_ok:
  assumes g: "wf_mygraph g" "\<forall>e \<in> set es. e < g_nhedges g"
    and mx: "0 \<le> mx" "\<forall>e \<in> set es. int (length (epins g e)) \<le> mx"
  shows "size_buckets g es mx = Inr (map (\<lambda>k. rev (filter (\<lambda>e. length (epins g e) = k) es)) [0..<nat (mx + 1)])"
proof -
  have "ok (size_buckets g es mx) (\<lambda>N. N = map (\<lambda>k. rev (filter (\<lambda>e. length (epins g e) = k) es)) [0..<nat (mx + 1)])"
    unfolding size_buckets_def
  proof (rule mfold_ok_prefix[where I = "\<lambda>ys N. N = map (\<lambda>k. rev (filter (\<lambda>e. length (epins g e) = k) ys)) [0..<nat (mx + 1)]"], goal_cases)
    case 1
    show ?case by (simp add: map_replicate_trivial[symmetric] del: map_replicate_trivial)
  next
    case (2 ys z zs N)
    have z: "z < g_nhedges g" "int (length (epins g z)) \<le> mx" using 2(1) assms by auto
    then have "length (epins g z) < nat (mx + 1)" by linarith
    with wf_edge_facts(1,7)[OF g(1) z(1)] 2(2) show ?case
      by (auto simp: add_size_bucket_def safe_simps epins_def[symmetric] nth_list_update intro!: nth_equalityI)
  qed
  then show ?thesis by (simp add: ok_iff)
qed

definition by_size :: "CMygraph \<Rightarrow> nat list \<Rightarrow> nat \<Rightarrow> nat list" where
  "by_size g es n = concat (map (\<lambda>k. rev (filter (\<lambda>e. length (epins g e) = k) es)) (rev [0..<n]))"

lemma set_by_size: "\<forall>e \<in> set es. length (epins g e) < n \<Longrightarrow> set (by_size g es n) = set es"
  by (auto simp: by_size_def)

lemma sorted_by_size: "sorted_wrt (\<lambda>e f. length (epins g f) \<le> length (epins g e)) (by_size g es n)"
proof (induction n)
  case (Suc n)
  have "sorted_wrt (\<lambda>e f. length (epins g f) \<le> length (epins g e)) (rev (filter (\<lambda>e. length (epins g e) = n) es))"
    by (rule sorted_wrt_mono_rel[of _ "\<lambda>_ _. True"]) (auto simp: sorted_wrt_true)
  with Suc show ?case by (auto simp: by_size_def sorted_wrt_append)
qed (simp add: by_size_def)

text \<open>Of two vertices, the one first met lies in an edge at least as large as all those of the other.\<close>

definition leads :: "CMygraph \<Rightarrow> nat set \<Rightarrow> nat \<Rightarrow> nat \<Rightarrow> bool" where
  "leads g E u v \<longleftrightarrow> (\<exists>e \<in> E. u \<in> set (epins g e) \<and> (\<forall>f \<in> E. v \<in> set (epins g f) \<longrightarrow> length (epins g f) \<le> length (epins g e)))"

lemma add_news_leads:
  assumes "sorted_wrt (\<lambda>e f. length (epins g f) \<le> length (epins g e)) E"
  shows "sorted_wrt (leads g (set E)) (foldl add_new [] (concat (map (epins g) E)))"
  using assms
proof (induction E rule: rev_induct)
  case (snoc e E)
  let ?os = "foldl add_new [] (concat (map (epins g) E))"
  obtain zs where zs: "foldl add_new ?os (epins g e) = ?os @ zs" "set zs \<subseteq> set (epins g e) - set ?os"
    using add_news_prefix[of ?os "epins g e"] by blast
  have le: "\<forall>f \<in> set E. length (epins g e) \<le> length (epins g f)" using snoc.prems by (auto simp: sorted_wrt_append)
  have "sorted_wrt (leads g (set E)) ?os" using snoc by (auto simp: sorted_wrt_append)
  then have 1: "sorted_wrt (leads g (set (E @ [e]))) ?os"
    by (rule sorted_wrt_mono_rel[rotated]) (use le in \<open>fastforce simp: leads_def\<close>)
  have nin: "v \<notin> set (epins g f)" if "v \<in> set zs" "f \<in> set E" for v f using zs(2) that by auto
  have 2: "leads g (set (E @ [e])) u v" if "u \<in> set ?os" "v \<in> set zs" for u v
    using that le nin[OF that(2)] by (fastforce simp: leads_def)
  have "leads g (set (E @ [e])) u v" if "u \<in> set zs" "v \<in> set zs" for u v
    using that zs(2) nin[OF that(2)] by (auto simp: leads_def)
  then have "sorted_wrt (leads g (set (E @ [e]))) zs"
    unfolding sorted_wrt_iff_nth_less by (meson nth_mem order_less_trans)
  with 1 2 zs(1) show ?case by (simp add: sorted_wrt_append)
qed simp

lemma NodeRank_ok:
  assumes g: "wf_mygraph g" "\<forall>e \<in> set es. e < g_nhedges g" "length R = nvetes g"
    and ns: "distinct ns" "set ns = (\<Union>e \<in> set es. set (epins g e))"
  shows "ok (NodeRank g ns es R) (\<lambda>R'. length R' = nvetes g \<and> (\<exists>os. mset os = mset ns \<and>
     (\<forall>i < length os. R' ! (os ! i) = int i) \<and> sorted_wrt (leads g (set es)) os \<and>
     (\<forall>v < nvetes g. v \<notin> set ns \<longrightarrow> R' ! v = R ! v)))"
proof -
  obtain mx where mx: "max_nodeNum g es = Inr mx" "0 \<le> mx" "\<forall>e \<in> set es. int (length (epins g e)) \<le> mx"
    using max_nodeNum_ok[OF g(1,2)] by (auto simp: ok_iff)
  let ?n = "nat (mx + 1)"
  let ?N = "map (\<lambda>k. rev (filter (\<lambda>e. length (epins g e) = k) es)) [0..<?n]"
  let ?E = "by_size g es ?n"
  define vs where "vs = concat (map (epins g) ?E)"
  let ?s = "\<lparr>ExitInList = [], Node_Rank = R, RankValue = 0, rstep = 0\<rparr>"
  have E: "set ?E = set es" using mx(3) by (intro set_by_size) force
  then have vsn: "set vs = set ns" using ns(2) by (auto simp: vs_def)
  have low: "\<forall>v \<in> set vs. v < nvetes g" using E g(2) wf_edge_facts(4)[OF g(1)] by (auto simp: epins_def vs_def)
  have card: "length ns = card (set vs)" using ns(1) vsn by (simp add: distinct_card)
  obtain s where s: "rank_pins (card (set vs)) ?s vs = Inr s" "rank_inv g R (foldl add_new [] vs) s" "rstep s = card (set vs)"
    using rank_all[OF low g(3)] by (auto simp: ok_iff)
  have "rank_buckets g ?N (length ns) ?s (rev [0..<length ?N]) = rank_chain g (length ns) ?s ?E"
    by (subst rank_buckets_flat) (auto simp: by_size_def intro!: arg_cong[where f = "rank_chain g (length ns) ?s"] arg_cong[where f = concat])
  also have "\<dots> = Inr s" using rank_chain_flat[OF g(1)] E g(2) s(1) card by (simp add: vs_def)
  finally have "rank_loop 2 g ?N (length ns) ?s = Inr (if length ns = 0 then ?s else s)"
    using s(3) card by (simp add: numeral_2_eq_2)
  moreover have "rank_inv g R (foldl add_new [] vs) (if length ns = 0 then ?s else s)"
    using s(2) vsn g(3) by (cases "length ns = 0") (auto simp: rank_inv_def)
  moreover have "mset (foldl add_new [] vs) = mset ns"
    using ns(1) vsn by (simp add: set_eq_iff_mset_eq_distinct[symmetric])
  ultimately show ?thesis
    using mx(1) size_buckets_ok[OF g(1,2) mx(2,3)] add_news_leads[OF sorted_by_size, of g es ?n] E vsn
    unfolding vs_def[symmetric] by (auto simp: NodeRank_def rank_inv_def intro!: exI[of _ "foldl add_new [] vs"])
qed

text \<open>
  C27. \<open>NodeRank\<close> returns (one pass over the buckets ranks every cut vertex) and gives the cut
  vertices the different ranks \<open>0, 1, \<dots>\<close>, the ranks of the others untouched; a vertex with
  a cut hyperedge larger than every cut hyperedge of another vertex gets the smaller rank, the
  one \<open>HillClimbing\<close> prefers.
\<close>

theorem NodeRank_correct:
  assumes "wf_mygraph g" "length pr = nvetes g" "length R = nvetes g"
    "FindCutEdges g pr = Inr es" "FindCutNodes g es = Inr ns"
  shows "\<exists>R'. NodeRank g ns es R = Inr R' \<and> length R' = nvetes g \<and>
     bij_betw ((!) R') (set ns) {0..<int (length ns)} \<and>
     (\<forall>v < nvetes g. v \<notin> set ns \<longrightarrow> R' ! v = R ! v) \<and>
     (\<forall>u \<in> set ns. \<forall>v \<in> set ns. (\<exists>e \<in> set es. u \<in> set (epins g e) \<and>
        (\<forall>f \<in> set es. v \<in> set (epins g f) \<longrightarrow> length (epins g f) < length (epins g e))) \<longrightarrow> R' ! u < R' ! v)"
proof -
  have es: "\<forall>e \<in> set es. e < g_nhedges g" using FindCutEdges_eq[OF assms(1,2)] assms(4) by auto
  have ns: "distinct ns" "set ns = (\<Union>e \<in> set es. set (epins g e))"
    using FindCutNodes_ok[OF assms(1) es] assms(5) by simp_all
  obtain R' os where R: "NodeRank g ns es R = Inr R'" "length R' = nvetes g" "mset os = mset ns"
      "\<forall>i < length os. R' ! (os ! i) = int i" "sorted_wrt (leads g (set es)) os"
      "\<forall>v < nvetes g. v \<notin> set ns \<longrightarrow> R' ! v = R ! v"
    using NodeRank_ok[OF assms(1) es assms(3) ns] by (auto simp: ok_iff)
  have os: "set os = set ns" "distinct os" "length os = length ns"
    using R(3) ns(1) mset_eq_setD mset_eq_imp_distinct_iff mset_eq_length by metis+
  have "bij_betw ((!) R' \<circ> (!) os) {..<length os} {0..<int (length ns)}"
    using R(4) os(3) by (intro bij_betw_byWitness[where f' = nat]) auto
  moreover have "bij_betw ((!) os) {..<length os} (set ns)" using bij_betw_nth[OF os(2) refl os(1)[symmetric]] .
  ultimately have "bij_betw ((!) R') (set ns) {0..<int (length ns)}" by (metis bij_betw_comp_iff)
  moreover have "R' ! u < R' ! v"
    if uv: "u \<in> set ns" "v \<in> set ns" and e: "e \<in> set es" "u \<in> set (epins g e)"
      "\<forall>f \<in> set es. v \<in> set (epins g f) \<longrightarrow> length (epins g f) < length (epins g e)" for u v e
  proof -
    obtain i j where ij: "i < length os" "u = os ! i" "j < length os" "v = os ! j"
      using uv os(1) by (metis in_set_conv_nth)
    have "\<not> leads g (set es) v u" using e by (force simp: leads_def)
    then have "\<not> j < i" using R(5) ij by (auto simp: sorted_wrt_iff_nth_less)
    moreover have "i \<noteq> j" using e ij by force
    ultimately show ?thesis using R(4) ij by auto
  qed
  ultimately show ?thesis using R by blast
qed

theorem NodeRank_correct_witness:
  "\<exists>g R'. CMygraph_of sample_mem sample_hyper = Inr g \<and> FindCutEdges g [0, 1, 1, 1] = Inr [0] \<and>
     FindCutNodes g [0] = Inr [1, 0] \<and> NodeRank g [1, 0] [0] [9, 9, 9, 9] = Inr R' \<and>
     bij_betw ((!) R') {0, 1} {0..<2}"
proof -
  obtain g where g: "CMygraph_of sample_mem sample_hyper = Inr g" "wf_mygraph g" "nvetes g = 4"
    by (rule sample_graph)
  have "sbind (CMygraph_of sample_mem sample_hyper) (\<lambda>g. FindCutEdges g [0, 1, 1, 1]) = Inr [0]"
    "sbind (CMygraph_of sample_mem sample_hyper) (\<lambda>g. FindCutNodes g [0]) = Inr [1, 0]"
    by code_simp+
  with g(1) have c: "FindCutEdges g [0, 1, 1, 1] = Inr [0]" "FindCutNodes g [0] = Inr [1, 0]" by simp_all
  have l: "length [0, 1, 1, 1 :: int] = nvetes g" "length [9, 9, 9, 9 :: int] = nvetes g" using g(3) by simp_all
  from NodeRank_correct[OF g(2) l c] obtain R' where "NodeRank g [1, 0] [0] [9, 9, 9, 9] = Inr R'"
      "bij_betw ((!) R') (set [1, 0]) {0..<int (length [1, 0 :: nat])}"
    by blast
  moreover have "set [1, 0 :: nat] = {0, 1}" "int (length [1, 0 :: nat]) = 2" by auto
  ultimately have "NodeRank g [1, 0] [0] [9, 9, 9, 9] = Inr R' \<and> bij_betw ((!) R') {0, 1} {0..<2}" by metis
  with g(1) c show ?thesis by blast
qed

section \<open>The counters and the driver\<close>

lemma zero_pin_ok:
  assumes "v < nvetes g" "e < g_nhedges g" "length pr = nvetes g" "length Z = g_nhedges g" "length V = nvetes g"
  shows "zero_pin pr e (Z, V) v = Inr (Z[e := Z ! e + (if pr ! v = 0 then 1 else 0)],
     V[v := (V ! v)\<lparr>v_firstarc := e # v_firstarc (V ! v), v_nodeNum := v_nodeNum (V ! v) + 1\<rparr>])"
  using assms by (auto simp: zero_pin_def)

definition zeros :: "CMygraph \<Rightarrow> int list \<Rightarrow> nat \<Rightarrow> int" where
  "zeros g pr e = int (length (filter (\<lambda>v. pr ! v = 0) (epins g e)))"

lemma FindZeroNodeCount_ok:
  assumes g: "wf_mygraph g" "length pr = nvetes g" and es: "\<forall>e \<in> set es. e < g_nhedges g" "distinct es"
    and len: "length Z = g_nhedges g" "length V = nvetes g"
  shows "ok (FindZeroNodeCount g es Z pr V) (\<lambda>(Z', V'). length Z' = g_nhedges g \<and> length V' = nvetes g \<and>
     (\<forall>e < g_nhedges g. Z' ! e = Z ! e + (if e \<in> set es then zeros g pr e else 0)) \<and>
     (\<forall>v < nvetes g. v_firstarc (V' ! v) = rev (filter (\<lambda>e. v \<in> set (epins g e)) es) @ v_firstarc (V ! v)))"
  using es len
proof (induction es arbitrary: Z V)
  case (Cons e es)
  note f = wf_edge_facts[OF g(1), of e]
  have e: "e < g_nhedges g" using Cons.prems(1) by simp
  have "ok (mfold (zero_pin pr e) (Z, V) (epins g e)) (\<lambda>(Z', V'). length Z' = g_nhedges g \<and> length V' = nvetes g \<and>
      Z' = Z[e := Z ! e + int (length (filter (\<lambda>v. pr ! v = 0) (epins g e)))] \<and>
     (\<forall>v < nvetes g. v_firstarc (V' ! v) = (if v \<in> set (epins g e) then [e] else []) @ v_firstarc (V ! v)))"
  proof (rule mfold_ok_prefix[where I = "\<lambda>ys (Z', V'). length Z' = g_nhedges g \<and> length V' = nvetes g \<and>
      Z' = Z[e := Z ! e + int (length (filter (\<lambda>v. pr ! v = 0) ys))] \<and>
     (\<forall>v < nvetes g. v_firstarc (V' ! v) = (if v \<in> set ys then [e] else []) @ v_firstarc (V ! v))"], goal_cases)
    case (2 ys v zs t)
    obtain Z' V' where t: "t = (Z', V')" by force
    have v: "v < nvetes g" "v \<notin> set ys" using f(3,4)[OF e] 2(1) by (auto simp: epins_def[symmetric])
    then show ?case using 2(2) e g(2) t by (auto simp: zero_pin_ok nth_list_update ac_simps)
  qed (use Cons.prems in auto)
  then obtain Z1 V1 where 1: "mfold (zero_pin pr e) (Z, V) (epins g e) = Inr (Z1, V1)" "length Z1 = g_nhedges g" "length V1 = nvetes g"
      "Z1 = Z[e := Z ! e + zeros g pr e]"
      "\<forall>v < nvetes g. v_firstarc (V1 ! v) = (if v \<in> set (epins g e) then [e] else []) @ v_firstarc (V ! v)"
    by (auto simp: ok_iff zeros_def)
  have "FindZeroNodeCount g (e # es) Z pr V = FindZeroNodeCount g es Z1 pr V1"
    using f(1)[OF e] 1(1) by (simp add: FindZeroNodeCount_def epins_def)
  moreover have "ok (FindZeroNodeCount g es Z1 pr V1) (\<lambda>(Z', V'). length Z' = g_nhedges g \<and> length V' = nvetes g \<and>
     (\<forall>e < g_nhedges g. Z' ! e = Z1 ! e + (if e \<in> set es then zeros g pr e else 0)) \<and>
     (\<forall>v < nvetes g. v_firstarc (V' ! v) = rev (filter (\<lambda>e. v \<in> set (epins g e)) es) @ v_firstarc (V1 ! v)))"
    using Cons.prems 1(2,3) by (intro Cons.IH) auto
  ultimately show ?case using 1(4,5) Cons.prems e by (auto simp: nth_list_update elim!: ok_mono)
qed (simp add: FindZeroNodeCount_def)

lemma cut_node_cells_ok:
  assumes "wf_mygraph g"
  shows "ok (cut_node_cells g) (\<lambda>V. length V = nvetes g \<and> (\<forall>v < nvetes g. v_firstarc (V ! v) = []))"
  unfolding cut_node_cells_def
  by (rule mfold_ok_upt[where I = "\<lambda>n V. length V = n \<and> (\<forall>v < n. v_firstarc (V ! v) = [])"])
    (use wf_vertex_facts(1)[OF assms] in \<open>auto simp: safe_simps nth_append less_Suc_eq\<close>)

text \<open>The vertices of the cut hyperedges.\<close>

definition cut_verts :: "CMygraph \<Rightarrow> int list \<Rightarrow> nat set" where
  "cut_verts g pr = {v. \<exists>e < g_nhedges g. is_cut g pr e \<and> v \<in> set (epins g e)}"

lemma length_rank_memset [simp]: "length (rank_memset mem n) = n"
  by (simp add: rank_memset_def)

lemma myFM_ok:
  assumes g: "wf_mygraph g" "bipart g pr"
  shows "ok (myFM mem g pr) (climb_result g pr (cut_verts g pr))"
proof -
  have len: "length pr = nvetes g" using g(2) by (rule bipart_length)
  let ?es = "filter (is_cut g pr) [0..<g_nhedges g]"
  have es: "FindCutEdges g pr = Inr ?es" "\<forall>e \<in> set ?es. e < g_nhedges g" "distinct ?es"
    using FindCutEdges_eq[OF g(1) len] by auto
  obtain ns where ns: "FindCutNodes g ?es = Inr ns" "distinct ns" "set ns = (\<Union>e \<in> set ?es. set (epins g e))"
    using FindCutNodes_ok[OF g(1) es(2)] by (auto simp: ok_iff)
  obtain R where R: "NodeRank g ns ?es (rank_memset mem (nvetes g)) = Inr R" "length R = nvetes g"
    using NodeRank_ok[OF g(1) es(2) length_rank_memset ns(2,3), of mem] by (auto simp: ok_iff)
  obtain V where V: "cut_node_cells g = Inr V" "length V = nvetes g" "\<forall>v < nvetes g. v_firstarc (V ! v) = []"
    using cut_node_cells_ok[OF g(1)] by (auto simp: ok_iff)
  obtain Z W where Z: "FindZeroNodeCount g ?es (replicate (g_nhedges g) 0) pr V = Inr (Z, W)" "length Z = g_nhedges g"
      "length W = nvetes g" "\<forall>v < nvetes g. v_firstarc (W ! v) = rev (filter (\<lambda>e. v \<in> set (epins g e)) ?es) @ v_firstarc (V ! v)"
    by (rule ok_pairE[OF FindZeroNodeCount_ok[OF g(1) len es(2,3) length_replicate V(2), of 0]])
      (elim conjE, rule that)
  have W: "cut_cells_ok g W" using Z(3,4) V(3) by (simp add: cut_cells_ok_def)
  have "\<forall>v \<in> set ns. v < nvetes g" using ns(3) es(2) wf_edge_facts(4)[OF g(1)] unfolding epins_def by blast
  moreover have "set ns = cut_verts g pr" using ns(3) by (auto simp: cut_verts_def)
  ultimately show ?thesis
    using HillClimbing_ok[OF g W R(2) ns(2) _ Z(2)] es(1) ns(1) R(1) V(1) Z(1) by (simp add: myFM_def)
qed

text \<open>
  \<open>FindZeroNodeCount\<close>, called as in \<open>myFM\<close>, returns for every cut hyperedge the number
  of its vertices in part 0 (and 0 for the others), and hangs on every vertex the chain of
  exactly the cut hyperedges that contain it.
\<close>

theorem FindZeroNodeCount_correct:
  assumes "wf_mygraph g" "bipart g pr" "FindCutEdges g pr = Inr es" "cut_node_cells g = Inr V"
  shows "\<exists>Z W. FindZeroNodeCount g es (replicate (g_nhedges g) 0) pr V = Inr (Z, W) \<and>
     (\<forall>e < g_nhedges g. Z ! e = (if e \<in> set es then int (card {v \<in> set (epins g e). pr ! v = 0}) else 0)) \<and>
     (\<forall>v < nvetes g. v_firstarc (W ! v) = rev (filter (\<lambda>e. v \<in> set (epins g e)) es))"
proof -
  have len: "length pr = nvetes g" using assms(2) by (rule bipart_length)
  have es: "\<forall>e \<in> set es. e < g_nhedges g" "distinct es" using FindCutEdges_eq[OF assms(1) len] assms(3) by auto
  have V: "length V = nvetes g" "\<forall>v < nvetes g. v_firstarc (V ! v) = []"
    using cut_node_cells_ok[OF assms(1)] assms(4) by simp_all
  have zc: "zeros g pr e = int (card {v \<in> set (epins g e). pr ! v = 0})" if "e < g_nhedges g" for e
    using distinct_card[of "filter (\<lambda>v. pr ! v = 0) (epins g e)"] wf_edge_facts(3)[OF assms(1) that]
    by (simp add: zeros_def epins_def)
  obtain Z W where Z: "FindZeroNodeCount g es (replicate (g_nhedges g) 0) pr V = Inr (Z, W)"
      "\<forall>e < g_nhedges g. Z ! e = replicate (g_nhedges g) 0 ! e + (if e \<in> set es then zeros g pr e else 0)"
      "\<forall>v < nvetes g. v_firstarc (W ! v) = rev (filter (\<lambda>e. v \<in> set (epins g e)) es) @ v_firstarc (V ! v)"
    using FindZeroNodeCount_ok[OF assms(1) len es length_replicate V(1), of 0] unfolding ok_iff by blast
  have "\<forall>e < g_nhedges g. Z ! e = (if e \<in> set es then int (card {v \<in> set (epins g e). pr ! v = 0}) else 0)"
    using Z(2) zc by simp
  moreover have "\<forall>v < nvetes g. v_firstarc (W ! v) = rev (filter (\<lambda>e. v \<in> set (epins g e)) es)"
    using Z(3) V(2) by simp
  ultimately show ?thesis using Z(1) by blast
qed

theorem FindZeroNodeCount_correct_witness:
  "\<exists>g V Z W. CMygraph_of sample_mem sample_hyper = Inr g \<and> cut_node_cells g = Inr V \<and>
     FindZeroNodeCount g [0] (replicate (g_nhedges g) 0) [0, 1, 1, 1] V = Inr (Z, W) \<and>
     (\<forall>v < 4. v_firstarc (W ! v) = rev (filter (\<lambda>e. v \<in> set (epins g e)) [0]))"
proof -
  obtain g where g: "CMygraph_of sample_mem sample_hyper = Inr g" "wf_mygraph g" "nvetes g = 4"
    by (rule sample_graph)
  have "sbind (CMygraph_of sample_mem sample_hyper) (\<lambda>g. FindCutEdges g [0, 1, 1, 1]) = Inr [0]" by code_simp
  with g(1) have c: "FindCutEdges g [0, 1, 1, 1] = Inr [0]" by simp
  obtain V where V: "cut_node_cells g = Inr V" using cut_node_cells_ok[OF g(2)] by (auto simp: ok_iff)
  have b: "bipart g [0, 1, 1, 1]" using g(3) by (auto simp: bipart_def numeral_eq_Suc less_Suc_eq)
  from FindZeroNodeCount_correct[OF g(2) b c V] g V show ?thesis by auto
qed

text \<open>
  C13. The refinement step \<open>myFM\<close> returns on every bipartition of a well-formed hypergraph,
  without an access outside an array, whatever the memory of \<open>Node_Rank\<close> held. Its result is a
  bipartition made from the input by moving at most \<open>iDistance\<close> different vertices of cut
  hyperedges, and the value it returns is at least the modularity of the input; it is the modularity of
  the input when nothing was moved, and otherwise that of the last move on top of some of the
  moves before it.
\<close>

theorem myFM_improves:
  assumes "wf_mygraph g" "bipart g pr"
  shows "\<exists>pr' m vs. myFM mem g pr = Inr (pr', m) \<and> bipart g pr' \<and> modularity g pr \<le> m \<and>
     pr' = foldl flip pr vs \<and> distinct vs \<and> length vs \<le> 20 \<and>
     (\<forall>v \<in> set vs. \<exists>e < g_nhedges g. is_cut g pr e \<and> v \<in> set (epins g e)) \<and>
     (if vs = [] then m = modularity g pr
      else \<exists>i < length vs. m = modularity g (flip (foldl flip pr (take i vs)) (last vs)))"
proof -
  obtain pr' m where r: "myFM mem g pr = Inr (pr', m)" "climb_result g pr (cut_verts g pr) (pr', m)"
    using myFM_ok[OF assms, of mem] by (auto simp: ok_iff)
  then obtain vs where vs: "modularity g pr \<le> m" "distinct vs" "set vs \<subseteq> cut_verts g pr" "length vs \<le> 20"
      "pr' = flips pr vs" "if vs = [] then m = modularity g pr
        else \<exists>i < length vs. m = modularity g (flip (flips pr (take i vs)) (last vs))"
    unfolding climb_result_def iDistance_def by blast
  moreover have "bipart g pr'" using vs(5) assms(2) by simp
  moreover have "\<forall>v \<in> set vs. \<exists>e < g_nhedges g. is_cut g pr e \<and> v \<in> set (epins g e)"
    using vs(3) by (auto simp: cut_verts_def)
  ultimately show ?thesis using r(1) by blast
qed

theorem myFM_improves_witness:
  "\<exists>g pr' m. CMygraph_of sample_mem sample_hyper = Inr g \<and> bipart g [0, 1, 1, 1] \<and>
     myFM (\<lambda>_. 7) g [0, 1, 1, 1] = Inr (pr', m) \<and> bipart g pr' \<and> modularity g [0, 1, 1, 1] \<le> m \<and>
     pr' = [0, 0, 1, 1] \<and> m = 1"
proof -
  obtain g where g: "CMygraph_of sample_mem sample_hyper = Inr g" "wf_mygraph g" "nvetes g = 4"
    by (rule sample_graph)
  have b: "bipart g [0, 1, 1, 1]" using g(3) by (auto simp: bipart_def numeral_eq_Suc less_Suc_eq)
  have "sbind (CMygraph_of sample_mem sample_hyper) (\<lambda>g. myFM (\<lambda>_. 7) g [0, 1, 1, 1]) = Inr ([0, 0, 1, 1], 1)"
    by code_simp
  with g(1) myFM_improves[OF g(2) b, of "\<lambda>_. 7"] b show ?thesis by auto
qed

section \<open>Two defects of the unused strategies\<close>

text \<open>
  \<open>OptimalSteps\<close> compares \<open>Node_Rank[node]\<close> with \<open>Node_Rank[fix]\<close> while \<open>fix\<close> is still
  \<open>-1\<close>: when the move of the first cut vertex changes nothing of the modularity, it reads
  outside the array.
\<close>

theorem OptimalSteps_reads_before_array:
  assumes "wf_mygraph g" "bipart g pr" "length R = nvetes g" "v < nvetes g"
    "modularity g (pr[v := 1 - pr ! v]) = modularity g pr"
  shows "OptimalSteps g (v # vs) pr R = Inl BadIndex"
proof -
  have "pr[v := 1 - pr ! v] = flip pr v" using bipart_nth[OF assms(2,4)] by (auto simp: flip_def)
  then have "trial g pr v = Inr (modularity g pr)" using trial_eq[OF assms(1,2,4)] assms(5) by simp
  then show ?thesis
    using ComputeModularity_eq[OF assms(1,2)] assms(3,4)
    by (simp add: OptimalSteps_def optimal_scan_def Let_def agetI_def dsub_def)
qed

theorem OptimalSteps_reads_before_array_witness:
  "\<exists>g. CMygraph_of sample_mem sample_hyper = Inr g \<and> FindCutEdges g [0, 1, 0, 1] = Inr [0, 1] \<and>
     FindCutNodes g [0, 1] = Inr [1, 0, 3, 2] \<and> OptimalSteps g [1, 0, 3, 2] [0, 1, 0, 1] [0, 1, 2, 3] = Inl BadIndex"
proof -
  obtain g where g: "CMygraph_of sample_mem sample_hyper = Inr g" "wf_mygraph g" "nvetes g = 4"
    by (rule sample_graph)
  have b: "bipart g [0, 1, 0, 1]" "bipart g [0, 0, 0, 1]" using g(3) by (auto simp: bipart_def numeral_eq_Suc less_Suc_eq)
  have "sbind (CMygraph_of sample_mem sample_hyper) (\<lambda>g. FindCutEdges g [0, 1, 0, 1]) = Inr [0, 1]"
    "sbind (CMygraph_of sample_mem sample_hyper) (\<lambda>g. FindCutNodes g [0, 1]) = Inr [1, 0, 3, 2]"
    "sbind (CMygraph_of sample_mem sample_hyper) (\<lambda>g. ComputeModularity g [0, 1, 0, 1]) = Inr (- 1000)"
    "sbind (CMygraph_of sample_mem sample_hyper) (\<lambda>g. ComputeModularity g [0, 0, 0, 1]) = Inr (- 1000)"
    by code_simp+
  with g(1) have c: "FindCutEdges g [0, 1, 0, 1] = Inr [0, 1]" "FindCutNodes g [0, 1] = Inr [1, 0, 3, 2]"
    "modularity g [0, 1, 0, 1] = - 1000" "modularity g [0, 0, 0, 1] = - 1000"
    using ComputeModularity_eq[OF g(2) b(1)] ComputeModularity_eq[OF g(2) b(2)] by simp_all
  have "OptimalSteps g [1, 0, 3, 2] [0, 1, 0, 1] [0, 1, 2, 3] = Inl BadIndex"
    using c(3,4) g(3) by (intro OptimalSteps_reads_before_array[OF g(2) b(1)]) simp_all
  with g(1) c(1,2) show ?thesis by blast
qed

text \<open>
  \<open>HillClimbingBigEdgeFirst\<close> undoes the move of the best stone too: it ends in the state before
  the best one.
\<close>

lemma big_rollback_before_best:
  assumes "bipart g pr" "length ms = length vs" "\<forall>v \<in> set vs. v < nvetes g" "mx \<in> set (m0 # ms)"
  shows "\<exists>j \<le> length vs. big_rollback mx (flips pr vs) (stones m0 ms vs) = Inr (flips pr (take (j - 1) vs)) \<and>
     (m0 # ms) ! j = mx"
  using assms(2-)
proof (induction ms vs rule: rev_induct2)
  case 1
  then show ?case by (simp add: stones_def)
next
  case (4 m ms v vs)
  let ?q = "flips pr vs"
  have q: "bipart g ?q" "v < nvetes g" using assms(1) 4 by auto
  have x: "flip ?q v ! v = 0 \<or> flip ?q v ! v = 1" "length (flip ?q v) = nvetes g"
    using bipart_nth[OF bipart_flip[OF q(1)] q(2)] bipart_length[OF bipart_flip[OF q(1)]] by auto
  have "(flip ?q v)[v := (if flip ?q v ! v = 0 then 1 else 0)] = flip (flip ?q v) v"
    using x(1) by (auto simp: flip_def)
  also have "\<dots> = ?q" using flip_flip[OF q] .
  finally have eq: "big_rollback mx (flip ?q v) (stones m0 (ms @ [m]) (vs @ [v])) =
      (if m = mx then Inr ?q else big_rollback mx ?q (stones m0 ms vs))"
    using x q(2) 4 by (simp add: stones_snoc agetI_def asetI_def)
  show ?case
  proof (cases "m = mx")
    case True
    with 4 eq show ?thesis by (intro exI[of _ "length (vs @ [v])"]) (auto simp: nth_append nth_Cons')
  next
    case False
    then obtain j where j: "j \<le> length vs" "big_rollback mx ?q (stones m0 ms vs) = Inr (flips pr (take (j - 1) vs))"
        "(m0 # ms) ! j = mx"
      using 4 by auto
    with 4 eq False show ?thesis by (intro exI[of _ j]) (auto simp: nth_append nth_Cons')
  qed
qed auto

end
