(* ===== verification/SubPartition.thy ===== *)
theory SubPartition
  imports Hypergraph
begin

text \<open>
  \<open>CMultilevel::subpartition\<close> (\<open>src/CArchitecture/Multilevel.cpp\<close>): a breadth-first
  growth from a seed vertex along the hyperedges that puts half of the vertices into part 0.
  The array \<open>part_res\<close> arrives as the caller allocated it, with unknown contents.
\<close>

section \<open>The code\<close>

record bfs =
  onepart :: "nat list"
  vertExist :: "(nat, bool) smap"
  part_res :: "int list"
  vertices_num :: nat

definition reach :: "bfs \<Rightarrow> nat \<Rightarrow> error + bfs" where
  "reach st v = sbind (aset (part_res st) v 0) (\<lambda>pr.
     Inr \<lparr>onepart = onepart st @ [v], vertExist = sinsert v True (vertExist st),
          part_res = pr, vertices_num = vertices_num st + 1\<rparr>)"

text \<open>The inner loop over the vertices of an edge, with its \<open>break\<close>.\<close>

fun scan_pins :: "nat \<Rightarrow> bfs \<Rightarrow> nat list \<Rightarrow> error + bfs" where
  "scan_pins half st [] = Inr st"
| "scan_pins half st (v # vs) =
     (if sfind (vertExist st) v = None then
        sbind (reach st v) (\<lambda>st. if half \<le> vertices_num st then Inr st else scan_pins half st vs)
      else scan_pins half st vs)"

text \<open>The loop over the edges of a vertex.\<close>

fun scan_edges :: "CMygraph \<Rightarrow> nat \<Rightarrow> bfs \<Rightarrow> nat list \<Rightarrow> error + bfs" where
  "scan_edges g half st [] = Inr st"
| "scan_edges g half st (e # es) =
     sbind (aget (pAllEdges g) e) (\<lambda>en. sbind (scan_pins half st (e_firstarc en)) (\<lambda>st.
       if half \<le> vertices_num st then Inr st else scan_edges g half st es))"

text \<open>The search for a vertex that was not reached, starting behind the seed.\<close>

fun next_seed :: "nat \<Rightarrow> nat \<Rightarrow> (nat, bool) smap \<Rightarrow> nat \<Rightarrow> error + nat" where
  "next_seed 0 n ex a = Inl OutOfFuel"
| "next_seed (Suc fuel) n ex a =
     (let a = (a + 1) mod n in if sfind ex a = None then Inr a else next_seed fuel n ex a)"

definition bfs_step :: "CMygraph \<Rightarrow> nat \<Rightarrow> nat \<Rightarrow> bfs \<Rightarrow> error + bfs" where
  "bfs_step g n seed st =
     sbind (deref (onepart st)) (\<lambda>nowVert. sbind (aget (pAllVertices g) nowVert) (\<lambda>vn.
     sbind (scan_edges g (n div 2) st (v_firstarc vn)) (\<lambda>st.
       let st = st\<lparr>onepart := tl (onepart st)\<rparr> in
       if onepart st = [] \<and> vertices_num st < n div 2 then
         sbind (next_seed n n (vertExist st) seed) (reach st)
       else Inr st)))"

fun bfs_loop :: "nat \<Rightarrow> CMygraph \<Rightarrow> nat \<Rightarrow> nat \<Rightarrow> bfs \<Rightarrow> error + bfs" where
  "bfs_loop 0 g n seed st = Inl OutOfFuel"
| "bfs_loop (Suc fuel) g n seed st =
     (if onepart st \<noteq> [] \<and> vertices_num st < n div 2
      then sbind (bfs_step g n seed st) (bfs_loop fuel g n seed)
      else Inr st)"

text \<open>The last loop: what is not 0 becomes 1.\<close>

definition fill_ones :: "int list \<Rightarrow> nat \<Rightarrow> error + int list" where
  "fill_ones pr i = sbind (aget pr i) (\<lambda>x. if x \<noteq> 0 then aset pr i 1 else Inr pr)"

definition subpartition :: "CMygraph \<Rightarrow> nat \<Rightarrow> nat \<Rightarrow> int list \<Rightarrow> error + int list" where
  "subpartition pInitGraph n seed pr =
     sbind (reach \<lparr>onepart = [], vertExist = [], part_res = pr, vertices_num = 0\<rparr> seed) (\<lambda>st.
     sbind (bfs_loop (n + 1) pInitGraph n seed st) (\<lambda>st.
       mfold fill_ones (part_res st) [0..<n]))"

section \<open>The growth invariant\<close>

text \<open>
  The vertices reached so far are the keys of \<open>vertExist\<close>; \<open>vertices_num\<close> counts them, their
  entries of \<open>part_res\<close> are 0 and the others are as they were on entry.
\<close>

definition grown :: "nat \<Rightarrow> int list \<Rightarrow> nat \<Rightarrow> bfs \<Rightarrow> bool" where
  "grown n mem seed st \<longleftrightarrow> smap_ok (vertExist st) \<and>
     (let X = skeys (vertExist st) in X \<subseteq> {..<n} \<and> seed \<in> X \<and> set (onepart st) \<subseteq> X \<and>
       vertices_num st = card X \<and> vertices_num st \<le> max 1 (n div 2) \<and>
       length (part_res st) = n \<and>
       (\<forall>v < n. part_res st ! v = (if v \<in> X then 0 else mem ! v)))"

definition fuel_of :: "nat \<Rightarrow> bfs \<Rightarrow> nat" where
  "fuel_of n st = (n - vertices_num st) + length (onepart st)"

lemma grown_count: "grown n mem seed st \<Longrightarrow> vertices_num st \<le> n"
  unfolding grown_def Let_def by (metis card_lessThan card_mono finite_lessThan)

text \<open>Reaching a new vertex keeps the invariant and spends nothing of the measure.\<close>

lemma reach_ok:
  assumes "grown n mem seed st" "v < n" "sfind (vertExist st) v = None" "vertices_num st < n div 2"
  shows "ok (reach st v) (\<lambda>st'. grown n mem seed st' \<and> fuel_of n st' = fuel_of n st \<and>
     vertices_num st' = vertices_num st + 1 \<and> onepart st' = onepart st @ [v])"
proof -
  have v: "v \<notin> skeys (vertExist st)" using assms(3) by (simp add: sfind_None_iff)
  have len: "length (part_res st) = n" using assms(1) by (simp add: grown_def Let_def)
  have "card (insert v (skeys (vertExist st))) = Suc (card (skeys (vertExist st)))"
    using v by simp
  with assms v len show ?thesis
    by (auto simp: reach_def safe_simps grown_def Let_def fuel_of_def nth_list_update)
qed

text \<open>One pass over a vertex: the queue only grows at its end, and the measure is untouched.\<close>

definition scanned :: "nat \<Rightarrow> int list \<Rightarrow> nat \<Rightarrow> bfs \<Rightarrow> bfs \<Rightarrow> bool" where
  "scanned n mem seed st st' \<longleftrightarrow> grown n mem seed st' \<and> fuel_of n st' = fuel_of n st \<and>
     (\<exists>vs. onepart st' = onepart st @ vs)"

lemma scan_pins_ok:
  assumes "grown n mem seed st" "\<forall>v \<in> set vs. v < n" "vertices_num st < n div 2"
  shows "ok (scan_pins (n div 2) st vs) (scanned n mem seed st)"
  using assms
proof (induction vs arbitrary: st)
  case (Cons v vs)
  show ?case
  proof (cases "sfind (vertExist st) v = None")
    case True
    then obtain st1 where st1: "reach st v = Inr st1" "grown n mem seed st1" "fuel_of n st1 = fuel_of n st"
      "onepart st1 = onepart st @ [v]"
      using reach_ok[OF Cons.prems(1), of v] Cons.prems by (auto simp: ok_iff)
    show ?thesis
    proof (cases "n div 2 \<le> vertices_num st1")
      case False
      then have "ok (scan_pins (n div 2) st1 vs) (scanned n mem seed st1)"
        using Cons.IH[OF st1(2)] Cons.prems by auto
      then show ?thesis using True False st1 by (auto elim!: ok_mono simp: scanned_def)
    qed (use True st1 in \<open>simp add: scanned_def\<close>)
  next
    case False
    then show ?thesis using Cons.IH[OF Cons.prems(1)] Cons.prems by (auto simp del: not_None_eq)
  qed
qed (simp add: scanned_def)

lemma scan_edges_ok:
  assumes g: "wf_mygraph g" "n = nvetes g"
    and "grown n mem seed st" "\<forall>e \<in> set es. e < g_nhedges g" "vertices_num st < n div 2"
  shows "ok (scan_edges g (n div 2) st es) (scanned n mem seed st)"
  using assms(3-)
proof (induction es arbitrary: st)
  case (Cons e es)
  have e: "e < length (pAllEdges g)" "\<forall>v \<in> set (e_firstarc (pAllEdges g ! e)). v < n"
    using wf_edge_facts[OF g(1), of e] g(2) Cons.prems(2) by simp_all
  obtain st1 where st1: "scan_pins (n div 2) st (e_firstarc (pAllEdges g ! e)) = Inr st1"
     "scanned n mem seed st st1"
    using scan_pins_ok[OF Cons.prems(1) e(2)] Cons.prems(3) by (auto simp: ok_iff)
  show ?case
  proof (cases "n div 2 \<le> vertices_num st1")
    case False
    then have "ok (scan_edges g (n div 2) st1 es) (scanned n mem seed st1)"
      using Cons.prems(2) st1(2) by (intro Cons.IH) (auto simp: scanned_def)
    then show ?thesis using e False st1 by (auto elim!: ok_mono simp: scanned_def)
  qed (use e st1 in simp)
qed (simp add: scanned_def)

text \<open>Some vertex is not reached, and going round once finds the first such one.\<close>

lemma next_seed_ok:
  assumes "0 < n" "v < n" "sfind ex v = None"
  shows "ok (next_seed n n ex a) (\<lambda>b. b < n \<and> sfind ex b = None)"
proof -
  have gen: "ok (next_seed fuel n ex a) (\<lambda>b. b < n \<and> sfind ex b = None)"
    if "0 < d" "d \<le> fuel" "sfind ex ((a + d) mod n) = None" for d fuel a
    using that
  proof (induction fuel arbitrary: a d)
    case (Suc fuel)
    show ?case
    proof (cases "sfind ex ((a + 1) mod n) = None")
      case False
      with Suc.prems have "1 < d" by (cases "d = 1") auto
      moreover have "((a + 1) mod n + (d - 1)) mod n = (a + d) mod n"
        using mod_add_left_eq[of "a + 1" n "d - 1"] \<open>1 < d\<close> by simp
      ultimately show ?thesis
        using False Suc.IH[of "d - 1" "(a + 1) mod n"] Suc.prems by (auto simp: Let_def)
    qed (use assms(1) in simp)
  qed simp
  define b where "b = a mod n"
  have am: "b < n" using assms(1) by (simp add: b_def)
  define d where "d = (if b < v then v - b else n + v - b)"
  have d: "0 < d" "d \<le> n" "b + d = v \<or> b + d = n + v"
    using am assms(2) by (auto simp: d_def)
  have "(a + d) mod n = (b + d) mod n" by (simp add: b_def mod_simps)
  also have "\<dots> = v" using d(3) assms(2) by auto
  finally show ?thesis using gen[of d n a] d assms(3) by simp
qed

lemma bfs_step_ok:
  assumes g: "wf_mygraph g" "n = nvetes g"
    and st: "grown n mem seed st" "onepart st \<noteq> []" "vertices_num st < n div 2"
  shows "ok (bfs_step g n seed st) (\<lambda>st'. grown n mem seed st' \<and> fuel_of n st' < fuel_of n st \<and>
     (onepart st' = [] \<longrightarrow> n div 2 \<le> vertices_num st'))"
proof -
  let ?v = "hd (onepart st)"
  have "?v \<in> set (onepart st)" using st(2) by simp
  then have v: "?v < n" using st(1) by (auto simp: grown_def Let_def)
  have vn: "?v < length (pAllVertices g)" "\<forall>e \<in> set (v_firstarc (pAllVertices g ! ?v)). e < g_nhedges g"
    using wf_vertex_facts[OF g(1)] g(2) v by simp_all
  obtain st1 where st1: "scan_edges g (n div 2) st (v_firstarc (pAllVertices g ! ?v)) = Inr st1"
     "scanned n mem seed st st1"
    using scan_edges_ok[OF g st(1) vn(2) st(3)] by (auto simp: ok_iff)
  let ?st2 = "st1\<lparr>onepart := tl (onepart st1)\<rparr>"
  have ne: "onepart st1 \<noteq> []" using st1(2) st(2) by (auto simp: scanned_def)
  have g2: "grown n mem seed ?st2"
    using st1(2) by (auto simp: scanned_def grown_def Let_def dest!: list.set_sel(2)[OF ne])
  have f2: "fuel_of n ?st2 < fuel_of n st"
    using st1(2) ne by (auto simp: scanned_def fuel_of_def simp flip: length_greater_0_conv)
  show ?thesis
  proof (cases "onepart ?st2 = [] \<and> vertices_num ?st2 < n div 2")
    case True
    have "card (skeys (vertExist ?st2)) < card {..<n}"
      using True g2 by (auto simp: grown_def Let_def)
    then have "\<not> {..<n} \<subseteq> skeys (vertExist ?st2)"
      by (metis finite_skeys card_mono linorder_not_less)
    then obtain w where "w < n" "sfind (vertExist ?st2) w = None"
      by (auto simp: sfind_None_iff)
    then obtain b where b: "next_seed n n (vertExist ?st2) seed = Inr b" "b < n" "sfind (vertExist ?st2) b = None"
      using next_seed_ok[of n w "vertExist ?st2" seed] by (auto simp: ok_iff)
    then have "ok (reach ?st2 b) (\<lambda>st'. grown n mem seed st' \<and> fuel_of n st' = fuel_of n ?st2 \<and>
       vertices_num st' = vertices_num ?st2 + 1 \<and> onepart st' = onepart ?st2 @ [b])"
      using True g2 by (intro reach_ok) auto
    then show ?thesis using True b vn(1) st(2) st1(1) f2
      by (auto simp: bfs_step_def deref_def Let_def split: list.split elim!: ok_mono)
  next
    case False
    then show ?thesis using vn(1) st(2) st1(1) g2 f2
      by (auto simp: bfs_step_def deref_def Let_def split: list.split)
  qed
qed

lemma bfs_loop_ok:
  assumes g: "wf_mygraph g" "n = nvetes g"
    and "grown n mem seed st" "fuel_of n st < fuel" "onepart st = [] \<longrightarrow> n div 2 \<le> vertices_num st"
  shows "ok (bfs_loop fuel g n seed st) (\<lambda>st'. grown n mem seed st' \<and> n div 2 \<le> vertices_num st')"
  using assms(3-)
proof (induction fuel arbitrary: st)
  case (Suc fuel)
  show ?case
  proof (cases "onepart st \<noteq> [] \<and> vertices_num st < n div 2")
    case True
    then obtain st1 where "bfs_step g n seed st = Inr st1" "grown n mem seed st1"
      "fuel_of n st1 < fuel_of n st" "onepart st1 = [] \<longrightarrow> n div 2 \<le> vertices_num st1"
      using bfs_step_ok[OF g Suc.prems(1)] by (auto simp: ok_iff)
    with Suc True show ?thesis by simp
  qed (use Suc.prems in auto)
qed simp

lemma fill_ones_ok:
  assumes "n \<le> length pr"
  shows "ok (mfold fill_ones pr [0..<n]) (\<lambda>r. length r = length pr \<and>
     (\<forall>v < n. r ! v = (if pr ! v = 0 then 0 else 1)))"
proof (rule mfold_ok_upt[where I = "\<lambda>k r. length r = length pr \<and>
     (\<forall>v < n. r ! v = (if v < k then if pr ! v = 0 then 0 else 1 else pr ! v))", THEN ok_mono], goal_cases)
  case (3 i t)
  then show ?case using assms by (auto simp: fill_ones_def safe_simps nth_list_update less_Suc_eq)
qed auto

section \<open>The order of the search\<close>

text \<open>
  Two vertices are adjacent when a hyperedge holds both. What a breadth-first search may reach
  next when \<open>vs\<close> is reached, in this order: a vertex adjacent to the earliest one that has
  something left to reach, and when nothing is left the first vertex behind the seed, round the
  numbers, that is not reached.
\<close>

definition adjacent :: "CMygraph \<Rightarrow> nat \<Rightarrow> nat \<Rightarrow> bool" where
  "adjacent g u v \<longleftrightarrow> (\<exists>e < g_nhedges g. u \<in> set (e_firstarc (pAllEdges g ! e)) \<and> v \<in> set (e_firstarc (pAllEdges g ! e)))"

definition exhausted :: "CMygraph \<Rightarrow> nat list \<Rightarrow> nat \<Rightarrow> bool" where
  "exhausted g vs i \<longleftrightarrow> (\<forall>w. adjacent g (vs ! i) w \<longrightarrow> w \<in> set vs)"

definition bfs_next :: "CMygraph \<Rightarrow> nat \<Rightarrow> nat \<Rightarrow> nat list \<Rightarrow> nat \<Rightarrow> bool" where
  "bfs_next g n seed vs v \<longleftrightarrow> v \<notin> set vs \<and>
     (if \<forall>i < length vs. exhausted g vs i
      then \<exists>d > 0. v = (seed + d) mod n \<and> (\<forall>c. 0 < c \<and> c < d \<longrightarrow> (seed + c) mod n \<in> set vs)
      else \<exists>j < length vs. adjacent g (vs ! j) v \<and> (\<forall>i < j. exhausted g vs i))"

definition bfs_order :: "CMygraph \<Rightarrow> nat \<Rightarrow> nat \<Rightarrow> nat list \<Rightarrow> bool" where
  "bfs_order g n seed vs \<longleftrightarrow> vs \<noteq> [] \<and> hd vs = seed \<and> (\<forall>i. 0 < i \<and> i < length vs \<longrightarrow> bfs_next g n seed (take i vs) (vs ! i))"

lemma bfs_order_snoc: "bfs_order g n seed vs \<Longrightarrow> bfs_next g n seed vs v \<Longrightarrow> bfs_order g n seed (vs @ [v])"
  by (auto simp: bfs_order_def nth_append less_Suc_eq)

text \<open>
  The queue holds the reached vertices from position \<open>f\<close> on, and those before it have nothing
  left to reach, unless half of the vertices is reached.
\<close>

definition ordered :: "CMygraph \<Rightarrow> nat \<Rightarrow> nat \<Rightarrow> nat \<Rightarrow> nat list \<Rightarrow> bfs \<Rightarrow> bool" where
  "ordered g n seed f vs st \<longleftrightarrow> bfs_order g n seed vs \<and> distinct vs \<and> smap_ok (vertExist st) \<and> skeys (vertExist st) = set vs \<and>
     vertices_num st = length vs \<and> onepart st = drop f vs \<and> f \<le> length vs \<and>
     (vertices_num st < n div 2 \<longrightarrow> (\<forall>i < f. exhausted g vs i))"

lemma exhausted_append: "exhausted g vs i \<Longrightarrow> i < length vs \<Longrightarrow> exhausted g (vs @ ws) i"
  by (auto simp: exhausted_def nth_append)

lemma reach_ordered:
  assumes "ordered g n seed f vs st" "reach st v = Inr st'" "bfs_next g n seed vs v" "vertices_num st < n div 2"
  shows "ordered g n seed f (vs @ [v]) st'"
proof -
  have v: "v \<notin> set vs" using assms(3) by (simp add: bfs_next_def)
  moreover have "\<forall>i < f. exhausted g (vs @ [v]) i" using assms(1,4) by (auto simp: ordered_def intro: exhausted_append)
  ultimately show ?thesis using assms bfs_order_snoc by (auto simp: ordered_def reach_def sbind_eq_Inr)
qed

text \<open>Scanning pins that are adjacent to the vertex at position \<open>f\<close>: all of them are reached, or half of all vertices.\<close>

lemma scan_pins_ordered:
  assumes "ordered g n seed f vs st" "scan_pins (n div 2) st ws = Inr st'" "f < length vs" "vertices_num st < n div 2"
    "\<forall>w \<in> set ws. adjacent g (vs ! f) w"
  shows "\<exists>us. ordered g n seed f (vs @ us) st' \<and> (vertices_num st' < n div 2 \<longrightarrow> set ws \<subseteq> set (vs @ us))"
  using assms
proof (induction ws arbitrary: st vs)
  case Nil
  then show ?case by (intro exI[of _ "[]"]) simp
next
  case (Cons w ws)
  have k: "skeys (vertExist st) = set vs" using Cons.prems(1) by (simp add: ordered_def)
  show ?case
  proof (cases "sfind (vertExist st) w = None")
    case True
    then obtain st1 where st1: "reach st w = Inr st1" using Cons.prems(2) by (auto simp: sbind_eq_Inr)
    have w: "w \<notin> set vs" using True k by (simp add: sfind_None_iff)
    have "\<not> exhausted g vs f" using w Cons.prems(5) by (auto simp: exhausted_def)
    then have "bfs_next g n seed vs w" using w Cons.prems(1,3-5) by (auto simp: bfs_next_def ordered_def)
    note o = reach_ordered[OF Cons.prems(1) st1 this Cons.prems(4)]
    show ?thesis
    proof (cases "n div 2 \<le> vertices_num st1")
      case True
      then have "st' = st1" using Cons.prems(2) st1 \<open>sfind (vertExist st) w = None\<close> by simp
      then show ?thesis using o True by (intro exI[of _ "[w]"]) simp
    next
      case False
      then have "scan_pins (n div 2) st1 ws = Inr st'" using Cons.prems(2) st1 \<open>sfind (vertExist st) w = None\<close> by simp
      from Cons.IH[OF o this] obtain us where "ordered g n seed f ((vs @ [w]) @ us) st'"
          "vertices_num st' < n div 2 \<longrightarrow> set ws \<subseteq> set ((vs @ [w]) @ us)"
        using False Cons.prems(3,5) by (auto simp: nth_append)
      then show ?thesis by (intro exI[of _ "w # us"]) auto
    qed
  next
    case False
    then have w: "w \<in> set vs" using k by (simp add: sfind_None_iff del: not_None_eq)
    have "scan_pins (n div 2) st ws = Inr st'" using False Cons.prems(2) by (simp del: not_None_eq)
    from Cons.IH[OF Cons.prems(1) this Cons.prems(3,4)] Cons.prems(5) w show ?thesis by auto
  qed
qed

lemma scan_edges_ordered:
  assumes "ordered g n seed f vs st" "scan_edges g (n div 2) st es = Inr st'" "f < length vs" "vertices_num st < n div 2"
    "\<forall>e \<in> set es. e < g_nhedges g \<and> vs ! f \<in> set (e_firstarc (pAllEdges g ! e))"
  shows "\<exists>us. ordered g n seed f (vs @ us) st' \<and>
     (vertices_num st' < n div 2 \<longrightarrow> (\<forall>e \<in> set es. set (e_firstarc (pAllEdges g ! e)) \<subseteq> set (vs @ us)))"
  using assms
proof (induction es arbitrary: st vs)
  case Nil
  then show ?case by (intro exI[of _ "[]"]) simp
next
  case (Cons e es)
  let ?ws = "e_firstarc (pAllEdges g ! e)"
  obtain st1 where st1: "scan_pins (n div 2) st ?ws = Inr st1" "(if n div 2 \<le> vertices_num st1 then Inr st1 else scan_edges g (n div 2) st1 es) = Inr st'"
    using Cons.prems(2) by (auto simp: sbind_eq_Inr aget_def split: if_splits)
  have "\<forall>w \<in> set ?ws. adjacent g (vs ! f) w" using Cons.prems(5) by (auto simp: adjacent_def)
  from scan_pins_ordered[OF Cons.prems(1) st1(1) Cons.prems(3,4) this] obtain us where
    us: "ordered g n seed f (vs @ us) st1" "vertices_num st1 < n div 2 \<longrightarrow> set ?ws \<subseteq> set (vs @ us)" by blast
  show ?case
  proof (cases "n div 2 \<le> vertices_num st1")
    case True
    then show ?thesis using us st1(2) by (intro exI[of _ us]) simp
  next
    case False
    then have "scan_edges g (n div 2) st1 es = Inr st'" using st1(2) by simp
    from Cons.IH[OF us(1) this] obtain us' where "ordered g n seed f ((vs @ us) @ us') st'"
        "vertices_num st' < n div 2 \<longrightarrow> (\<forall>e \<in> set es. set (e_firstarc (pAllEdges g ! e)) \<subseteq> set ((vs @ us) @ us'))"
      using False Cons.prems(3,5) by (auto simp: nth_append)
    then show ?thesis using False us(2) by (intro exI[of _ "us @ us'"]) auto
  qed
qed

lemma next_seed_first:
  "next_seed fuel n ex a = Inr b \<Longrightarrow> \<exists>d > 0. b = (a + d) mod n \<and> sfind ex b = None \<and> (\<forall>c. 0 < c \<and> c < d \<longrightarrow> sfind ex ((a + c) mod n) \<noteq> None)"
proof (induction fuel arbitrary: a)
  case (Suc fuel)
  show ?case
  proof (cases "sfind ex ((a + 1) mod n) = None")
    case True
    then show ?thesis using Suc.prems by (intro exI[of _ 1]) (simp add: Let_def)
  next
    case False
    then obtain d where d: "d > 0" "b = ((a + 1) mod n + d) mod n" "sfind ex b = None"
        "\<And>c. 0 < c \<Longrightarrow> c < d \<Longrightarrow> sfind ex (((a + 1) mod n + c) mod n) \<noteq> None"
      using Suc.IH[of "(a + 1) mod n"] Suc.prems by (auto simp: Let_def simp del: not_None_eq)
    have e: "((a + 1) mod n + c) mod n = (a + (c + 1)) mod n" for c by (simp add: mod_simps ac_simps)
    have "sfind ex ((a + c) mod n) \<noteq> None" if "0 < c" "c < d + 1" for c
      using False d(4)[of "c - 1"] that e[of "c - 1"] by (cases "c = 1") auto
    then show ?thesis using d(1-3) e[of d] by (intro exI[of _ "d + 1"]) auto
  qed
qed simp

lemma bfs_step_ordered:
  assumes g: "wf_mygraph g" "n = nvetes g"
    and "ordered g n seed f vs st" "bfs_step g n seed st = Inr st'" "onepart st \<noteq> []" "vertices_num st < n div 2" "set vs \<subseteq> {..<n}"
  shows "\<exists>us. ordered g n seed (f + 1) (vs @ us) st'"
proof -
  have f: "f < length vs" "hd (onepart st) = vs ! f" using assms(3,5) by (auto simp: ordered_def hd_drop_conv_nth)
  have v: "vs ! f < n" using f assms(7) by (meson nth_mem subset_iff lessThan_iff)
  let ?es = "v_firstarc (pAllVertices g ! (vs ! f))"
  have inc: "\<forall>e < g_nhedges g. e \<in> set ?es \<longleftrightarrow> vs ! f \<in> set (e_firstarc (pAllEdges g ! e))"
    using g v unfolding wf_mygraph_def by blast
  have es: "\<forall>e \<in> set ?es. e < g_nhedges g \<and> vs ! f \<in> set (e_firstarc (pAllEdges g ! e))"
    using inc wf_vertex_facts(3)[OF g(1)] v g(2) by blast
  obtain st1 where st1: "scan_edges g (n div 2) st ?es = Inr st1"
      "(let st = st1\<lparr>onepart := tl (onepart st1)\<rparr> in if onepart st = [] \<and> vertices_num st < n div 2
        then sbind (next_seed n n (vertExist st) seed) (reach st) else Inr st) = Inr st'"
    using assms(4,5) f(2) by (auto simp: bfs_step_def deref_def sbind_eq_Inr aget_def split: list.splits if_splits)
  obtain us where us: "ordered g n seed f (vs @ us) st1"
      "vertices_num st1 < n div 2 \<longrightarrow> (\<forall>e \<in> set ?es. set (e_firstarc (pAllEdges g ! e)) \<subseteq> set (vs @ us))"
    using scan_edges_ordered[OF assms(3) st1(1) f(1) assms(6) es] by blast
  let ?vs = "vs @ us" and ?st2 = "st1\<lparr>onepart := tl (onepart st1)\<rparr>"
  have "exhausted g ?vs f" if "vertices_num st1 < n div 2"
    using us(2) that inc f(1) by (fastforce simp: exhausted_def adjacent_def nth_append)
  then have o: "ordered g n seed (f + 1) ?vs ?st2"
    using us(1) f(1) by (auto simp: ordered_def less_Suc_eq drop_Suc tl_drop)
  show ?thesis
  proof (cases "onepart ?st2 = [] \<and> vertices_num ?st2 < n div 2")
    case True
    then obtain b where b: "next_seed n n (vertExist ?st2) seed = Inr b" "reach ?st2 b = Inr st'"
      using st1(2) by (auto simp: Let_def sbind_eq_Inr)
    have k: "sfind (vertExist ?st2) w = None \<longleftrightarrow> w \<notin> set ?vs" for w using o by (simp add: ordered_def sfind_None_iff)
    have "\<forall>i < length ?vs. exhausted g ?vs i" using o True by (auto simp: ordered_def)
    then have "bfs_next g n seed ?vs b" using next_seed_first[OF b(1)] unfolding k by (auto simp: bfs_next_def)
    from reach_ordered[OF o b(2) this] True show ?thesis by (intro exI[of _ "us @ [b]"]) simp
  next
    case False
    then have "st' = ?st2" using st1(2) by (auto simp: Let_def)
    then show ?thesis using o by blast
  qed
qed

lemma bfs_loop_ordered:
  assumes g: "wf_mygraph g" "n = nvetes g"
    and "ordered g n seed f vs st" "grown n mem seed st" "bfs_loop fuel g n seed st = Inr st'"
  shows "\<exists>f' us. ordered g n seed f' us st'"
  using assms(3-)
proof (induction fuel arbitrary: st f vs)
  case (Suc fuel)
  show ?case
  proof (cases "onepart st \<noteq> [] \<and> vertices_num st < n div 2")
    case True
    then obtain st1 where st1: "bfs_step g n seed st = Inr st1" "bfs_loop fuel g n seed st1 = Inr st'"
      using Suc.prems(3) by (auto simp: sbind_eq_Inr)
    have "set vs \<subseteq> {..<n}" using Suc.prems(1,2) by (simp add: ordered_def grown_def Let_def)
    then obtain us where "ordered g n seed (f + 1) (vs @ us) st1"
      using bfs_step_ordered[OF g Suc.prems(1) st1(1)] True by blast
    moreover have "grown n mem seed st1" using bfs_step_ok[OF g Suc.prems(2)] True st1(1) by (auto simp: ok_iff)
    ultimately show ?thesis using Suc.IH st1(2) by blast
  next
    case False
    then have "st' = st" using Suc.prems(3) by auto
    then show ?thesis using Suc.prems(1) by blast
  qed
qed simp

lemma subpartition_grown:
  assumes g: "wf_mygraph g" "n = nvetes g" and seed: "seed < n" and len: "length mem = n"
  shows "ok (subpartition g n seed mem) (\<lambda>r. length r = n \<and> (\<exists>vs. bfs_order g n seed vs \<and> distinct vs \<and> set vs \<subseteq> {..<n} \<and>
     length vs = max 1 (n div 2) \<and> (\<forall>v < n. r ! v = (if v \<in> set vs \<or> mem ! v = 0 then 0 else 1))))"
proof -
  let ?st = "\<lparr>onepart = [seed], vertExist = [(seed, True)], part_res = mem[seed := 0], vertices_num = 1\<rparr>"
  have "grown n mem seed ?st" "fuel_of n ?st < n + 1"
    using seed len by (auto simp: grown_def fuel_of_def Let_def nth_list_update smap_ok_def skeys_def)
  then obtain st where st: "bfs_loop (n + 1) g n seed ?st = Inr st" "grown n mem seed st" "n div 2 \<le> vertices_num st"
    using bfs_loop_ok[OF g, of mem seed ?st "n + 1"] by (auto simp: ok_iff)
  let ?X = "skeys (vertExist st)"
  have "ordered g n seed 0 [seed] ?st" by (simp add: ordered_def bfs_order_def skeys_def smap_ok_def)
  from bfs_loop_ordered[OF g this \<open>grown n mem seed ?st\<close> st(1)] obtain vs where
    vs: "bfs_order g n seed vs" "distinct vs" "?X = set vs" "vertices_num st = length vs" by (auto simp: ordered_def)
  have "1 \<le> card ?X" using st(2) unfolding grown_def Let_def
    by (metis One_nat_def Suc_leI card_gt_0_iff empty_iff finite_skeys)
  then have X: "?X \<subseteq> {..<n}" "seed \<in> ?X" "card ?X = max 1 (n div 2)" "length (part_res st) = n"
     "\<forall>v < n. part_res st ! v = (if v \<in> ?X then 0 else mem ! v)"
    using st(2,3) by (auto simp: grown_def Let_def)
  obtain r where r: "mfold fill_ones (part_res st) [0..<n] = Inr r" "length r = n"
     "\<forall>v < n. r ! v = (if v \<in> ?X \<or> mem ! v = 0 then 0 else 1)"
    using fill_ones_ok[of n "part_res st"] X(4,5) by (auto simp: ok_iff)
  have "subpartition g n seed mem = Inr r"
    using seed len st(1) r(1) by (simp add: subpartition_def reach_def)
  moreover have "length vs = max 1 (n div 2)" using X(3) vs(2,3) by (simp add: distinct_card)
  ultimately show ?thesis using r X(1) vs(1-3) by auto
qed

text \<open>
  C25. For a well-formed hypergraph with \<open>n\<close> vertices and any seed, \<open>subpartition\<close> returns
  (the queue loop and the search for a new seed end) and stays inside the arrays. The vertices
  it reaches are \<open>max 1 (n div 2)\<close> different ones in the order \<open>vs\<close> of a breadth-first search from the
  seed along the hyperedges, which goes on behind the seed when nothing more can be reached. A vertex
  ends in part 0 exactly if it was reached or the memory of its entry happened to hold 0, and in
  part 1 otherwise.
\<close>

theorem subpartition_half:
  assumes "wf_mygraph g" "seed < nvetes g" "length mem = nvetes g"
  shows "\<exists>r vs. subpartition g (nvetes g) seed mem = Inr r \<and> length r = nvetes g \<and>
     bfs_order g (nvetes g) seed vs \<and> distinct vs \<and> set vs \<subseteq> {..<nvetes g} \<and> length vs = max 1 (nvetes g div 2) \<and>
     (\<forall>v < nvetes g. r ! v = (if v \<in> set vs \<or> mem ! v = 0 then 0 else 1))"
  using subpartition_grown[OF assms(1) refl assms(2,3)] by (auto simp: ok_iff)

theorem subpartition_half_witness:
  "\<exists>g r vs. CMygraph_of sample_mem sample_hyper = Inr g \<and>
     subpartition g 4 2 [7, 7, 7, 7] = Inr r \<and> bfs_order g 4 2 vs \<and> distinct vs \<and> length vs = 2 \<and>
     (\<forall>v < 4. r ! v = (if v \<in> set vs then 0 else 1))"
proof -
  obtain g where g: "CMygraph_of sample_mem sample_hyper = Inr g" "wf_mygraph g" "nvetes g = 4"
    by (rule sample_graph)
  have l: "2 < nvetes g" "length [7, 7, 7, 7 :: int] = nvetes g" using g(3) by simp_all
  have nz: "v < 4 \<Longrightarrow> [7, 7, 7, 7 :: int] ! v \<noteq> 0" for v
    by (auto simp: numeral_eq_Suc less_Suc_eq)
  obtain r vs where r: "subpartition g 4 2 [7, 7, 7, 7] = Inr r" "bfs_order g 4 2 vs" "distinct vs" "length vs = 2"
     "\<forall>v < 4. r ! v = (if v \<in> set vs \<or> [7, 7, 7, 7 :: int] ! v = 0 then 0 else 1)"
    using subpartition_half[OF g(2) l] unfolding g(3) by auto
  from r(5) nz have "\<forall>v < 4. r ! v = (if v \<in> set vs then 0 else 1)" by presburger
  with g(1) r(1-4) show ?thesis by blast
qed

text \<open>
  The initialisation that \<open>myPartition\<close> leaves out matters: when the fresh array holds
  zeros, every vertex ends in part 0, whatever the hypergraph and the seed.
\<close>

theorem subpartition_zero_memory:
  assumes "wf_mygraph g" "seed < nvetes g"
  shows "subpartition g (nvetes g) seed (replicate (nvetes g) 0) = Inr (replicate (nvetes g) 0)"
proof -
  obtain r where "subpartition g (nvetes g) seed (replicate (nvetes g) 0) = Inr r" "length r = nvetes g"
     "\<forall>v < nvetes g. r ! v = 0"
    using subpartition_grown[OF assms(1) refl assms(2), of "replicate (nvetes g) 0"] by (auto simp: ok_iff)
  then show ?thesis by (auto intro: nth_equalityI)
qed

theorem subpartition_zero_memory_witness:
  "\<exists>g. CMygraph_of sample_mem sample_hyper = Inr g \<and> nvetes g = 4 \<and>
     subpartition g (nvetes g) 2 (replicate (nvetes g) 0) = Inr (replicate (nvetes g) 0)"
proof -
  obtain g where g: "CMygraph_of sample_mem sample_hyper = Inr g" "wf_mygraph g" "nvetes g = 4"
    by (rule sample_graph)
  have "2 < nvetes g" using g(3) by simp
  from subpartition_zero_memory[OF g(2) this] g show ?thesis by blast
qed

end
