(* ===== verification/Coarsening.thy ===== *)
theory Coarsening
  imports Hypergraph
begin

text \<open>
  \<open>CMultilevel::coarseningGraph\<close> (\<open>src/CArchitecture/Multilevel.cpp\<close>): vertices of a
  common hyperedge are merged, heavier hyperedges first; the hyperedges that were not merged
  become the hyperedges of the coarser hypergraph.
\<close>

section \<open>The code\<close>

text \<open>
  The local state of the merging loops: the vertex map \<open>keyTokey\<close>, the chains of merged
  vertices, the number of coarse vertices, the queue of edges left over and their largest weight.
\<close>

record coarse =
  c_key :: "(nat, nat) smap"
  c_hash :: "nat list list"
  vertCount :: nat
  newedges :: "nat list"
  maxweight :: int

text \<open>Edges in buckets by weight, each bucket in reverse order of the edge numbers.\<close>

definition add_bucket :: "CMygraph \<Rightarrow> nat list list \<Rightarrow> nat \<Rightarrow> error + nat list list" where
  "add_bucket g pMyHash i =
     sbind (aget (pAllEdges g) i) (\<lambda>en. sbind (agetI pMyHash (Hweight en)) (\<lambda>chain.
       asetI pMyHash (Hweight en) (i # chain)))"

definition weight_buckets :: "CMygraph \<Rightarrow> error + nat list list" where
  "weight_buckets g =
     mfold (add_bucket g) (replicate (nat (maxHweight g + 1)) []) [0..<g_nhedges g]"

text \<open>The body of the loop that merges the vertices of an edge none of which is merged yet.\<close>

definition put_vertex :: "coarse \<Rightarrow> nat \<Rightarrow> error + coarse" where
  "put_vertex st v =
     sbind (aget (c_hash st) (vertCount st)) (\<lambda>chain.
     sbind (aset (c_hash st) (vertCount st) (v # chain)) (\<lambda>hash.
       Inr (st\<lparr>c_hash := hash, c_key := sinsert v (vertCount st) (c_key st)\<rparr>)))"

definition merge_edge :: "CMygraph \<Rightarrow> coarse \<Rightarrow> nat \<Rightarrow> error + coarse" where
  "merge_edge g st e =
     sbind (aget (pAllEdges g) e) (\<lambda>en.
       if list_ex (\<lambda>v. sfind (c_key st) v \<noteq> None) (e_firstarc en) then
         Inr (st\<lparr>newedges := newedges st @ [e],
                 maxweight := (if maxweight st > Hweight en then maxweight st else Hweight en)\<rparr>)
       else
         sbind (mfold put_vertex st (e_firstarc en)) (\<lambda>st. Inr (st\<lparr>vertCount := vertCount st + 1\<rparr>)))"

text \<open>The second loop: what is left of an edge in the queue becomes one coarse vertex.\<close>

definition put_rest :: "coarse \<times> bool \<Rightarrow> nat \<Rightarrow> error + coarse \<times> bool" where
  "put_rest = (\<lambda>(st, allvertexist) v.
     if sfind (c_key st) v = None then sbind (put_vertex st v) (\<lambda>st. Inr (st, False))
     else Inr (st, allvertexist))"

definition merge_rest :: "CMygraph \<Rightarrow> coarse \<Rightarrow> nat \<Rightarrow> error + coarse" where
  "merge_rest g st e =
     sbind (aget (pAllEdges g) e) (\<lambda>en.
     sbind (mfold put_rest (st, True) (e_firstarc en)) (\<lambda>(st, allvertexist).
       Inr (if allvertexist then st else st\<lparr>vertCount := vertCount st + 1\<rparr>)))"

text \<open>The third loop: a vertex of no edge becomes a coarse vertex of its own.\<close>

definition merge_single :: "coarse \<Rightarrow> nat \<Rightarrow> error + coarse" where
  "merge_single st i =
     (if sfind (c_key st) i = None then
        sbind (put_vertex st i) (\<lambda>st. Inr (st\<lparr>vertCount := vertCount st + 1\<rparr>))
      else Inr st)"

text \<open>One pin of a coarse edge: every coarse vertex enters it once.\<close>

definition add_coarse_pin :: "(nat, nat) smap \<Rightarrow> nat \<Rightarrow> int \<Rightarrow>
    (nat, bool) smap \<times> Vnode list \<times> HEnode list \<Rightarrow> nat \<Rightarrow>
    error + (nat, bool) smap \<times> Vnode list \<times> HEnode list" where
  "add_coarse_pin key h w = (\<lambda>(NodeExist, V, E) v.
     case sfind key v of None \<Rightarrow> Inr (NodeExist, V, E)
     | Some c \<Rightarrow>
         (case sfind NodeExist c of Some _ \<Rightarrow> Inr (NodeExist, V, E)
          | None \<Rightarrow>
              sbind (aget E h) (\<lambda>en.
              sbind (aset E h (en\<lparr>e_firstarc := c # e_firstarc en, Hweight := w\<rparr>)) (\<lambda>E.
              sbind (aget V c) (\<lambda>vn.
              sbind (aset V c (vn\<lparr>v_firstarc := h # v_firstarc vn\<rparr>)) (\<lambda>V.
                Inr (sinsert c True NodeExist, V, E)))))))"

definition add_coarse_edge :: "CMygraph \<Rightarrow> (nat, nat) smap \<Rightarrow>
    Vnode list \<times> HEnode list \<times> nat \<Rightarrow> nat \<Rightarrow> error + Vnode list \<times> HEnode list \<times> nat" where
  "add_coarse_edge g key = (\<lambda>(V, E, hedgenum) edgenum.
     sbind (aget (pAllEdges g) edgenum) (\<lambda>en.
     sbind (mfold (add_coarse_pin key hedgenum (Hweight en)) ([], V, E) (e_firstarc en)) (\<lambda>(_, V, E).
       Inr (V, E, hedgenum + 1))))"

definition coarse_start :: "CMygraph \<Rightarrow> coarse" where
  "coarse_start g = \<lparr>c_key = [], c_hash = replicate (nvetes g + 1) [], vertCount = 0,
     newedges = [], maxweight = 1\<rparr>"

text \<open>The three merging loops (\<open>Multilevel.cpp\<close>, lines 153 to 259).\<close>

definition merge_vertices :: "CMygraph \<Rightarrow> error + coarse" where
  "merge_vertices g =
     sbind (weight_buckets g) (\<lambda>pMyHash.
     sbind (mfold (\<lambda>st i. sbind (aget pMyHash i) (mfold (merge_edge g) st))
              (coarse_start g) (rev [0..<nat (maxHweight g + 1)])) (\<lambda>st.
     sbind (mfold (merge_rest g) st (newedges st)) (\<lambda>st.
       mfold merge_single st [0..<nvetes g])))"

definition coarseningGraph :: "mem_cells \<Rightarrow> CMygraph \<Rightarrow> error + CMygraph" where
  "coarseningGraph mem g =
     sbind (merge_vertices g) (\<lambda>st.
       let V = map (\<lambda>i. (mem_v mem i)\<lparr>v_firstarc := [], v_node := i\<rparr>) [0..<vertCount st];
           E = map (\<lambda>i. (mem_e mem i)\<lparr>e_firstarc := [], Enode := i\<rparr>) [0..<length (newedges st)]
       in sbind (mfold (add_coarse_edge g (c_key st)) (V, E, 0) (newedges st)) (\<lambda>(V, E, _).
            Inr (CMygraph V E (Some g) (c_key st) (c_hash st) (vertCount st)
                   (length (newedges st)) (maxweight st))))"

section \<open>The merging invariant\<close>

text \<open>
  The chains and the vertex map describe each other, and the finished chains \<open>0..<vertCount\<close>
  are not empty. \<open>open_grp\<close> leaves the chain being filled out of the last condition.
\<close>

definition open_grp :: "nat \<Rightarrow> coarse \<Rightarrow> bool" where
  "open_grp n st \<longleftrightarrow> smap_ok (c_key st) \<and> skeys (c_key st) \<subseteq> {..<n} \<and>
     length (c_hash st) = n + 1 \<and>
     (\<forall>c \<le> n. distinct (c_hash st ! c) \<and>
        (\<forall>v. v \<in> set (c_hash st ! c) \<longleftrightarrow> sfind (c_key st) v = Some c)) \<and>
     (\<forall>c < vertCount st. c \<le> n \<and> c_hash st ! c \<noteq> []) \<and>
     (\<forall>v c. sfind (c_key st) v = Some c \<longrightarrow> c \<le> vertCount st)"

definition grp :: "nat \<Rightarrow> coarse \<Rightarrow> bool" where
  "grp n st \<longleftrightarrow> open_grp n st \<and> (\<forall>v c. sfind (c_key st) v = Some c \<longrightarrow> c < vertCount st)"

lemma grp_open: "grp n st \<Longrightarrow> open_grp n st"
  by (simp add: grp_def)

text \<open>There are no more coarse vertices than merged vertices, so the chains fit their array.\<close>

lemma vertCount_le:
  assumes "open_grp n st"
  shows "vertCount st \<le> card (skeys (c_key st))" "vertCount st \<le> n"
proof -
  let ?f = "\<lambda>c. hd (c_hash st ! c)"
  have m: "sfind (c_key st) (?f c) = Some c" if "c < vertCount st" for c
    using assms that hd_in_set unfolding open_grp_def by blast
  have "inj_on ?f {..<vertCount st}"
    using m by (intro inj_onI) (metis lessThan_iff option.inject)
  moreover have "?f ` {..<vertCount st} \<subseteq> skeys (c_key st)"
    using m by (auto dest!: sfind_dom)
  ultimately have "card {..<vertCount st} \<le> card (skeys (c_key st))"
    by (intro card_inj_on_le) auto
  then show "vertCount st \<le> card (skeys (c_key st))" by simp
  also have "\<dots> \<le> card {..<n}"
    using assms by (intro card_mono) (auto simp: open_grp_def)
  finally show "vertCount st \<le> n" by simp
qed

lemma put_vertex_ok:
  assumes "open_grp n st" "v < n" "sfind (c_key st) v = None"
  shows "ok (put_vertex st v) (\<lambda>st'. open_grp n st' \<and> sfind (c_key st') = (sfind (c_key st))(v \<mapsto> vertCount st) \<and>
     vertCount st' = vertCount st \<and> newedges st' = newedges st \<and> maxweight st' = maxweight st)"
proof -
  have vc: "vertCount st \<le> n" using assms(1) by (rule vertCount_le)
  have ok: "smap_ok (c_key st)" and len: "length (c_hash st) = n + 1"
    using assms(1) by (auto simp: open_grp_def)
  have f: "sfind (sinsert v (vertCount st) (c_key st)) = (sfind (c_key st))(v \<mapsto> vertCount st)"
    using ok assms(3) by (auto simp: sfind_sinsert fun_eq_iff)
  show ?thesis
    using assms vc len unfolding put_vertex_def open_grp_def
    by (auto simp: safe_simps f nth_list_update)
qed

text \<open>Closing a group that received a vertex.\<close>

lemma close_group:
  assumes "open_grp n st" "sfind (c_key st) v = Some (vertCount st)"
  shows "grp n (st\<lparr>vertCount := vertCount st + 1\<rparr>)"
proof -
  have vc: "vertCount st \<le> n" using assms(1) by (rule vertCount_le)
  then have "v \<in> set (c_hash st ! vertCount st)" using assms by (auto simp: open_grp_def)
  then have "c_hash st ! vertCount st \<noteq> []" by force
  with assms(1) vc show ?thesis by (fastforce simp: grp_def open_grp_def less_Suc_eq)
qed

section \<open>The three merging loops\<close>

lemma put_vertices_ok:
  assumes "open_grp n st" "\<forall>v \<in> set vs. v < n" "distinct vs" "\<forall>v \<in> set vs. sfind (c_key st) v = None"
  shows "ok (mfold put_vertex st vs) (\<lambda>st'. open_grp n st' \<and>
     (\<forall>v. sfind (c_key st') v = (if v \<in> set vs then Some (vertCount st) else sfind (c_key st) v)) \<and>
     vertCount st' = vertCount st \<and> newedges st' = newedges st \<and> maxweight st' = maxweight st)"
  using assms
proof (induction vs arbitrary: st)
  case (Cons v vs)
  obtain st1 where st1: "put_vertex st v = Inr st1" "open_grp n st1"
    "sfind (c_key st1) = (sfind (c_key st))(v \<mapsto> vertCount st)" "vertCount st1 = vertCount st"
    "newedges st1 = newedges st" "maxweight st1 = maxweight st"
    using put_vertex_ok[OF Cons.prems(1), of v] Cons.prems by (auto simp: ok_iff)
  have "ok (mfold put_vertex st1 vs) (\<lambda>st'. open_grp n st' \<and>
     (\<forall>v. sfind (c_key st') v = (if v \<in> set vs then Some (vertCount st1) else sfind (c_key st1) v)) \<and>
     vertCount st' = vertCount st1 \<and> newedges st' = newedges st1 \<and> maxweight st' = maxweight st1)"
    using st1 Cons.prems by (intro Cons.IH) auto
  then show ?case using st1 Cons.prems(3) by (auto elim!: ok_mono)
qed simp

lemma put_rests_ok:
  assumes "open_grp n st" "\<forall>v \<in> set vs. v < n"
  shows "ok (mfold put_rest (st, b) vs) (\<lambda>(st', b'). open_grp n st' \<and>
     (\<forall>v. sfind (c_key st') v = (if v \<in> set vs \<and> sfind (c_key st) v = None then Some (vertCount st)
        else sfind (c_key st) v)) \<and>
     vertCount st' = vertCount st \<and> newedges st' = newedges st \<and> maxweight st' = maxweight st \<and>
     (b' \<longleftrightarrow> b \<and> (\<forall>v \<in> set vs. sfind (c_key st) v \<noteq> None)))"
  using assms
proof (induction vs arbitrary: st b)
  case (Cons v vs)
  show ?case
  proof (cases "sfind (c_key st) v = None")
    case True
    obtain st1 where st1: "put_vertex st v = Inr st1" "open_grp n st1"
      "sfind (c_key st1) = (sfind (c_key st))(v \<mapsto> vertCount st)" "vertCount st1 = vertCount st"
      "newedges st1 = newedges st" "maxweight st1 = maxweight st"
      using put_vertex_ok[OF Cons.prems(1) _ True] Cons.prems by (auto simp: ok_iff)
    from Cons.IH[OF st1(2), of False] Cons.prems st1 True show ?thesis
      by (auto simp: put_rest_def elim!: ok_mono)
  next
    case False
    with Cons.IH[OF Cons.prems(1), of b] Cons.prems show ?thesis
      by (auto simp: put_rest_def elim!: ok_mono)
  qed
qed simp

text \<open>The edges whose vertices are all merged already.\<close>

definition covered :: "CMygraph \<Rightarrow> coarse \<Rightarrow> nat \<Rightarrow> bool" where
  "covered g st e \<longleftrightarrow> (\<forall>v \<in> set (e_firstarc (pAllEdges g ! e)). sfind (c_key st) v \<noteq> None)"

text \<open>Every chain lies within one edge of the finer hypergraph.\<close>

definition in_edges :: "CMygraph \<Rightarrow> coarse \<Rightarrow> bool" where
  "in_edges g st \<longleftrightarrow> (\<forall>c < vertCount st. \<exists>e < g_nhedges g.
     \<forall>v. sfind (c_key st) v = Some c \<longrightarrow> v \<in> set (e_firstarc (pAllEdges g ! e)))"

definition key_le :: "coarse \<Rightarrow> coarse \<Rightarrow> bool" where
  "key_le st st' \<longleftrightarrow> (\<forall>v. sfind (c_key st) v \<noteq> None \<longrightarrow> sfind (c_key st') v \<noteq> None)"

lemma covered_mono: "key_le st st' \<Longrightarrow> covered g st e \<Longrightarrow> covered g st' e"
  by (auto simp: covered_def key_le_def)

lemma in_edges_grow:
  assumes "in_edges g st" "e < g_nhedges g" "\<forall>v c. sfind (c_key st) v = Some c \<longrightarrow> c < vertCount st"
    and "\<And>v. sfind (c_key st') v = (if v \<in> S then Some (vertCount st) else sfind (c_key st) v)"
    and "S \<subseteq> set (e_firstarc (pAllEdges g ! e))" "vertCount st' = vertCount st"
  shows "in_edges g (st'\<lparr>vertCount := vertCount st' + 1\<rparr>)"
  unfolding in_edges_def
proof (intro allI impI)
  fix c assume "c < vertCount (st'\<lparr>vertCount := vertCount st' + 1\<rparr>)"
  then consider "c < vertCount st" | "c = vertCount st" using assms(6) by force
  then show "\<exists>e < g_nhedges g. \<forall>v. sfind (c_key (st'\<lparr>vertCount := vertCount st' + 1\<rparr>)) v = Some c
     \<longrightarrow> v \<in> set (e_firstarc (pAllEdges g ! e))"
  proof cases
    case 1
    then obtain d where "d < g_nhedges g"
      "\<forall>v. sfind (c_key st) v = Some c \<longrightarrow> v \<in> set (e_firstarc (pAllEdges g ! d))"
      using assms(1) by (auto simp: in_edges_def)
    then show ?thesis using 1 assms(4) by (intro exI[of _ d]) (auto split: if_splits)
  next
    case 2
    then show ?thesis using assms(2-5)
      by (intro exI[of _ e]) (auto split: if_splits)
  qed
qed

text \<open>What one edge of the first loop does.\<close>

definition queue_ok :: "CMygraph \<Rightarrow> coarse \<Rightarrow> bool" where
  "queue_ok g st \<longleftrightarrow> (\<forall>e \<in> set (newedges st). e < g_nhedges g \<and>
     Hweight (pAllEdges g ! e) \<le> maxweight st) \<and> 1 \<le> maxweight st"

lemma merge_edge_ok:
  assumes g: "wf_mygraph g" and e: "e < g_nhedges g"
    and st: "grp (nvetes g) st" "in_edges g st" "queue_ok g st"
  shows "ok (merge_edge g st e) (\<lambda>st'. grp (nvetes g) st' \<and> in_edges g st' \<and> queue_ok g st' \<and> key_le st st' \<and>
     set (newedges st) \<subseteq> set (newedges st') \<and> (covered g st' e \<or> e \<in> set (newedges st')))"
proof (cases "list_ex (\<lambda>v. sfind (c_key st) v \<noteq> None) (e_firstarc (pAllEdges g ! e))")
  case True
  then show ?thesis
    using st e wf_edge_facts[OF g e]
    by (auto simp: merge_edge_def safe_simps grp_def open_grp_def in_edges_def key_le_def queue_ok_def)
next
  case False
  let ?vs = "e_firstarc (pAllEdges g ! e)"
  have none: "\<forall>v \<in> set ?vs. sfind (c_key st) v = None" using False by (auto simp: list_ex_iff)
  obtain st1 where st1: "mfold put_vertex st ?vs = Inr st1" "open_grp (nvetes g) st1"
    "\<And>v. sfind (c_key st1) v = (if v \<in> set ?vs then Some (vertCount st) else sfind (c_key st) v)"
    "vertCount st1 = vertCount st" "newedges st1 = newedges st" "maxweight st1 = maxweight st"
    using put_vertices_ok[OF grp_open[OF st(1)] _ _ none] wf_edge_facts[OF g e] by (auto simp: ok_iff)
  let ?st2 = "st1\<lparr>vertCount := vertCount st1 + 1\<rparr>"
  have "grp (nvetes g) ?st2"
    using st1 wf_edge_facts(2)[OF g e] by (intro close_group[of _ _ "hd ?vs"]) auto
  moreover have "in_edges g ?st2"
    using st st1 e by (intro in_edges_grow[of g st e st1 "set ?vs"]) (auto simp: grp_def)
  moreover have "key_le st ?st2" "covered g ?st2 e" "queue_ok g ?st2"
    using st1 st(3) by (auto simp: key_le_def covered_def queue_ok_def)
  ultimately show ?thesis
    using False st1 wf_edge_facts(1)[OF g e] by (simp add: merge_edge_def)
qed

lemma merge_rest_ok:
  assumes g: "wf_mygraph g" and e: "e < g_nhedges g" and st: "grp (nvetes g) st" "in_edges g st"
  shows "ok (merge_rest g st e) (\<lambda>st'. grp (nvetes g) st' \<and> in_edges g st' \<and> key_le st st' \<and>
     newedges st' = newedges st \<and> maxweight st' = maxweight st \<and> covered g st' e)"
proof -
  let ?vs = "e_firstarc (pAllEdges g ! e)" and ?S = "{v \<in> set (e_firstarc (pAllEdges g ! e)). sfind (c_key st) v = None}"
  obtain st1 b where st1: "mfold put_rest (st, True) ?vs = Inr (st1, b)" "open_grp (nvetes g) st1"
    "\<And>v. sfind (c_key st1) v = (if v \<in> ?S then Some (vertCount st) else sfind (c_key st) v)"
    "vertCount st1 = vertCount st" "newedges st1 = newedges st" "maxweight st1 = maxweight st"
    "b \<longleftrightarrow> (\<forall>v \<in> set ?vs. sfind (c_key st) v \<noteq> None)"
    using put_rests_ok[OF grp_open[OF st(1)] wf_edge_facts(4)[OF g e], of True]
    by (simp add: ok_iff split_paired_Ex del: not_None_eq) blast
  let ?st2 = "if b then st1 else st1\<lparr>vertCount := vertCount st1 + 1\<rparr>"
  have "grp (nvetes g) ?st2"
  proof (cases b)
    case True
    with st1 st(1) show ?thesis by (auto simp: grp_def)
  next
    case False
    then obtain v where "v \<in> ?S" using st1(7) by auto
    with st1 False show ?thesis using close_group[of _ st1 v] by auto
  qed
  moreover have "in_edges g ?st2"
  proof (cases b)
    case True
    with st1 st(2) show ?thesis by (auto simp: in_edges_def)
  next
    case False
    have "in_edges g (st1\<lparr>vertCount := vertCount st1 + 1\<rparr>)"
      using st st1 e by (intro in_edges_grow[of g st e st1 ?S]) (auto simp: grp_def)
    with False show ?thesis by simp
  qed
  moreover have "key_le st ?st2" "covered g ?st2 e"
    using st1(3) by (auto simp: key_le_def covered_def)
  ultimately show ?thesis
    using st1(1,5,6) wf_edge_facts(1)[OF g e] by (simp add: merge_rest_def)
qed

lemma weight_buckets_ok:
  assumes g: "wf_mygraph g"
  shows "ok (weight_buckets g) (\<lambda>B. length B = nat (maxHweight g + 1) \<and>
     (\<forall>i < length B. distinct (B ! i) \<and> set (B ! i) = {e. e < g_nhedges g \<and> Hweight (pAllEdges g ! e) = int i}))"
proof -
  have "ok (weight_buckets g) (\<lambda>B. length B = nat (maxHweight g + 1) \<and>
     (\<forall>i < length B. distinct (B ! i) \<and> set (B ! i) = {e. e < g_nhedges g \<and> nat (Hweight (pAllEdges g ! e)) = i}))"
    unfolding weight_buckets_def
  proof (rule mfold_ok_upt[where I = "\<lambda>n B. length B = nat (maxHweight g + 1) \<and>
       (\<forall>i < length B. distinct (B ! i) \<and> set (B ! i) = {e. e < n \<and> nat (Hweight (pAllEdges g ! e)) = i})"], goal_cases)
    case (3 e B)
    let ?i = "nat (Hweight (pAllEdges g ! e))"
    have i: "?i < length B" "0 \<le> Hweight (pAllEdges g ! e)" using wf_edge_facts[OF g 3(2)] 3(3) by auto
    then show ?case
      using 3 wf_edge_facts(1)[OF g 3(2)] by (auto simp: add_bucket_def safe_simps nth_list_update less_Suc_eq)
  qed auto
  then show ?thesis using wf_edge_facts(5)[OF g] by (auto elim!: ok_mono)
qed

lemma buckets_cover:
  assumes g: "wf_mygraph g"
  obtains B where "weight_buckets g = Inr B" "length B = nat (maxHweight g + 1)"
     "\<forall>i < length B. \<forall>e \<in> set (B ! i). e < g_nhedges g" "\<forall>e < g_nhedges g. \<exists>i < length B. e \<in> set (B ! i)"
proof -
  obtain B where B: "weight_buckets g = Inr B" "length B = nat (maxHweight g + 1)"
     "\<forall>i < length B. distinct (B ! i) \<and> set (B ! i) = {e. e < g_nhedges g \<and> Hweight (pAllEdges g ! e) = int i}"
    using weight_buckets_ok[OF g] by (auto simp: ok_iff)
  have "e \<in> set (B ! nat (Hweight (pAllEdges g ! e))) \<and> nat (Hweight (pAllEdges g ! e)) < length B" if "e < g_nhedges g" for e
    using wf_edge_facts(5,6)[OF g that] B(2,3) that by auto
  then show thesis using that B by blast
qed

text \<open>
  The first loop over a list of edges, and its nesting over the buckets: every edge seen is
  covered or queued.
\<close>

definition merged_inv :: "CMygraph \<Rightarrow> nat set \<Rightarrow> coarse \<Rightarrow> bool" where
  "merged_inv g D st \<longleftrightarrow> grp (nvetes g) st \<and> in_edges g st \<and> queue_ok g st \<and>
     (\<forall>e \<in> D. covered g st e \<or> e \<in> set (newedges st))"

lemma merge_edges_ok:
  assumes g: "wf_mygraph g" and "merged_inv g D st" "\<forall>e \<in> set es. e < g_nhedges g"
  shows "ok (mfold (merge_edge g) st es) (merged_inv g (D \<union> set es))"
  using assms(2,3)
proof (induction es arbitrary: st D)
  case (Cons e es)
  obtain st1 where "merge_edge g st e = Inr st1" "grp (nvetes g) st1" "in_edges g st1" "queue_ok g st1"
    "key_le st st1" "set (newedges st) \<subseteq> set (newedges st1)" "covered g st1 e \<or> e \<in> set (newedges st1)"
    using merge_edge_ok[OF g, of e st] Cons.prems by (auto simp: ok_iff merged_inv_def)
  moreover from this have "merged_inv g (D \<union> {e}) st1"
    using Cons.prems(1) covered_mono by (auto simp: merged_inv_def)
  ultimately show ?case using Cons.IH[of "D \<union> {e}" st1] Cons.prems by simp
qed simp

lemma merge_buckets_ok:
  assumes g: "wf_mygraph g" and B: "\<forall>i < length B. \<forall>e \<in> set (B ! i). e < g_nhedges g"
    and "merged_inv g D st" "\<forall>i \<in> set is. i < length B"
  shows "ok (mfold (\<lambda>st i. sbind (aget B i) (mfold (merge_edge g) st)) st is)
     (merged_inv g (D \<union> (\<Union>i \<in> set is. set (B ! i))))"
  using assms(3,4)
proof (induction "is" arbitrary: st D)
  case (Cons i "is")
  obtain st1 where "mfold (merge_edge g) st (B ! i) = Inr st1" "merged_inv g (D \<union> set (B ! i)) st1"
    using merge_edges_ok[OF g Cons.prems(1), of "B ! i"] B Cons.prems(2) by (auto simp: ok_iff)
  then show ?case
    using Cons.IH[of "D \<union> set (B ! i)" st1] Cons.prems by (simp add: Un_assoc)
qed simp

lemma merge_rests_ok:
  assumes g: "wf_mygraph g" and "grp (nvetes g) st" "in_edges g st" "\<forall>e \<in> set es. e < g_nhedges g"
  shows "ok (mfold (merge_rest g) st es) (\<lambda>st'. grp (nvetes g) st' \<and> in_edges g st' \<and> key_le st st' \<and>
     newedges st' = newedges st \<and> maxweight st' = maxweight st \<and> (\<forall>e \<in> set es. covered g st' e))"
  using assms(2-)
proof (induction es arbitrary: st)
  case (Cons e es)
  obtain st1 where st1: "merge_rest g st e = Inr st1" "grp (nvetes g) st1" "in_edges g st1" "key_le st st1"
    "newedges st1 = newedges st" "maxweight st1 = maxweight st" "covered g st1 e"
    using merge_rest_ok[OF g, of e st] Cons.prems by (auto simp: ok_iff)
  have "ok (mfold (merge_rest g) st1 es) (\<lambda>st'. grp (nvetes g) st' \<and> in_edges g st' \<and> key_le st1 st' \<and>
     newedges st' = newedges st1 \<and> maxweight st' = maxweight st1 \<and> (\<forall>e \<in> set es. covered g st' e))"
    using st1 Cons.prems by (intro Cons.IH) auto
  then show ?case using st1 covered_mono by (auto elim!: ok_mono simp: key_le_def)
qed (auto simp: key_le_def)

text \<open>After the second loop every vertex is merged, so the third loop finds nothing to do.\<close>

lemma merge_singles_ok:
  assumes "\<forall>v < n. sfind (c_key st) v \<noteq> None"
  shows "mfold merge_single st [0..<n] = Inr st"
proof -
  have "mfold merge_single st xs = Inr st" if "\<forall>v \<in> set xs. sfind (c_key st) v \<noteq> None" for xs
    using that by (induction xs) (auto simp: merge_single_def)
  then show ?thesis using assms by simp
qed

lemma merged_inv_start: "merged_inv g {} (coarse_start g)"
  by (auto simp: merged_inv_def coarse_start_def grp_def open_grp_def in_edges_def queue_ok_def
      nth_replicate[of _ "nvetes g + 1"] simp del: replicate.simps)

lemma merge_vertices_ok:
  assumes g: "wf_mygraph g"
  shows "ok (merge_vertices g) (\<lambda>st. grp (nvetes g) st \<and> in_edges g st \<and> queue_ok g st \<and>
     (\<forall>v < nvetes g. sfind (c_key st) v \<noteq> None))"
proof -
  obtain B where B: "weight_buckets g = Inr B" "length B = nat (maxHweight g + 1)"
     "\<forall>i < length B. \<forall>e \<in> set (B ! i). e < g_nhedges g"
     "\<forall>e < g_nhedges g. \<exists>i < length B. e \<in> set (B ! i)"
    by (rule buckets_cover[OF g])
  have start: "merged_inv g {} (coarse_start g)" by (rule merged_inv_start)
  obtain st1 where st1: "mfold (\<lambda>st i. sbind (aget B i) (mfold (merge_edge g) st))
      (coarse_start g) (rev [0..<nat (maxHweight g + 1)]) = Inr st1"
      "merged_inv g (\<Union>i < length B. set (B ! i)) st1"
    using merge_buckets_ok[OF g B(3) start, of "rev [0..<nat (maxHweight g + 1)]"] B(2)
    by (auto simp: ok_iff lessThan_atLeast0)
  obtain st2 where st2: "mfold (merge_rest g) st1 (newedges st1) = Inr st2" "grp (nvetes g) st2"
      "in_edges g st2" "key_le st1 st2" "newedges st2 = newedges st1" "maxweight st2 = maxweight st1"
      "\<forall>e \<in> set (newedges st1). covered g st2 e"
    using merge_rests_ok[OF g, of st1 "newedges st1"] st1(2)
    by (auto simp: ok_iff merged_inv_def queue_ok_def)
  have "sfind (c_key st2) v \<noteq> None" if v: "v < nvetes g" for v
  proof -
    obtain e where e: "e < g_nhedges g" "v \<in> set (e_firstarc (pAllEdges g ! e))"
      using g v unfolding wf_mygraph_def by (metis list.set_intros(1) neq_Nil_conv)
    then have "covered g st1 e \<or> e \<in> set (newedges st1)" using B(4) st1(2) by (auto simp: merged_inv_def)
    then have "covered g st2 e" using st2 covered_mono by blast
    with e show ?thesis by (auto simp: covered_def)
  qed
  moreover have "queue_ok g st2" using st1(2) st2 by (auto simp: merged_inv_def queue_ok_def)
  ultimately show ?thesis
    using B(1) st1(1) st2 merge_singles_ok[of "nvetes g" st2] by (simp add: merge_vertices_def)
qed

section \<open>Which edges are merged\<close>

definition hpins :: "CMygraph \<Rightarrow> nat \<Rightarrow> nat set" where
  "hpins g e = set (e_firstarc (pAllEdges g ! e))"

definition hw :: "CMygraph \<Rightarrow> nat \<Rightarrow> int" where
  "hw g e = Hweight (pAllEdges g ! e)"

abbreviation heavier :: "CMygraph \<Rightarrow> nat \<Rightarrow> nat \<Rightarrow> bool" where
  "heavier g d e \<equiv> hw g e \<le> hw g d"

text \<open>
  The greedy choice: \<open>M\<close> are the edges that are merged to one vertex each, heavier ones first, and \<open>Q\<close> those
  left over, each of which shares a vertex with a merged one that is not lighter.
\<close>

definition merging :: "CMygraph \<Rightarrow> nat list \<Rightarrow> nat list \<Rightarrow> bool" where
  "merging g M Q \<longleftrightarrow> distinct (M @ Q) \<and> sorted_wrt (heavier g) M \<and> sorted_wrt (heavier g) Q \<and>
     (\<forall>e \<in> set Q. \<exists>d \<in> set M. heavier g d e \<and> hpins g d \<inter> hpins g e \<noteq> {})"

text \<open>After the edges \<open>ys\<close> of the first loop: a merged vertex has the number of its edge in \<open>M\<close>.\<close>

definition chosen :: "CMygraph \<Rightarrow> nat list \<Rightarrow> nat list \<Rightarrow> coarse \<Rightarrow> bool" where
  "chosen g M ys st \<longleftrightarrow> merging g M (newedges st) \<and> set (M @ newedges st) = set ys \<and> vertCount st = length M \<and>
     (\<forall>v c. sfind (c_key st) v = Some c \<longleftrightarrow> c < length M \<and> v \<in> hpins g (M ! c)) \<and>
     maxweight st = Max (insert 1 (hw g ` set (newedges st)))"

lemma merge_edge_chosen:
  assumes g: "wf_mygraph g" and e: "e < g_nhedges g" and st: "grp (nvetes g) st" "chosen g M ys st"
    and new: "e \<notin> set ys" "\<forall>d \<in> set ys. heavier g d e" and r: "merge_edge g st e = Inr st'"
  shows "\<exists>M'. chosen g M' (ys @ [e]) st'"
proof (cases "list_ex (\<lambda>v. sfind (c_key st) v \<noteq> None) (e_firstarc (pAllEdges g ! e))")
  case True
  then obtain v c where v: "v \<in> hpins g e" "c < length M" "v \<in> hpins g (M ! c)"
    using st(2) by (auto simp: list_ex_iff chosen_def hpins_def)
  then have d: "M ! c \<in> set M" "hpins g (M ! c) \<inter> hpins g e \<noteq> {}" by auto
  have st': "st' = st\<lparr>newedges := newedges st @ [e], maxweight := max (maxweight st) (hw g e)\<rparr>"
    using r True wf_edge_facts(1)[OF g e] by (auto simp: merge_edge_def hw_def max_def)
  have D: "\<forall>d \<in> set M \<union> set (newedges st). d \<noteq> e \<and> heavier g d e" using st(2) new by (auto simp: chosen_def)
  then have m: "\<exists>d \<in> set M. heavier g d e \<and> hpins g d \<inter> hpins g e \<noteq> {}" using d by blast
  have "merging g M (newedges st @ [e])" unfolding merging_def
  proof (intro conjI ballI)
    fix x assume "x \<in> set (newedges st @ [e])"
    then show "\<exists>d \<in> set M. heavier g d x \<and> hpins g d \<inter> hpins g x \<noteq> {}"
      using m st(2) unfolding chosen_def merging_def by (cases "x = e") simp_all
  qed (use st(2) D in \<open>auto simp: chosen_def merging_def sorted_wrt_append\<close>)
  moreover have "Max (insert 1 (hw g ` set (newedges st @ [e]))) = max (Max (insert 1 (hw g ` set (newedges st)))) (hw g e)"
    using Max_insert[of "insert 1 (hw g ` set (newedges st))" "hw g e"] by (simp add: insert_commute max.commute)
  ultimately have "chosen g M (ys @ [e]) st'" using st(2) unfolding st' chosen_def by auto
  then show ?thesis ..
next
  case False
  let ?vs = "e_firstarc (pAllEdges g ! e)"
  have none: "\<forall>v \<in> set ?vs. sfind (c_key st) v = None" using False by (auto simp: list_ex_iff)
  obtain st1 where st1: "mfold put_vertex st ?vs = Inr st1"
    "\<And>v. sfind (c_key st1) v = (if v \<in> set ?vs then Some (vertCount st) else sfind (c_key st) v)"
    "vertCount st1 = vertCount st" "newedges st1 = newedges st" "maxweight st1 = maxweight st"
    using put_vertices_ok[OF grp_open[OF st(1)] _ _ none] wf_edge_facts[OF g e] by (auto simp: ok_iff)
  have st': "st' = st1\<lparr>vertCount := vertCount st1 + 1\<rparr>" using r False st1(1) wf_edge_facts(1)[OF g e] by (simp add: merge_edge_def)
  have D: "\<forall>d \<in> set M \<union> set (newedges st). d \<noteq> e \<and> heavier g d e" using st(2) new by (auto simp: chosen_def)
  have key: "sfind (c_key st) v = Some c \<longleftrightarrow> c < length M \<and> v \<in> hpins g (M ! c)" for v c using st(2) by (simp add: chosen_def)
  have "sfind (c_key st1) v = Some c \<longleftrightarrow> c < length (M @ [e]) \<and> v \<in> hpins g ((M @ [e]) ! c)" for v c
  proof (cases "v \<in> hpins g e")
    case True
    then have "sfind (c_key st) v = None" using none by (simp add: hpins_def)
    then have "\<not> (c < length M \<and> v \<in> hpins g (M ! c))" using key[of v c] by simp
    then show ?thesis using True st1(2)[of v] st(2) by (auto simp: hpins_def chosen_def nth_append less_Suc_eq)
  next
    case False
    then show ?thesis using st1(2)[of v] key[of v c] by (auto simp: hpins_def nth_append less_Suc_eq)
  qed
  moreover have "merging g (M @ [e]) (newedges st)" using st(2) D by (auto simp: chosen_def merging_def sorted_wrt_append)
  ultimately have "chosen g (M @ [e]) (ys @ [e]) st'" using st(2) st1 unfolding st' chosen_def by auto
  then show ?thesis ..
qed

lemma merge_edges_chosen:
  assumes g: "wf_mygraph g" and "merged_inv g D st" "chosen g M ys st" "\<forall>e \<in> set es. e < g_nhedges g"
    "distinct (ys @ es)" "sorted_wrt (heavier g) (ys @ es)" "mfold (merge_edge g) st es = Inr st'"
  shows "\<exists>M'. chosen g M' (ys @ es) st'"
  using assms(2-)
proof (induction es arbitrary: st D M ys)
  case (Cons e es)
  obtain st1 where st1: "merge_edge g st e = Inr st1" "mfold (merge_edge g) st1 es = Inr st'"
    using Cons.prems(6) by (auto simp: sbind_eq_Inr)
  have "grp (nvetes g) st" using Cons.prems(1) by (simp add: merged_inv_def)
  then obtain M' where M': "chosen g M' (ys @ [e]) st1"
    using merge_edge_chosen[OF g _ _ Cons.prems(2) _ _ st1(1)] Cons.prems(3-5) by (auto simp: sorted_wrt_append)
  have "merged_inv g (D \<union> {e}) st1" using merge_edges_ok[OF g Cons.prems(1), of "[e]"] st1(1) Cons.prems(3) by simp
  from Cons.IH[OF this M'] show ?case using Cons.prems(3-5) st1(2) by simp
qed auto

text \<open>The buckets from the heaviest to the lightest, in one list.\<close>

lemma buckets_flat:
  assumes "\<forall>i \<in> set is. i < length B"
  shows "mfold (\<lambda>st i. sbind (aget B i) (mfold (merge_edge g) st)) st is = mfold (merge_edge g) st (concat (map ((!) B) is))"
  using assms by (induction "is" arbitrary: st) (simp_all add: mfold_append)

lemma buckets_order:
  assumes g: "wf_mygraph g" and "N \<le> length B"
    and B: "\<forall>i < length B. distinct (B ! i) \<and> set (B ! i) = {e. e < g_nhedges g \<and> hw g e = int i}"
  shows "let es = concat (map ((!) B) (rev [0..<N])) in distinct es \<and> sorted_wrt (heavier g) es \<and>
     set es = {e. e < g_nhedges g \<and> hw g e < int N}"
  using assms(2)
proof (induction N)
  case 0
  then show ?case using wf_edge_facts(5)[OF g] by (fastforce simp: hw_def)
next
  case (Suc N)
  have N: "distinct (B ! N)" "set (B ! N) = {e. e < g_nhedges g \<and> hw g e = int N}" using B Suc.prems by simp_all
  have "hw g (B ! N ! i) = int N" if "i < length (B ! N)" for i using N(2) nth_mem[OF that] by simp
  then have "sorted_wrt (heavier g) (B ! N)" unfolding sorted_wrt_iff_nth_less by simp
  define es where "es = concat (map ((!) B) (rev [0..<N]))"
  have I: "distinct es" "sorted_wrt (heavier g) es" "set es = {e. e < g_nhedges g \<and> hw g e < int N}"
    using Suc by (simp_all add: es_def Let_def)
  have s: "concat (map ((!) B) (rev [0..<Suc N])) = B ! N @ es" by (simp add: es_def)
  have "\<forall>d \<in> set (B ! N). \<forall>e \<in> set es. heavier g d e" "set (B ! N) \<inter> set es = {}" unfolding N(2) I(3) by auto
  moreover have "set (B ! N) \<union> set es = {e. e < g_nhedges g \<and> hw g e < int (Suc N)}" unfolding N(2) I(3) by auto
  ultimately show ?case unfolding s Let_def using N(1) I(1,2) \<open>sorted_wrt (heavier g) (B ! N)\<close> by (simp add: sorted_wrt_append)
qed

text \<open>The second loop: what is left of the edges of the queue, one after the other.\<close>

definition left_of :: "CMygraph \<Rightarrow> nat list \<Rightarrow> nat list \<Rightarrow> nat \<Rightarrow> nat set" where
  "left_of g M Q i = hpins g (Q ! i) - (\<Union>e \<in> set (M @ take i Q). hpins g e)"

definition grouped :: "CMygraph \<Rightarrow> nat list \<Rightarrow> nat list \<Rightarrow> nat \<Rightarrow> coarse \<Rightarrow> bool" where
  "grouped g M Q n st \<longleftrightarrow> length M \<le> vertCount st \<and>
     (\<forall>v. sfind (c_key st) v \<noteq> None \<longleftrightarrow> (\<exists>e \<in> set (M @ take n Q). v \<in> hpins g e)) \<and>
     (\<forall>c < length M. \<forall>v. sfind (c_key st) v = Some c \<longleftrightarrow> v \<in> hpins g (M ! c)) \<and>
     (\<forall>c < vertCount st. length M \<le> c \<longrightarrow> (\<exists>i < n. \<forall>v. sfind (c_key st) v = Some c \<longleftrightarrow> v \<in> left_of g M Q i))"

lemma merge_rest_key:
  assumes g: "wf_mygraph g" "e < g_nhedges g" and "grp (nvetes g) st" "merge_rest g st e = Inr st'"
    and S: "S = {v \<in> hpins g e. sfind (c_key st) v = None}"
  shows "sfind (c_key st') v = (if v \<in> S then Some (vertCount st) else sfind (c_key st) v)"
    "vertCount st' = (if S = {} then vertCount st else vertCount st + 1)"
proof -
  let ?vs = "e_firstarc (pAllEdges g ! e)"
  obtain st1 b where st1: "mfold put_rest (st, True) ?vs = Inr (st1, b)"
    "\<And>v. sfind (c_key st1) v = (if v \<in> set ?vs \<and> sfind (c_key st) v = None then Some (vertCount st) else sfind (c_key st) v)"
    "vertCount st1 = vertCount st" "b \<longleftrightarrow> (\<forall>v \<in> set ?vs. sfind (c_key st) v \<noteq> None)"
    using put_rests_ok[OF grp_open[OF assms(3)] wf_edge_facts(4)[OF g], of True]
    by (simp add: ok_iff split_paired_Ex del: not_None_eq) blast
  have "st' = (if b then st1 else st1\<lparr>vertCount := vertCount st1 + 1\<rparr>)"
    using assms(4) st1(1) wf_edge_facts(1)[OF g] by (simp add: merge_rest_def)
  moreover have "b \<longleftrightarrow> S = {}" using st1(4) by (auto simp: S hpins_def)
  ultimately show "sfind (c_key st') v = (if v \<in> S then Some (vertCount st) else sfind (c_key st) v)"
    "vertCount st' = (if S = {} then vertCount st else vertCount st + 1)"
    using st1(2)[of v] st1(3) by (auto simp: S hpins_def)
qed

lemma merge_rest_grouped:
  assumes g: "wf_mygraph g" "Q ! n < g_nhedges g" and n: "n < length Q" and st: "grp (nvetes g) st" "grouped g M Q n st"
    and r: "merge_rest g st (Q ! n) = Inr st'"
  shows "grouped g M Q (Suc n) st'"
proof -
  let ?S = "{v \<in> hpins g (Q ! n). sfind (c_key st) v = None}"
  note K = merge_rest_key[OF g st(1) r refl]
  have b: "c < vertCount st" if "sfind (c_key st) v = Some c" for v c using st(1) that by (simp add: grp_def)
  have dom: "sfind (c_key st) v \<noteq> None \<longleftrightarrow> (\<exists>e \<in> set (M @ take n Q). v \<in> hpins g e)" for v using st(2) by (simp add: grouped_def)
  have S: "?S = left_of g M Q n" using dom unfolding left_of_def by blast
  have tk: "set (M @ take (Suc n) Q) = insert (Q ! n) (set (M @ take n Q))" using n by (simp add: take_Suc_conv_app_nth)
  show ?thesis unfolding grouped_def
  proof (intro conjI allI impI)
    show "length M \<le> vertCount st'" using st(2) K(2) by (simp add: grouped_def)
    show "sfind (c_key st') v \<noteq> None \<longleftrightarrow> (\<exists>e \<in> set (M @ take (Suc n) Q). v \<in> hpins g e)" for v
      unfolding K(1)[of v] tk using dom[of v] by auto
    show "sfind (c_key st') v = Some c \<longleftrightarrow> v \<in> hpins g (M ! c)" if c: "c < length M" for c v
    proof -
      have "c \<noteq> vertCount st" using c st(2) by (simp add: grouped_def)
      moreover have "sfind (c_key st) v = Some c \<longleftrightarrow> v \<in> hpins g (M ! c)" using c st(2) by (simp add: grouped_def)
      ultimately show ?thesis using K(1)[of v] by auto
    qed
    fix c assume c: "c < vertCount st'" "length M \<le> c"
    show "\<exists>i < Suc n. \<forall>v. sfind (c_key st') v = Some c \<longleftrightarrow> v \<in> left_of g M Q i"
    proof (cases "c < vertCount st")
      case True
      then obtain i where i: "i < n" "\<forall>v. sfind (c_key st) v = Some c \<longleftrightarrow> v \<in> left_of g M Q i" using st(2) c(2) by (auto simp: grouped_def)
      have "sfind (c_key st') v = Some c \<longleftrightarrow> v \<in> left_of g M Q i" for v
        using K(1)[of v] i(2)[rule_format, of v] True by (cases "sfind (c_key st) v") auto
      then show ?thesis using i(1) by (intro exI[of _ i]) simp
    next
      case False
      then have c': "c = vertCount st" using c(1) K(2) by (auto split: if_splits)
      have "sfind (c_key st') v = Some c \<longleftrightarrow> v \<in> left_of g M Q n" for v using K(1)[of v] b[of v c] unfolding S c' by auto
      then show ?thesis by (intro exI[of _ n]) simp
    qed
  qed
qed

lemma merge_rests_grouped:
  assumes g: "wf_mygraph g" and Q: "\<forall>e \<in> set Q. e < g_nhedges g" and st: "grp (nvetes g) st" "in_edges g st" "grouped g M Q 0 st"
    and r: "mfold (merge_rest g) st Q = Inr st'"
  shows "grouped g M Q (length Q) st'"
proof -
  have "ok (mfold (merge_rest g) st Q) (\<lambda>t. grp (nvetes g) t \<and> in_edges g t \<and> grouped g M Q (length Q) t)"
  proof (rule mfold_ok_prefix[where I = "\<lambda>ys t. grp (nvetes g) t \<and> in_edges g t \<and> grouped g M Q (length ys) t"], goal_cases)
    case (2 ys e zs t)
    have e: "e < g_nhedges g" "Q ! length ys = e" "length ys < length Q" using 2(1) Q by auto
    obtain t' where t': "merge_rest g t e = Inr t'" "grp (nvetes g) t'" "in_edges g t'"
      using merge_rest_ok[OF g e(1)] 2(2) by (auto simp: ok_iff)
    moreover have "grouped g M Q (Suc (length ys)) t'" using merge_rest_grouped[OF g, of Q "length ys"] e 2(2) t'(1) by auto
    ultimately show ?case by simp
  qed (use st in simp)
  then show ?thesis using r by simp
qed

text \<open>The merging loops together.\<close>

lemma merge_vertices_exact:
  assumes g: "wf_mygraph g" and r: "merge_vertices g = Inr st"
  shows "\<exists>M. merging g M (newedges st) \<and> set (M @ newedges st) = {..<g_nhedges g} \<and> grouped g M (newedges st) (length (newedges st)) st \<and>
     maxweight st = Max (insert 1 (hw g ` set (newedges st)))"
proof -
  obtain B where B: "weight_buckets g = Inr B" "length B = nat (maxHweight g + 1)"
     "\<forall>i < length B. distinct (B ! i) \<and> set (B ! i) = {e. e < g_nhedges g \<and> hw g e = int i}"
    using weight_buckets_ok[OF g] by (auto simp: ok_iff hw_def)
  define es where "es = concat (map ((!) B) (rev [0..<length B]))"
  have es: "distinct es" "sorted_wrt (heavier g) es" "set es = {..<g_nhedges g}"
    using buckets_order[OF g _ B(3), of "length B"] wf_edge_facts(6)[OF g] B(2) g by (auto simp: es_def Let_def hw_def wf_mygraph_def)
  obtain st1 st2 where s: "mfold (merge_edge g) (coarse_start g) es = Inr st1" "mfold (merge_rest g) st1 (newedges st1) = Inr st2"
      "mfold merge_single st2 [0..<nvetes g] = Inr st"
    using r B(1) buckets_flat[of "rev [0..<length B]" B g "coarse_start g"]
    by (auto simp: merge_vertices_def sbind_eq_Inr B(2)[symmetric] es_def)
  have start: "merged_inv g {} (coarse_start g)" by (rule merged_inv_start)
  have "chosen g [] [] (coarse_start g)" by (simp add: chosen_def merging_def coarse_start_def)
  then obtain M where M: "chosen g M es st1"
    using merge_edges_chosen[OF g start, of "[]" "[]" es st1] es s(1) by auto
  have i: "merged_inv g (set es) st1" using merge_edges_ok[OF g start, of es] es(3) s(1) by simp
  then have q: "\<forall>e \<in> set (newedges st1). e < g_nhedges g" by (simp add: merged_inv_def queue_ok_def)
  have "sfind (c_key st1) v \<noteq> None \<longleftrightarrow> (\<exists>c < length M. v \<in> hpins g (M ! c))" for v
    using M by (auto simp: chosen_def)
  then have "grouped g M (newedges st1) 0 st1" using M unfolding grouped_def chosen_def by (simp add: Bex_def in_set_conv_nth del: not_None_eq) blast
  then have G: "grouped g M (newedges st1) (length (newedges st1)) st2"
    using merge_rests_grouped[OF g q _ _ _ s(2)] i by (simp add: merged_inv_def)
  obtain st2' where "mfold (merge_rest g) st1 (newedges st1) = Inr st2'" "newedges st2' = newedges st1" "maxweight st2' = maxweight st1"
    using merge_rests_ok[OF g, of st1 "newedges st1"] i q by (auto simp: merged_inv_def ok_iff)
  then have n: "newedges st2 = newedges st1" "maxweight st2 = maxweight st1" using s(2) by simp_all
  have "sfind (c_key st2) v \<noteq> None" if v: "v < nvetes g" for v
  proof -
    obtain e where "e < g_nhedges g" "v \<in> hpins g e" using g v unfolding wf_mygraph_def hpins_def by (metis list.set_intros(1) neq_Nil_conv)
    moreover have "set (M @ newedges st1) = {..<g_nhedges g}" using M es(3) by (simp add: chosen_def)
    ultimately show ?thesis using G by (auto simp: grouped_def simp del: not_None_eq set_append)
  qed
  then have "st = st2" using s(3) merge_singles_ok[of "nvetes g" st2] by simp
  then show ?thesis using M G n es(3) by (auto simp: chosen_def)
qed

section \<open>The coarse edges\<close>

text \<open>
  The arrays of the coarse hypergraph after \<open>h\<close> edges of the queue \<open>q\<close>: each edge holds the
  images of its vertices once, and the chains of the vertices agree with those of the edges.
\<close>

definition coarse_edge :: "CMygraph \<Rightarrow> (nat, nat) smap \<Rightarrow> nat \<Rightarrow> nat set" where
  "coarse_edge g key e = (\<lambda>v. the (sfind key v)) ` set (e_firstarc (pAllEdges g ! e))"

definition cinv :: "nat \<Rightarrow> nat \<Rightarrow> (nat \<Rightarrow> nat set) \<Rightarrow> (nat \<Rightarrow> int) \<Rightarrow> nat \<Rightarrow> Vnode list \<Rightarrow> HEnode list \<Rightarrow> bool" where
  "cinv nv ne S w h V E \<longleftrightarrow> length V = nv \<and> length E = ne \<and>
     (\<forall>k < ne. Enode (E ! k) = k \<and> distinct (e_firstarc (E ! k)) \<and> (h < k \<longrightarrow> e_firstarc (E ! k) = []) \<and>
        (k < h \<longrightarrow> set (e_firstarc (E ! k)) = S k \<and> Hweight (E ! k) = w k)) \<and>
     (\<forall>c < nv. v_node (V ! c) = c \<and>
        (\<forall>k. k \<in> set (v_firstarc (V ! c)) \<longleftrightarrow> k < ne \<and> c \<in> set (e_firstarc (E ! k))))"

lemma add_coarse_pins_ok:
  assumes "cinv nv ne S w h V E" "h < ne" "smap_ok X" "skeys X = set (e_firstarc (E ! h))"
    and "\<forall>v \<in> set vs. \<exists>c < nv. sfind key v = Some c"
    and "e_firstarc (E ! h) = [] \<or> Hweight (E ! h) = wt"
  shows "ok (mfold (add_coarse_pin key h wt) (X, V, E) vs) (\<lambda>(X', V', E').
     cinv nv ne S w h V' E' \<and>
     set (e_firstarc (E' ! h)) = set (e_firstarc (E ! h)) \<union> (\<lambda>v. the (sfind key v)) ` set vs \<and>
     (e_firstarc (E' ! h) = [] \<or> Hweight (E' ! h) = wt))"
  using assms
proof (induction vs arbitrary: X V E)
  case (Cons v vs)
  obtain c where c: "c < nv" "sfind key v = Some c" using Cons.prems(5) by auto
  show ?case
  proof (cases "sfind X c")
    case (Some b)
    then have "c \<in> set (e_firstarc (E ! h))" using Cons.prems(4) sfind_dom by fastforce
    then show ?thesis using c Some Cons.prems Cons.IH[of V E X]
      by (auto simp: add_coarse_pin_def insert_absorb elim!: ok_mono)
  next
    case None
    then have new: "c \<notin> set (e_firstarc (E ! h))" using Cons.prems(4) by (simp add: sfind_None_iff)
    let ?E = "E[h := (E ! h)\<lparr>e_firstarc := c # e_firstarc (E ! h), Hweight := wt\<rparr>]"
    let ?V = "V[c := (V ! c)\<lparr>v_firstarc := h # v_firstarc (V ! c)\<rparr>]"
    have len: "length E = ne" "length V = nv" using Cons.prems(1) by (auto simp: cinv_def)
    have inv: "cinv nv ne S w h ?V ?E"
      using Cons.prems(1,2) c new len unfolding cinv_def by (auto simp: nth_list_update)
    have st: "add_coarse_pin key h wt (X, V, E) v = Inr (sinsert c True X, ?V, ?E)"
      using c None Cons.prems(2) len by (simp add: add_coarse_pin_def)
    have "ok (mfold (add_coarse_pin key h wt) (sinsert c True X, ?V, ?E) vs) (\<lambda>(X', V', E').
       cinv nv ne S w h V' E' \<and>
       set (e_firstarc (E' ! h)) = set (e_firstarc (?E ! h)) \<union> (\<lambda>v. the (sfind key v)) ` set vs \<and>
       (e_firstarc (E' ! h) = [] \<or> Hweight (E' ! h) = wt))"
      using Cons.prems inv len by (intro Cons.IH) auto
    then show ?thesis using st c len Cons.prems(2) by (auto elim!: ok_mono)
  qed
qed simp

lemma add_coarse_edges_ok:
  assumes g: "wf_mygraph g" and q: "\<forall>e \<in> set q. e < g_nhedges g"
    and key: "\<forall>v < nvetes g. \<exists>c < nv. sfind key v = Some c"
    and E: "E = map (\<lambda>i. (mem_e mem i)\<lparr>e_firstarc := [], Enode := i\<rparr>) [0..<length q]"
    and V: "V = map (\<lambda>i. (mem_v mem i)\<lparr>v_firstarc := [], v_node := i\<rparr>) [0..<nv]"
  shows "ok (mfold (add_coarse_edge g key) (V, E, 0) q) (\<lambda>(V', E', n).
     cinv nv (length q) (\<lambda>k. coarse_edge g key (q ! k)) (\<lambda>k. Hweight (pAllEdges g ! (q ! k))) (length q) V' E')"
proof -
  let ?S = "\<lambda>k. coarse_edge g key (q ! k)" and ?w = "\<lambda>k. Hweight (pAllEdges g ! (q ! k))"
  have "ok (mfold (add_coarse_edge g key) (V, E, 0) q) (\<lambda>(V', E', n).
     n = length q \<and> cinv nv (length q) ?S ?w (length q) V' E')"
  proof (rule mfold_ok_prefix[where I = "\<lambda>ys (V', E', n). n = length ys \<and>
           cinv nv (length q) ?S ?w (length ys) V' E' \<and>
           (length ys < length q \<longrightarrow> e_firstarc (E' ! length ys) = [])",
         THEN ok_mono], goal_cases)
    case 1
    show ?case by (auto simp: cinv_def E V)
  next
    case (2 ys e zs t)
    obtain V1 E1 where t: "t = (V1, E1, length ys)" "cinv nv (length q) ?S ?w (length ys) V1 E1"
      "e_firstarc (E1 ! length ys) = []" using 2 by auto
    have qe: "q ! length ys = e" "length ys < length q" "e < g_nhedges g" using 2(1) q by auto
    note ef = wf_edge_facts[OF g qe(3)]
    have pins: "\<forall>v \<in> set (e_firstarc (pAllEdges g ! e)). \<exists>c < nv. sfind key v = Some c"
      using key ef(4) by auto
    have "ok (mfold (add_coarse_pin key (length ys) (?w (length ys))) ([], V1, E1) (e_firstarc (pAllEdges g ! e)))
      (\<lambda>(X', V', E'). cinv nv (length q) ?S ?w (length ys) V' E' \<and>
        set (e_firstarc (E' ! length ys)) = set (e_firstarc (E1 ! length ys)) \<union>
           (\<lambda>v. the (sfind key v)) ` set (e_firstarc (pAllEdges g ! e)) \<and>
        (e_firstarc (E' ! length ys) = [] \<or> Hweight (E' ! length ys) = ?w (length ys)))"
      using t qe pins by (intro add_coarse_pins_ok) auto
    then obtain X' V' E' where r: "mfold (add_coarse_pin key (length ys) (?w (length ys))) ([], V1, E1)
          (e_firstarc (pAllEdges g ! e)) = Inr (X', V', E')"
        "cinv nv (length q) ?S ?w (length ys) V' E'" "set (e_firstarc (E' ! length ys)) = ?S (length ys)"
        "e_firstarc (E' ! length ys) = [] \<or> Hweight (E' ! length ys) = ?w (length ys)"
      using t(3) qe by (auto simp: ok_iff coarse_edge_def)
    have "e_firstarc (E' ! length ys) \<noteq> []" using r(3) ef(2) qe by (auto simp: coarse_edge_def)
    with r qe have "cinv nv (length q) ?S ?w (Suc (length ys)) V' E'"
      by (auto simp: cinv_def less_Suc_eq)
    moreover have "Suc (length ys) < length q \<Longrightarrow> e_firstarc (E' ! Suc (length ys)) = []"
      using r(2) by (auto simp: cinv_def)
    ultimately show ?case using t(1) r(1) qe ef(1) by (simp add: add_coarse_edge_def)
  qed auto
  then show ?thesis by (auto elim!: ok_mono)
qed

section \<open>The coarser hypergraph\<close>

definition coarse_of :: "CMygraph \<Rightarrow> CMygraph \<Rightarrow> bool" where
  "coarse_of g k \<longleftrightarrow> fathergraph k = Some g \<and> nvetes k \<le> nvetes g \<and>
     length (pMyHashForVert k) = nvetes g + 1 \<and>
     (\<forall>v < nvetes g. \<exists>c < nvetes k. sfind (keyTokey k) v = Some c) \<and>
     (\<forall>c < nvetes k. pMyHashForVert k ! c \<noteq> [] \<and> distinct (pMyHashForVert k ! c) \<and>
        (\<forall>v. v \<in> set (pMyHashForVert k ! c) \<longleftrightarrow> v < nvetes g \<and> sfind (keyTokey k) v = Some c) \<and>
        (\<exists>e < g_nhedges g. set (pMyHashForVert k ! c) \<subseteq> set (e_firstarc (pAllEdges g ! e)))) \<and>
     length (pAllVertices k) = nvetes k \<and> length (pAllEdges k) = g_nhedges k \<and> 1 \<le> maxHweight k \<and>
     (\<forall>h < g_nhedges k. \<exists>e < g_nhedges g. distinct (e_firstarc (pAllEdges k ! h)) \<and>
        set (e_firstarc (pAllEdges k ! h)) =
          (\<lambda>v. the (sfind (keyTokey k) v)) ` set (e_firstarc (pAllEdges g ! e)) \<and>
        Hweight (pAllEdges k ! h) = Hweight (pAllEdges g ! e))"

lemma coarseningGraph_ok:
  assumes g: "wf_mygraph g"
  shows "ok (coarseningGraph mem g) (coarse_of g)"
proof -
  obtain st where st: "merge_vertices g = Inr st" "grp (nvetes g) st" "in_edges g st" "queue_ok g st"
     "\<forall>v < nvetes g. sfind (c_key st) v \<noteq> None"
    using merge_vertices_ok[OF g] by (auto simp: ok_iff)
  let ?q = "newedges st"
  have key: "\<forall>v < nvetes g. \<exists>c < vertCount st. sfind (c_key st) v = Some c"
    using st(2,5) by (fastforce simp: grp_def)
  define V where "V = map (\<lambda>i. (mem_v mem i)\<lparr>v_firstarc := [], v_node := i\<rparr>) [0..<vertCount st]"
  define E where "E = map (\<lambda>i. (mem_e mem i)\<lparr>e_firstarc := [], Enode := i\<rparr>) [0..<length ?q]"
  obtain V' E' n where r: "mfold (add_coarse_edge g (c_key st)) (V, E, 0) ?q = Inr (V', E', n)"
     "cinv (vertCount st) (length ?q) (\<lambda>k. coarse_edge g (c_key st) (?q ! k))
        (\<lambda>k. Hweight (pAllEdges g ! (?q ! k))) (length ?q) V' E'"
    using add_coarse_edges_ok[OF g _ key E_def V_def] st(4) by (auto simp: ok_iff queue_ok_def)
  let ?k = "CMygraph V' E' (Some g) (c_key st) (c_hash st) (vertCount st) (length ?q) (maxweight st)"
  have vc: "vertCount st \<le> nvetes g" using st(2) vertCount_le grp_open by blast
  have hash: "c_hash st ! c \<noteq> [] \<and> distinct (c_hash st ! c) \<and>
      (\<forall>v. v \<in> set (c_hash st ! c) \<longleftrightarrow> v < nvetes g \<and> sfind (c_key st) v = Some c) \<and>
      (\<exists>e < g_nhedges g. set (c_hash st ! c) \<subseteq> set (e_firstarc (pAllEdges g ! e)))"
    if c: "c < vertCount st" for c
  proof -
    have m: "v \<in> set (c_hash st ! c) \<longleftrightarrow> sfind (c_key st) v = Some c" for v
      using st(2) c vc by (auto simp: grp_def open_grp_def)
    have b: "sfind (c_key st) v = Some c \<Longrightarrow> v < nvetes g" for v
      using st(2) sfind_dom[of "c_key st" v c] by (auto simp: grp_def open_grp_def)
    have ne: "c_hash st ! c \<noteq> []" "distinct (c_hash st ! c)"
      using st(2) c vc by (simp_all add: grp_def open_grp_def)
    have "\<exists>e < g_nhedges g. set (c_hash st ! c) \<subseteq> set (e_firstarc (pAllEdges g ! e))"
      using st(3) c m unfolding in_edges_def by blast
    with ne m b show ?thesis by blast
  qed
  have edges: "\<exists>e < g_nhedges g. distinct (e_firstarc (E' ! h)) \<and>
      set (e_firstarc (E' ! h)) = (\<lambda>v. the (sfind (c_key st) v)) ` set (e_firstarc (pAllEdges g ! e)) \<and>
      Hweight (E' ! h) = Hweight (pAllEdges g ! e)" if "h < length ?q" for h
    using r(2) st(4) that by (intro exI[of _ "?q ! h"]) (auto simp: cinv_def coarse_edge_def queue_ok_def)
  have "length (c_hash st) = nvetes g + 1" using st(2) by (simp add: grp_def open_grp_def)
  then have "coarse_of g ?k"
    using vc key hash edges st(4) r(2) by (simp add: coarse_of_def queue_ok_def cinv_def)
  then show ?thesis using st(1) r(1) by (simp add: coarseningGraph_def V_def E_def Let_def)
qed

text \<open>What the merged edges and the queue determine: the chains of the coarse vertices and the coarse edges.\<close>

definition coarse_chains :: "CMygraph \<Rightarrow> nat list \<Rightarrow> nat list \<Rightarrow> CMygraph \<Rightarrow> bool" where
  "coarse_chains g M Q k \<longleftrightarrow> length M \<le> nvetes k \<and> (\<forall>c < length M. set (pMyHashForVert k ! c) = hpins g (M ! c)) \<and>
     (\<forall>c < nvetes k. length M \<le> c \<longrightarrow> (\<exists>i < length Q. set (pMyHashForVert k ! c) = left_of g M Q i))"

definition coarse_edges :: "CMygraph \<Rightarrow> nat list \<Rightarrow> CMygraph \<Rightarrow> bool" where
  "coarse_edges g Q k \<longleftrightarrow> g_nhedges k = length Q \<and> length (pAllEdges k) = length Q \<and> length (pAllVertices k) = nvetes k \<and>
     maxHweight k = Max (insert 1 (hw g ` set Q)) \<and>
     (\<forall>h < length Q. distinct (e_firstarc (pAllEdges k ! h)) \<and> hpins k h = (\<lambda>v. the (sfind (keyTokey k) v)) ` hpins g (Q ! h) \<and>
        hw k h = hw g (Q ! h)) \<and>
     (\<forall>c < nvetes k. \<forall>h. h \<in> set (v_firstarc (pAllVertices k ! c)) \<longleftrightarrow> h < length Q \<and> c \<in> hpins k h)"

lemma coarseningGraph_exact:
  assumes g: "wf_mygraph g" and r: "coarseningGraph mem g = Inr k"
  shows "\<exists>M Q. merging g M Q \<and> set (M @ Q) = {..<g_nhedges g} \<and> coarse_chains g M Q k \<and> coarse_edges g Q k"
proof -
  obtain st where st: "merge_vertices g = Inr st" "grp (nvetes g) st" "queue_ok g st" "\<forall>v < nvetes g. sfind (c_key st) v \<noteq> None"
    using merge_vertices_ok[OF g] by (auto simp: ok_iff)
  let ?q = "newedges st"
  obtain M where M: "merging g M ?q" "set (M @ ?q) = {..<g_nhedges g}" "grouped g M ?q (length ?q) st"
      "maxweight st = Max (insert 1 (hw g ` set ?q))"
    using merge_vertices_exact[OF g st(1)] by blast
  have key: "\<forall>v < nvetes g. \<exists>c < vertCount st. sfind (c_key st) v = Some c"
    using st(2,4) by (fastforce simp: grp_def)
  obtain V' E' n where c: "cinv (vertCount st) (length ?q) (\<lambda>k. coarse_edge g (c_key st) (?q ! k))
        (\<lambda>k. Hweight (pAllEdges g ! (?q ! k))) (length ?q) V' E'"
      "k = CMygraph V' E' (Some g) (c_key st) (c_hash st) (vertCount st) (length ?q) (maxweight st)"
    using add_coarse_edges_ok[OF g _ key refl refl, of ?q mem] r st(1,3)
    by (auto simp: coarseningGraph_def Let_def sbind_eq_Inr ok_iff queue_ok_def)
  have hash: "set (c_hash st ! c) = {v. sfind (c_key st) v = Some c}" if "c < vertCount st" for c
  proof -
    have "c \<le> nvetes g" using that vertCount_le(2)[OF grp_open[OF st(2)]] by simp
    then show ?thesis using st(2) by (auto simp: grp_def open_grp_def)
  qed
  have "coarse_chains g M ?q k" unfolding coarse_chains_def
  proof (intro conjI allI impI)
    show "length M \<le> nvetes k" using M(3) c(2) by (simp add: grouped_def)
    show "set (pMyHashForVert k ! c) = hpins g (M ! c)" if "c < length M" for c
      using that M(3) c(2) hash[of c] by (simp add: grouped_def)
    show "\<exists>i < length ?q. set (pMyHashForVert k ! c) = left_of g M ?q i" if a: "c < nvetes k" "length M \<le> c" for c
    proof -
      have c': "c < vertCount st" using a(1) c(2) by simp
      then obtain i where i: "i < length ?q" "\<forall>v. sfind (c_key st) v = Some c \<longleftrightarrow> v \<in> left_of g M ?q i"
        using a(2) M(3) unfolding grouped_def by blast
      then have "set (pMyHashForVert k ! c) = left_of g M ?q i" using c(2) hash[OF c'] by auto
      then show ?thesis using i(1) by blast
    qed
  qed
  moreover have "coarse_edges g ?q k" using c M(4) by (simp add: coarse_edges_def cinv_def coarse_edge_def hpins_def hw_def)
  ultimately show ?thesis using M(1,2) by blast
qed

text \<open>
  C15. Coarsening a well-formed hypergraph stays inside its arrays and returns. The hyperedges fall
  into the merged ones \<open>M\<close>, in decreasing order of their weights and disjoint, and the remaining
  ones \<open>Q\<close>, each of which meets a merged one that is not lighter. Every merged hyperedge is one coarse
  vertex, and every other coarse vertex is what is left of a remaining hyperedge after the merged
  ones and those before it in \<open>Q\<close>; these groups partition the vertices and agree with the vertex map.
  The coarse hyperedges are exactly the images of the remaining hyperedges under that map, in their order, without
  repetitions and with their weights, and the chains of the coarse vertices say which of them hold the vertex.
\<close>

theorem coarseningGraph_correct:
  assumes "wf_mygraph g"
  shows "\<exists>k M Q. coarseningGraph mem g = Inr k \<and> fathergraph k = Some g \<and>
     distinct (M @ Q) \<and> set (M @ Q) = {..<g_nhedges g} \<and> sorted_wrt (\<lambda>d e. hw g e \<le> hw g d) M \<and>
     (\<forall>i < length M. \<forall>j < i. hpins g (M ! i) \<inter> hpins g (M ! j) = {}) \<and>
     (\<forall>e \<in> set Q. \<exists>d \<in> set M. hw g e \<le> hw g d \<and> hpins g d \<inter> hpins g e \<noteq> {}) \<and>
     (\<forall>v < nvetes g. \<exists>!c. c < nvetes k \<and> v \<in> set (pMyHashForVert k ! c)) \<and>
     (\<forall>c < nvetes k. pMyHashForVert k ! c \<noteq> [] \<and> distinct (pMyHashForVert k ! c) \<and>
        (\<forall>v \<in> set (pMyHashForVert k ! c). v < nvetes g \<and> sfind (keyTokey k) v = Some c)) \<and>
     length M \<le> nvetes k \<and> (\<forall>c < length M. set (pMyHashForVert k ! c) = hpins g (M ! c)) \<and>
     (\<forall>c < nvetes k. length M \<le> c \<longrightarrow>
        (\<exists>i < length Q. set (pMyHashForVert k ! c) = hpins g (Q ! i) - (\<Union>e \<in> set (M @ take i Q). hpins g e))) \<and>
     g_nhedges k = length Q \<and> maxHweight k = Max (insert 1 (hw g ` set Q)) \<and>
     (\<forall>h < length Q. distinct (e_firstarc (pAllEdges k ! h)) \<and>
        hpins k h = (\<lambda>v. the (sfind (keyTokey k) v)) ` hpins g (Q ! h) \<and> hw k h = hw g (Q ! h)) \<and>
     (\<forall>c < nvetes k. \<forall>h. h \<in> set (v_firstarc (pAllVertices k ! c)) \<longleftrightarrow> h < length Q \<and> c \<in> hpins k h)"
proof -
  obtain k where k: "coarseningGraph mem g = Inr k" and c: "coarse_of g k"
    using coarseningGraph_ok[OF assms] by (auto simp: ok_iff)
  obtain M Q where m: "merging g M Q" "set (M @ Q) = {..<g_nhedges g}" "coarse_chains g M Q k" "coarse_edges g Q k"
    using coarseningGraph_exact[OF assms k] by blast
  have part: "\<forall>v < nvetes g. \<exists>!c. c < nvetes k \<and> v \<in> set (pMyHashForVert k ! c)"
  proof (intro allI impI)
    fix v assume v: "v < nvetes g"
    obtain b where b: "b < nvetes k" "sfind (keyTokey k) v = Some b" using c v by (auto simp: coarse_of_def)
    then show "\<exists>!c. c < nvetes k \<and> v \<in> set (pMyHashForVert k ! c)"
      using c v by (intro ex1I[of _ b]) (auto simp: coarse_of_def)
  qed
  have grp: "\<forall>c < nvetes k. pMyHashForVert k ! c \<noteq> [] \<and> distinct (pMyHashForVert k ! c) \<and>
        (\<forall>v \<in> set (pMyHashForVert k ! c). v < nvetes g \<and> sfind (keyTokey k) v = Some c)"
    using c unfolding coarse_of_def by blast
  have dis: "\<forall>i < length M. \<forall>j < i. hpins g (M ! i) \<inter> hpins g (M ! j) = {}"
  proof (intro allI impI)
    fix i j assume i: "i < length M" "j < i"
    have "i < nvetes k" "j < nvetes k" "set (pMyHashForVert k ! i) = hpins g (M ! i)" "set (pMyHashForVert k ! j) = hpins g (M ! j)"
      using m(3) i by (simp_all add: coarse_chains_def)
    then show "hpins g (M ! i) \<inter> hpins g (M ! j) = {}" using grp i(2) by (metis disjoint_iff less_irrefl option.inject)
  qed
  have f: "fathergraph k = Some g" using c by (simp add: coarse_of_def)
  have a: "distinct (M @ Q)" "sorted_wrt (heavier g) M" "\<forall>e \<in> set Q. \<exists>d \<in> set M. heavier g d e \<and> hpins g d \<inter> hpins g e \<noteq> {}"
    using m(1) unfolding merging_def by simp_all
  have b: "length M \<le> nvetes k" "\<forall>c < length M. set (pMyHashForVert k ! c) = hpins g (M ! c)"
      "\<forall>c < nvetes k. length M \<le> c \<longrightarrow> (\<exists>i < length Q. set (pMyHashForVert k ! c) = hpins g (Q ! i) - (\<Union>e \<in> set (M @ take i Q). hpins g e))"
    using m(3) unfolding coarse_chains_def left_of_def by simp_all
  have d: "g_nhedges k = length Q" "maxHweight k = Max (insert 1 (hw g ` set Q))"
      "\<forall>h < length Q. distinct (e_firstarc (pAllEdges k ! h)) \<and> hpins k h = (\<lambda>v. the (sfind (keyTokey k) v)) ` hpins g (Q ! h) \<and> hw k h = hw g (Q ! h)"
      "\<forall>c < nvetes k. \<forall>h. h \<in> set (v_firstarc (pAllVertices k ! c)) \<longleftrightarrow> h < length Q \<and> c \<in> hpins k h"
    using m(4) unfolding coarse_edges_def by simp_all
  show ?thesis
    by (rule exI[of _ k], rule exI[of _ M], rule exI[of _ Q]) (intro conjI k f a(1) m(2) a(2) dis a(3) part grp b d)
qed

definition overlap_hyper :: CHypergraph where
  "overlap_hyper = sample_hyper\<lparr>nhedges := 3, eptr := [0, 2, 4, 6], eind := [0, 1, 2, 3, 1, 2], hewgts := [1, 1, 1]\<rparr>"

theorem coarseningGraph_correct_witness:
  "\<exists>g k M Q. CMygraph_of sample_mem overlap_hyper = Inr g \<and> coarseningGraph sample_mem g = Inr k \<and>
     nvetes k = 3 \<and> length M = 1 \<and> length Q = 2 \<and> g_nhedges k = length Q \<and>
     set (pMyHashForVert k ! 0) = hpins g (M ! 0) \<and> hpins k 1 = (\<lambda>v. the (sfind (keyTokey k) v)) ` hpins g (Q ! 1)"
proof -
  have wf: "wf_hyper overlap_hyper" unfolding wf_hyper_def by code_simp
  obtain g where g: "CMygraph_of sample_mem overlap_hyper = Inr g" "mygraph_spec overlap_hyper g"
    using CMygraph_of_spec[OF wf] by (auto simp: ok_iff)
  have n: "g_nhedges g = 3" using g(2) by (simp add: mygraph_spec_def overlap_hyper_def)
  from coarseningGraph_correct[OF mygraph_spec_wf[OF wf g(2)], of sample_mem] show ?thesis
  proof (elim exE conjE)
    fix k M Q
    assume k: "coarseningGraph sample_mem g = Inr k" "distinct (M @ Q)" "set (M @ Q) = {..<g_nhedges g}"
      "\<forall>c < length M. set (pMyHashForVert k ! c) = hpins g (M ! c)" "g_nhedges k = length Q"
      "\<forall>h < length Q. distinct (e_firstarc (pAllEdges k ! h)) \<and> hpins k h = (\<lambda>v. the (sfind (keyTokey k) v)) ` hpins g (Q ! h) \<and> hw k h = hw g (Q ! h)"
    have "sbind (CMygraph_of sample_mem overlap_hyper) (\<lambda>g. sbind (coarseningGraph sample_mem g) (\<lambda>k. Inr (nvetes k, g_nhedges k))) = Inr (3, 2)"
      by code_simp
    then have v: "nvetes k = 3" "length Q = 2" using g(1) k(1,5) by simp_all
    have "length (M @ Q) = 3" using distinct_card[OF k(2)] k(3) n by simp
    then have "length M = 1" using v(2) by simp
    with g(1) k(1,4,5,6) v show ?thesis
      by - (rule exI[of _ g], rule exI[of _ k], rule exI[of _ M], rule exI[of _ Q], simp)
  qed
qed

end
