(* ===== verification/MyPartition.thy ===== *)
theory MyPartition
  imports HillClimb SubPartition Coarsening
begin

text \<open>
  \<open>CMultilevel::myPartition\<close> and \<open>CMultilevel::doPartition\<close>
  (\<open>src/CArchitecture/Multilevel.cpp\<close>): the bipartition of a hypergraph. Ten random seeds
  taken from the coarser hypergraph are tried; each gives a start by \<open>subpartition\<close> that
  \<open>myFM\<close> refines, and the best result is kept if its modularity is above \<open>CRITICAL\<close>.
\<close>

section \<open>The code\<close>

definition CRITICAL :: double where
  "CRITICAL = 0"

text \<open>
  The unknowns of a run: the contents of fresh memory and the numbers \<open>rand\<close> returns. The
  arrays of the tries are indexed by the number of calls of \<open>rand\<close> made before.
\<close>

record unknowns =
  u_cells :: mem_cells
  u_coarse :: mem_cells
  u_seedmap :: "nat \<Rightarrow> int"
  u_part :: "nat \<Rightarrow> nat \<Rightarrow> int"
  u_rank :: "nat \<Rightarrow> nat \<Rightarrow> int"
  u_rand :: "nat \<Rightarrow> nat"

text \<open>The way from a coarse vertex back to a vertex of the initial hypergraph.\<close>

function to_initial :: "CMygraph option \<Rightarrow> nat list \<Rightarrow> error + nat list" where
  "to_initial None pInitVert = Inr pInitVert"
| "to_initial (Some hisfather) pInitVert = (case fathergraph hisfather of
     None \<Rightarrow> Inr pInitVert
   | Some h \<Rightarrow> sbind (deref pInitVert) (\<lambda>truePos. sbind (aget (pMyHashForVert hisfather) truePos) (\<lambda>chain.
       to_initial (Some h) chain)))"
  by pat_completeness auto
termination
proof (relation "measure (\<lambda>(h, _). size_option size h)", goal_cases)
  case (2 h _ f)
  then show ?case by (cases h) auto
qed simp

record trying =
  t_i :: nat
  t_calls :: nat
  seedexit :: "(nat, bool) smap"
  seedmap :: "int list"
  t_best :: double
  t_p :: CHypergraph

definition copy_part :: "nat \<Rightarrow> int list \<Rightarrow> int list \<Rightarrow> error + int list" where
  "copy_part n pr prt = mfold (\<lambda>q k. sbind (aget pr k) (aset q k)) prt [0..<n]"

text \<open>The work done for a seed that is tried.\<close>

definition try_seed :: "unknowns \<Rightarrow> CMygraph \<Rightarrow> CMygraph \<Rightarrow> nat \<Rightarrow> nat \<Rightarrow> CHypergraph \<Rightarrow> error + int list \<times> double" where
  "try_seed u pInitGraph pCoarsenGraph c seed p =
     sbind (aget (pMyHashForVert pCoarsenGraph) seed) (\<lambda>chain.
     sbind (to_initial (fathergraph pCoarsenGraph) chain) (\<lambda>pInitVert.
     sbind (deref pInitVert) (\<lambda>truePos.
     sbind (subpartition pInitGraph (nvtxs p) truePos (fresh (u_part u c) (nvtxs p))) (\<lambda>pr.
       myFM (u_rank u c) pInitGraph pr))))"

definition keep_best :: "trying \<Rightarrow> int list \<Rightarrow> double \<Rightarrow> error + trying" where
  "keep_best st pr m =
     (if m > t_best st \<and> m > CRITICAL then
        sbind (copy_part (nvtxs (t_p st)) pr (part (t_p st))) (\<lambda>q.
          Inr (st\<lparr>t_p := (t_p st)\<lparr>Modu := m, is_parted := True, part := q\<rparr>, t_best := m\<rparr>))
      else Inr st)"

text \<open>One round of the loop; \<open>i--; continue\<close> leaves \<open>i\<close> as it was.\<close>

definition try_round :: "unknowns \<Rightarrow> CMygraph \<Rightarrow> CMygraph \<Rightarrow> trying \<Rightarrow> error + trying" where
  "try_round u pInitGraph pCoarsenGraph st =
     (let c = t_calls st; seed = u_rand u c mod nvetes pCoarsenGraph; st = st\<lparr>t_calls := c + 1\<rparr> in
      if sfind (seedexit st) seed \<noteq> None then Inr (st\<lparr>t_i := t_i st + 1\<rparr>)
      else let st = st\<lparr>seedexit := sinsert seed True (seedexit st)\<rparr> in
        sbind (aget (seedmap st) seed) (\<lambda>x.
          if x \<noteq> 1 then
            sbind (aset (seedmap st) seed 1) (\<lambda>sm.
            sbind (try_seed u pInitGraph pCoarsenGraph c seed (t_p st)) (\<lambda>(pr, m).
            sbind (keep_best (st\<lparr>seedmap := sm\<rparr>) pr m) (\<lambda>st. Inr (st\<lparr>t_i := t_i st + 1\<rparr>))))
          else Inr st))"

fun try_loop :: "nat \<Rightarrow> unknowns \<Rightarrow> CMygraph \<Rightarrow> CMygraph \<Rightarrow> trying \<Rightarrow> error + trying" where
  "try_loop 0 u g k st = Inl OutOfFuel"
| "try_loop (Suc fuel) u g k st =
     (if t_i st < 10 \<and> t_i st < nvetes k
      then sbind (try_round u g k st) (try_loop fuel u g k)
      else Inr st)"

text \<open>
  The result: the hypergraph with its new fields, and the graph that \<open>getMyGraph\<close> returns
  afterwards.
\<close>

definition myPartition :: "unknowns \<Rightarrow> CHypergraph \<Rightarrow> error + CHypergraph \<times> CMygraph" where
  "myPartition u p =
     sbind (CMygraph_of (u_cells u) p) (\<lambda>pInitGraph.
     sbind (coarseningGraph (u_coarse u) pInitGraph) (\<lambda>k.
     sbind (try_loop (nvetes k + 11) u pInitGraph k
        \<lparr>t_i = 0, t_calls = 0, seedexit = [], seedmap = fresh (u_seedmap u) (nvetes k),
         t_best = - 10000, t_p = p\<lparr>is_parted := False\<rparr>\<rparr>) (\<lambda>st.
       Inr (t_p st, pInitGraph))))"

text \<open>
  \<open>doPartition\<close> hands the arrays to the external partitioner and writes what it returns
  into \<open>part\<close> and \<open>hcut\<close>.
\<close>

definition doPartition :: "(nat \<Rightarrow> nat \<Rightarrow> int list \<Rightarrow> nat list \<Rightarrow> nat list \<Rightarrow> int list \<Rightarrow> int \<Rightarrow> int \<Rightarrow> int list \<Rightarrow>
    int list \<Rightarrow> int list \<times> int) \<Rightarrow> CHypergraph \<Rightarrow> CHypergraph \<times> int" where
  "doPartition HMETIS_PartRecursive p =
     (let (prt, hcut) = HMETIS_PartRecursive (nvtxs p) (nhedges p) (vwgts p) (eptr p) (eind p)
        (hewgts p) (npart p) (ubfactor p) (inOptions p) (part p)
      in (p\<lparr>part := prt\<rparr>, hcut))"

section \<open>One try\<close>

lemma copy_part_ok:
  assumes "n \<le> length pr" "n \<le> length q"
  shows "copy_part n pr q = Inr (take n pr @ drop n q)"
proof -
  have "ok (copy_part n pr q) (\<lambda>r. r = take n pr @ drop n q)"
    unfolding copy_part_def
  proof (rule mfold_ok_upt[where I = "\<lambda>k r. r = take k pr @ drop k q"], goal_cases)
    case (3 i t)
    then have "drop i q = q ! i # drop (Suc i) q" using assms by (simp add: Cons_nth_drop_Suc)
    with 3 assms show ?case by (auto simp: safe_simps list_update_append take_Suc_conv_app_nth)
  qed auto
  then show ?thesis by (auto simp: ok_iff)
qed

text \<open>
  The specification of the tries: the \<open>c\<close>-th call of \<open>rand\<close> draws a coarse vertex. It is tried when it
  is drawn for the first time, unless its cell of \<open>seedmap\<close>, which is never set before, happens to
  hold 1; such a round is given back.
\<close>

definition draw :: "unknowns \<Rightarrow> CMygraph \<Rightarrow> nat \<Rightarrow> nat" where
  "draw u k c = u_rand u c mod nvetes k"

definition first_draw :: "unknowns \<Rightarrow> CMygraph \<Rightarrow> nat \<Rightarrow> bool" where
  "first_draw u k c \<longleftrightarrow> draw u k c \<notin> draw u k ` {..<c}"

definition is_try :: "unknowns \<Rightarrow> CMygraph \<Rightarrow> nat \<Rightarrow> bool" where
  "is_try u k c \<longleftrightarrow> first_draw u k c \<and> u_seedmap u (draw u k c) \<noteq> 1"

definition given_back :: "unknowns \<Rightarrow> CMygraph \<Rightarrow> nat \<Rightarrow> bool" where
  "given_back u k c \<longleftrightarrow> first_draw u k c \<and> u_seedmap u (draw u k c) = 1"

text \<open>The rounds that count among the first \<open>N\<close>, and the number of rounds that are made.\<close>

definition counted :: "unknowns \<Rightarrow> CMygraph \<Rightarrow> nat \<Rightarrow> nat" where
  "counted u k N = card {c. c < N \<and> \<not> given_back u k c}"

definition rounds :: "unknowns \<Rightarrow> CMygraph \<Rightarrow> nat \<Rightarrow> bool" where
  "rounds u k N \<longleftrightarrow> counted u k N = min 10 (nvetes k) \<and> (\<forall>M < N. counted u k M < min 10 (nvetes k))"

text \<open>
  A try: a start grown from the first vertex behind the drawn coarse vertex, in fresh memory, and what
  \<open>myFM\<close> makes of it.
\<close>

definition attempt :: "unknowns \<Rightarrow> CMygraph \<Rightarrow> CMygraph \<Rightarrow> nat \<Rightarrow> int list \<Rightarrow> int list \<times> double \<Rightarrow> bool" where
  "attempt u g k c start r \<longleftrightarrow>
     subpartition g (nvetes g) (hd (pMyHashForVert k ! draw u k c)) (fresh (u_part u c) (nvetes g)) = Inr start \<and>
     myFM (u_rank u c) g start = Inr r"

lemma subpartition_bipart:
  assumes "wf_mygraph g" "v < nvetes g" "length mem = nvetes g"
  shows "ok (subpartition g (nvetes g) v mem) (bipart g)"
  by (rule ok_mono[OF subpartition_grown[OF assms(1) refl assms(2,3)]]) (auto simp: bipart_def split: if_splits)

lemma attempt_det: "attempt u g k c s r \<Longrightarrow> attempt u g k c s' r' \<Longrightarrow> s' = s \<and> r' = r"
  by (auto simp: attempt_def)

lemma try_seed_ok:
  assumes g: "wf_mygraph g" "fathergraph g = None" and k: "coarse_of g k" "0 < nvetes k"
    and p: "nvtxs p = nvetes g"
  obtains start pr m where "attempt u g k c start (pr, m)" "try_seed u g k c (draw u k c) p = Inr (pr, m)" "bipart g pr" "modularity g start \<le> m"
proof -
  have s: "draw u k c < nvetes k" using k(2) by (simp add: draw_def)
  obtain v vs where v: "pMyHashForVert k ! draw u k c = v # vs"
    using k(1) s unfolding coarse_of_def by (metis neq_Nil_conv)
  have vb: "v < nvetes g" using k(1) s v unfolding coarse_of_def by (metis list.set_intros(1))
  have len: "draw u k c < length (pMyHashForVert k)" and f: "fathergraph k = Some g"
    using k(1) s by (auto simp: coarse_of_def)
  let ?mem = "fresh (u_part u c) (nvetes g)"
  obtain pr where pr: "subpartition g (nvetes g) v ?mem = Inr pr" "bipart g pr"
    using subpartition_bipart[OF g(1) vb, of ?mem] by (auto simp: ok_iff)
  obtain pr' m where m: "myFM (u_rank u c) g pr = Inr (pr', m)" "climb_result g pr (cut_verts g pr) (pr', m)"
    using myFM_ok[OF g(1) pr(2), of "u_rank u c"] by (auto simp: ok_iff)
  have b: "bipart g pr'" "modularity g pr \<le> m" using m(2) pr(2) by (auto simp: climb_result_def)
  show thesis
  proof (rule that[OF _ _ b])
    show "attempt u g k c pr (pr', m)" using v pr(1) m(1) by (simp add: attempt_def)
    show "try_seed u g k c (draw u k c) p = Inr (pr', m)" using len f v g(2) p pr(1) m(1) by (simp add: try_seed_def)
  qed
qed

section \<open>The loop\<close>

text \<open>The best of the first \<open>N\<close> draws that are tried, the earliest of equally good ones, if it is above \<open>CRITICAL\<close>.\<close>

definition best_try :: "unknowns \<Rightarrow> CMygraph \<Rightarrow> CMygraph \<Rightarrow> nat \<Rightarrow> int list \<Rightarrow> double \<Rightarrow> bool" where
  "best_try u g k N pr best \<longleftrightarrow> (\<exists>c < N. \<exists>start. is_try u k c \<and> attempt u g k c start (pr, best) \<and> modularity g start \<le> best \<and> 0 < best \<and>
     (\<forall>c' < N. \<forall>s' pr' m'. is_try u k c' \<and> attempt u g k c' s' (pr', m') \<longrightarrow> m' \<le> best \<and> (c' < c \<longrightarrow> m' < best)))"

definition no_try :: "unknowns \<Rightarrow> CMygraph \<Rightarrow> CMygraph \<Rightarrow> nat \<Rightarrow> bool" where
  "no_try u g k N \<longleftrightarrow> (\<forall>c < N. \<forall>s pr m. is_try u k c \<and> attempt u g k c s (pr, m) \<longrightarrow> m \<le> 0)"

definition tried :: "unknowns \<Rightarrow> CHypergraph \<Rightarrow> CMygraph \<Rightarrow> CMygraph \<Rightarrow> nat \<Rightarrow> trying \<Rightarrow> bool" where
  "tried u p g k N st \<longleftrightarrow> (\<forall>c < N. is_try u k c \<longrightarrow> (\<exists>s r. attempt u g k c s r)) \<and>
     (if is_parted (t_p st)
      then \<exists>pr. best_try u g k N pr (t_best st) \<and> bipart g pr \<and>
        t_p st = p\<lparr>is_parted := True, Modu := t_best st, part := pr @ drop (nvtxs p) (part p)\<rparr>
      else t_best st = - 10000 \<and> t_p st = p\<lparr>is_parted := False\<rparr> \<and> no_try u g k N)"

lemma tried_cong:
  "tried u p g k N st \<Longrightarrow> t_p st' = t_p st \<Longrightarrow> t_best st' = t_best st \<Longrightarrow> tried u p g k N st'"
  by (simp only: tried_def)

lemma best_try_skip:
  assumes "\<And>s pr' m. is_try u k N \<Longrightarrow> attempt u g k N s (pr', m) \<Longrightarrow> m \<le> best" "best_try u g k N pr best"
  shows "best_try u g k (Suc N) pr best"
  using assms unfolding best_try_def less_Suc_eq by (metis less_asym)

lemma tried_skip:
  assumes "\<not> is_try u k N" "tried u p g k N st"
  shows "tried u p g k (Suc N) st"
proof -
  have "best_try u g k (Suc N) pr b" if "best_try u g k N pr b" for pr b by (rule best_try_skip[OF _ that]) (use assms(1) in blast)
  moreover have "no_try u g k (Suc N)" if "no_try u g k N" using that assms(1) unfolding no_try_def less_Suc_eq by blast
  ultimately show ?thesis using assms(2) assms(1) unfolding tried_def less_Suc_eq by (auto split: if_splits)
qed

text \<open>The state of the draws: which vertices are drawn, and that \<open>seedmap\<close> is unset for the others.\<close>

definition seeds_ok :: "unknowns \<Rightarrow> CMygraph \<Rightarrow> trying \<Rightarrow> bool" where
  "seeds_ok u k st \<longleftrightarrow> smap_ok (seedexit st) \<and> skeys (seedexit st) = draw u k ` {..<t_calls st} \<and> length (seedmap st) = nvetes k \<and>
     (\<forall>s < nvetes k. s \<notin> skeys (seedexit st) \<longrightarrow> seedmap st ! s = u_seedmap u s) \<and>
     t_i st = counted u k (t_calls st) \<and> t_i st \<le> min 10 (nvetes k) \<and> (\<forall>M < t_calls st. counted u k M < min 10 (nvetes k))"

definition rounds_left :: "CMygraph \<Rightarrow> trying \<Rightarrow> nat" where
  "rounds_left k st = (10 - t_i st) + (nvetes k - card (skeys (seedexit st)))"

lemma counted_Suc: "counted u k (Suc N) = (if given_back u k N then counted u k N else counted u k N + 1)"
proof -
  have "{c. c < Suc N \<and> \<not> given_back u k c} = (if given_back u k N then {c. c < N \<and> \<not> given_back u k c}
      else insert N {c. c < N \<and> \<not> given_back u k c})" by (auto simp: less_Suc_eq)
  then show ?thesis by (simp add: counted_def)
qed

lemma tried_frame:
  assumes "tried u p g k N st" "nvtxs p = nvetes g" "nvtxs p \<le> length (part p)"
  obtains q where "part (t_p st) = q @ drop (nvtxs p) (part p)" "length q = nvtxs p" "nvtxs (t_p st) = nvtxs p"
    "t_p st = p\<lparr>is_parted := is_parted (t_p st), Modu := Modu (t_p st), part := part (t_p st)\<rparr>"
proof (cases "is_parted (t_p st)")
  case True
  then obtain q where "t_p st = p\<lparr>is_parted := True, Modu := t_best st, part := q @ drop (nvtxs p) (part p)\<rparr>" "bipart g q"
    using assms(1) by (auto simp: tried_def)
  then show thesis using assms(2) by (intro that[of q]) (simp_all add: bipart_def)
next
  case False
  with assms(1,3) show thesis by (intro that[of "take (nvtxs p) (part p)"]) (auto simp: tried_def)
qed

text \<open>A try that is better than all before is the best, and any other leaves the best as it is.\<close>

lemma keep_best_ok:
  assumes t: "tried u p g k N st" and r: "is_try u k N" "attempt u g k N start (pr, m)" "bipart g pr" "modularity g start \<le> m"
    and p: "nvtxs p = nvetes g" "nvtxs p \<le> length (part p)"
  shows "ok (keep_best st pr m) (\<lambda>st'. tried u p g k (Suc N) st' \<and> t_i st' = t_i st \<and>
     t_calls st' = t_calls st \<and> seedexit st' = seedexit st \<and> seedmap st' = seedmap st)"
proof -
  note det = attempt_det[OF r(2)]
  have ex: "\<forall>c < Suc N. is_try u k c \<longrightarrow> (\<exists>s r. attempt u g k c s r)" using t r(2) unfolding tried_def less_Suc_eq by blast
  show ?thesis
  proof (cases "m > t_best st \<and> m > CRITICAL")
    case True
    have len: "length pr = nvtxs p" using r(3) p(1) by (simp add: bipart_def)
    obtain q where q: "part (t_p st) = q @ drop (nvtxs p) (part p)" "length q = nvtxs p" "nvtxs (t_p st) = nvtxs p"
      "t_p st = p\<lparr>is_parted := is_parted (t_p st), Modu := Modu (t_p st), part := part (t_p st)\<rparr>" by (rule tried_frame[OF t p])
    have cp: "copy_part (nvtxs (t_p st)) pr (part (t_p st)) = Inr (pr @ drop (nvtxs p) (part p))"
      using q(1-3) len p(2) by (simp add: copy_part_ok)
    have old: "m' < m" if "c' < N" "is_try u k c'" "attempt u g k c' s' (pr', m')" for c' s' pr' m'
    proof (cases "is_parted (t_p st)")
      case True
      then obtain pr0 where "best_try u g k N pr0 (t_best st)" using t by (auto simp: tried_def)
      then have "m' \<le> t_best st" using that unfolding best_try_def by blast
      then show ?thesis using \<open>m > t_best st \<and> m > CRITICAL\<close> by simp
    next
      case False
      then have "m' \<le> 0" using t that unfolding tried_def no_try_def by metis
      then show ?thesis using \<open>m > t_best st \<and> m > CRITICAL\<close> by (simp add: CRITICAL_def)
    qed
    have "best_try u g k (Suc N) pr m" unfolding best_try_def
    proof (intro exI[of _ N] exI[of _ start] conjI allI impI)
      fix c' s' pr' m' assume c: "c' < Suc N" "is_try u k c' \<and> attempt u g k c' s' (pr', m')"
      show "m' \<le> m" "c' < N \<Longrightarrow> m' < m" using c old[of c' s' pr' m'] det[of s' "(pr', m')"] by (auto simp: less_Suc_eq)
    qed (use r True in \<open>auto simp: CRITICAL_def\<close>)
    moreover have "(t_p st)\<lparr>Modu := m, is_parted := True, part := x\<rparr> = p\<lparr>is_parted := True, Modu := m, part := x\<rparr>" for x
      by (subst q(4)) simp
    ultimately have "tried u p g k (Suc N) (st\<lparr>t_p := (t_p st)\<lparr>Modu := m, is_parted := True, part := pr @ drop (nvtxs p) (part p)\<rparr>, t_best := m\<rparr>)"
      using ex r(3) by (auto simp: tried_def intro!: exI[of _ pr])
    then show ?thesis using True cp by (simp add: keep_best_def)
  next
    case False
    have "tried u p g k (Suc N) st"
    proof (cases "is_parted (t_p st)")
      case T: True
      then obtain pr0 where pr0: "best_try u g k N pr0 (t_best st)" "bipart g pr0"
          "t_p st = p\<lparr>is_parted := True, Modu := t_best st, part := pr0 @ drop (nvtxs p) (part p)\<rparr>" using t by (auto simp: tried_def)
      then have "m \<le> t_best st" using False by (auto simp: CRITICAL_def best_try_def)
      then have "best_try u g k (Suc N) pr0 (t_best st)" by (intro best_try_skip[OF _ pr0(1)]) (use det in blast)
      then show ?thesis using T ex pr0(2,3) unfolding tried_def by auto
    next
      case F: False
      then have n: "t_best st = - 10000" "t_p st = p\<lparr>is_parted := False\<rparr>" "no_try u g k N" using t by (auto simp: tried_def)
      then have "m \<le> 0" using False by (auto simp: CRITICAL_def)
      then have "no_try u g k (Suc N)" using n(3) det unfolding no_try_def less_Suc_eq by blast
      then show ?thesis using F ex n(1,2) by (simp add: tried_def)
    qed
    moreover have "keep_best st pr m = Inr st" using False by (auto simp: keep_best_def)
    ultimately show ?thesis by simp
  qed
qed

text \<open>A vertex that was not drawn before is one less to be drawn.\<close>

lemma new_seed:
  assumes "seeds_ok u k st" "sfind (seedexit st) (draw u k (t_calls st)) = None" "0 < nvetes k"
  shows "nvetes k - card (skeys (sinsert (draw u k (t_calls st)) True (seedexit st))) < nvetes k - card (skeys (seedexit st))"
    "first_draw u k (t_calls st)" "seedmap st ! draw u k (t_calls st) = u_seedmap u (draw u k (t_calls st))"
    "draw u k (t_calls st) < length (seedmap st)"
proof -
  let ?s = "draw u k (t_calls st)"
  have s: "?s < nvetes k" using assms(3) by (simp add: draw_def)
  have new: "?s \<notin> skeys (seedexit st)" using assms(2) by (simp add: sfind_None_iff)
  have "skeys (seedexit st) \<subseteq> {..<nvetes k}" using assms(1,3) by (auto simp: seeds_ok_def draw_def)
  with new s have "card (insert ?s (skeys (seedexit st))) \<le> nvetes k"
    using card_mono[of "{..<nvetes k}" "insert ?s (skeys (seedexit st))"] by simp
  with new show "nvetes k - card (skeys (sinsert ?s True (seedexit st))) < nvetes k - card (skeys (seedexit st))" by simp
  show "first_draw u k (t_calls st)" using new assms(1) by (simp add: first_draw_def seeds_ok_def)
  show "seedmap st ! ?s = u_seedmap u ?s" "?s < length (seedmap st)" using new s assms(1) by (auto simp: seeds_ok_def)
qed

lemma seeds_next:
  assumes "seeds_ok u k st" "t_i st < 10" "t_i st < nvetes k" "t_calls st' = t_calls st + 1"
    and "smap_ok (seedexit st')" "skeys (seedexit st') = insert (draw u k (t_calls st)) (skeys (seedexit st))"
    and "length (seedmap st') = nvetes k" "\<And>s. s < nvetes k \<Longrightarrow> s \<noteq> draw u k (t_calls st) \<Longrightarrow> seedmap st' ! s = seedmap st ! s"
    and "t_i st' = (if given_back u k (t_calls st) then t_i st else t_i st + 1)"
  shows "seeds_ok u k st'"
  using assms by (auto simp: seeds_ok_def counted_Suc less_Suc_eq lessThan_Suc)

lemma try_round_ok:
  assumes g: "wf_mygraph g" "fathergraph g = None" and k: "coarse_of g k"
    and p: "nvtxs p = nvetes g" "nvtxs p \<le> length (part p)"
    and st: "tried u p g k (t_calls st) st" "seeds_ok u k st" and i: "t_i st < 10" "t_i st < nvetes k"
  shows "ok (try_round u g k st) (\<lambda>st'. tried u p g k (t_calls st') st' \<and> seeds_ok u k st' \<and> rounds_left k st' < rounds_left k st)"
proof -
  let ?c = "t_calls st" and ?s = "draw u k (t_calls st)"
  let ?X = "sinsert ?s True (seedexit st)"
  note S = st(2)[unfolded seeds_ok_def]
  have pos: "0 < nvetes k" using i(2) by simp
  show ?thesis
  proof (cases "sfind (seedexit st) ?s = None")
    case False
    let ?st = "st\<lparr>t_calls := ?c + 1, t_i := t_i st + 1\<rparr>"
    have old: "?s \<in> skeys (seedexit st)" using False by (simp add: sfind_None_iff del: not_None_eq)
    then have nf: "\<not> first_draw u k ?c" using S by (simp add: first_draw_def)
    then have "tried u p g k (Suc ?c) ?st" by (intro tried_cong[OF tried_skip[OF _ st(1)]]) (simp_all add: is_try_def)
    moreover have "seeds_ok u k ?st" by (rule seeds_next[OF st(2) i]) (use S nf old in \<open>auto simp: given_back_def\<close>)
    moreover have "try_round u g k st = Inr ?st" using False by (simp add: try_round_def Let_def draw_def del: not_None_eq)
    ultimately show ?thesis using i(1) by (simp add: rounds_left_def)
  next
    case True
    note N = new_seed[OF st(2) True pos]
    let ?st = "st\<lparr>t_calls := ?c + 1, seedexit := ?X\<rparr>"
    show ?thesis
    proof (cases "u_seedmap u ?s = 1")
      case T: True
      then have "try_round u g k st = Inr ?st" using True N(3,4) by (simp add: try_round_def Let_def draw_def)
      moreover have "tried u p g k (Suc ?c) ?st" by (intro tried_cong[OF tried_skip[OF _ st(1)]]) (simp_all add: is_try_def T)
      moreover have "seeds_ok u k ?st" by (rule seeds_next[OF st(2) i]) (use S N(2) T in \<open>auto simp: given_back_def\<close>)
      ultimately show ?thesis using N(1) i(1) by (simp add: rounds_left_def)
    next
      case F: False
      let ?sm = "(seedmap st)[?s := 1]"
      have nv: "nvtxs (t_p st) = nvetes g" using st(1) p(1) by (auto simp: tried_def split: if_splits)
      obtain start pr m where r: "attempt u g k ?c start (pr, m)" "try_seed u g k ?c ?s (t_p st) = Inr (pr, m)" "bipart g pr" "modularity g start \<le> m"
        by (rule try_seed_ok[OF g k pos nv])
      have tr: "is_try u k ?c" using N(2) F by (simp add: is_try_def)
      have "tried u p g k ?c (?st\<lparr>seedmap := ?sm\<rparr>)" using st(1) by (rule tried_cong) simp_all
      from keep_best_ok[OF this tr r(1,3,4) p] obtain st' where st': "keep_best (?st\<lparr>seedmap := ?sm\<rparr>) pr m = Inr st'"
          "tried u p g k (Suc ?c) st'" "t_i st' = t_i st" "t_calls st' = ?c + 1" "seedexit st' = ?X" "seedmap st' = ?sm"
        by (auto simp: ok_iff)
      have "try_round u g k st = Inr (st'\<lparr>t_i := t_i st' + 1\<rparr>)"
        using True F N(3,4) r(2) st'(1) by (simp add: try_round_def Let_def draw_def)
      moreover have "tried u p g k (Suc ?c) (st'\<lparr>t_i := t_i st' + 1\<rparr>)" using st'(2) by (rule tried_cong) simp_all
      moreover have "seeds_ok u k (st'\<lparr>t_i := t_i st' + 1\<rparr>)"
        by (rule seeds_next[OF st(2) i]) (use S F st'(3-6) in \<open>auto simp: given_back_def\<close>)
      ultimately show ?thesis using N(1) st'(3-5) i(1) by (simp add: rounds_left_def)
    qed
  qed
qed

lemma try_loop_ok:
  assumes g: "wf_mygraph g" "fathergraph g = None" and k: "coarse_of g k"
    and p: "nvtxs p = nvetes g" "nvtxs p \<le> length (part p)"
    and st: "tried u p g k (t_calls st) st" "seeds_ok u k st" "rounds_left k st < fuel"
  shows "ok (try_loop fuel u g k st) (\<lambda>st'. \<exists>N. rounds u k N \<and> tried u p g k N st')"
  using st
proof (induction fuel arbitrary: st)
  case (Suc fuel)
  show ?case
  proof (cases "t_i st < 10 \<and> t_i st < nvetes k")
    case True
    then obtain st' where s: "try_round u g k st = Inr st'" "tried u p g k (t_calls st') st'" "seeds_ok u k st'"
        "rounds_left k st' < rounds_left k st"
      using try_round_ok[OF g k p Suc.prems(1,2)] by (auto simp: ok_iff)
    then have "ok (try_loop fuel u g k st') (\<lambda>st'. \<exists>N. rounds u k N \<and> tried u p g k N st')"
      using Suc.prems(3) by (intro Suc.IH[OF s(2,3)]) simp
    then show ?thesis using True s(1) by simp
  next
    case False
    then have "rounds u k (t_calls st)" using Suc.prems(2) by (auto simp: seeds_ok_def rounds_def)
    then show ?thesis using False Suc.prems(1) by auto
  qed
qed simp

section \<open>The bipartition\<close>

lemma myPartition_ok:
  assumes "wf_hyper p"
  obtains q g k N where "myPartition u p = Inr (q, g)" "CMygraph_of (u_cells u) p = Inr g" "mygraph_spec p g"
    "coarseningGraph (u_coarse u) g = Inr k" "rounds u k N" "\<forall>c < N. is_try u k c \<longrightarrow> (\<exists>s r. attempt u g k c s r)"
    "if is_parted q then \<exists>pr. best_try u g k N pr (Modu q) \<and> bipart g pr \<and> length pr = nvtxs p \<and>
        q = p\<lparr>is_parted := True, Modu := Modu q, part := pr @ drop (nvtxs p) (part p)\<rparr>
      else q = p\<lparr>is_parted := False\<rparr> \<and> no_try u g k N"
proof -
  obtain g where g: "CMygraph_of (u_cells u) p = Inr g" "mygraph_spec p g"
    using CMygraph_of_spec[OF assms, of "u_cells u"] by (auto simp: ok_iff)
  have wf: "wf_mygraph g" "fathergraph g = None" "nvtxs p = nvetes g" "nvtxs p \<le> length (part p)"
    using mygraph_spec_wf[OF assms g(2)] g(2) assms by (simp_all add: mygraph_spec_def wf_hyper_def)
  obtain k where k: "coarseningGraph (u_coarse u) g = Inr k" "coarse_of g k"
    using coarseningGraph_ok[OF wf(1), of "u_coarse u"] by (auto simp: ok_iff)
  let ?st = "\<lparr>t_i = 0, t_calls = 0, seedexit = [], seedmap = fresh (u_seedmap u) (nvetes k),
         t_best = - 10000, t_p = p\<lparr>is_parted := False\<rparr>\<rparr>"
  have "tried u p g k (t_calls ?st) ?st" "seeds_ok u k ?st" "rounds_left k ?st < nvetes k + 11"
    by (simp_all add: tried_def no_try_def seeds_ok_def rounds_left_def counted_def)
  then obtain st N where st: "try_loop (nvetes k + 11) u g k ?st = Inr st" "rounds u k N" "tried u p g k N st"
    using try_loop_ok[OF wf(1,2) k(2) wf(3,4), of u ?st "nvetes k + 11"] by (auto simp: ok_iff)
  have r: "myPartition u p = Inr (t_p st, g)" using g(1) k(1) st(1) by (simp add: myPartition_def)
  have m: "Modu (t_p st) = t_best st" if "is_parted (t_p st)" using st(3) that by (auto simp: tried_def)
  show thesis
  proof (rule that[OF r g k(1) st(2)])
    show "\<forall>c < N. is_try u k c \<longrightarrow> (\<exists>s r. attempt u g k c s r)" using st(3) unfolding tried_def by blast
    show "if is_parted (t_p st) then \<exists>pr. best_try u g k N pr (Modu (t_p st)) \<and> bipart g pr \<and> length pr = nvtxs p \<and>
        t_p st = p\<lparr>is_parted := True, Modu := Modu (t_p st), part := pr @ drop (nvtxs p) (part p)\<rparr>
      else t_p st = p\<lparr>is_parted := False\<rparr> \<and> no_try u g k N"
    proof (cases "is_parted (t_p st)")
      case True
      then show ?thesis using st(3) wf(3) unfolding m[OF True] tried_def by (auto simp: bipart_def)
    qed (use st(3) in \<open>simp add: tried_def\<close>)
  qed
qed

text \<open>
  C8. \<open>myPartition\<close> returns on every well-formed hypergraph, whatever \<open>rand\<close> and the fresh
  memory give: its loop ends although a round may take back its count, and no access leaves an
  array. It makes the rounds until ten of them, or as many as there are coarse vertices, count; a vertex is
  tried when it is drawn for the first time and its unset cell of \<open>seedmap\<close> is not 1, and every try
  has a result. \<open>is_parted\<close>, \<open>Modu\<close> and \<open>part\<close> are all that changes. If a partition is reported,
  every vertex has part 0 or 1, and partition and modularity are those of one of the tries, the first
  among the best: no try has a larger modularity, those before a smaller one, and it is positive and not below
  that of its start. Otherwise no try has a positive modularity, and \<open>part\<close> and \<open>Modu\<close> are untouched.
\<close>

theorem myPartition_correct:
  assumes "wf_hyper p"
  shows "\<exists>q g k N. myPartition u p = Inr (q, g) \<and> CMygraph_of (u_cells u) p = Inr g \<and> coarseningGraph (u_coarse u) g = Inr k \<and>
     counted u k N = min 10 (nvetes k) \<and> (\<forall>M < N. counted u k M < min 10 (nvetes k)) \<and>
     (\<forall>c < N. is_try u k c \<longrightarrow> (\<exists>start r. attempt u g k c start r)) \<and>
     q = p\<lparr>is_parted := is_parted q, Modu := Modu q, part := part q\<rparr> \<and>
     (if is_parted q
      then (\<forall>v < nvtxs p. part q ! v = 0 \<or> part q ! v = 1) \<and>
        (\<exists>c < N. \<exists>start. is_try u k c \<and> attempt u g k c start (take (nvtxs p) (part q), Modu q) \<and>
           modularity g start \<le> Modu q \<and> 0 < Modu q \<and>
           (\<forall>c' < N. \<forall>s' pr' m'. is_try u k c' \<and> attempt u g k c' s' (pr', m') \<longrightarrow> m' \<le> Modu q \<and> (c' < c \<longrightarrow> m' < Modu q)))
      else part q = part p \<and> Modu q = Modu p \<and>
        (\<forall>c < N. \<forall>s pr m. is_try u k c \<and> attempt u g k c s (pr, m) \<longrightarrow> m \<le> 0))"
proof -
  obtain q g k N where r: "myPartition u p = Inr (q, g)" "CMygraph_of (u_cells u) p = Inr g" "mygraph_spec p g"
    "coarseningGraph (u_coarse u) g = Inr k" "rounds u k N" "\<forall>c < N. is_try u k c \<longrightarrow> (\<exists>s r. attempt u g k c s r)"
    "if is_parted q then \<exists>pr. best_try u g k N pr (Modu q) \<and> bipart g pr \<and> length pr = nvtxs p \<and>
        q = p\<lparr>is_parted := True, Modu := Modu q, part := pr @ drop (nvtxs p) (part p)\<rparr>
      else q = p\<lparr>is_parted := False\<rparr> \<and> no_try u g k N" by (rule myPartition_ok[OF assms])
  have n: "nvetes g = nvtxs p" using r(3) by (simp add: mygraph_spec_def)
  note R = r(5)[unfolded rounds_def]
  show ?thesis
  proof (cases "is_parted q")
    case True
    with r(7) obtain pr where pr: "best_try u g k N pr (Modu q)" "bipart g pr" "length pr = nvtxs p"
        "q = p\<lparr>is_parted := True, Modu := Modu q, part := pr @ drop (nvtxs p) (part p)\<rparr>" by auto
    have pq: "part q = pr @ drop (nvtxs p) (part p)" by (subst pr(4)) simp
    have "\<forall>v < nvtxs p. part q ! v = 0 \<or> part q ! v = 1"
      using pr(2,3) n by (simp add: pq nth_append bipart_def)
    moreover have "take (nvtxs p) (part q) = pr" using pq pr(3) by simp
    moreover have "q = p\<lparr>is_parted := is_parted q, Modu := Modu q, part := part q\<rparr>"
      using pr(4) pq True by simp
    ultimately show ?thesis using True r(1,2,4,6) R pr(1)[unfolded best_try_def]
      by (intro exI[of _ q] exI[of _ g] exI[of _ k] exI[of _ N]) simp
  next
    case False
    with r(7) have "q = p\<lparr>is_parted := False\<rparr>" "no_try u g k N" by simp_all
    with False r(1,2,4,6) R show ?thesis
      by (intro exI[of _ q] exI[of _ g] exI[of _ k] exI[of _ N]) (simp add: no_try_def)
  qed
qed

definition sample_unknowns :: unknowns where
  "sample_unknowns = \<lparr>u_cells = sample_mem, u_coarse = sample_mem, u_seedmap = (\<lambda>_. 7),
     u_part = (\<lambda>_ _. 7), u_rank = (\<lambda>_ _. 7), u_rand = (\<lambda>_. 0)\<rparr>"

theorem myPartition_correct_witness:
  "wf_hyper sample_hyper \<and> (\<exists>q g k c start. myPartition sample_unknowns sample_hyper = Inr (q, g) \<and>
     is_parted q \<and> Modu q = 1 \<and> (\<forall>v < nvtxs sample_hyper. part q ! v = 0 \<or> part q ! v = 1) \<and>
     is_try sample_unknowns k c \<and> attempt sample_unknowns g k c start (take (nvtxs sample_hyper) (part q), 1))"
proof -
  have "sbind (myPartition sample_unknowns sample_hyper) (\<lambda>(q, g). Inr (is_parted q, Modu q)) = Inr (True, 1)"
    by code_simp
  with myPartition_correct[OF wf_sample, of sample_unknowns] wf_sample show ?thesis by auto blast
qed

end
