(* ===== verification/SubGraph.thy ===== *)
theory SubGraph
  imports Hypergraph
begin

text \<open>
  \<open>CTestCaseCpp::createSubGraph\<close> (\<open>src/CArchitecture/TestCase.cpp\<close>): the two
  sub-hypergraphs of a bipartition, with the vertex maps between father and sons and the
  coupling and cohesion values.
\<close>

section \<open>The code\<close>

text \<open>
  The code handles the two parts by two copies of the same statements. A \<open>side\<close> holds what one
  of the copies works on: the father's map (\<open>mapForG1\<close> or \<open>mapForG2\<close>), the arrays of the
  son, the counters \<open>G1num\<close>, \<open>eindnum_G1\<close>, \<open>edgenumG1\<close> and \<open>wightG1\<close>, and \<open>endG1 + 1\<close>
  as \<open>sd_end\<close> (\<open>startG1\<close> is never read).
\<close>

record side =
  sd_map :: "(nat, nat) smap"
  sd_father :: "(nat, nat) smap"
  sd_vwgts :: "int list"
  sd_eind :: "nat list"
  sd_eptr :: "nat list"
  sd_hewgts :: "int list"
  sd_num :: nat
  sd_eindnum :: nat
  sd_edgenum :: nat
  sd_end :: nat
  sd_weight :: int

definition side_pin :: "CHypergraph \<Rightarrow> side \<Rightarrow> nat \<Rightarrow> error + side" where
  "side_pin G s v = (case sfind (sd_map s) v of
     Some i \<Rightarrow> sbind (aset (sd_eind s) (sd_eindnum s) i) (\<lambda>E.
       Inr (s\<lparr>sd_eind := E, sd_end := sd_eindnum s + 1, sd_eindnum := sd_eindnum s + 1\<rparr>))
   | None \<Rightarrow> sbind (aget (vwgts G) v) (\<lambda>w. sbind (aset (sd_vwgts s) (sd_num s) w) (\<lambda>W.
       sbind (aset (sd_eind s) (sd_eindnum s) (sd_num s)) (\<lambda>E.
         Inr (s\<lparr>sd_map := sinsert v (sd_num s) (sd_map s), sd_father := sinsert (sd_num s) v (sd_father s),
                sd_vwgts := W, sd_eind := E, sd_end := sd_eindnum s + 1,
                sd_num := sd_num s + 1, sd_eindnum := sd_eindnum s + 1\<rparr>)))))"

definition close_edge :: "int \<Rightarrow> side \<Rightarrow> error + side" where
  "close_edge w s =
     sbind (aset (sd_eptr s) (sd_edgenum s + 1) (sd_end s)) (\<lambda>P.
     sbind (aset (sd_hewgts s) (sd_edgenum s) w) (\<lambda>H.
       Inr (s\<lparr>sd_edgenum := sd_edgenum s + 1, sd_eptr := P, sd_hewgts := H\<rparr>)))"

text \<open>A vertex whose part is neither 0 nor 1 is only reported on the console.\<close>

definition split_pin :: "CHypergraph \<Rightarrow> side \<times> side \<times> bool \<times> bool \<Rightarrow> nat \<Rightarrow> error + side \<times> side \<times> bool \<times> bool" where
  "split_pin G = (\<lambda>(s1, s2, allzero, allone) j.
     sbind (aget (eind G) j) (\<lambda>v. sbind (aget (part G) v) (\<lambda>x.
       if x = 0 then sbind (side_pin G s1 v) (\<lambda>s1. Inr (s1, s2, allzero, False))
       else if x = 1 then sbind (side_pin G s2 v) (\<lambda>s2. Inr (s1, s2, False, allone))
       else Inr (s1, s2, allzero, allone))))"

definition split_edge :: "CHypergraph \<Rightarrow> side \<times> side \<times> int \<Rightarrow> nat \<Rightarrow> error + side \<times> side \<times> int" where
  "split_edge G = (\<lambda>(s1, s2, cutw) i.
     sbind (aget (eptr G) i) (\<lambda>a. sbind (aget (eptr G) (i + 1)) (\<lambda>b.
     sbind (mfold (split_pin G) (s1\<lparr>sd_end := 0\<rparr>, s2\<lparr>sd_end := 0\<rparr>, True, True) [a..<b])
       (\<lambda>(s1, s2, allzero, allone). sbind (aget (hewgts G) i) (\<lambda>w.
         if allzero then sbind (close_edge w s1) (\<lambda>s1. Inr (s1\<lparr>sd_weight := sd_weight s1 + w\<rparr>, s2, cutw))
         else if allone then sbind (close_edge w s2) (\<lambda>s2. Inr (s1, s2\<lparr>sd_weight := sd_weight s2 + w\<rparr>, cutw))
         else sbind (close_edge 0 s1) (\<lambda>s1. sbind (close_edge 0 s2) (\<lambda>s2. Inr (s1, s2, cutw + w))))))))"

text \<open>Fresh memory of one son's arrays.\<close>

record son_mem =
  m_hewgts :: "nat \<Rightarrow> int"
  m_eptr :: "nat \<Rightarrow> nat"
  m_eind :: "nat \<Rightarrow> nat"
  m_part :: "nat \<Rightarrow> int"
  m_vwgts :: "nat \<Rightarrow> int"

definition side_start :: "son_mem \<Rightarrow> CHypergraph \<Rightarrow> (nat, nat) smap \<Rightarrow> (nat, nat) smap \<Rightarrow> error + side" where
  "side_start mem G forG forFather = sbind (aget (eptr G) (nhedges G)) (\<lambda>n.
     sbind (aset (fresh (m_eptr mem) (nhedges G + 1)) 0 0) (\<lambda>P.
       Inr \<lparr>sd_map = forG, sd_father = forFather, sd_vwgts = fresh (m_vwgts mem) (nvtxs G),
            sd_eind = fresh (m_eind mem) n, sd_eptr = P, sd_hewgts = fresh (m_hewgts mem) (nhedges G),
            sd_num = 0, sd_eindnum = 0, sd_edgenum = 0, sd_end = 0, sd_weight = 0\<rparr>))"

definition copy_options :: "CHypergraph \<Rightarrow> error + int list" where
  "copy_options G = mfold (\<lambda>os i. sbind (aget (inOptions G) i) (\<lambda>x. Inr (os @ [x]))) [] [0..<9]"

definition coupling_of :: "int \<Rightarrow> int \<Rightarrow> int \<Rightarrow> float" where
  "coupling_of w1 w2 w12 = (if w1 + w2 + w12 = 0 then 0 else fdiv (float_of_int w12) (float_of_int (w1 + w2 + w12)))"

definition cohesion_of :: "int \<Rightarrow> int \<Rightarrow> error + float" where
  "cohesion_of w w12 = (if w = 0 then Inr 0
     else if w + w12 = 0 then Inl NotFinite
     else Inr (fdiv (float_of_int w) (float_of_int (w + w12))))"

definition son_of :: "nat \<Rightarrow> CHypergraph \<Rightarrow> son_mem \<Rightarrow> int list \<Rightarrow> CHypergraph \<Rightarrow> side \<Rightarrow> float \<Rightarrow> float \<Rightarrow> CHypergraph" where
  "son_of G_ptr G mem opts sub s coup cohe = sub\<lparr>fatherGraph := Some G_ptr, npart := 2,
     hewgts := sd_hewgts s, eptr := sd_eptr s, eind := sd_eind s, part := fresh (m_part mem) (nvtxs G),
     vwgts := sd_vwgts s, inOptions := opts, ubfactor := ubfactor G, mapForFather := sd_father s,
     coupling := coup, cohesion := cohe, nhedges := sd_edgenum s, nvtxs := sd_num s\<rparr>"

text \<open>
  The father is passed with its address; the result is the father with its two maps and the
  two sons.
\<close>

definition createSubGraph :: "son_mem \<times> son_mem \<Rightarrow> nat \<Rightarrow> CHypergraph \<Rightarrow> CHypergraph \<Rightarrow> CHypergraph \<Rightarrow>
    error + CHypergraph \<times> CHypergraph \<times> CHypergraph" where
  "createSubGraph mem G_ptr G subG1 subG2 =
     sbind (side_start (fst mem) G (mapForG1 G) (mapForFather subG1)) (\<lambda>s1.
     sbind (side_start (snd mem) G (mapForG2 G) (mapForFather subG2)) (\<lambda>s2.
     sbind (copy_options G) (\<lambda>opts.
     sbind (mfold (split_edge G) (s1, s2, 0) [0..<nhedges G]) (\<lambda>(s1, s2, w12).
       let coup = coupling_of (sd_weight s1) (sd_weight s2) w12 in
       sbind (cohesion_of (sd_weight s1) w12) (\<lambda>c1. sbind (cohesion_of (sd_weight s2) w12) (\<lambda>c2.
         Inr (G\<lparr>mapForG1 := sd_map s1, mapForG2 := sd_map s2\<rparr>,
              son_of G_ptr G (fst mem) opts subG1 s1 coup c1,
              son_of G_ptr G (snd mem) opts subG2 s2 coup c2)))))))"

section \<open>One side\<close>

text \<open>
  The vertices of edge \<open>e\<close> in part \<open>k\<close>, the edges among the first \<open>n\<close> that have some, and the
  vertices met in part \<open>k\<close> in the order of the code.
\<close>

definition kpins :: "CHypergraph \<Rightarrow> int \<Rightarrow> nat \<Rightarrow> nat list" where
  "kpins G k e = filter (\<lambda>v. part G ! v = k) (edge_pins G e)"

definition kedges :: "CHypergraph \<Rightarrow> int \<Rightarrow> nat \<Rightarrow> nat list" where
  "kedges G k n = filter (\<lambda>e. kpins G k e \<noteq> []) [0..<n]"

definition kflat :: "CHypergraph \<Rightarrow> int \<Rightarrow> nat \<Rightarrow> nat list" where
  "kflat G k n = concat (map (kpins G k) [0..<n])"

lemma kflat_Suc: "kflat G k (Suc n) = kflat G k n @ kpins G k n"
  by (simp add: kflat_def)

lemma kflat_kedges: "kflat G k n = concat (map (kpins G k) (kedges G k n))"
  by (induction n) (auto simp: kflat_def kedges_def)

text \<open>Two maps that are inverse to each other.\<close>

definition inverse_maps :: "('a, 'b) smap \<Rightarrow> ('b, 'a) smap \<Rightarrow> bool" where
  "inverse_maps m m' \<longleftrightarrow> (\<forall>v i. sfind m v = Some i \<longleftrightarrow> sfind m' i = Some v)"

lemma inverse_mapsD: "inverse_maps m m' \<Longrightarrow> sfind m v = Some i \<longleftrightarrow> sfind m' i = Some v"
  by (simp add: inverse_maps_def)

lemma inverse_maps_inj: "inverse_maps m m' \<Longrightarrow> sfind m u = Some i \<Longrightarrow> sfind m v = Some i \<Longrightarrow> u = v"
  by (simp add: inverse_maps_def)

lemma in_skeys: "x \<in> skeys m \<longleftrightarrow> (\<exists>y. sfind m x = Some y)"
  using sfind_None_iff[of m x] by auto

lemma inverse_maps_card:
  assumes "inverse_maps m m'"
  shows "card (skeys m) = card (skeys m')"
proof -
  let ?f = "\<lambda>v. the (sfind m v)"
  have "inj_on ?f (skeys m)"
    using assms by (intro inj_onI) (metis in_skeys inverse_maps_inj option.sel)
  moreover have "?f ` skeys m = skeys m'"
  proof (intro equalityI subsetI)
    fix i assume "i \<in> ?f ` skeys m"
    then obtain v where "v \<in> skeys m" "i = ?f v" by blast
    then have "sfind m v = Some i" by (auto simp: in_skeys)
    then have "sfind m' i = Some v" using assms by (simp add: inverse_mapsD)
    then show "i \<in> skeys m'" by (simp add: in_skeys)
  next
    fix i assume "i \<in> skeys m'"
    then obtain v where "sfind m v = Some i" using assms by (metis in_skeys inverse_mapsD)
    then show "i \<in> ?f ` skeys m" by (metis image_eqI in_skeys option.sel)
  qed
  ultimately show ?thesis by (metis card_image)
qed

text \<open>The numbering and the pins written so far, for the vertices \<open>Q\<close> met so far.\<close>

definition numbered :: "CHypergraph \<Rightarrow> nat list \<Rightarrow> side \<Rightarrow> bool" where
  "numbered G Q s \<longleftrightarrow> smap_ok (sd_map s) \<and> smap_ok (sd_father s) \<and> skeys (sd_map s) = set Q \<and>
     inverse_maps (sd_map s) (sd_father s) \<and> skeys (sd_father s) = {..<sd_num s} \<and>
     sd_eindnum s = length Q \<and> take (length Q) (sd_eind s) = map (\<lambda>v. the (sfind (sd_map s) v)) Q \<and>
     length (sd_eind s) = eptr G ! nhedges G \<and> length (sd_vwgts s) = nvtxs G \<and>
     (\<forall>i < sd_num s. sd_vwgts s ! i = 1)"

lemma numbered_num:
  assumes "numbered G Q s"
  shows "sd_num s = card (set Q)" "\<And>v. v \<in> set Q \<Longrightarrow> \<exists>i < sd_num s. sfind (sd_map s) v = Some i"
    "\<And>i. i < sd_num s \<Longrightarrow> \<exists>v \<in> set Q. sfind (sd_map s) v = Some i"
    "\<And>u v i. sfind (sd_map s) u = Some i \<Longrightarrow> sfind (sd_map s) v = Some i \<Longrightarrow> u = v"
proof -
  have inv: "inverse_maps (sd_map s) (sd_father s)"
    and k: "skeys (sd_map s) = set Q" "skeys (sd_father s) = {..<sd_num s}"
    using assms by (simp_all add: numbered_def)
  show "\<exists>i < sd_num s. sfind (sd_map s) v = Some i" if "v \<in> set Q" for v
    using that k inverse_mapsD[OF inv] by (metis in_skeys lessThan_iff)
  show "\<exists>v \<in> set Q. sfind (sd_map s) v = Some i" if "i < sd_num s" for i
    using that k inverse_mapsD[OF inv] by (metis in_skeys lessThan_iff)
  show "sfind (sd_map s) u = Some i \<Longrightarrow> sfind (sd_map s) v = Some i \<Longrightarrow> u = v" for u v i
    using inv by (rule inverse_maps_inj)
  show "sd_num s = card (set Q)" using inverse_maps_card[OF inv] k by simp
qed

lemma side_pin_ok:
  assumes n: "numbered G Q s" and v: "v < nvtxs G" "vwgts G ! v = 1" "nvtxs G \<le> length (vwgts G)"
    and room: "length Q < eptr G ! nhedges G" "set Q \<subseteq> {..<nvtxs G}"
  shows "ok (side_pin G s v) (\<lambda>s'. numbered G (Q @ [v]) s' \<and> sd_end s' = length Q + 1 \<and>
     sd_eptr s' = sd_eptr s \<and> sd_hewgts s' = sd_hewgts s \<and> sd_edgenum s' = sd_edgenum s \<and> sd_weight s' = sd_weight s)"
proof (cases "sfind (sd_map s) v")
  case (Some i)
  then have "v \<in> set Q" using n sfind_dom by (fastforce simp: numbered_def)
  with Some n room show ?thesis
    by (auto simp: side_pin_def safe_simps numbered_def insert_absorb take_Suc_conv_app_nth)
next
  case None
  have new: "v \<notin> set Q" using n None by (auto simp: numbered_def sfind_None_iff)
  have nf: "sfind (sd_father s) (sd_num s) = None" using n by (auto simp: numbered_def sfind_None_iff)
  have "card (insert v (set Q)) \<le> nvtxs G"
    using card_mono[of "{..<nvtxs G}" "insert v (set Q)"] room(2) v(1) by auto
  then have num: "sd_num s < nvtxs G" using new numbered_num(1)[OF n] by simp
  have ok: "smap_ok (sd_map s)" "smap_ok (sd_father s)" using n by (auto simp: numbered_def)
  let ?M = "sinsert v (sd_num s) (sd_map s)" and ?F = "sinsert (sd_num s) v (sd_father s)"
  have M: "sfind ?M = (sfind (sd_map s))(v \<mapsto> sd_num s)" "sfind ?F = (sfind (sd_father s))(sd_num s \<mapsto> v)"
    using ok None nf by (simp_all add: sfind_sinsert fun_eq_iff)
  have "inverse_maps (sd_map s) (sd_father s)" using n by (simp add: numbered_def)
  note id = inverse_mapsD[OF this]
  have "sfind (sd_father s) i \<noteq> Some v" for i using id[of v i] None by simp
  then have inv: "inverse_maps ?M ?F" unfolding inverse_maps_def M by (auto simp: id nf)
  have "map (\<lambda>v. the (sfind ?M v)) (Q @ [v]) = map (\<lambda>v. the (sfind (sd_map s) v)) Q @ [sd_num s]"
    using new by (auto simp: M)
  moreover have "take (length (Q @ [v])) ((sd_eind s)[length Q := sd_num s]) = take (length Q) (sd_eind s) @ [sd_num s]"
    using n room(1) by (simp add: numbered_def take_Suc_conv_app_nth)
  ultimately show ?thesis
    using n None num room(1) v inv
    by (auto simp: side_pin_def safe_simps numbered_def nth_list_update less_Suc_eq lessThan_Suc)
qed

text \<open>The edges closed so far. A hyperedge with vertices on both sides keeps weight 0 on both.\<close>

definition hcut :: "CHypergraph \<Rightarrow> nat \<Rightarrow> bool" where
  "hcut G e \<longleftrightarrow> kpins G 0 e \<noteq> [] \<and> kpins G 1 e \<noteq> []"

definition closed :: "CHypergraph \<Rightarrow> int \<Rightarrow> nat \<Rightarrow> side \<Rightarrow> bool" where
  "closed G k n s \<longleftrightarrow> (let K = kedges G k n in sd_edgenum s = length K \<and>
     length (sd_eptr s) = nhedges G + 1 \<and> length (sd_hewgts s) = nhedges G \<and>
     (\<forall>j \<le> length K. sd_eptr s ! j = length (concat (map (kpins G k) (take j K)))) \<and>
     (\<forall>j < length K. sd_hewgts s ! j = (if hcut G (K ! j) then 0 else hewgts G ! (K ! j))) \<and>
     sd_weight s = (\<Sum>e\<leftarrow>filter (\<lambda>e. \<not> hcut G e) K. hewgts G ! e))"

lemma kedges_Suc: "kedges G k (Suc n) = kedges G k n @ (if kpins G k n = [] then [] else [n])"
  by (simp add: kedges_def)

lemma length_kedges: "length (kedges G k n) \<le> n"
  unfolding kedges_def by (metis diff_zero length_filter_le length_upt)

lemma closed_skip: "kpins G k n = [] \<Longrightarrow> closed G k (Suc n) s = closed G k n s"
  by (simp add: closed_def kedges_Suc)

lemma close_edge_ok:
  assumes c: "closed G k n s" and n: "n < nhedges G" and ne: "kpins G k n \<noteq> []"
    and e: "sd_end s = length (kflat G k (Suc n))" and w: "w = (if hcut G n then 0 else hewgts G ! n)"
  shows "ok (close_edge w s) (\<lambda>s'. closed G k (Suc n) (s'\<lparr>sd_weight := sd_weight s' + w\<rparr>) \<and>
     (\<forall>Q. numbered G Q s \<longrightarrow> numbered G Q s') \<and> sd_weight s' = sd_weight s)"
proof -
  let ?K = "kedges G k n"
  have K: "length ?K < nhedges G" using length_kedges[of G k n] n by simp
  have cs: "sd_edgenum s = length ?K" "length (sd_eptr s) = nhedges G + 1" "length (sd_hewgts s) = nhedges G"
    "\<forall>j \<le> length ?K. sd_eptr s ! j = length (concat (map (kpins G k) (take j ?K)))"
    "\<forall>j < length ?K. sd_hewgts s ! j = (if hcut G (?K ! j) then 0 else hewgts G ! (?K ! j))"
    "sd_weight s = (\<Sum>e\<leftarrow>filter (\<lambda>e. \<not> hcut G e) ?K. hewgts G ! e)"
    using c by (simp_all add: closed_def Let_def)
  let ?s = "s\<lparr>sd_edgenum := sd_edgenum s + 1, sd_eptr := (sd_eptr s)[length ?K + 1 := sd_end s],
     sd_hewgts := (sd_hewgts s)[length ?K := w]\<rparr>"
  have le: "Suc (length ?K) < length (sd_eptr s)" using K cs(2) by simp
  have "close_edge w s = Inr ?s" using cs(1-3) K by (simp add: close_edge_def)
  moreover have "closed G k (Suc n) (?s\<lparr>sd_weight := sd_weight ?s + w\<rparr>)"
    using cs K le ne e w unfolding closed_def Let_def kedges_Suc
    by (auto simp: nth_list_update nth_append less_Suc_eq le_Suc_eq kflat_kedges kedges_Suc kflat_Suc)
  moreover have "\<forall>Q. numbered G Q s \<longrightarrow> numbered G Q ?s" by (simp add: numbered_def)
  ultimately show ?thesis by simp
qed

section \<open>The loop over the edges\<close>

definition bipart_hyper :: "CHypergraph \<Rightarrow> bool" where
  "bipart_hyper G \<longleftrightarrow> (\<forall>v < nvtxs G. part G ! v = 0 \<or> part G ! v = 1)"

lemma kpins_bound:
  assumes "wf_hyper G" "e < nhedges G" "v \<in> set (edge_pins G e)"
  shows "v < nvtxs G" "v < length (part G)" "v < length (vwgts G)" "vwgts G ! v = 1"
proof -
  show v: "v < nvtxs G" using assms unfolding wf_hyper_def by blast
  then show "v < length (part G)" "v < length (vwgts G)" "vwgts G ! v = 1"
    using assms(1) by (simp_all add: wf_hyper_def)
qed

lemma set_kflat_bound: "wf_hyper G \<Longrightarrow> n \<le> nhedges G \<Longrightarrow> set (kflat G k n) \<subseteq> {..<nvtxs G}"
  by (auto simp: kflat_def kpins_def intro: kpins_bound(1)[OF _ less_le_trans])

lemma length_edge_pins: "length (edge_pins G e) = eptr G ! (e + 1) - eptr G ! e"
  by (simp add: edge_pins_def)

lemma length_kflat:
  assumes "wf_hyper G" "n \<le> nhedges G"
  shows "length (kflat G k n) \<le> eptr G ! n"
  using assms(2)
proof (induction n)
  case (Suc n)
  have "length (kpins G k n) \<le> eptr G ! Suc n - eptr G ! n"
    unfolding kpins_def using length_filter_le[of _ "edge_pins G n"] length_edge_pins[of G n] by simp
  moreover have "eptr G ! n < eptr G ! (n + 1)" using assms(1) Suc.prems by (auto simp: wf_hyper_def)
  ultimately show ?case using Suc by (simp add: kflat_Suc)
qed (simp add: kflat_def)

definition same_edges :: "side \<Rightarrow> side \<Rightarrow> bool" where
  "same_edges s s' \<longleftrightarrow> sd_eptr s' = sd_eptr s \<and> sd_hewgts s' = sd_hewgts s \<and>
     sd_edgenum s' = sd_edgenum s \<and> sd_weight s' = sd_weight s"

lemma same_edges_closed: "same_edges s s' \<Longrightarrow> closed G k n s \<Longrightarrow> closed G k n s'"
  by (simp add: same_edges_def closed_def)

text \<open>The pins of one edge that are in part \<open>k\<close>, on the side of \<open>k\<close>.\<close>

definition side_pins :: "CHypergraph \<Rightarrow> int \<Rightarrow> nat \<Rightarrow> side \<Rightarrow> nat list \<Rightarrow> side \<Rightarrow> bool" where
  "side_pins G k n s0 vs s \<longleftrightarrow> (let ps = filter (\<lambda>v. part G ! v = k) vs in
     numbered G (kflat G k n @ ps) s \<and> same_edges s0 s \<and>
     sd_end s = (if ps = [] then 0 else length (kflat G k n @ ps)))"

lemma side_pins_other: "part G ! v \<noteq> k \<Longrightarrow> side_pins G k n s0 (vs @ [v]) s = side_pins G k n s0 vs s"
  by (simp add: side_pins_def)

lemma side_pins_step:
  assumes wf: "wf_hyper G" and n: "n < nhedges G" and vs: "\<exists>zs. edge_pins G n = vs @ v # zs"
    and k: "part G ! v = k" and s: "side_pins G k n s0 vs s"
  shows "ok (side_pin G s v) (side_pins G k n s0 (vs @ [v]))"
proof -
  let ?Q = "kflat G k n @ filter (\<lambda>v. part G ! v = k) vs"
  obtain zs where zs: "edge_pins G n = vs @ v # zs" using vs by blast
  have "length (kflat G k (Suc n)) \<le> eptr G ! Suc n" using length_kflat[OF wf] n by simp
  moreover have "eptr G ! Suc n \<le> eptr G ! nhedges G" using wf_eptr_mono[OF wf] n by simp
  moreover have "length ?Q < length (kflat G k (Suc n))" using zs k by (simp add: kflat_Suc kpins_def)
  ultimately have room: "length ?Q < eptr G ! nhedges G" by simp
  have "set ?Q \<subseteq> set (kflat G k (Suc n))" using zs by (auto simp: kflat_Suc kpins_def)
  moreover have "set (kflat G k (Suc n)) \<subseteq> {..<nvtxs G}" using set_kflat_bound[OF wf] n by simp
  ultimately have sub: "set ?Q \<subseteq> {..<nvtxs G}" by (rule subset_trans)
  have v: "v < nvtxs G" "vwgts G ! v = 1" "nvtxs G \<le> length (vwgts G)"
    using kpins_bound[OF wf n, of v] zs wf by (auto simp: wf_hyper_def)
  have "numbered G ?Q s" using s by (simp add: side_pins_def Let_def)
  from side_pin_ok[OF this v room sub] show ?thesis
    by (rule ok_mono) (use s k in \<open>auto simp: side_pins_def Let_def same_edges_def\<close>)
qed

lemma split_pins_ok:
  assumes wf: "wf_hyper G" "bipart_hyper G" and n: "n < nhedges G"
    and s: "side_pins G 0 n s1 [] s1" "side_pins G 1 n s2 [] s2"
  shows "ok (mfold (split_pin G) (s1, s2, True, True) [eptr G ! n..<eptr G ! (n + 1)])
     (\<lambda>(t1, t2, allzero, allone). side_pins G 0 n s1 (edge_pins G n) t1 \<and> side_pins G 1 n s2 (edge_pins G n) t2 \<and>
        (allzero \<longleftrightarrow> kpins G 1 n = []) \<and> (allone \<longleftrightarrow> kpins G 0 n = []))"
  unfolding edge_pins_def kpins_def
proof (rule mfold_ok_prefix[where I = "\<lambda>js (t1, t2, allzero, allone). let vs = map ((!) (eind G)) js in
     side_pins G 0 n s1 vs t1 \<and> side_pins G 1 n s2 vs t2 \<and>
     (allzero \<longleftrightarrow> filter (\<lambda>v. part G ! v = 1) vs = []) \<and> (allone \<longleftrightarrow> filter (\<lambda>v. part G ! v = 0) vs = [])",
     unfolded Let_def], goal_cases)
  case 1
  then show ?case using s by simp
next
  case (2 ys j zs t)
  obtain t1 t2 az ao where t: "t = (t1, t2, az, ao)" by (metis prod.collapse)
  let ?v = "eind G ! j"
  have ep: "edge_pins G n = map ((!) (eind G)) ys @ ?v # map ((!) (eind G)) zs"
    unfolding edge_pins_def 2(1) by simp
  then have v: "?v < nvtxs G" "?v < length (part G)" using kpins_bound[OF wf(1) n, of ?v] by auto
  have j: "j < length (eind G)"
  proof -
    have "j \<in> set [eptr G ! n..<eptr G ! (n + 1)]" unfolding 2(1) by simp
    then show ?thesis using wf_eind_bound[OF wf(1) n] by simp
  qed
  have x: "part G ! ?v = 0 \<or> part G ! ?v = 1" using wf(2) v(1) by (simp add: bipart_hyper_def)
  show ?case
  proof (cases "part G ! ?v = 0")
    case True
    have "ok (side_pin G t1 ?v) (side_pins G 0 n s1 (map ((!) (eind G)) ys @ [?v]))"
      using ep 2(2) t by (intro side_pins_step[OF wf(1) n _ True]) auto
    then show ?thesis using True j v 2(2) t
      by (auto simp: split_pin_def safe_simps side_pins_other elim!: ok_mono)
  next
    case False
    then have one: "part G ! ?v = 1" using x by simp
    have "ok (side_pin G t2 ?v) (side_pins G 1 n s2 (map ((!) (eind G)) ys @ [?v]))"
      using ep 2(2) t by (intro side_pins_step[OF wf(1) n _ one]) auto
    then show ?thesis using one j v 2(2) t
      by (auto simp: split_pin_def safe_simps side_pins_other elim!: ok_mono)
  qed
qed

text \<open>The state of the two sides after the first \<open>n\<close> edges.\<close>

definition sided :: "CHypergraph \<Rightarrow> int \<Rightarrow> nat \<Rightarrow> side \<Rightarrow> bool" where
  "sided G k n s \<longleftrightarrow> numbered G (kflat G k n) s \<and> closed G k n s"

lemma sided_done:
  assumes p: "side_pins G k n s0 (edge_pins G n) s" "closed G k n s0" and n: "n < nhedges G"
  shows "kpins G k n = [] \<Longrightarrow> sided G k (Suc n) s"
    "kpins G k n \<noteq> [] \<Longrightarrow> w = (if hcut G n then 0 else hewgts G ! n) \<Longrightarrow>
       ok (close_edge w s) (\<lambda>s'. sided G k (Suc n) (s'\<lparr>sd_weight := sd_weight s' + w\<rparr>))"
proof -
  have num: "numbered G (kflat G k (Suc n)) s" using p(1) by (simp add: side_pins_def Let_def kflat_Suc kpins_def)
  have c: "closed G k n s" using p by (auto simp: side_pins_def Let_def elim: same_edges_closed)
  show "kpins G k n = [] \<Longrightarrow> sided G k (Suc n) s" using num c by (simp add: sided_def closed_skip)
  assume ne: "kpins G k n \<noteq> []" and w: "w = (if hcut G n then 0 else hewgts G ! n)"
  have "sd_end s = length (kflat G k (Suc n))"
    using p(1) ne by (auto simp: side_pins_def Let_def kflat_Suc kpins_def)
  from close_edge_ok[OF c n ne this w] num
  show "ok (close_edge w s) (\<lambda>s'. sided G k (Suc n) (s'\<lparr>sd_weight := sd_weight s' + w\<rparr>))"
    by (auto simp: sided_def numbered_def elim!: ok_mono)
qed

lemma kpins_some:
  assumes "wf_hyper G" "bipart_hyper G" "n < nhedges G"
  shows "kpins G 0 n \<noteq> [] \<or> kpins G 1 n \<noteq> []"
proof -
  obtain v where v: "v \<in> set (edge_pins G n)" using wf_pins_nonempty[OF assms(1,3)] by (meson last_in_set)
  then have "v < nvtxs G" using kpins_bound(1)[OF assms(1,3)] by blast
  with v assms(2) show ?thesis by (auto simp: bipart_hyper_def kpins_def filter_empty_conv)
qed

definition cut_weight :: "CHypergraph \<Rightarrow> nat \<Rightarrow> int" where
  "cut_weight G n = (\<Sum>e\<leftarrow>filter (hcut G) [0..<n]. hewgts G ! e)"

lemma split_edge_ok:
  assumes wf: "wf_hyper G" "bipart_hyper G" and n: "n < nhedges G"
    and s: "sided G 0 n s1" "sided G 1 n s2"
  shows "ok (split_edge G (s1, s2, cut_weight G n) n)
     (\<lambda>(t1, t2, w). sided G 0 (Suc n) t1 \<and> sided G 1 (Suc n) t2 \<and> w = cut_weight G (Suc n))"
proof -
  let ?s1 = "s1\<lparr>sd_end := 0\<rparr>" and ?s2 = "s2\<lparr>sd_end := 0\<rparr>"
  have c: "closed G 0 n ?s1" "closed G 1 n ?s2" using s by (simp_all add: sided_def closed_def)
  have "side_pins G 0 n ?s1 [] ?s1" "side_pins G 1 n ?s2 [] ?s2"
    using s by (simp_all add: side_pins_def Let_def sided_def numbered_def same_edges_def)
  from split_pins_ok[OF wf n this] obtain t1 t2 az ao where
    t: "mfold (split_pin G) (?s1, ?s2, True, True) [eptr G ! n..<eptr G ! (n + 1)] = Inr (t1, t2, az, ao)"
      "side_pins G 0 n ?s1 (edge_pins G n) t1" "side_pins G 1 n ?s2 (edge_pins G n) t2"
      "az \<longleftrightarrow> kpins G 1 n = []" "ao \<longleftrightarrow> kpins G 0 n = []"
    by (auto simp: ok_iff)
  have ix: "n < length (eptr G)" "n + 1 < length (eptr G)" "n < length (hewgts G)"
    using wf(1) n by (auto simp: wf_hyper_def)
  note d1 = sided_done[OF t(2) c(1) n] and d2 = sided_done[OF t(3) c(2) n]
  let ?w = "hewgts G ! n"
  have eq: "split_edge G (s1, s2, cut_weight G n) n =
     (if kpins G 1 n = [] then sbind (close_edge ?w t1) (\<lambda>s1. Inr (s1\<lparr>sd_weight := sd_weight s1 + ?w\<rparr>, t2, cut_weight G n))
      else if kpins G 0 n = [] then sbind (close_edge ?w t2) (\<lambda>s2. Inr (t1, s2\<lparr>sd_weight := sd_weight s2 + ?w\<rparr>, cut_weight G n))
      else sbind (close_edge 0 t1) (\<lambda>s1. sbind (close_edge 0 t2) (\<lambda>s2. Inr (s1, s2, cut_weight G n + ?w))))"
    using ix t(1,4,5) by (simp add: split_edge_def)
  consider "kpins G 1 n = []" "kpins G 0 n \<noteq> []" | "kpins G 0 n = []" "kpins G 1 n \<noteq> []" | "hcut G n"
    using kpins_some[OF wf n] by (auto simp: hcut_def)
  then show ?thesis
  proof cases
    case 1
    with d1(2)[of ?w] d2(1) show ?thesis unfolding eq by (auto simp: hcut_def cut_weight_def elim!: ok_mono)
  next
    case 2
    with d2(2)[of ?w] d1(1) show ?thesis unfolding eq by (auto simp: hcut_def cut_weight_def elim!: ok_mono)
  next
    case 3
    then have ne: "kpins G 0 n \<noteq> []" "kpins G 1 n \<noteq> []" by (auto simp: hcut_def)
    obtain u1 where u1: "close_edge 0 t1 = Inr u1" "sided G 0 (Suc n) (u1\<lparr>sd_weight := sd_weight u1 + 0\<rparr>)"
      using d1(2)[of 0] ne(1) 3 unfolding ok_iff by auto
    obtain u2 where u2: "close_edge 0 t2 = Inr u2" "sided G 1 (Suc n) (u2\<lparr>sd_weight := sd_weight u2 + 0\<rparr>)"
      using d2(2)[of 0] ne(2) 3 unfolding ok_iff by auto
    show ?thesis using u1 u2 ne 3 unfolding eq by (simp add: cut_weight_def)
  qed
qed

section \<open>The sons\<close>

lemma concat_split: "j < length L \<Longrightarrow> concat L = concat (take j L) @ L ! j @ concat (drop (Suc j) L)"
  by (metis concat.simps(2) concat_append id_take_nth_drop)

lemma map_nth_slice: "b \<le> length Q \<Longrightarrow> map ((!) Q) [a..<b] = take (b - a) (drop a Q)"
  by (intro nth_equalityI) auto

text \<open>
  What a son is: its vertices are those of part \<open>k\<close>, renumbered by the father's map with the
  son's map as its inverse; its hyperedges are the non-empty restrictions of the father's to
  part \<open>k\<close>, in their order, those of cut hyperedges with weight 0.
\<close>

definition son_spec :: "CHypergraph \<Rightarrow> int \<Rightarrow> (nat, nat) smap \<Rightarrow> CHypergraph \<Rightarrow> bool" where
  "son_spec G k M sub \<longleftrightarrow> inverse_maps M (mapForFather sub) \<and>
     smap_ok M \<and> smap_ok (mapForFather sub) \<and>
     skeys M = {v. v < nvtxs G \<and> part G ! v = k} \<and> skeys (mapForFather sub) = {..<nvtxs sub} \<and>
     (let K = kedges G k (nhedges G) in nhedges sub = length K \<and>
       (\<forall>j < length K. edge_pins sub j = map (\<lambda>v. the (sfind M v)) (kpins G k (K ! j)) \<and>
          hewgts sub ! j = (if hcut G (K ! j) then 0 else hewgts G ! (K ! j)))) \<and>
     wf_hyper sub"

lemma set_kflat:
  assumes "wf_hyper G"
  shows "set (kflat G k (nhedges G)) = {v. v < nvtxs G \<and> part G ! v = k}"
proof (intro equalityI subsetI)
  fix v assume "v \<in> {v. v < nvtxs G \<and> part G ! v = k}"
  moreover then obtain e where "e < nhedges G" "v \<in> set (edge_pins G e)"
    using assms unfolding wf_hyper_def by blast
  ultimately show "v \<in> set (kflat G k (nhedges G))" by (auto simp: kflat_def kpins_def)
qed (use kpins_bound(1)[OF assms] in \<open>auto simp: kflat_def kpins_def\<close>)

lemma sided_pins:
  assumes s: "sided G k (nhedges G) s" and j: "j < length (kedges G k (nhedges G))"
    and sub: "eptr sub = sd_eptr s" "eind sub = sd_eind s"
  shows "edge_pins sub j = map (\<lambda>v. the (sfind (sd_map s) v)) (kpins G k (kedges G k (nhedges G) ! j))"
    "eptr sub ! j < eptr sub ! (j + 1)"
proof -
  let ?K = "kedges G k (nhedges G)" and ?f = "\<lambda>v. the (sfind (sd_map s) v)"
  let ?L = "map (kpins G k) ?K" and ?Q = "kflat G k (nhedges G)"
  have Q: "?Q = concat ?L" by (rule kflat_kedges)
  define a where "a = length (concat (take j ?L))"
  have ne: "kpins G k (?K ! j) \<noteq> []"
  proof -
    have "?K ! j \<in> set ?K" using j by (rule nth_mem)
    then show ?thesis by (simp add: kedges_def)
  qed
  have ptr: "sd_eptr s ! i = length (concat (take i ?L))" if "i \<le> length ?K" for i
    using s that by (simp add: sided_def closed_def Let_def take_map)
  have sp: "concat ?L = concat (take j ?L) @ kpins G k (?K ! j) @ concat (drop (Suc j) ?L)"
    using concat_split[of j ?L] j by simp
  have ea: "sd_eptr s ! j = a" "sd_eptr s ! (j + 1) = a + length (kpins G k (?K ! j))"
    using ptr[of j] ptr[of "j + 1"] j by (simp_all add: a_def take_Suc_conv_app_nth)
  have tk: "take (length ?Q) (sd_eind s) = map ?f ?Q" "length ?Q \<le> length (sd_eind s)"
    using s by (auto simp: sided_def numbered_def dest: arg_cong[where f = length])
  have nth: "sd_eind s ! i = ?f (?Q ! i)" if "i < length ?Q" for i
    using tk(1) that by (metis nth_map nth_take)
  have b: "a + length (kpins G k (?K ! j)) \<le> length ?Q" unfolding Q sp a_def by simp
  have "edge_pins sub j = map ?f (map ((!) ?Q) [a..<a + length (kpins G k (?K ! j))])"
    unfolding edge_pins_def sub ea using nth b by auto
  also have "map ((!) ?Q) [a..<a + length (kpins G k (?K ! j))] = kpins G k (?K ! j)"
    by (subst map_nth_slice[OF b]) (simp add: Q sp a_def)
  finally show "edge_pins sub j = map ?f (kpins G k (?K ! j))" .
  show "eptr sub ! j < eptr sub ! (j + 1)" using ea sub ne by simp
qed

lemma sided_son:
  assumes wf: "wf_hyper G" and s: "sided G k (nhedges G) s"
    and sub: "eptr sub = sd_eptr s" "eind sub = sd_eind s" "hewgts sub = sd_hewgts s" "vwgts sub = sd_vwgts s"
      "nvtxs sub = sd_num s" "nhedges sub = sd_edgenum s" "mapForFather sub = sd_father s" "nvtxs G \<le> length (part sub)"
  shows "son_spec G k (sd_map s) sub"
proof -
  let ?K = "kedges G k (nhedges G)" and ?f = "\<lambda>v. the (sfind (sd_map s) v)"
  let ?Q = "kflat G k (nhedges G)"
  have n: "numbered G ?Q s" and c: "closed G k (nhedges G) s" using s by (auto simp: sided_def)
  note nn = numbered_num[OF n] and setQ = set_kflat[OF wf, of k]
  have K: "sd_edgenum s = length ?K" "length (sd_eptr s) = nhedges G + 1" "length (sd_hewgts s) = nhedges G"
     "sd_eptr s ! length ?K = length (concat (map (kpins G k) ?K))"
     "\<And>j. j < length ?K \<Longrightarrow> sd_hewgts s ! j = (if hcut G (?K ! j) then 0 else hewgts G ! (?K ! j))"
    using c by (simp_all add: closed_def Let_def)
  have Kb: "length ?K \<le> nhedges G" "\<And>j. j < length ?K \<Longrightarrow> ?K ! j < nhedges G"
    using length_kedges[of G k "nhedges G"] nth_mem[of _ ?K] by (auto simp: kedges_def)
  note pins = sided_pins[OF s _ sub(1,2)]
  have ks: "set (kpins G k (?K ! j)) \<subseteq> set ?Q" if "j < length ?K" for j
    using Kb(2)[OF that] by (auto simp: kflat_def)
  have low: "v < sd_num s" if "j < length ?K" "v \<in> set (edge_pins sub j)" for j v
    using that pins(1)[of j] ks[of j] nn(2) by fastforce
  have dis: "distinct (edge_pins sub j)" if j: "j < length ?K" for j
  proof -
    have "distinct (kpins G k (?K ! j))" using wf Kb(2)[OF j] by (simp add: kpins_def wf_hyper_def)
    moreover have "inj_on ?f (set (kpins G k (?K ! j)))"
      using ks[OF j] nn(2,4) by (intro inj_onI) (metis option.sel subsetD)
    ultimately show ?thesis using pins(1)[OF j] by (simp add: distinct_map)
  qed
  have cov: "\<exists>j < length ?K. i \<in> set (edge_pins sub j)" if i: "i < sd_num s" for i
  proof -
    obtain v where v: "v \<in> set ?Q" "sfind (sd_map s) v = Some i" using nn(3)[OF i] by blast
    then obtain e where "e \<in> set ?K" "v \<in> set (kpins G k e)" by (auto simp: kflat_kedges)
    then obtain j where j: "j < length ?K" "v \<in> set (kpins G k (?K ! j))" by (metis in_set_conv_nth)
    then show ?thesis using v(2) pins(1)[of j] by (intro exI[of _ j]) (force simp: image_iff)
  qed
  have num: "sd_num s \<le> nvtxs G"
    using nn(1) setQ card_mono[of "{..<nvtxs G}" "set ?Q"] by auto
  have w: "0 \<le> sd_hewgts s ! j" if "j < length ?K" for j
    using K(5)[OF that] Kb(2)[OF that] wf by (simp add: wf_hyper_def)
  have len: "length (sd_vwgts s) = nvtxs G" "length (sd_eind s) = eptr G ! nhedges G" "\<forall>i < sd_num s. sd_vwgts s ! i = 1"
    using n by (simp_all add: numbered_def)
  have "length (concat (map (kpins G k) ?K)) \<le> eptr G ! nhedges G"
    using length_kflat[OF wf order_refl, of k] by (simp add: kflat_kedges)
  then have "wf_hyper sub"
    unfolding wf_hyper_def using sub K(1-4) Kb(1) num len w pins(2) low dis cov by (intro conjI) simp_all
  moreover have "skeys (sd_map s) = {v. v < nvtxs G \<and> part G ! v = k}" "skeys (sd_father s) = {..<sd_num s}"
     "inverse_maps (sd_map s) (sd_father s)" "smap_ok (sd_map s)" "smap_ok (sd_father s)"
    using n setQ by (simp_all add: numbered_def)
  ultimately show ?thesis unfolding son_spec_def Let_def using sub K(1,5) pins(1) by simp
qed

section \<open>The whole function\<close>

lemma side_start_ok:
  assumes "wf_hyper G"
  shows "ok (side_start mem G [] []) (sided G k 0)"
  using assms
  by (auto simp: side_start_def safe_simps wf_hyper_def sided_def numbered_def closed_def
      kflat_def kedges_def inverse_maps_def)

lemma copy_options_ok: "9 \<le> length (inOptions G) \<Longrightarrow> copy_options G = Inr (take 9 (inOptions G))"
proof -
  assume len: "9 \<le> length (inOptions G)"
  have "ok (copy_options G) (\<lambda>os. os = take 9 (inOptions G))"
    unfolding copy_options_def
    by (rule mfold_ok_upt[where I = "\<lambda>n os. os = take n (inOptions G)"])
      (use len in \<open>auto simp: safe_simps take_Suc_conv_app_nth\<close>)
  then show ?thesis by (simp add: ok_iff)
qed

definition inner_weight :: "CHypergraph \<Rightarrow> int \<Rightarrow> int" where
  "inner_weight G k = (\<Sum>e\<leftarrow>filter (\<lambda>e. \<not> hcut G e) (kedges G k (nhedges G)). hewgts G ! e)"

lemma weights_nonneg:
  assumes "wf_hyper G"
  shows "0 \<le> inner_weight G k" "0 \<le> cut_weight G (nhedges G)"
  using assms unfolding inner_weight_def cut_weight_def
  by (auto simp: kedges_def wf_hyper_def intro!: sum_list_nonneg)

lemma cohesion_of_ok: "0 \<le> w \<Longrightarrow> 0 \<le> w12 \<Longrightarrow> ok (cohesion_of w w12) (\<lambda>c. 0 \<le> c \<and> c \<le> 1)"
  using fdiv_unit[of w "w + w12"] by (auto simp: cohesion_of_def)

lemma coupling_of_unit: "0 \<le> w1 \<Longrightarrow> 0 \<le> w2 \<Longrightarrow> 0 \<le> w12 \<Longrightarrow> 0 \<le> coupling_of w1 w2 w12 \<and> coupling_of w1 w2 w12 \<le> 1"
  using fdiv_unit[of w12 "w1 + w2 + w12"] by (auto simp: coupling_of_def)

definition sub_ready :: "CHypergraph \<Rightarrow> bool" where
  "sub_ready G \<longleftrightarrow> wf_hyper G \<and> bipart_hyper G \<and> mapForG1 G = [] \<and> mapForG2 G = [] \<and> 9 \<le> length (inOptions G)"

lemma createSubGraph_ok:
  assumes G: "sub_ready G" and sub: "mapForFather subG1 = []" "mapForFather subG2 = []"
  shows "ok (createSubGraph mem ptr G subG1 subG2) (\<lambda>(G', H1, H2).
     G' = G\<lparr>mapForG1 := mapForG1 G', mapForG2 := mapForG2 G'\<rparr> \<and>
     son_spec G 0 (mapForG1 G') H1 \<and> son_spec G 1 (mapForG2 G') H2 \<and>
     (\<forall>H \<in> {H1, H2}. fatherGraph H = Some ptr \<and> npart H = 2 \<and> inOptions H = take 9 (inOptions G) \<and>
        coupling H = coupling_of (inner_weight G 0) (inner_weight G 1) (cut_weight G (nhedges G)) \<and>
        0 \<le> coupling H \<and> coupling H \<le> 1 \<and> 0 \<le> cohesion H \<and> cohesion H \<le> 1) \<and>
     cohesion_of (inner_weight G 0) (cut_weight G (nhedges G)) = Inr (cohesion H1) \<and>
     cohesion_of (inner_weight G 1) (cut_weight G (nhedges G)) = Inr (cohesion H2) \<and>
     mapForG1 H1 = mapForG1 subG1 \<and> mapForG2 H1 = mapForG2 subG1 \<and> leftSon H1 = leftSon subG1 \<and> rightSon H1 = rightSon subG1 \<and>
     mapForG1 H2 = mapForG1 subG2 \<and> mapForG2 H2 = mapForG2 subG2 \<and> leftSon H2 = leftSon subG2 \<and> rightSon H2 = rightSon subG2)"
proof -
  have wf: "wf_hyper G" "bipart_hyper G" and maps: "mapForG1 G = []" "mapForG2 G = []" and opt: "9 \<le> length (inOptions G)"
    using G by (auto simp: sub_ready_def)
  obtain s1 where s1: "side_start (fst mem) G [] [] = Inr s1" "sided G 0 0 s1"
    using side_start_ok[OF wf(1), of "fst mem" 0] by (auto simp: ok_iff)
  obtain s2 where s2: "side_start (snd mem) G [] [] = Inr s2" "sided G 1 0 s2"
    using side_start_ok[OF wf(1), of "snd mem" 1] by (auto simp: ok_iff)
  have "ok (mfold (split_edge G) (s1, s2, 0) [0..<nhedges G])
     (\<lambda>(t1, t2, w). sided G 0 (nhedges G) t1 \<and> sided G 1 (nhedges G) t2 \<and> w = cut_weight G (nhedges G))"
  proof (rule mfold_ok_upt[where I = "\<lambda>n (t1, t2, w). sided G 0 n t1 \<and> sided G 1 n t2 \<and> w = cut_weight G n"], goal_cases)
    case 2
    then show ?case using s1 s2 by (simp add: cut_weight_def)
  next
    case (3 i t)
    then show ?case using split_edge_ok[OF wf, of i] by (cases t) auto
  qed simp
  then obtain t1 t2 where t: "mfold (split_edge G) (s1, s2, 0) [0..<nhedges G] = Inr (t1, t2, cut_weight G (nhedges G))"
     "sided G 0 (nhedges G) t1" "sided G 1 (nhedges G) t2"
    by (auto simp: ok_iff)
  have w: "sd_weight t1 = inner_weight G 0" "sd_weight t2 = inner_weight G 1"
    using t(2,3) by (simp_all add: sided_def closed_def Let_def inner_weight_def)
  note nn = weights_nonneg[OF wf(1)]
  obtain c1 where c1: "cohesion_of (inner_weight G 0) (cut_weight G (nhedges G)) = Inr c1" "0 \<le> c1" "c1 \<le> 1"
    using cohesion_of_ok[OF nn] by (auto simp: ok_iff)
  obtain c2 where c2: "cohesion_of (inner_weight G 1) (cut_weight G (nhedges G)) = Inr c2" "0 \<le> c2" "c2 \<le> 1"
    using cohesion_of_ok[OF nn] by (auto simp: ok_iff)
  define cp where "cp = coupling_of (inner_weight G 0) (inner_weight G 1) (cut_weight G (nhedges G))"
  have cp: "0 \<le> cp" "cp \<le> 1" using coupling_of_unit[OF nn(1) nn(1) nn(2)] by (auto simp: cp_def)
  define H1 where "H1 = son_of ptr G (fst mem) (take 9 (inOptions G)) subG1 t1 cp c1"
  define H2 where "H2 = son_of ptr G (snd mem) (take 9 (inOptions G)) subG2 t2 cp c2"
  have "createSubGraph mem ptr G subG1 subG2 = Inr (G\<lparr>mapForG1 := sd_map t1, mapForG2 := sd_map t2\<rparr>, H1, H2)"
    using s1(1) s2(1) t(1) c1(1) c2(1) sub maps copy_options_ok[OF opt]
    by (simp add: createSubGraph_def w cp_def H1_def H2_def Let_def)
  moreover have "son_spec G 0 (sd_map t1) H1" "son_spec G 1 (sd_map t2) H2"
    by (rule sided_son[OF wf(1) t(2)]; simp add: H1_def son_of_def)
       (rule sided_son[OF wf(1) t(3)]; simp add: H2_def son_of_def)
  ultimately show ?thesis
    using c1 c2 cp by (simp add: H1_def H2_def son_of_def cp_def)
qed

text \<open>The two parts share out the vertices.\<close>

lemma son_spec_counts:
  assumes "bipart_hyper G" "son_spec G 0 M1 H1" "son_spec G 1 M2 H2"
  shows "nvtxs H1 + nvtxs H2 = nvtxs G"
proof -
  have c: "nvtxs H = card {v. v < nvtxs G \<and> part G ! v = k}" if "son_spec G k M H" for k M H
    using that inverse_maps_card[of M "mapForFather H"] by (simp add: son_spec_def)
  let ?A = "\<lambda>k. {v. v < nvtxs G \<and> part G ! v = (k::int)}"
  have "card (?A 0) + card (?A 1) = card (?A 0 \<union> ?A 1)" by (intro card_Un_disjoint[symmetric]) auto
  also have "?A 0 \<union> ?A 1 = {..<nvtxs G}" using assms(1) by (auto simp: bipart_hyper_def)
  finally show ?thesis using c[OF assms(2)] c[OF assms(3)] by simp
qed

text \<open>The weights of a son: a hyperedge keeps its weight when all its vertices are in the part.\<close>

lemma son_weights:
  assumes "wf_hyper G" "bipart_hyper G" "k \<in> {0, 1}"
  shows "map (\<lambda>e. if hcut G e then 0 else hewgts G ! e) (kedges G k (nhedges G)) =
     map (\<lambda>e. if \<forall>v \<in> set (edge_pins G e). part G ! v = k then hewgts G ! e else 0)
       (filter (\<lambda>e. \<exists>v \<in> set (edge_pins G e). part G ! v = k) [0..<nhedges G])"
proof -
  have "hcut G e \<longleftrightarrow> \<not> (\<forall>v \<in> set (edge_pins G e). part G ! v = k)"
    if "e < nhedges G" "\<exists>v \<in> set (edge_pins G e). part G ! v = k" for e
  proof -
    have "part G ! v = 0 \<or> part G ! v = 1" if "v \<in> set (edge_pins G e)" for v
      using assms(2) kpins_bound(1)[OF assms(1) \<open>e < nhedges G\<close> that] by (simp add: bipart_hyper_def)
    moreover have "k = 0 \<or> k = 1" using assms(3) by simp
    ultimately show ?thesis using that(2) unfolding hcut_def kpins_def filter_empty_conv by (metis zero_neq_one)
  qed
  moreover have "kedges G k (nhedges G) = filter (\<lambda>e. \<exists>v \<in> set (edge_pins G e). part G ! v = k) [0..<nhedges G]"
    by (simp add: kedges_def kpins_def filter_empty_conv)
  ultimately show ?thesis by auto
qed

text \<open>
  C12. On a well-formed hypergraph with a bipartition, \<open>createSubGraph\<close> stays inside all its
  arrays and makes two well-formed sons that share out the vertices. The father's map of a side
  is a bijection between the vertices of that part and the vertices of the son, with the son's
  \<open>mapForFather\<close> as its inverse; the son's hyperedges are the father's hyperedges restricted to
  the part, in the father's order and under that renumbering, with their weight, or 0 if the
  hyperedge is cut.
\<close>

theorem createSubGraph_correct:
  assumes "sub_ready G" "mapForFather subG1 = []" "mapForFather subG2 = []"
  shows "\<exists>G' H1 H2. createSubGraph mem ptr G subG1 subG2 = Inr (G', H1, H2) \<and>
     wf_hyper H1 \<and> wf_hyper H2 \<and> nvtxs H1 + nvtxs H2 = nvtxs G \<and>
     (\<forall>(k, M, H) \<in> {(0, mapForG1 G', H1), (1, mapForG2 G', H2)}.
        (\<forall>v. (\<exists>i. sfind M v = Some i) \<longleftrightarrow> v < nvtxs G \<and> part G ! v = k) \<and>
        (\<forall>v i. sfind M v = Some i \<longleftrightarrow> sfind (mapForFather H) i = Some v) \<and>
        (\<forall>i. (\<exists>v. sfind (mapForFather H) i = Some v) \<longleftrightarrow> i < nvtxs H) \<and>
        map (edge_pins H) [0..<nhedges H] =
          map (map (\<lambda>v. the (sfind M v))) (filter (\<lambda>ps. ps \<noteq> [])
            (map (\<lambda>e. filter (\<lambda>v. part G ! v = k) (edge_pins G e)) [0..<nhedges G])) \<and>
        map ((!) (hewgts H)) [0..<nhedges H] =
          map (\<lambda>e. if \<forall>v \<in> set (edge_pins G e). part G ! v = k then hewgts G ! e else 0)
            (filter (\<lambda>e. \<exists>v \<in> set (edge_pins G e). part G ! v = k) [0..<nhedges G]))"
proof -
  obtain G' H1 H2 where r: "createSubGraph mem ptr G subG1 subG2 = Inr (G', H1, H2)"
      "son_spec G 0 (mapForG1 G') H1" "son_spec G 1 (mapForG2 G') H2"
    using createSubGraph_ok[OF assms, of mem ptr] by (auto simp: ok_iff)
  have wf: "wf_hyper G" "bipart_hyper G" using assms(1) by (auto simp: sub_ready_def)
  have flt: "map (kpins G k) (kedges G k n) = filter (\<lambda>ps. ps \<noteq> []) (map (kpins G k) [0..<n])" for k n
    by (simp add: kedges_def filter_map comp_def)
  have side: "(\<forall>v. (\<exists>i. sfind M v = Some i) \<longleftrightarrow> v < nvtxs G \<and> part G ! v = k) \<and>
        (\<forall>v i. sfind M v = Some i \<longleftrightarrow> sfind (mapForFather H) i = Some v) \<and>
        (\<forall>i. (\<exists>v. sfind (mapForFather H) i = Some v) \<longleftrightarrow> i < nvtxs H) \<and>
        map (edge_pins H) [0..<nhedges H] =
          map (map (\<lambda>v. the (sfind M v))) (filter (\<lambda>ps. ps \<noteq> []) (map (kpins G k) [0..<nhedges G])) \<and>
        map ((!) (hewgts H)) [0..<nhedges H] =
          map (\<lambda>e. if \<forall>v \<in> set (edge_pins G e). part G ! v = k then hewgts G ! e else 0)
            (filter (\<lambda>e. \<exists>v \<in> set (edge_pins G e). part G ! v = k) [0..<nhedges G])"
    if sp: "son_spec G k M H" and k: "k \<in> {0, 1}" for k M H
  proof (intro conjI)
    show "\<forall>v i. sfind M v = Some i \<longleftrightarrow> sfind (mapForFather H) i = Some v"
      using sp unfolding son_spec_def inverse_maps_def by blast
    show "\<forall>v. (\<exists>i. sfind M v = Some i) \<longleftrightarrow> v < nvtxs G \<and> part G ! v = k"
      using sp unfolding son_spec_def in_skeys[symmetric] by blast
    show "\<forall>i. (\<exists>v. sfind (mapForFather H) i = Some v) \<longleftrightarrow> i < nvtxs H"
      using sp unfolding son_spec_def in_skeys[symmetric] by blast
    show "map (edge_pins H) [0..<nhedges H] =
          map (map (\<lambda>v. the (sfind M v))) (filter (\<lambda>ps. ps \<noteq> []) (map (kpins G k) [0..<nhedges G]))"
      unfolding flt[symmetric] using sp by (intro nth_equalityI) (simp_all add: son_spec_def Let_def)
    have "map ((!) (hewgts H)) [0..<nhedges H] = map (\<lambda>e. if hcut G e then 0 else hewgts G ! e) (kedges G k (nhedges G))"
      using sp by (intro nth_equalityI) (simp_all add: son_spec_def Let_def)
    then show "map ((!) (hewgts H)) [0..<nhedges H] =
          map (\<lambda>e. if \<forall>v \<in> set (edge_pins G e). part G ! v = k then hewgts G ! e else 0)
            (filter (\<lambda>e. \<exists>v \<in> set (edge_pins G e). part G ! v = k) [0..<nhedges G])"
      unfolding son_weights[OF wf k] .
  qed
  have "wf_hyper H1" "wf_hyper H2" using r(2,3) by (simp_all add: son_spec_def)
  moreover have "nvtxs H1 + nvtxs H2 = nvtxs G"
    using assms(1) r(2,3) by (intro son_spec_counts) (auto simp: sub_ready_def)
  moreover note sides = side[OF r(2), unfolded kpins_def[abs_def], simplified] side[OF r(3), unfolded kpins_def[abs_def], simplified]
  ultimately show ?thesis
    using r(1) by (intro exI[of _ G'] exI[of _ H1] exI[of _ H2] conjI)
      (assumption | simp only: ball_simps prod.case sides simp_thms)+
qed

text \<open>Two vertices joined by one hyperedge and separated by another that is cut.\<close>

definition sample_cut :: CHypergraph where
  "sample_cut = sample_hyper\<lparr>nhedges := 3, eptr := [0, 2, 4, 6], eind := [0, 1, 2, 3, 1, 2], hewgts := [1, 1, 2],
     part := [0, 0, 1, 1]\<rparr>"

definition sample_son_mem :: son_mem where
  "sample_son_mem = \<lparr>m_hewgts = \<lambda>_. 7, m_eptr = \<lambda>_. 7, m_eind = \<lambda>_. 7, m_part = \<lambda>_. 7, m_vwgts = \<lambda>_. 7\<rparr>"

lemma sample_cut_ready: "sub_ready sample_cut"
proof -
  have "wf_hyper sample_cut" unfolding wf_hyper_def by code_simp
  moreover have "bipart_hyper sample_cut" unfolding bipart_hyper_def by code_simp
  ultimately show ?thesis by (simp add: sub_ready_def sample_cut_def sample_hyper_def)
qed

theorem createSubGraph_correct_witness:
  "\<exists>G' H1 H2. createSubGraph (sample_son_mem, sample_son_mem) 0 sample_cut (CHypergraph_init sample_hyper)
       (CHypergraph_init sample_hyper) = Inr (G', H1, H2) \<and> wf_hyper H1 \<and> wf_hyper H2 \<and> nvtxs H1 + nvtxs H2 = 4"
proof -
  have "mapForFather (CHypergraph_init sample_hyper) = []" by (simp add: CHypergraph_init_def)
  from createSubGraph_correct[OF sample_cut_ready this this, of "(sample_son_mem, sample_son_mem)" 0]
  have "\<exists>G' H1 H2. createSubGraph (sample_son_mem, sample_son_mem) 0 sample_cut (CHypergraph_init sample_hyper)
       (CHypergraph_init sample_hyper) = Inr (G', H1, H2) \<and> wf_hyper H1 \<and> wf_hyper H2 \<and> nvtxs H1 + nvtxs H2 = nvtxs sample_cut"
    by (elim exE conjE) (intro exI conjI)
  moreover have "nvtxs sample_cut = 4" by (simp add: sample_cut_def sample_hyper_def)
  ultimately show ?thesis by simp
qed

text \<open>
  C28. The values that \<open>createSubGraph\<close> gives both sons lie between 0 and 1 and no division is
  by zero: the coupling is the weight of the cut hyperedges over the total weight (0 if there is
  none), the cohesion of a son the weight of its uncut hyperedges over that weight plus the cut
  weight (0 if there is none), all in single precision.
\<close>

theorem createSubGraph_measures:
  assumes "sub_ready G" "mapForFather subG1 = []" "mapForFather subG2 = []"
  shows "\<exists>G' H1 H2. createSubGraph mem ptr G subG1 subG2 = Inr (G', H1, H2) \<and>
     (\<forall>H \<in> {H1, H2}. 0 \<le> coupling H \<and> coupling H \<le> 1 \<and> 0 \<le> cohesion H \<and> cohesion H \<le> 1) \<and>
     coupling H1 = coupling H2 \<and>
     (let w = \<lambda>P. \<Sum>e\<leftarrow>filter P [0..<nhedges G]. hewgts G ! e;
          w12 = w (\<lambda>e. hcut G e); w1 = w (\<lambda>e. kpins G 1 e = []); w2 = w (\<lambda>e. kpins G 0 e = []) in
       coupling H1 = (if w1 + w2 + w12 = 0 then 0 else fdiv (float_of_int w12) (float_of_int (w1 + w2 + w12))) \<and>
       cohesion H1 = (if w1 = 0 then 0 else fdiv (float_of_int w1) (float_of_int (w1 + w12))) \<and>
       cohesion H2 = (if w2 = 0 then 0 else fdiv (float_of_int w2) (float_of_int (w2 + w12))))"
proof -
  have wf: "wf_hyper G" "bipart_hyper G" using assms(1) by (auto simp: sub_ready_def)
  have "filter (\<lambda>e. \<not> hcut G e) (kedges G 0 (nhedges G)) = filter (\<lambda>e. kpins G 1 e = []) [0..<nhedges G]"
    "filter (\<lambda>e. \<not> hcut G e) (kedges G 1 (nhedges G)) = filter (\<lambda>e. kpins G 0 e = []) [0..<nhedges G]"
    using kpins_some[OF wf] by (auto simp: kedges_def hcut_def intro!: filter_cong)
  then have w: "inner_weight G 0 = (\<Sum>e\<leftarrow>filter (\<lambda>e. kpins G 1 e = []) [0..<nhedges G]. hewgts G ! e)"
    "inner_weight G 1 = (\<Sum>e\<leftarrow>filter (\<lambda>e. kpins G 0 e = []) [0..<nhedges G]. hewgts G ! e)"
    "cut_weight G (nhedges G) = (\<Sum>e\<leftarrow>filter (\<lambda>e. hcut G e) [0..<nhedges G]. hewgts G ! e)"
    by (simp_all add: inner_weight_def cut_weight_def)
  obtain G' H1 H2 where r: "createSubGraph mem ptr G subG1 subG2 = Inr (G', H1, H2)"
     "\<forall>H \<in> {H1, H2}. coupling H = coupling_of (inner_weight G 0) (inner_weight G 1) (cut_weight G (nhedges G)) \<and>
        0 \<le> coupling H \<and> coupling H \<le> 1 \<and> 0 \<le> cohesion H \<and> cohesion H \<le> 1"
     "cohesion_of (inner_weight G 0) (cut_weight G (nhedges G)) = Inr (cohesion H1)"
     "cohesion_of (inner_weight G 1) (cut_weight G (nhedges G)) = Inr (cohesion H2)"
    using createSubGraph_ok[OF assms, of mem ptr] by (auto simp: ok_iff)
  then show ?thesis
    unfolding Let_def w[symmetric] by (auto simp: cohesion_of_def coupling_of_def split: if_splits)
qed

theorem createSubGraph_measures_witness:
  "\<exists>G' H1 H2. createSubGraph (sample_son_mem, sample_son_mem) 0 sample_cut (CHypergraph_init sample_hyper)
       (CHypergraph_init sample_hyper) = Inr (G', H1, H2) \<and>
     0 \<le> coupling H1 \<and> coupling H1 \<le> 1 \<and> coupling H1 = 1 / 2"
proof -
  have "mapForFather (CHypergraph_init sample_hyper) = []" by (simp add: CHypergraph_init_def)
  from createSubGraph_measures[OF sample_cut_ready this this, of "(sample_son_mem, sample_son_mem)" 0]
  obtain G' H1 H2 where r: "createSubGraph (sample_son_mem, sample_son_mem) 0 sample_cut (CHypergraph_init sample_hyper)
       (CHypergraph_init sample_hyper) = Inr (G', H1, H2)" "0 \<le> coupling H1" "coupling H1 \<le> 1" by blast
  have "sbind (createSubGraph (sample_son_mem, sample_son_mem) 0 sample_cut (CHypergraph_init sample_hyper)
       (CHypergraph_init sample_hyper)) (\<lambda>(_, H1, _). Inr (coupling H1)) = Inr (1 / 2)" by code_simp
  with r show ?thesis by auto
qed

end
