(* ===== verification/Splitting.thy ===== *)
theory Splitting
  imports MyPartition SubGraph
begin

text \<open>
  \<open>CTestCaseCpp::doHmetis\<close> (\<open>src/CArchitecture/TestCase.cpp\<close>): the root hypergraph is split
  again and again, breadth first, until the pieces are small or the partitioner gives up. The
  hypergraphs live in a list of objects; a pointer is the index of its object.
\<close>

section \<open>The code\<close>

definition END_NUM :: nat where
  "END_NUM = 3"

text \<open>The unknowns of a round: the partitioner's, the memory of the two new objects and of their arrays.\<close>

record round_mem =
  rm_u :: unknowns
  rm_obj1 :: CHypergraph
  rm_obj2 :: CHypergraph
  rm_sons :: "son_mem \<times> son_mem"

text \<open>\<open>pMyGraph\<close> is not set by the constructor of the test case: \<open>None\<close> is the wild pointer.\<close>

record split_state =
  sp_heap :: "CHypergraph list"
  sp_queue :: "nat list"
  endParts :: "nat list"
  sp_graph :: "CMygraph option"
  sp_rounds :: nat

type_synonym partitioner = "unknowns \<Rightarrow> CHypergraph \<Rightarrow> error + CHypergraph \<times> CMygraph"

text \<open>The branch of a reported partition: two new objects behind the others.\<close>

definition add_sons :: "round_mem \<Rightarrow> nat \<Rightarrow> CHypergraph \<Rightarrow> split_state \<Rightarrow> error + split_state" where
  "add_sons r p P st =
     sbind (createSubGraph (rm_sons r) p P (CHypergraph_init (rm_obj1 r)) (CHypergraph_init (rm_obj2 r))) (\<lambda>(P, G1, G2).
       let i1 = length (sp_heap st); i2 = i1 + 1; P = P\<lparr>leftSon := Some i1, rightSon := Some i2\<rparr> in
       if nvtxs G1 \<noteq> 0 \<and> nvtxs G2 \<noteq> 0 then
         Inr (st\<lparr>sp_heap := (sp_heap st)[p := P] @ [G1\<lparr>gfloor := gfloor P + 1\<rparr>, G2\<lparr>gfloor := gfloor P + 1\<rparr>],
                 sp_queue := sp_queue st @ [i1, i2]\<rparr>)
       else Inr (st\<lparr>sp_heap := (sp_heap st)[p := P] @ [G1, G2]\<rparr>))"

definition split_round :: "partitioner \<Rightarrow> (nat \<Rightarrow> round_mem) \<Rightarrow> split_state \<Rightarrow> error + split_state" where
  "split_round bip mem st =
     sbind (deref (sp_queue st)) (\<lambda>p. sbind (aget (sp_heap st) p) (\<lambda>P.
     let r = mem (sp_rounds st); st = st\<lparr>sp_rounds := sp_rounds st + 1\<rparr> in
     sbind (if END_NUM - 1 < nvtxs P then
              sbind (bip (rm_u r) (P\<lparr>Modu := 0\<rparr>)) (\<lambda>(P, g).
                let st = st\<lparr>sp_heap := (sp_heap st)[p := P],
                            sp_graph := (if gfloor P = 1 then Some g else sp_graph st)\<rparr> in
                if is_parted P then add_sons r p P st
                else Inr (st\<lparr>endParts := endParts st @ [p]\<rparr>))
            else Inr (st\<lparr>endParts := endParts st @ [p]\<rparr>))
       (\<lambda>st. Inr (st\<lparr>sp_queue := tl (sp_queue st)\<rparr>))))"

fun split_loop :: "nat \<Rightarrow> partitioner \<Rightarrow> (nat \<Rightarrow> round_mem) \<Rightarrow> split_state \<Rightarrow> error + split_state" where
  "split_loop 0 bip mem st = Inl OutOfFuel"
| "split_loop (Suc fuel) bip mem st =
     (if sp_queue st \<noteq> [] then sbind (split_round bip mem st) (split_loop fuel bip mem) else Inr st)"

text \<open>The part of \<open>doHmetis\<close> before the call of \<open>mergeParts\<close>.\<close>

definition split_start :: "CHypergraph \<Rightarrow> split_state" where
  "split_start pHyper = \<lparr>sp_heap = [pHyper\<lparr>gfloor := 1, coupling := 0, cohesion := 1,
       trueNvtxs := nvtxs pHyper, Modu := 0\<rparr>],
     sp_queue = [0], endParts = [], sp_graph = None, sp_rounds = 0\<rparr>"

definition splitAll :: "(nat \<Rightarrow> round_mem) \<Rightarrow> CHypergraph \<Rightarrow> error + split_state" where
  "splitAll mem pHyper = split_loop (2 * nvtxs pHyper + 2) myPartition mem (split_start pHyper)"

section \<open>What the loop relies on: the contract of a partitioner\<close>

text \<open>
  \<open>doHmetis\<close> can be run with \<open>myPartition\<close> or \<open>doPartition\<close>; what the loop needs of either is
  this interface.
\<close>

locale bipartitioner =
  fixes bip :: partitioner
  assumes bip_ok: "wf_hyper p \<Longrightarrow> ok (bip u p) (\<lambda>(q, g). mygraph_spec p g \<and> wf_hyper q \<and>
     q = p\<lparr>is_parted := is_parted q, Modu := Modu q, part := part q\<rparr> \<and> (is_parted q \<longrightarrow> bipart_hyper q))"

lemma wf_hyper_part:
  "wf_hyper p \<Longrightarrow> nvtxs p \<le> length prt \<Longrightarrow> wf_hyper (p\<lparr>is_parted := b, Modu := m, part := prt\<rparr>)"
  by (simp add: wf_hyper_def edge_pins_def)

interpretation mp: bipartitioner myPartition
proof
  fix p u assume wf: "wf_hyper p"
  show "ok (myPartition u p) (\<lambda>(q, g). mygraph_spec p g \<and> wf_hyper q \<and>
     q = p\<lparr>is_parted := is_parted q, Modu := Modu q, part := part q\<rparr> \<and> (is_parted q \<longrightarrow> bipart_hyper q))"
  proof (rule myPartition_ok[OF wf, of u])
    fix q g k N assume r: "myPartition u p = Inr (q, g)" and sp: "mygraph_spec p g" and
      q: "if is_parted q then \<exists>pr. best_try u g k N pr (Modu q) \<and> bipart g pr \<and> length pr = nvtxs p \<and>
        q = p\<lparr>is_parted := True, Modu := Modu q, part := pr @ drop (nvtxs p) (part p)\<rparr>
        else q = p\<lparr>is_parted := False\<rparr> \<and> no_try u g k N"
    have n: "nvetes g = nvtxs p" using sp by (simp add: mygraph_spec_def)
    have "wf_hyper q \<and> q = p\<lparr>is_parted := is_parted q, Modu := Modu q, part := part q\<rparr> \<and> (is_parted q \<longrightarrow> bipart_hyper q)"
    proof (cases "is_parted q")
      case True
      with q obtain pr where pr: "bipart g pr" "length pr = nvtxs p"
          "q = p\<lparr>is_parted := True, Modu := Modu q, part := pr @ drop (nvtxs p) (part p)\<rparr>" by auto
      have pq: "part q = pr @ drop (nvtxs p) (part p)" "nvtxs q = nvtxs p" by (subst pr(3), simp)+
      have "bipart_hyper q" using pr(1,2) n by (simp add: bipart_hyper_def bipart_def pq nth_append)
      moreover have "wf_hyper q" by (subst pr(3), rule wf_hyper_part[OF wf]) (simp add: pr(2))
      ultimately show ?thesis using pr(3) pq(1) True by simp
    next
      case False
      with q have "q = p\<lparr>is_parted := False, Modu := Modu p, part := part p\<rparr>" by simp
      then show ?thesis using wf_hyper_part[OF wf, where prt = "part p" and b = False and m = "Modu p"] wf False
        by (auto simp: wf_hyper_def)
    qed
    then show ?thesis using r sp by simp
  qed
qed

section \<open>The tree of hypergraphs\<close>

text \<open>The vertices of the two sons share out those of the father.\<close>

definition splits :: "CHypergraph \<Rightarrow> CHypergraph \<Rightarrow> CHypergraph \<Rightarrow> bool" where
  "splits P L R \<longleftrightarrow>
     (\<forall>H \<in> {L, R}. dom (sfind (mapForFather H)) = {..<nvtxs H} \<and>
        inj_on (sfind (mapForFather H)) {..<nvtxs H}) \<and>
     ran (sfind (mapForFather L)) \<union> ran (sfind (mapForFather R)) = {..<nvtxs P} \<and>
     ran (sfind (mapForFather L)) \<inter> ran (sfind (mapForFather R)) = {}"

definition leaf :: "CHypergraph \<Rightarrow> bool" where
  "leaf P \<longleftrightarrow> leftSon P = None \<and> rightSon P = None"

definition inner :: "CHypergraph list \<Rightarrow> nat \<Rightarrow> nat \<Rightarrow> nat \<Rightarrow> bool" where
  "inner hs i l r \<longleftrightarrow> leftSon (hs ! i) = Some l \<and> rightSon (hs ! i) = Some r \<and> i < l \<and> i < r \<and> l \<noteq> r \<and>
     l < length hs \<and> r < length hs \<and> fatherGraph (hs ! l) = Some i \<and> fatherGraph (hs ! r) = Some i \<and>
     splits (hs ! i) (hs ! l) (hs ! r)"

definition heap_tree :: "CHypergraph list \<Rightarrow> bool" where
  "heap_tree hs \<longleftrightarrow> hs \<noteq> [] \<and> fatherGraph (hs ! 0) = None \<and> (\<forall>i < length hs. wf_hyper (hs ! i)) \<and>
     (\<forall>i < length hs. leaf (hs ! i) \<or> (\<exists>l r. inner hs i l r))"

lemma dom_sfind: "dom (sfind m) = skeys m"
  by (auto simp: in_skeys dom_def)

lemma son_spec_splits:
  assumes "bipart_hyper G" "son_spec G 0 M1 H1" "son_spec G 1 M2 H2"
  shows "splits G H1 H2"
proof -
  have one: "dom (sfind (mapForFather H)) = {..<nvtxs H}" "inj_on (sfind (mapForFather H)) {..<nvtxs H}"
     "ran (sfind (mapForFather H)) = {v. v < nvtxs G \<and> part G ! v = k}" if s: "son_spec G k M H" for k M H
  proof -
    have inv: "inverse_maps M (mapForFather H)" and k: "skeys M = {v. v < nvtxs G \<and> part G ! v = k}"
       "skeys (mapForFather H) = {..<nvtxs H}" using s by (simp_all add: son_spec_def)
    show d: "dom (sfind (mapForFather H)) = {..<nvtxs H}" using k(2) by (simp add: dom_sfind)
    show "inj_on (sfind (mapForFather H)) {..<nvtxs H}"
    proof (rule inj_onI)
      fix i j assume a: "i \<in> {..<nvtxs H}" "sfind (mapForFather H) i = sfind (mapForFather H) j"
      then obtain v where v: "sfind (mapForFather H) i = Some v" using d by blast
      then have "sfind M v = Some i" "sfind M v = Some j" using a(2) inverse_mapsD[OF inv, of v i] inverse_mapsD[OF inv, of v j] by simp_all
      then show "i = j" by simp
    qed
    have "v \<in> ran (sfind (mapForFather H)) \<longleftrightarrow> v \<in> skeys M" for v
      using inverse_mapsD[OF inv] by (simp add: ran_def in_skeys)
    then show "ran (sfind (mapForFather H)) = {v. v < nvtxs G \<and> part G ! v = k}" using k(1) by blast
  qed
  show ?thesis
    unfolding splits_def using one[OF assms(2)] one[OF assms(3)] assms(1) by (auto simp: bipart_hyper_def)
qed

lemma splits_cong:
  "splits P L R \<Longrightarrow> nvtxs P' = nvtxs P \<Longrightarrow> nvtxs L' = nvtxs L \<Longrightarrow> nvtxs R' = nvtxs R \<Longrightarrow>
   mapForFather L' = mapForFather L \<Longrightarrow> mapForFather R' = mapForFather R \<Longrightarrow> splits P' L' R'"
  by (simp add: splits_def)

lemma splits_nvtxs:
  assumes "splits P L R"
  shows "nvtxs L + nvtxs R = nvtxs P"
proof -
  have c: "card (ran (sfind (mapForFather H))) = nvtxs H" if "H \<in> {L, R}" for H
  proof -
    have d: "dom (sfind (mapForFather H)) = {..<nvtxs H}" and i: "inj_on (sfind (mapForFather H)) {..<nvtxs H}"
      using assms that by (auto simp: splits_def)
    have "ran (sfind (mapForFather H)) = (\<lambda>i. the (sfind (mapForFather H) i)) ` {..<nvtxs H}"
      unfolding d[symmetric] by (force simp: ran_def dom_def image_iff)
    moreover have "inj_on (\<lambda>i. the (sfind (mapForFather H) i)) {..<nvtxs H}"
      using i d by (intro inj_onI) (metis domD inj_onD option.sel)
    ultimately show ?thesis by (simp add: card_image)
  qed
  have fin: "finite (ran (sfind (mapForFather H)))" for H :: CHypergraph by (simp add: finite_ran finite_dom_map_of)
  have "nvtxs P = card (ran (sfind (mapForFather L)) \<union> ran (sfind (mapForFather R)))"
    using assms by (simp add: splits_def)
  also have "\<dots> = nvtxs L + nvtxs R"
    using assms c fin by (subst card_Un_disjoint) (auto simp: splits_def)
  finally show ?thesis by simp
qed

text \<open>What a step must keep of the objects for the tree to stay as it is.\<close>

definition vshape :: "CHypergraph \<Rightarrow> nat option \<times> nat \<times> (nat, nat) smap" where
  "vshape P = (fatherGraph P, nvtxs P, mapForFather P)"

definition keeps :: "CHypergraph list \<Rightarrow> CHypergraph list \<Rightarrow> bool" where
  "keeps hs hs' \<longleftrightarrow> length hs \<le> length hs' \<and> (\<forall>j < length hs. vshape (hs' ! j) = vshape (hs ! j))"

lemma inner_keeps:
  assumes "inner hs i l r" "keeps hs hs'" "leftSon (hs' ! i) = leftSon (hs ! i)" "rightSon (hs' ! i) = rightSon (hs ! i)"
  shows "inner hs' i l r"
proof -
  have b: "i < length hs" "l < length hs" "r < length hs" using assms(1) by (auto simp: inner_def)
  have v: "fatherGraph (hs' ! j) = fatherGraph (hs ! j)" "nvtxs (hs' ! j) = nvtxs (hs ! j)"
      "mapForFather (hs' ! j) = mapForFather (hs ! j)" if "j < length hs" for j
    using assms(2) that by (auto simp: keeps_def vshape_def)
  have "splits (hs' ! i) (hs' ! l) (hs' ! r)"
    by (rule splits_cong[of "hs ! i" "hs ! l" "hs ! r"]) (use assms(1) v b in \<open>simp_all add: inner_def\<close>)
  then show ?thesis using assms v b by (simp add: inner_def keeps_def)
qed

definition core :: "CHypergraph \<Rightarrow> nat \<times> nat \<times> int list \<times> nat list \<times> nat list \<times> int list" where
  "core p = (nvtxs p, nhedges p, vwgts p, eptr p, eind p, hewgts p)"

lemma mygraph_spec_core: "core p = core q \<Longrightarrow> mygraph_spec p g = mygraph_spec q g"
  by (simp add: core_def mygraph_spec_def pins_def edge_pins_def)

definition ready :: "CHypergraph \<Rightarrow> bool" where
  "ready P \<longleftrightarrow> leaf P \<and> mapForG1 P = [] \<and> mapForG2 P = [] \<and> 9 \<le> length (inOptions P) \<and> 1 \<le> gfloor P"

definition lone :: "CHypergraph list \<Rightarrow> nat \<Rightarrow> bool" where
  "lone hs i \<longleftrightarrow> (\<exists>f l r. inner hs f l r \<and> (i = l \<or> i = r) \<and> (nvtxs (hs ! l) = 0 \<or> nvtxs (hs ! r) = 0))"

definition finished :: "CHypergraph \<Rightarrow> bool" where
  "finished P \<longleftrightarrow> leaf P \<and> (nvtxs P < END_NUM \<or> \<not> is_parted P)"

definition split_inv :: "CHypergraph \<Rightarrow> split_state \<Rightarrow> bool" where
  "split_inv p st \<longleftrightarrow> (let hs = sp_heap st; q = sp_queue st in
     heap_tree hs \<and> core (hs ! 0) = core p \<and>
     distinct q \<and> set q \<inter> set (endParts st) = {} \<and>
     (\<forall>i \<in> set q. i < length hs \<and> ready (hs ! i) \<and> (gfloor (hs ! i) = 1 \<longleftrightarrow> i = 0)) \<and>
     (\<forall>i \<in> set (endParts st). i < length hs \<and> finished (hs ! i)) \<and>
     (\<forall>i < length hs. leaf (hs ! i) \<longrightarrow> i \<in> set q \<or> i \<in> set (endParts st) \<or> lone hs i) \<and>
     (\<forall>g. sp_graph st = Some g \<longrightarrow> mygraph_spec p g) \<and>
     (sp_graph st = None \<longrightarrow> 0 \<in> set q \<or> nvtxs p < END_NUM))"

text \<open>The rounds still to come: a hypergraph with \<open>n\<close> vertices is split at most \<open>n - 1\<close> times.\<close>

definition work_of :: "nat \<Rightarrow> nat" where
  "work_of n = (if n = 0 then 1 else 2 * n - 1)"

definition work :: "split_state \<Rightarrow> nat" where
  "work st = (\<Sum>i\<leftarrow>sp_queue st. work_of (nvtxs (sp_heap st ! i)))"

lemma split_invD:
  assumes "split_inv p st"
  shows "heap_tree (sp_heap st)" "core (sp_heap st ! 0) = core p" "distinct (sp_queue st)"
    "set (sp_queue st) \<inter> set (endParts st) = {}"
    "\<And>i. i \<in> set (sp_queue st) \<Longrightarrow> i < length (sp_heap st)"
    "\<And>i. i \<in> set (sp_queue st) \<Longrightarrow> ready (sp_heap st ! i)"
    "\<And>i. i \<in> set (sp_queue st) \<Longrightarrow> gfloor (sp_heap st ! i) = 1 \<longleftrightarrow> i = 0"
    "\<And>i. i \<in> set (endParts st) \<Longrightarrow> i < length (sp_heap st) \<and> finished (sp_heap st ! i)"
    "\<And>i. i < length (sp_heap st) \<Longrightarrow> leaf (sp_heap st ! i) \<Longrightarrow> i \<in> set (sp_queue st) \<or> i \<in> set (endParts st) \<or> lone (sp_heap st) i"
    "\<And>g. sp_graph st = Some g \<Longrightarrow> mygraph_spec p g"
    "sp_graph st = None \<Longrightarrow> 0 \<in> set (sp_queue st) \<or> nvtxs p < END_NUM"
  using assms unfolding split_inv_def Let_def by blast+

lemma split_invI:
  assumes "heap_tree (sp_heap st)" "core (sp_heap st ! 0) = core p" "distinct (sp_queue st)"
    "set (sp_queue st) \<inter> set (endParts st) = {}"
    "\<And>i. i \<in> set (sp_queue st) \<Longrightarrow> i < length (sp_heap st) \<and> ready (sp_heap st ! i) \<and> (gfloor (sp_heap st ! i) = 1 \<longleftrightarrow> i = 0)"
    "\<And>i. i \<in> set (endParts st) \<Longrightarrow> i < length (sp_heap st) \<and> finished (sp_heap st ! i)"
    "\<And>i. i < length (sp_heap st) \<Longrightarrow> leaf (sp_heap st ! i) \<Longrightarrow> i \<in> set (sp_queue st) \<or> i \<in> set (endParts st) \<or> lone (sp_heap st) i"
    "\<And>g. sp_graph st = Some g \<Longrightarrow> mygraph_spec p g"
    "sp_graph st = None \<Longrightarrow> 0 \<in> set (sp_queue st) \<or> nvtxs p < END_NUM"
  shows "split_inv p st"
  using assms unfolding split_inv_def Let_def by blast

lemma lone_keeps:
  assumes "lone hs i" "keeps hs hs'" "\<And>f l r. inner hs f l r \<Longrightarrow> leftSon (hs' ! f) = leftSon (hs ! f) \<and> rightSon (hs' ! f) = rightSon (hs ! f)"
  shows "lone hs' i"
proof -
  obtain f l r where f: "inner hs f l r" "i = l \<or> i = r" "nvtxs (hs ! l) = 0 \<or> nvtxs (hs ! r) = 0"
    using assms(1) by (auto simp: lone_def)
  moreover have "nvtxs (hs' ! l) = nvtxs (hs ! l)" "nvtxs (hs' ! r) = nvtxs (hs ! r)"
    using assms(2) f(1) by (auto simp: keeps_def vshape_def inner_def)
  ultimately show ?thesis using inner_keeps[OF f(1) assms(2)] assms(3) unfolding lone_def by metis
qed

text \<open>Replacing an object by one with the same place in the tree.\<close>

definition same_place :: "CHypergraph \<Rightarrow> CHypergraph \<Rightarrow> bool" where
  "same_place P Q \<longleftrightarrow> vshape Q = vshape P \<and> leftSon Q = leftSon P \<and> rightSon Q = rightSon P"

lemma keeps_update: "i < length hs \<Longrightarrow> vshape Q = vshape (hs ! i) \<Longrightarrow> keeps hs (hs[i := Q] @ zs)"
  by (auto simp: keeps_def nth_append nth_list_update)

lemma heap_tree_update:
  assumes t: "heap_tree hs" and i: "i < length hs" and Q: "same_place (hs ! i) Q" "wf_hyper Q"
  shows "heap_tree (hs[i := Q])"
proof -
  have k: "keeps hs (hs[i := Q])" using keeps_update[OF i, of Q "[]"] Q(1) by (simp add: same_place_def)
  have sons: "leftSon (hs[i := Q] ! j) = leftSon (hs ! j)" "rightSon (hs[i := Q] ! j) = rightSon (hs ! j)" for j
    using Q(1) i by (cases "j = i"; simp add: same_place_def)+
  have "leaf (hs[i := Q] ! j) \<or> (\<exists>l r. inner (hs[i := Q]) j l r)" if "j < length hs" for j
    using t that sons inner_keeps[OF _ k sons] unfolding heap_tree_def leaf_def by metis
  moreover have "fatherGraph (hs[i := Q] ! 0) = None"
    using t Q(1) i by (cases "i = 0") (auto simp: heap_tree_def same_place_def vshape_def)
  moreover have "wf_hyper (hs[i := Q] ! j)" if "j < length hs" for j
    using t Q(2) that by (cases "i = j") (auto simp: heap_tree_def)
  ultimately show ?thesis using t by (simp add: heap_tree_def)
qed

section \<open>The steps keep the invariant\<close>

definition graph_ok :: "CHypergraph \<Rightarrow> split_state \<Rightarrow> nat \<Rightarrow> CMygraph option \<Rightarrow> bool" where
  "graph_ok p st i gr \<longleftrightarrow> (gr = sp_graph st \<or> (\<exists>g. gr = Some g \<and> mygraph_spec p g)) \<and>
     (i = 0 \<longrightarrow> gr \<noteq> None \<or> nvtxs p < END_NUM)"

lemma graph_okD:
  assumes "split_inv p st" "graph_ok p st i gr" "sp_queue st = i # q"
  shows "\<And>g. gr = Some g \<Longrightarrow> mygraph_spec p g" "gr = None \<Longrightarrow> 0 \<in> set q \<or> nvtxs p < END_NUM"
  using assms split_invD(10,11)[OF assms(1)] by (auto simp: graph_ok_def)

lemma finish_step:
  assumes inv: "split_inv p st" and q: "sp_queue st = i # q"
    and Q: "same_place (sp_heap st ! i) Q" "wf_hyper Q" "core Q = core (sp_heap st ! i)" "finished Q"
    and gr: "graph_ok p st i (sp_graph st')"
    and st': "sp_heap st' = (sp_heap st)[i := Q]" "endParts st' = endParts st @ [i]" "sp_queue st' = q"
  shows "split_inv p st'"
proof (rule split_invI)
  let ?hs = "sp_heap st" and ?hs' = "(sp_heap st)[i := Q]"
  note I = split_invD[OF inv]
  have i: "i < length ?hs" "i \<in> set (sp_queue st)" using I(5) q by simp_all
  have k: "keeps ?hs ?hs'" using keeps_update[OF i(1), of Q "[]"] Q(1) by (simp add: same_place_def)
  have sons: "leftSon (?hs' ! j) = leftSon (?hs ! j)" "rightSon (?hs' ! j) = rightSon (?hs ! j)" for j
    using Q(1) i(1) by (cases "j = i"; simp add: same_place_def)+
  show "heap_tree (sp_heap st')" unfolding st' by (rule heap_tree_update[OF I(1) i(1) Q(1,2)])
  have "core (?hs' ! 0) = core (?hs ! 0)" using Q(3) i(1) by (cases "i = 0") auto
  with I(2) show "core (sp_heap st' ! 0) = core p" unfolding st' by simp
  have dq: "distinct (i # q)" using I(3) q by simp
  fix j
  show "j < length (sp_heap st') \<and> ready (sp_heap st' ! j) \<and> (gfloor (sp_heap st' ! j) = 1 \<longleftrightarrow> j = 0)"
    if "j \<in> set (sp_queue st')"
    using I(5,6,7)[of j] q dq that st' by (cases "i = j") simp_all
  show "j < length (sp_heap st') \<and> finished (sp_heap st' ! j)" if "j \<in> set (endParts st')"
    using I(8)[of j] i(1) Q(4) that st' by (cases "i = j") auto
  show "j \<in> set (sp_queue st') \<or> j \<in> set (endParts st') \<or> lone (sp_heap st') j"
    if "j < length (sp_heap st')" "leaf (sp_heap st' ! j)"
    using I(9)[of j] that sons[of j] lone_keeps[OF _ k] sons q unfolding st' by (auto simp: leaf_def)
qed (use split_invD(3,4)[OF inv] q st' graph_okD[OF inv gr q] in auto)

text \<open>A leaf becomes an inner object with two new leaves behind the others.\<close>

lemma grow_tree:
  assumes t: "heap_tree hs" and i: "i < length hs" "leaf (hs ! i)"
    and P: "vshape P = vshape (hs ! i)" "wf_hyper P" "leftSon P = Some (length hs)" "rightSon P = Some (length hs + 1)"
    and G: "wf_hyper G1" "wf_hyper G2" "leaf G1" "leaf G2" "fatherGraph G1 = Some i" "fatherGraph G2 = Some i" "splits P G1 G2"
  shows "heap_tree (hs[i := P] @ [G1, G2])" "inner (hs[i := P] @ [G1, G2]) i (length hs) (length hs + 1)"
    "\<And>f l r. inner hs f l r \<Longrightarrow> inner (hs[i := P] @ [G1, G2]) f l r"
proof -
  let ?hs = "hs[i := P] @ [G1, G2]"
  have k: "keeps hs ?hs" by (rule keeps_update[OF i(1) P(1)])
  have nth: "?hs ! i = P" "?hs ! length hs = G1" "?hs ! (length hs + 1) = G2" using i(1) by (simp_all add: nth_append)
  have old: "?hs ! j = hs ! j" if "j < length hs" "j \<noteq> i" for j using that by (simp add: nth_append)
  show new: "inner ?hs i (length hs) (length hs + 1)"
    using P(3,4) G i(1) unfolding inner_def nth by simp
  show mono: "inner ?hs f l r" if "inner hs f l r" for f l r
  proof -
    have "f \<noteq> i" using that i(2) by (auto simp: inner_def leaf_def)
    moreover have "f < length hs" using that by (auto simp: inner_def)
    ultimately show ?thesis using inner_keeps[OF that k] old by simp
  qed
  have "leaf (?hs ! j) \<or> (\<exists>l r. inner ?hs j l r)" if jl: "j < length ?hs" for j
  proof -
    consider "j = i" | "j < length hs" "j \<noteq> i" | "j = length hs" | "j = length hs + 1" using jl by force
    then show ?thesis
    proof cases
      case 2
      then show ?thesis using t mono old[of j] unfolding heap_tree_def by metis
    qed (use new nth G(3,4) in \<open>auto simp del: nth_append_length\<close>)
  qed
  moreover have "wf_hyper (?hs ! j)" if jl: "j < length ?hs" for j
  proof -
    consider "j = i" | "j < length hs" "j \<noteq> i" | "j = length hs" | "j = length hs + 1" using jl by force
    then show ?thesis by cases (use nth old t P(2) G(1,2) in \<open>auto simp: heap_tree_def\<close>)
  qed
  moreover have "fatherGraph (?hs ! 0) = None"
  proof -
    have "vshape (?hs ! 0) = vshape (hs ! 0)" using k i(1) unfolding keeps_def by (metis gr_implies_not0 length_greater_0_conv list.size(3))
    then show ?thesis using t by (simp add: vshape_def heap_tree_def)
  qed
  ultimately show "heap_tree ?hs" by (simp add: heap_tree_def)
qed

text \<open>The leaves after that: the old ones but the one that grew, and the two new ones.\<close>

lemma grow_leaves:
  assumes t: "heap_tree hs" and i: "i < length hs" "leaf (hs ! i)"
    and P: "vshape P = vshape (hs ! i)" "wf_hyper P" "leftSon P = Some (length hs)" "rightSon P = Some (length hs + 1)"
    and G: "wf_hyper G1" "wf_hyper G2" "leaf G1" "leaf G2" "fatherGraph G1 = Some i" "fatherGraph G2 = Some i" "splits P G1 G2"
  shows "j < length (hs[i := P] @ [G1, G2]) \<Longrightarrow> leaf ((hs[i := P] @ [G1, G2]) ! j) \<Longrightarrow>
      j < length hs \<and> j \<noteq> i \<and> leaf (hs ! j) \<or> j = length hs \<or> j = length hs + 1"
    "lone hs j \<Longrightarrow> lone (hs[i := P] @ [G1, G2]) j"
    "nvtxs G1 = 0 \<or> nvtxs G2 = 0 \<Longrightarrow> lone (hs[i := P] @ [G1, G2]) (length hs)"
    "nvtxs G1 = 0 \<or> nvtxs G2 = 0 \<Longrightarrow> lone (hs[i := P] @ [G1, G2]) (length hs + 1)"
proof -
  let ?hs = "hs[i := P] @ [G1, G2]"
  have nth: "?hs ! i = P" "?hs ! length hs = G1" "?hs ! (length hs + 1) = G2" using i(1) by (simp_all add: nth_append)
  have old: "?hs ! j = hs ! j" if "j < length hs" "j \<noteq> i" for j using that by (simp add: nth_append)
  show "j < length hs \<and> j \<noteq> i \<and> leaf (hs ! j) \<or> j = length hs \<or> j = length hs + 1" if "j < length ?hs" "leaf (?hs ! j)"
  proof (cases "j < length hs")
    case True
    moreover have "j \<noteq> i" using that(2) nth(1) P(3) by (auto simp: leaf_def)
    ultimately show ?thesis using that(2) old[of j] by simp
  qed (use that(1) in auto)
  show "lone ?hs j" if "lone hs j"
  proof (rule lone_keeps[OF that keeps_update[OF i(1) P(1)]])
    fix f l r assume f: "inner hs f l r"
    then have "f \<noteq> i" "f < length hs" using i(2) by (auto simp: inner_def leaf_def)
    then show "leftSon (?hs ! f) = leftSon (hs ! f) \<and> rightSon (?hs ! f) = rightSon (hs ! f)" using old by simp
  qed
  note new = grow_tree(2)[OF t i P G]
  show "lone ?hs (length hs)" "lone ?hs (length hs + 1)" if "nvtxs G1 = 0 \<or> nvtxs G2 = 0"
    using that new nth unfolding lone_def by metis+
qed

lemma sons_step:
  assumes inv: "split_inv p st" and q: "sp_queue st = i # q"
    and P: "vshape P = vshape (sp_heap st ! i)" "wf_hyper P" "core P = core (sp_heap st ! i)"
      "leftSon P = Some (length (sp_heap st))" "rightSon P = Some (length (sp_heap st) + 1)"
    and G: "wf_hyper G1" "wf_hyper G2" "leaf G1" "leaf G2" "fatherGraph G1 = Some i" "fatherGraph G2 = Some i" "splits P G1 G2"
    and gr: "graph_ok p st i (sp_graph st')"
    and st': "sp_heap st' = (sp_heap st)[i := P] @ [G1, G2]" "endParts st' = endParts st"
    and new: "sp_queue st' = q @ [length (sp_heap st), length (sp_heap st) + 1] \<and> ready G1 \<and> ready G2 \<and>
        gfloor G1 \<noteq> 1 \<and> gfloor G2 \<noteq> 1 \<or> sp_queue st' = q \<and> (nvtxs G1 = 0 \<or> nvtxs G2 = 0)"
  shows "split_inv p st'"
proof (rule split_invI)
  let ?hs = "sp_heap st" and ?hs' = "sp_heap st'"
  note I = split_invD[OF inv]
  have i: "i < length ?hs" "i \<in> set (sp_queue st)" "leaf (?hs ! i)" using I(5,6) q by (simp_all add: ready_def)
  note T = grow_tree[OF I(1) i(1,3) P(1,2,4,5) G, folded st'] and L = grow_leaves[OF I(1) i(1,3) P(1,2,4,5) G, folded st']
  have nth: "?hs' ! i = P" "?hs' ! length ?hs = G1" "?hs' ! (length ?hs + 1) = G2" "length ?hs' = length ?hs + 2"
    using i(1) by (simp_all add: st' nth_append)
  have old: "?hs' ! j = ?hs ! j" if "j < length ?hs" "j \<noteq> i" for j using that by (simp add: st' nth_append)
  have dq: "distinct (i # q)" using I(3) q by simp
  have qb: "j < length ?hs \<and> j \<noteq> i \<and> j \<in> set (sp_queue st)" if "j \<in> set q" for j using I(5) q dq that by auto
  have eb: "j < length ?hs \<and> j \<noteq> i" if "j \<in> set (endParts st)" for j using I(4,8) i(2) that by blast
  show "heap_tree ?hs'" by (rule T(1))
  have "core (?hs' ! 0) = core (?hs ! 0)"
    using P(3) old[of 0] nth(1) i(1) by (cases "i = 0") (auto simp: st' nth_append)
  with I(2) show "core (?hs' ! 0) = core p" by simp
  have fr: "length ?hs \<notin> set q" "length ?hs + 1 \<notin> set q" "length ?hs \<notin> set (endParts st)" "length ?hs + 1 \<notin> set (endParts st)"
    using qb[of "length ?hs"] qb[of "length ?hs + 1"] eb[of "length ?hs"] eb[of "length ?hs + 1"] by auto
  have "set q \<inter> set (endParts st) = {}" using I(4) q by auto
  then show "set (sp_queue st') \<inter> set (endParts st') = {}" using new fr st'(2) by (elim disjE conjE) simp_all
  show "distinct (sp_queue st')" using new dq fr by (elim disjE conjE) simp_all
  fix j
  show "j < length ?hs' \<and> ready (?hs' ! j) \<and> (gfloor (?hs' ! j) = 1 \<longleftrightarrow> j = 0)" if j: "j \<in> set (sp_queue st')"
  proof -
    consider "j \<in> set q" | "j = length ?hs \<or> j = length ?hs + 1" "ready G1 \<and> ready G2 \<and> gfloor G1 \<noteq> 1 \<and> gfloor G2 \<noteq> 1"
      using j new by auto
    then show ?thesis
    proof cases
      case 1
      then show ?thesis using qb[OF 1] old[of j] I(6,7)[of j] nth(4) by auto
    next
      case 2
      then show ?thesis using nth i(1) by auto
    qed
  qed
  show "j < length ?hs' \<and> finished (?hs' ! j)" if "j \<in> set (endParts st')"
    using I(8)[of j] eb[of j] that st'(2) old[of j] nth(4) by auto
  show "j \<in> set (sp_queue st') \<or> j \<in> set (endParts st') \<or> lone ?hs' j" if j: "j < length ?hs'" "leaf (?hs' ! j)"
    using L(1)[OF j]
  proof (elim disjE conjE)
    assume "j < length ?hs" "j \<noteq> i" "leaf (?hs ! j)"
    then show ?thesis using I(9)[of j] L(2)[of j] q new st'(2) by auto
  qed (use new L(3,4) in auto)
qed (use graph_okD[OF inv gr q] new in auto)

lemma work_keeps:
  assumes "keeps hs hs'" "\<forall>i \<in> set q. i < length hs"
  shows "(\<Sum>i\<leftarrow>q. work_of (nvtxs (hs' ! i))) = (\<Sum>i\<leftarrow>q. work_of (nvtxs (hs ! i)))"
  using assms by (intro arg_cong[where f = sum_list] map_cong) (auto simp: keeps_def vshape_def)

text \<open>A hypergraph that is not divided further leaves the queue, and there is less work.\<close>

lemma finish_round:
  assumes inv: "split_inv p st" and q: "sp_queue st = i # q"
    and Q: "same_place (sp_heap st ! i) Q" "wf_hyper Q" "core Q = core (sp_heap st ! i)" "finished Q"
    and gr: "graph_ok p st i (sp_graph st')"
    and st': "sp_heap st' = (sp_heap st)[i := Q]" "endParts st' = endParts st @ [i]" "sp_queue st' = q"
  shows "split_inv p st' \<and> work st' < work st"
proof -
  have i: "i < length (sp_heap st)" "\<forall>j \<in> set q. j < length (sp_heap st)" using split_invD(5)[OF inv] q by auto
  have "keeps (sp_heap st) (sp_heap st')" using keeps_update[OF i(1), of Q "[]"] Q(1) by (simp add: same_place_def st'(1))
  from work_keeps[OF this i(2)] have "work st' < work st" by (simp add: work_def q st'(3) work_of_def)
  with finish_step[OF inv q Q gr st'] show ?thesis by blast
qed

text \<open>A son as \<open>createSubGraph\<close> makes it, before its floor is set.\<close>

definition fresh_son :: "nat \<Rightarrow> CHypergraph \<Rightarrow> bool" where
  "fresh_son i H \<longleftrightarrow> wf_hyper H \<and> leaf H \<and> fatherGraph H = Some i \<and> length (inOptions H) = 9 \<and> mapForG1 H = [] \<and> mapForG2 H = []"

text \<open>With two sons in the place of their father the invariant holds, and there is less work to do.\<close>

lemma sons_added:
  assumes inv: "split_inv p st" and q: "sp_queue st = i # q"
    and Q: "vshape Q = vshape (sp_heap st ! i)" "wf_hyper Q" "core Q = core (sp_heap st ! i)"
      "leftSon Q = Some (length (sp_heap st))" "rightSon Q = Some (length (sp_heap st) + 1)"
    and H: "fresh_son i H1" "fresh_son i H2" "splits Q H1 H2" and F: "F1 = H1\<lparr>gfloor := f1\<rparr>" "F2 = H2\<lparr>gfloor := f2\<rparr>"
    and st': "sp_heap st' = (sp_heap st)[i := Q] @ [F1, F2]" "endParts st' = endParts st" "graph_ok p st i (sp_graph st')"
    and new: "sp_queue st' = q @ [length (sp_heap st), length (sp_heap st) + 1] \<and> 1 < f1 \<and> 1 < f2 \<and> nvtxs H1 \<noteq> 0 \<and> nvtxs H2 \<noteq> 0
        \<or> sp_queue st' = q \<and> (nvtxs H1 = 0 \<or> nvtxs H2 = 0)"
  shows "split_inv p st' \<and> work st' < work st"
proof -
  have i: "i < length (sp_heap st)" "\<forall>j \<in> set q. j < length (sp_heap st)" using split_invD(5)[OF inv] q by auto
  have Fs: "splits Q F1 F2" using splits_cong[OF H(3), of Q F1 F2] F by simp
  have Fw: "wf_hyper F1" "wf_hyper F2" using H(1,2) F by (simp_all add: fresh_son_def wf_hyper_def edge_pins_def)
  have "split_inv p st'"
  proof (rule sons_step[OF inv q Q Fw _ _ _ _ Fs st'(3,1,2)])
    show "sp_queue st' = q @ [length (sp_heap st), length (sp_heap st) + 1] \<and> ready F1 \<and> ready F2 \<and>
      gfloor F1 \<noteq> 1 \<and> gfloor F2 \<noteq> 1 \<or> sp_queue st' = q \<and> (nvtxs F1 = 0 \<or> nvtxs F2 = 0)"
      using new F H(1,2) by (auto simp: ready_def leaf_def fresh_son_def)
  qed (use H(1,2) F in \<open>simp_all add: fresh_son_def leaf_def\<close>)
  moreover have "work st' < work st"
  proof -
    have kp: "keeps (sp_heap st) (sp_heap st')" unfolding st' by (rule keeps_update[OF i(1) Q(1)])
    have "sp_heap st' ! length (sp_heap st) = F1" "sp_heap st' ! (length (sp_heap st) + 1) = F2" by (simp_all add: st' nth_append)
    moreover have "nvtxs H1 + nvtxs H2 = nvtxs (sp_heap st ! i)" using splits_nvtxs[OF H(3)] Q(1) by (simp add: vshape_def)
    ultimately show ?thesis using new work_keeps[OF kp i(2)] q F by (auto simp: work_def work_of_def)
  qed
  ultimately show ?thesis ..
qed

context bipartitioner
begin

lemma bip_facts:
  assumes "wf_hyper P" "ready P"
  shows "ok (bip u (P\<lparr>Modu := 0\<rparr>)) (\<lambda>(Q, g). mygraph_spec P g \<and> wf_hyper Q \<and> same_place P Q \<and> core Q = core P \<and>
     gfloor Q = gfloor P \<and> (is_parted Q \<longrightarrow> sub_ready Q))"
proof (rule ok_mono[OF bip_ok, of "P\<lparr>Modu := 0\<rparr>" u])
  show "wf_hyper (P\<lparr>Modu := 0\<rparr>)" using assms(1)
    by (simp add: wf_hyper_def edge_pins_def)
  fix x assume "case x of (q, g) \<Rightarrow> mygraph_spec (P\<lparr>Modu := 0\<rparr>) g \<and> wf_hyper q \<and>
     q = P\<lparr>Modu := 0\<rparr>\<lparr>is_parted := is_parted q, Modu := Modu q, part := part q\<rparr> \<and> (is_parted q \<longrightarrow> bipart_hyper q)"
  then obtain q g where x: "x = (q, g)" "mygraph_spec (P\<lparr>Modu := 0\<rparr>) g" "wf_hyper q"
     "q = P\<lparr>is_parted := is_parted q, Modu := Modu q, part := part q\<rparr>" "is_parted q \<longrightarrow> bipart_hyper q"
    by (cases x) simp
  have "mygraph_spec P g" using x(2) mygraph_spec_core[of "P\<lparr>Modu := 0\<rparr>" P] by (simp add: core_def)
  moreover have "same_place P q" "core q = core P" "gfloor q = gfloor P" "mapForG1 q = mapForG1 P"
     "mapForG2 q = mapForG2 P" "inOptions q = inOptions P"
    by (subst x(4), simp add: same_place_def vshape_def core_def)+
  ultimately show "case x of (Q, g) \<Rightarrow> mygraph_spec P g \<and> wf_hyper Q \<and> same_place P Q \<and> core Q = core P \<and>
     gfloor Q = gfloor P \<and> (is_parted Q \<longrightarrow> sub_ready Q)"
    using x(1,3,5) assms(2) by (simp add: sub_ready_def ready_def)
qed

lemma add_sons_ok:
  assumes inv: "split_inv p st" and q: "sp_queue st = i # q"
    and P: "same_place (sp_heap st ! i) P" "wf_hyper P" "core P = core (sp_heap st ! i)" "gfloor P = gfloor (sp_heap st ! i)"
      "sub_ready P"
    and gr: "graph_ok p st i gr" and st1: "st1 = st\<lparr>sp_heap := (sp_heap st)[i := P], sp_graph := gr, sp_rounds := n\<rparr>"
  shows "ok (add_sons r i P st1) (\<lambda>st'. sp_queue st' \<noteq> [] \<and> split_inv p (st'\<lparr>sp_queue := tl (sp_queue st')\<rparr>) \<and>
     work (st'\<lparr>sp_queue := tl (sp_queue st')\<rparr>) < work st)"
proof -
  note I = split_invD[OF inv]
  have i: "i < length (sp_heap st)" "ready (sp_heap st ! i)" "\<forall>j \<in> set q. j < length (sp_heap st)" using I(5,6) q by auto
  let ?G1 = "CHypergraph_init (rm_obj1 r)" and ?G2 = "CHypergraph_init (rm_obj2 r)"
  have init: "mapForFather ?G1 = []" "mapForFather ?G2 = []" by (simp_all add: CHypergraph_init_def)
  obtain P' H1 H2 where c: "createSubGraph (rm_sons r) i P ?G1 ?G2 = Inr (P', H1, H2)"
      "P' = P\<lparr>mapForG1 := mapForG1 P', mapForG2 := mapForG2 P'\<rparr>"
      "son_spec P 0 (mapForG1 P') H1" "son_spec P 1 (mapForG2 P') H2"
      "fatherGraph H1 = Some i" "fatherGraph H2 = Some i" "length (inOptions H1) = 9" "length (inOptions H2) = 9"
      "mapForG1 H1 = []" "mapForG2 H1 = []" "leaf H1" "mapForG1 H2 = []" "mapForG2 H2 = []" "leaf H2"
    using createSubGraph_ok[OF P(5) init, of "rm_sons r" i] P(5)
    by (auto simp: ok_iff CHypergraph_init_def leaf_def sub_ready_def)
  let ?l = "length (sp_heap st)"
  define Q where "Q = P'\<lparr>leftSon := Some ?l, rightSon := Some (?l + 1)\<rparr>"
  have Q_eq: "Q = P\<lparr>mapForG1 := mapForG1 P', mapForG2 := mapForG2 P', leftSon := Some ?l, rightSon := Some (?l + 1)\<rparr>"
    using c(2) by (simp add: Q_def)
  have Q: "vshape Q = vshape (sp_heap st ! i)" "wf_hyper Q" "core Q = core (sp_heap st ! i)" "leftSon Q = Some ?l" "rightSon Q = Some (?l + 1)"
    using P(1-3) by (simp_all add: Q_eq vshape_def core_def same_place_def wf_hyper_def edge_pins_def)
  have H: "fresh_son i H1" "fresh_son i H2" using c by (simp_all add: fresh_son_def son_spec_def)
  have "splits P H1 H2" using c(3,4) P(5) by (intro son_spec_splits) (auto simp: sub_ready_def)
  then have sp: "splits Q H1 H2" using splits_cong[of P H1 H2 Q H1 H2] by (simp add: Q_eq)
  have fl: "1 < gfloor Q + 1" using P(4) i(2) by (simp add: Q_eq ready_def)
  note step = sons_added[OF inv q Q H sp]
  show ?thesis
  proof (cases "nvtxs H1 \<noteq> 0 \<and> nvtxs H2 \<noteq> 0")
    case True
    let ?st = "st1\<lparr>sp_heap := (sp_heap st)[i := Q] @ [H1\<lparr>gfloor := gfloor Q + 1\<rparr>, H2\<lparr>gfloor := gfloor Q + 1\<rparr>], sp_queue := i # q @ [?l, ?l + 1]\<rparr>"
    have "add_sons r i P st1 = Inr ?st" using True c(1) q by (simp add: add_sons_def Let_def st1 Q_def)
    moreover have "split_inv p (?st\<lparr>sp_queue := tl (sp_queue ?st)\<rparr>) \<and> work (?st\<lparr>sp_queue := tl (sp_queue ?st)\<rparr>) < work st"
      by (rule step[OF refl refl]) (use True fl st1 gr in auto)
    ultimately show ?thesis by simp
  next
    case False
    let ?st = "st1\<lparr>sp_heap := (sp_heap st)[i := Q] @ [H1, H2]\<rparr>"
    have "add_sons r i P st1 = Inr ?st" by (simp only: add_sons_def Let_def c(1) sbind_Inr prod.case if_not_P[OF False]) (simp add: st1 Q_def)
    moreover have "split_inv p (?st\<lparr>sp_queue := tl (sp_queue ?st)\<rparr>) \<and> work (?st\<lparr>sp_queue := tl (sp_queue ?st)\<rparr>) < work st"
      by (rule step[of H1 "gfloor H1" H2 "gfloor H2"]) (use False st1 q gr in auto)
    ultimately show ?thesis using st1 q by simp
  qed
qed

lemma split_round_ok:
  assumes inv: "split_inv p st" and ne: "sp_queue st \<noteq> []"
  shows "ok (split_round bip mem st) (\<lambda>st'. split_inv p st' \<and> work st' < work st)"
proof -
  obtain i q where q: "sp_queue st = i # q" using ne by (cases "sp_queue st") auto
  note I = split_invD[OF inv]
  let ?P = "sp_heap st ! i" and ?r = "mem (sp_rounds st)"
  have i: "i < length (sp_heap st)" "ready ?P" "\<forall>j \<in> set q. j < length (sp_heap st)" "gfloor ?P = 1 \<longleftrightarrow> i = 0"
    using I(5,6,7) q by auto
  have wf: "wf_hyper ?P" using I(1) i(1) by (simp add: heap_tree_def)
  note fin = finish_round[OF inv q]
  show ?thesis
  proof (cases "END_NUM - 1 < nvtxs ?P")
    case False
    have "nvtxs ?P = nvtxs p" if "i = 0" using that I(2) by (simp add: core_def)
    then have gr: "graph_ok p st i (sp_graph st)" using False by (auto simp: graph_ok_def END_NUM_def)
    have "finished ?P" using False i(2) by (auto simp: finished_def ready_def END_NUM_def)
    then have "split_inv p (st\<lparr>sp_rounds := sp_rounds st + 1, endParts := endParts st @ [i], sp_queue := q\<rparr>) \<and>
        work (st\<lparr>sp_rounds := sp_rounds st + 1, endParts := endParts st @ [i], sp_queue := q\<rparr>) < work st"
      using wf gr by (intro fin[where Q = ?P]) (simp_all add: same_place_def)
    then show ?thesis using False i(1) by (simp add: split_round_def q Let_def)
  next
    case True
    obtain Q g where b: "bip (rm_u ?r) (?P\<lparr>Modu := 0\<rparr>) = Inr (Q, g)" "mygraph_spec ?P g" "wf_hyper Q" "same_place ?P Q"
        "core Q = core ?P" "gfloor Q = gfloor ?P" "is_parted Q \<longrightarrow> sub_ready Q"
      using bip_facts[OF wf i(2), of "rm_u ?r"] by (auto simp: ok_iff)
    let ?gr = "if gfloor Q = 1 then Some g else sp_graph st"
    have "mygraph_spec p g" if "i = 0" using that b(2) I(2) mygraph_spec_core by blast
    then have gr: "graph_ok p st i ?gr" using i(4) b(6) by (auto simp: graph_ok_def)
    define st1 where "st1 = st\<lparr>sp_heap := (sp_heap st)[i := Q], sp_graph := ?gr, sp_rounds := sp_rounds st + 1\<rparr>"
    have st1_alt: "st\<lparr>sp_rounds := sp_rounds st + 1, sp_heap := (sp_heap st)[i := Q], sp_graph := ?gr\<rparr> = st1"
      by (simp add: st1_def)
    have eq: "split_round bip mem st = sbind (if is_parted Q then add_sons ?r i Q st1
         else Inr (st1\<lparr>endParts := endParts st1 @ [i]\<rparr>)) (\<lambda>st. Inr (st\<lparr>sp_queue := tl (sp_queue st)\<rparr>))"
      using True i(1) b(1) by (simp add: split_round_def q Let_def st1_alt[symmetric])
    show ?thesis
    proof (cases "is_parted Q")
      case P: True
      from add_sons_ok[OF inv q b(4,3,5,6) _ gr st1_def, of ?r] P b(7)
      show ?thesis unfolding eq by (auto elim!: ok_mono)
    next
      case NP: False
      have "finished Q" using NP b(4) i(2) by (simp add: finished_def ready_def leaf_def same_place_def)
      then show ?thesis
        unfolding eq using NP b(3,4,5) gr q by (simp, intro fin[where Q = Q]) (simp_all add: st1_def)
    qed
  qed
qed

lemma split_loop_ok:
  assumes "split_inv p st" "work st < fuel"
  shows "ok (split_loop fuel bip mem st) (\<lambda>st'. split_inv p st' \<and> sp_queue st' = [])"
  using assms
proof (induction fuel arbitrary: st)
  case (Suc fuel)
  show ?case
  proof (cases "sp_queue st = []")
    case False
    obtain st' where s: "split_round bip mem st = Inr st'" "split_inv p st'" "work st' < work st"
      using split_round_ok[OF Suc.prems(1) False, of mem] by (auto simp: ok_iff)
    then have "ok (split_loop fuel bip mem st') (\<lambda>st'. split_inv p st' \<and> sp_queue st' = [])"
      using Suc.prems(2) by (intro Suc.IH) auto
    with False s(1) show ?thesis by simp
  qed (use Suc.prems(1) in simp)
qed simp

end

section \<open>The whole loop\<close>

text \<open>A root as \<open>createHypergraph\<close> makes it.\<close>

definition fresh_root :: "CHypergraph \<Rightarrow> bool" where
  "fresh_root p \<longleftrightarrow> wf_hyper p \<and> leaf p \<and> fatherGraph p = None \<and> mapForG1 p = [] \<and> mapForG2 p = [] \<and>
     9 \<le> length (inOptions p)"

lemma split_start_inv:
  assumes "fresh_root p"
  shows "split_inv p (split_start p)" "work (split_start p) < 2 * nvtxs p + 2"
proof -
  let ?p = "p\<lparr>gfloor := 1, coupling := 0, cohesion := 1, trueNvtxs := nvtxs p, Modu := 0\<rparr>"
  have "wf_hyper ?p" "leaf ?p" "fatherGraph ?p = None" "core ?p = core p" "ready ?p"
    using assms by (auto simp: fresh_root_def wf_hyper_def edge_pins_def leaf_def core_def ready_def)
  then show "split_inv p (split_start p)"
    by (intro split_invI) (auto simp: split_start_def heap_tree_def)
  show "work (split_start p) < 2 * nvtxs p + 2" by (auto simp: work_def split_start_def work_of_def)
qed

lemma splitAll_ok:
  assumes "fresh_root p"
  shows "ok (splitAll mem p) (\<lambda>st. split_inv p st \<and> sp_queue st = [])"
  unfolding splitAll_def by (rule mp.split_loop_ok[OF split_start_inv[OF assms]])

text \<open>
  C9. The splitting loop of \<open>doHmetis\<close> ends for every root, whatever the random numbers and the
  fresh memory, after at most \<open>2 * nvtxs + 1\<close> rounds. Its result is a tree of well-formed
  hypergraphs whose sons share out the vertices of their father; a leaf has fewer than
  \<open>END_NUM\<close> vertices, or the partitioner found no partition of it, or it is one of two sons of
  which one is empty. The adjacency graph kept for \<open>mergeParts\<close> is that of the root, and it is
  set if the root has at least \<open>END_NUM\<close> vertices.
\<close>

theorem splitAll_correct:
  assumes "fresh_root p"
  shows "\<exists>st. splitAll mem p = Inr st \<and> sp_queue st = [] \<and> heap_tree (sp_heap st) \<and>
     nvtxs (sp_heap st ! 0) = nvtxs p \<and>
     (\<forall>i < length (sp_heap st). leaf (sp_heap st ! i) \<longrightarrow>
        nvtxs (sp_heap st ! i) < END_NUM \<or> \<not> is_parted (sp_heap st ! i) \<or> lone (sp_heap st) i) \<and>
     (END_NUM \<le> nvtxs p \<longrightarrow> (\<exists>g. sp_graph st = Some g \<and> mygraph_spec p g))"
proof -
  obtain st where st: "splitAll mem p = Inr st" "split_inv p st" "sp_queue st = []"
    using splitAll_ok[OF assms, of mem] by (auto simp: ok_iff)
  note I = split_invD[OF st(2)]
  have "nvtxs (sp_heap st ! 0) = nvtxs p" using I(2) by (simp add: core_def)
  moreover have "\<forall>i < length (sp_heap st). leaf (sp_heap st ! i) \<longrightarrow>
        nvtxs (sp_heap st ! i) < END_NUM \<or> \<not> is_parted (sp_heap st ! i) \<or> lone (sp_heap st) i"
    using I(8,9) st(3) by (fastforce simp: finished_def)
  moreover have "END_NUM \<le> nvtxs p \<longrightarrow> (\<exists>g. sp_graph st = Some g \<and> mygraph_spec p g)"
    using I(10,11) st(3) by (cases "sp_graph st") auto
  ultimately show ?thesis using st I(1) by blast
qed

definition sample_rounds :: "nat \<Rightarrow> round_mem" where
  "sample_rounds = (\<lambda>_. \<lparr>rm_u = sample_unknowns, rm_obj1 = sample_hyper, rm_obj2 = sample_hyper,
     rm_sons = (sample_son_mem, sample_son_mem)\<rparr>)"

lemma sample_root: "fresh_root sample_hyper"
  using wf_sample by (simp add: fresh_root_def leaf_def sample_hyper_def)

theorem splitAll_correct_witness:
  "fresh_root sample_hyper \<and> (\<exists>st. splitAll sample_rounds sample_hyper = Inr st \<and> sp_queue st = [] \<and>
     heap_tree (sp_heap st) \<and> length (sp_heap st) = 3)"
proof -
  have "sbind (splitAll sample_rounds sample_hyper) (\<lambda>st. Inr (length (sp_heap st))) = Inr 3" by code_simp
  with splitAll_correct[OF sample_root, of sample_rounds] sample_root show ?thesis by auto
qed

end
