(* ===== verification/Parts.thy ===== *)
theory Parts
  imports Splitting
begin

text \<open>
  From the tree of hypergraphs to the final parts: \<open>dfsForWriteParts\<close> numbers the leaves and
  writes their numbers into the root's \<open>part\<close> array, \<open>mergeParts\<close> then merges parts that share
  more than one hyperedge, and \<open>doWriting\<close> renumbers what is left
  (\<open>src/CArchitecture/TestCase.cpp\<close>).
\<close>

section \<open>The code\<close>

subsection \<open>Numbering the leaves\<close>

text \<open>\<open>while(cur_Graph->fatherGraph!=NULL)\<close>: the way from a vertex of a leaf to the root's.\<close>

fun climb_up :: "nat \<Rightarrow> CHypergraph list \<Rightarrow> nat \<Rightarrow> nat \<Rightarrow> error + nat" where
  "climb_up 0 hs cur_Graph nd = Inl OutOfFuel"
| "climb_up (Suc fuel) hs cur_Graph nd =
     sbind (aget hs cur_Graph) (\<lambda>P. case fatherGraph P of
       None \<Rightarrow> Inr nd
     | Some f \<Rightarrow> (case sfind (mapForFather P) nd of
         None \<Rightarrow> Inl BadIndex
       | Some n \<Rightarrow> climb_up fuel hs f n))"

definition write_leaf :: "CHypergraph list \<Rightarrow> nat \<Rightarrow> nat \<Rightarrow> int list \<Rightarrow> error + int list" where
  "write_leaf hs G parts prt = sbind (aget hs G) (\<lambda>P.
     mfold (\<lambda>prt i. sbind (climb_up (length hs) hs G i) (\<lambda>nd. aset prt nd (int parts))) prt [0..<nvtxs P])"

fun dfsForWriteParts :: "nat \<Rightarrow> CHypergraph list \<Rightarrow> nat option \<Rightarrow> nat \<Rightarrow> int list \<Rightarrow> error + nat \<times> int list" where
  "dfsForWriteParts 0 hs G parts prt = Inl OutOfFuel"
| "dfsForWriteParts (Suc fuel) hs None parts prt = Inr (0, prt)"
| "dfsForWriteParts (Suc fuel) hs (Some G) parts prt =
     sbind (aget hs G) (\<lambda>P.
       if leftSon P = None \<and> rightSon P = None then
         sbind (write_leaf hs G parts prt) (\<lambda>prt. Inr (1, prt))
       else
         sbind (dfsForWriteParts fuel hs (leftSon P) parts prt) (\<lambda>(c, prt).
         sbind (dfsForWriteParts fuel hs (rightSon P) (parts + c) prt) (\<lambda>(d, prt). Inr (c + d, prt))))"

subsection \<open>Merging parts\<close>

text \<open>\<open>while(1)\<close> with \<open>mapForLastPart\<close>: the part that a part was merged into, in the end.\<close>

fun resolve :: "nat \<Rightarrow> (int, int) smap \<Rightarrow> int \<Rightarrow> error + int" where
  "resolve 0 M w = Inl OutOfFuel"
| "resolve (Suc fuel) M w = (case sfind M w of Some w' \<Rightarrow> resolve fuel M w' | None \<Rightarrow> Inr w)"

definition whichpart :: "(int, int) smap \<Rightarrow> int \<Rightarrow> error + int" where
  "whichpart M w = resolve (length M + 1) M w"

definition bump :: "int \<Rightarrow> int list list \<Rightarrow> int \<Rightarrow> error + int list list" where
  "bump w E u =
     (let mn = (if u > w then w else u); mx = (if u > w then u else w) in
      sbind (agetI E mn) (\<lambda>row. sbind (agetI row mx) (\<lambda>c.
      sbind (asetI row mx (c + 1)) (\<lambda>row. asetI E mn row))))"

definition count_pin :: "(int, int) smap \<Rightarrow> int list \<Rightarrow> int list list \<times> (int, bool) smap \<times> int list \<Rightarrow> nat \<Rightarrow>
    error + int list list \<times> (int, bool) smap \<times> int list" where
  "count_pin M prt = (\<lambda>(E, PartExit, vectorForParts) v.
     sbind (aget prt v) (\<lambda>x. sbind (whichpart M x) (\<lambda>w.
       if sfind PartExit w = None then
         sbind (mfold (bump w) E vectorForParts) (\<lambda>E.
           Inr (E, sinsert w True PartExit, vectorForParts @ [w]))
       else Inr (E, PartExit, vectorForParts))))"

definition count_edges :: "CMygraph \<Rightarrow> (int, int) smap \<Rightarrow> int list \<Rightarrow> nat \<Rightarrow> error + int list list" where
  "count_edges g M prt partnum =
     mfold (\<lambda>E i. sbind (aget (pAllEdges g) i) (\<lambda>en.
       sbind (mfold (count_pin M prt) (E, [], []) (e_firstarc en)) (\<lambda>(E, _). Inr E)))
       (replicate partnum (replicate partnum 0)) [0..<g_nhedges g]"

definition part_pairs :: "nat \<Rightarrow> (nat \<times> nat) list" where
  "part_pairs partnum = concat (map (\<lambda>i. map (Pair i) [i + 1..<partnum]) [0..<partnum])"

text \<open>The search for the largest entry above the diagonal that passes a test, from \<open>-1\<close> on.\<close>

definition max_entry :: "int list list \<Rightarrow> (nat \<Rightarrow> nat \<Rightarrow> bool) \<Rightarrow> nat \<Rightarrow> error + int \<times> nat \<times> nat" where
  "max_entry E test partnum = mfold (\<lambda>(mx, m, n) (i, j).
     sbind (aget E i) (\<lambda>row. sbind (aget row j) (\<lambda>c.
       Inr (if c > mx \<and> test i j then (c, i, j) else (mx, m, n)))))
     (- 1, 0, 0) (part_pairs partnum)"

text \<open>One round of the outer loop; \<open>None\<close> is its \<open>break\<close>.\<close>

definition merge_round :: "CMygraph \<Rightarrow> int list \<Rightarrow> nat \<Rightarrow> (int, int) smap \<Rightarrow> error + (int, int) smap option" where
  "merge_round g prt partnum M =
     sbind (count_edges g M prt partnum) (\<lambda>E.
     sbind (max_entry E (\<lambda>_ _. True) partnum) (\<lambda>(maxCutEdge, m, n).
       if maxCutEdge > 1 then
         let M = sinsert (int n) (int m) M in
         sbind (max_entry E (\<lambda>i j. i \<noteq> m \<and> j \<noteq> n) partnum) (\<lambda>(SecmaxCutEdge, mm, nn).
           Inr (Some (if SecmaxCutEdge > 1 then sinsert (int nn) (int mm) M else M)))
       else Inr None))"

fun merge_loop :: "nat \<Rightarrow> CMygraph \<Rightarrow> int list \<Rightarrow> nat \<Rightarrow> (int, int) smap \<Rightarrow> error + (int, int) smap" where
  "merge_loop 0 g prt partnum M = Inl OutOfFuel"
| "merge_loop (Suc fuel) g prt partnum M =
     sbind (merge_round g prt partnum M) (\<lambda>r. case r of None \<Rightarrow> Inr M | Some M \<Rightarrow> merge_loop fuel g prt partnum M)"

text \<open>
  \<open>mergeParts\<close>, on the objects and the graph left by the splitting. The result is the number
  of parts, the root's \<open>part\<close> array and \<open>mapForLastPart\<close>. \<open>pMyGraph\<close> is dereferenced without
  a test. It is set by the first split and never initialised, so that without a split it is a wild
  pointer: what happens then is undefined, and is taken to be an error.
\<close>

definition mergeParts :: "CHypergraph list \<Rightarrow> CMygraph option \<Rightarrow> (int, int) smap \<Rightarrow>
    error + nat \<times> int list \<times> (int, int) smap" where
  "mergeParts hs pMyGraph M =
     sbind (aget hs 0) (\<lambda>pHyper.
     sbind (dfsForWriteParts (length hs + 1) hs (Some 0) 0 (part pHyper)) (\<lambda>(partnum, prt).
       case pMyGraph of None \<Rightarrow> Inl BadIndex
       | Some g \<Rightarrow> sbind (merge_loop (partnum + 1) g prt partnum M) (\<lambda>M. Inr (partnum, prt, M))))"

definition doHmetis :: "(nat \<Rightarrow> round_mem) \<Rightarrow> CHypergraph \<Rightarrow> error + nat \<times> int list \<times> (int, int) smap" where
  "doHmetis mem pHyper = sbind (splitAll mem pHyper) (\<lambda>st. mergeParts (sp_heap st) (sp_graph st) [])"

subsection \<open>Renumbering for the output\<close>

text \<open>The numbers that \<open>doWriting\<close> writes, in the order of the vertices.\<close>

definition write_part :: "(int, int) smap \<Rightarrow> int list \<Rightarrow> (int, nat) smap \<times> nat \<times> nat list \<Rightarrow> nat \<Rightarrow>
    error + (int, nat) smap \<times> nat \<times> nat list" where
  "write_part M prt = (\<lambda>(mapForWrite, iCnt, out) i.
     sbind (aget prt i) (\<lambda>x. sbind (whichpart M x) (\<lambda>w. case sfind mapForWrite w of
       None \<Rightarrow> Inr (sinsert w iCnt mapForWrite, iCnt + 1, out @ [iCnt])
     | Some k \<Rightarrow> Inr (mapForWrite, iCnt, out @ [k]))))"

definition write_parts :: "nat \<Rightarrow> int list \<Rightarrow> (int, int) smap \<Rightarrow> error + nat list" where
  "write_parts n prt M = sbind (mfold (write_part M prt) ([], 0, []) [0..<n]) (\<lambda>(_, _, out). Inr out)"

section \<open>Vertices of the tree in terms of the root's\<close>

definition rootv :: "CHypergraph list \<Rightarrow> nat \<Rightarrow> nat \<Rightarrow> nat" where
  "rootv hs i v = (case climb_up (Suc i) hs i v of Inr x \<Rightarrow> x | Inl _ \<Rightarrow> 0)"

definition vset :: "CHypergraph list \<Rightarrow> nat \<Rightarrow> nat set" where
  "vset hs i = rootv hs i ` {..<nvtxs (hs ! i)}"

inductive below_root :: "CHypergraph list \<Rightarrow> nat \<Rightarrow> bool" for hs where
  root: "below_root hs 0"
| left: "below_root hs i \<Longrightarrow> inner hs i l r \<Longrightarrow> below_root hs l"
| right: "below_root hs i \<Longrightarrow> inner hs i l r \<Longrightarrow> below_root hs r"

lemma climb_up_mono:
  "climb_up f hs i v = Inr x \<Longrightarrow> f \<le> f' \<Longrightarrow> climb_up f' hs i v = Inr x"
proof (induction f arbitrary: f' i v)
  case (Suc f)
  then obtain f'' where "f' = Suc f''" "f \<le> f''" by (cases f') auto
  with Suc show ?case by (cases "aget hs i") (auto split: option.splits)
qed simp

declare climb_up.simps(2) [simp del]

definition placed :: "CHypergraph list \<Rightarrow> nat \<Rightarrow> bool" where
  "placed hs i \<longleftrightarrow> i < length hs \<and> (\<forall>v < nvtxs (hs ! i). climb_up (Suc i) hs i v = Inr (rootv hs i v) \<and>
     rootv hs i v < nvtxs (hs ! 0)) \<and> inj_on (rootv hs i) {..<nvtxs (hs ! i)}"

text \<open>A son's vertices are placed through the father's.\<close>

lemma rootv_son:
  assumes i: "placed hs i" and s: "i < s" "s < length hs" "fatherGraph (hs ! s) = Some i"
    and m: "sfind (mapForFather (hs ! s)) v = Some n" "n < nvtxs (hs ! i)"
  shows "climb_up (Suc s) hs s v = Inr (rootv hs i n)" "rootv hs s v = rootv hs i n"
proof -
  have "climb_up (Suc i) hs i n = Inr (rootv hs i n)" using i m(2) by (simp add: placed_def)
  then have "climb_up s hs i n = Inr (rootv hs i n)" by (rule climb_up_mono) (use s(1) in simp)
  then show c: "climb_up (Suc s) hs s v = Inr (rootv hs i n)" using s(2,3) m(1) by (simp add: climb_up.simps)
  then show "rootv hs s v = rootv hs i n" by (simp add: rootv_def)
qed

lemma splits_facts:
  assumes "splits P L R" "H = L \<or> H = R"
  shows "v < nvtxs H \<Longrightarrow> \<exists>n < nvtxs P. sfind (mapForFather H) v = Some n"
    "sfind (mapForFather H) u = Some n \<Longrightarrow> sfind (mapForFather H) v = Some n \<Longrightarrow> u = v"
    "sfind (mapForFather H) v = Some n \<Longrightarrow> v < nvtxs H"
proof -
  have d: "dom (sfind (mapForFather H)) = {..<nvtxs H}" "inj_on (sfind (mapForFather H)) {..<nvtxs H}"
    "ran (sfind (mapForFather H)) \<subseteq> {..<nvtxs P}"
    using assms unfolding splits_def by blast+
  show "v < nvtxs H \<Longrightarrow> \<exists>n < nvtxs P. sfind (mapForFather H) v = Some n"
    using d(1,3) by (metis domD lessThan_iff ranI subsetD)
  show dm: "sfind (mapForFather H) v = Some n \<Longrightarrow> v < nvtxs H" for v using d(1) by auto
  show "sfind (mapForFather H) u = Some n \<Longrightarrow> sfind (mapForFather H) v = Some n \<Longrightarrow> u = v"
    using d(2) dm by (metis inj_onD lessThan_iff)
qed

lemma placed_son:
  assumes p: "placed hs i" and n: "inner hs i l r" and s: "s = l \<or> s = r"
  shows "placed hs s" "vset hs s = rootv hs i ` ran (sfind (mapForFather (hs ! s)))"
proof -
  have b: "i < s" "s < length hs" "fatherGraph (hs ! s) = Some i" and sp: "splits (hs ! i) (hs ! l) (hs ! r)"
    using n s by (auto simp: inner_def)
  have "hs ! s = hs ! l \<or> hs ! s = hs ! r" using s by auto
  note sf = splits_facts[OF sp this]
  note rs = rootv_son[OF p b]
  have inj: "inj_on (rootv hs i) {..<nvtxs (hs ! i)}" using p by (simp add: placed_def)
  have "inj_on (rootv hs s) {..<nvtxs (hs ! s)}"
  proof (rule inj_onI)
    fix u v assume "u \<in> {..<nvtxs (hs ! s)}" "v \<in> {..<nvtxs (hs ! s)}" and e: "rootv hs s u = rootv hs s v"
    then obtain a c where "sfind (mapForFather (hs ! s)) u = Some a" "a < nvtxs (hs ! i)"
        "sfind (mapForFather (hs ! s)) v = Some c" "c < nvtxs (hs ! i)" using sf(1) by (metis lessThan_iff)
    with e show "u = v" using rs(2)[of u a] rs(2)[of v c] sf(2) inj by (metis inj_onD lessThan_iff)
  qed
  moreover have "climb_up (Suc s) hs s v = Inr (rootv hs s v) \<and> rootv hs s v < nvtxs (hs ! 0)" if v: "v < nvtxs (hs ! s)" for v
  proof -
    obtain a where a: "sfind (mapForFather (hs ! s)) v = Some a" "a < nvtxs (hs ! i)" using sf(1)[OF v] by blast
    then show ?thesis using rs[OF a] p by (simp add: placed_def)
  qed
  ultimately show "placed hs s" using b(2) by (simp add: placed_def)
  show "vset hs s = rootv hs i ` ran (sfind (mapForFather (hs ! s)))"
  proof (intro equalityI subsetI)
    fix x assume "x \<in> vset hs s"
    then obtain v where v: "v < nvtxs (hs ! s)" "x = rootv hs s v" by (auto simp: vset_def)
    obtain a where a: "sfind (mapForFather (hs ! s)) v = Some a" "a < nvtxs (hs ! i)" using sf(1)[OF v(1)] by blast
    then show "x \<in> rootv hs i ` ran (sfind (mapForFather (hs ! s)))" using v(2) rs(2)[OF a] by (auto intro: ranI)
  next
    fix x assume "x \<in> rootv hs i ` ran (sfind (mapForFather (hs ! s)))"
    then obtain a v where a: "sfind (mapForFather (hs ! s)) v = Some a" "x = rootv hs i a" by (auto simp: ran_def)
    have v: "v < nvtxs (hs ! s)" using sf(3)[OF a(1)] .
    then have "a < nvtxs (hs ! i)" using sf(1)[OF v] a(1) by auto
    then have "x = rootv hs s v" using rs(2)[OF a(1)] a(2) by simp
    then show "x \<in> vset hs s" using v by (auto simp: vset_def)
  qed
qed

lemma below_root_placed:
  assumes "heap_tree hs" "below_root hs i"
  shows "placed hs i"
  using assms(2)
proof (induction rule: below_root.induct)
  case root
  then show ?case using assms(1) by (auto simp: placed_def heap_tree_def rootv_def inj_on_def climb_up.simps)
next
  case (left i l r)
  then show ?case using placed_son by blast
next
  case (right i l r)
  then show ?case using placed_son by blast
qed

lemma vset_root: "heap_tree hs \<Longrightarrow> vset hs 0 = {..<nvtxs (hs ! 0)}"
  by (auto simp: vset_def heap_tree_def rootv_def climb_up.simps)

lemma vset_sons:
  assumes "heap_tree hs" "below_root hs i" "inner hs i l r"
  shows "vset hs l \<union> vset hs r = vset hs i" "vset hs l \<inter> vset hs r = {}"
proof -
  have p: "placed hs i" using below_root_placed assms by blast
  let ?L = "ran (sfind (mapForFather (hs ! l)))" and ?R = "ran (sfind (mapForFather (hs ! r)))"
  have LR: "?L \<union> ?R = {..<nvtxs (hs ! i)}" "?L \<inter> ?R = {}" using assms(3) by (auto simp: inner_def splits_def)
  have v: "vset hs l = rootv hs i ` ?L" "vset hs r = rootv hs i ` ?R" using placed_son(2)[OF p assms(3)] by auto
  show "vset hs l \<union> vset hs r = vset hs i" unfolding v using LR(1) by (simp add: vset_def image_Un[symmetric])
  have "inj_on (rootv hs i) (?L \<union> ?R)" using p LR(1) by (simp add: placed_def)
  then have "rootv hs i ` ?L \<inter> rootv hs i ` ?R = rootv hs i ` (?L \<inter> ?R)" by (auto simp: inj_on_def)
  then show "vset hs l \<inter> vset hs r = {}" unfolding v using LR(2) by simp
qed

section \<open>The leaves are numbered\<close>

text \<open>The result below an object: the leaves \<open>L\<close> under it, in the order they are numbered.\<close>

definition numbers :: "CHypergraph list \<Rightarrow> nat \<Rightarrow> nat \<Rightarrow> int list \<Rightarrow> nat list \<Rightarrow> int list \<Rightarrow> bool" where
  "numbers hs i parts prt L prt' \<longleftrightarrow> (\<forall>k \<in> set L. below_root hs k \<and> leaf (hs ! k)) \<and>
     (\<Union>k \<in> set L. vset hs k) = vset hs i \<and> sorted_wrt (\<lambda>a b. vset hs a \<inter> vset hs b = {}) L \<and>
     length prt' = length prt \<and> (\<forall>x. x \<notin> vset hs i \<longrightarrow> prt' ! x = prt ! x) \<and>
     (\<forall>j < length L. \<forall>x \<in> vset hs (L ! j). prt' ! x = int (parts + j))"

lemma numbers_sub: "numbers hs i parts prt L prt' \<Longrightarrow> k \<in> set L \<Longrightarrow> vset hs k \<subseteq> vset hs i"
  unfolding numbers_def by (metis UN_upper)

lemma write_leaf_ok:
  assumes p: "placed hs i" and prt: "nvtxs (hs ! 0) \<le> length prt"
  shows "ok (write_leaf hs i parts prt) (\<lambda>prt'. length prt' = length prt \<and>
     (\<forall>x. x \<notin> vset hs i \<longrightarrow> prt' ! x = prt ! x) \<and> (\<forall>x \<in> vset hs i. prt' ! x = int parts))"
proof -
  have i: "i < length hs" using p by (simp add: placed_def)
  have cl: "climb_up (length hs) hs i v = Inr (rootv hs i v)" "rootv hs i v < length prt" if "v < nvtxs (hs ! i)" for v
  proof -
    have "climb_up (Suc i) hs i v = Inr (rootv hs i v)" "rootv hs i v < nvtxs (hs ! 0)"
      using p that by (simp_all add: placed_def)
    then show "climb_up (length hs) hs i v = Inr (rootv hs i v)" "rootv hs i v < length prt"
      using climb_up_mono[of "Suc i" hs i v _ "length hs"] i prt by auto
  qed
  have "ok (mfold (\<lambda>prt v. sbind (climb_up (length hs) hs i v) (\<lambda>nd. aset prt nd (int parts))) prt [0..<nvtxs (hs ! i)])
     (\<lambda>prt'. length prt' = length prt \<and> (\<forall>x. x \<notin> rootv hs i ` {..<nvtxs (hs ! i)} \<longrightarrow> prt' ! x = prt ! x) \<and>
        (\<forall>x \<in> rootv hs i ` {..<nvtxs (hs ! i)}. prt' ! x = int parts))"
  proof (rule mfold_ok_upt[where I = "\<lambda>n prt'. length prt' = length prt \<and>
      (\<forall>x. x \<notin> rootv hs i ` {..<n} \<longrightarrow> prt' ! x = prt ! x) \<and> (\<forall>x \<in> rootv hs i ` {..<n}. prt' ! x = int parts)"], goal_cases)
    case (3 v t)
    then show ?case using cl[of v] by (auto simp: safe_simps lessThan_Suc nth_list_update)
  qed auto
  then show ?thesis using i by (simp add: write_leaf_def vset_def)
qed

text \<open>The numbers of the leaves below the two sons, one after the other.\<close>

lemma numbers_append:
  assumes L: "numbers hs l parts prt L prt1" and R: "numbers hs r (parts + length L) prt1 R prt2"
    and vs: "vset hs l \<union> vset hs r = vset hs i" "vset hs l \<inter> vset hs r = {}"
  shows "numbers hs i parts prt (L @ R) prt2"
  unfolding numbers_def
proof (intro conjI)
  have LR: "a \<in> set L \<Longrightarrow> vset hs a \<subseteq> vset hs l" "a \<in> set R \<Longrightarrow> vset hs a \<subseteq> vset hs r" for a
    using numbers_sub[OF L] numbers_sub[OF R] by auto
  show "\<forall>k \<in> set (L @ R). below_root hs k \<and> leaf (hs ! k)" using L R by (auto simp: numbers_def)
  show "(\<Union>k \<in> set (L @ R). vset hs k) = vset hs i" using L R vs(1) by (simp add: numbers_def)
  have out: "x \<notin> vset hs i \<Longrightarrow> x \<notin> vset hs l \<and> x \<notin> vset hs r" for x using vs(1) by blast
  have "\<forall>a \<in> set L. \<forall>b \<in> set R. vset hs a \<inter> vset hs b = {}" using LR vs(2) by blast
  then show "sorted_wrt (\<lambda>a b. vset hs a \<inter> vset hs b = {}) (L @ R)"
    using L R by (simp add: numbers_def sorted_wrt_append)
  show "length prt2 = length prt" "\<forall>x. x \<notin> vset hs i \<longrightarrow> prt2 ! x = prt ! x"
    using L R out unfolding numbers_def by auto
  show "\<forall>j < length (L @ R). \<forall>x \<in> vset hs ((L @ R) ! j). prt2 ! x = int (parts + j)"
  proof (intro allI impI ballI)
    fix j x assume j: "j < length (L @ R)" and x: "x \<in> vset hs ((L @ R) ! j)"
    show "prt2 ! x = int (parts + j)"
    proof (cases "j < length L")
      case True
      then have xl: "x \<in> vset hs (L ! j)" using x by (simp add: nth_append)
      then have "x \<notin> vset hs r" using LR(1)[of "L ! j"] True vs(2) by (auto dest: nth_mem)
      then show ?thesis using xl True L R by (simp add: numbers_def)
    next
      case False
      then have "x \<in> vset hs (R ! (j - length L))" "j - length L < length R" using x j by (auto simp: nth_append)
      then have "prt2 ! x = int (parts + length L + (j - length L))" using R unfolding numbers_def by blast
      then show ?thesis using False by simp
    qed
  qed
qed

lemma dfs_ok:
  assumes t: "heap_tree hs" and i: "below_root hs i" and prt: "nvtxs (hs ! 0) \<le> length prt" and f: "length hs - i < fuel"
  shows "ok (dfsForWriteParts fuel hs (Some i) parts prt) (\<lambda>(c, prt'). \<exists>L. c = length L \<and> numbers hs i parts prt L prt')"
  using i prt f
proof (induction fuel arbitrary: i parts prt)
  case (Suc fuel)
  have p: "placed hs i" using below_root_placed[OF t Suc.prems(1)] .
  then have ib: "i < length hs" by (simp add: placed_def)
  show ?case
  proof (cases "leaf (hs ! i)")
    case True
    have "ok (write_leaf hs i parts prt) (\<lambda>prt'. numbers hs i parts prt [i] prt')"
      by (rule ok_mono[OF write_leaf_ok[OF p Suc.prems(2)]]) (use True Suc.prems(1) in \<open>auto simp: numbers_def\<close>)
    then show ?thesis using True ib by (auto simp: leaf_def elim!: ok_mono intro!: exI[of _ "[i]"])
  next
    case False
    then obtain l r where n: "inner hs i l r" using t ib by (auto simp: heap_tree_def)
    have sons: "leftSon (hs ! i) = Some l" "rightSon (hs ! i) = Some r" and lr: "i < l" "i < r" "l < length hs" "r < length hs"
      using n by (auto simp: inner_def)
    have br: "below_root hs l" "below_root hs r" using below_root.left below_root.right Suc.prems(1) n by blast+
    note vs = vset_sons[OF t Suc.prems(1) n]
    have fl: "length hs - l < fuel" "length hs - r < fuel" using Suc.prems(3) lr by linarith+
    obtain L prt1 where L: "dfsForWriteParts fuel hs (Some l) parts prt = Inr (length L, prt1)" "numbers hs l parts prt L prt1"
      using Suc.IH[OF br(1) Suc.prems(2) fl(1), of parts] by (auto simp: ok_iff)
    have "nvtxs (hs ! 0) \<le> length prt1" using L(2) Suc.prems(2) by (simp add: numbers_def)
    then obtain R prt2 where R: "dfsForWriteParts fuel hs (Some r) (parts + length L) prt1 = Inr (length R, prt2)"
        "numbers hs r (parts + length L) prt1 R prt2"
      using Suc.IH[OF br(2) _ fl(2), of prt1 "parts + length L"] by (auto simp: ok_iff)
    have "numbers hs i parts prt (L @ R) prt2" by (rule numbers_append[OF L(2) R(2) vs])
    then show ?thesis using ib sons L(1) R(1) by (auto intro!: exI[of _ "L @ R"])
  qed
qed simp

text \<open>
  C29. On the tree that the splitting leaves, \<open>dfsForWriteParts\<close> from the root ends, follows
  only links that are there, and numbers the leaves: each vertex of the root belongs to exactly
  one leaf and gets the number of its leaf, from 0 to the returned number of parts.
\<close>

theorem dfsForWriteParts_correct:
  assumes "heap_tree hs"
  shows "\<exists>L prt. dfsForWriteParts (length hs + 1) hs (Some 0) 0 (part (hs ! 0)) = Inr (length L, prt) \<and>
     length prt = length (part (hs ! 0)) \<and> (\<forall>k \<in> set L. leaf (hs ! k)) \<and>
     (\<forall>v < nvtxs (hs ! 0). \<exists>!j. j < length L \<and> v \<in> vset hs (L ! j)) \<and>
     (\<forall>j < length L. \<forall>v \<in> vset hs (L ! j). v < nvtxs (hs ! 0) \<and> prt ! v = int j)"
proof -
  have "nvtxs (hs ! 0) \<le> length (part (hs ! 0))" using assms by (auto simp: heap_tree_def wf_hyper_def)
  then obtain L prt where r: "dfsForWriteParts (length hs + 1) hs (Some 0) 0 (part (hs ! 0)) = Inr (length L, prt)"
      "numbers hs 0 0 (part (hs ! 0)) L prt"
    using dfs_ok[OF assms below_root.root, of "part (hs ! 0)" "length hs + 1" 0] by (auto simp: ok_iff)
  have un: "(\<Union>k \<in> set L. vset hs k) = {..<nvtxs (hs ! 0)}" using r(2) vset_root[OF assms] by (simp add: numbers_def)
  have num: "\<And>j v. j < length L \<Longrightarrow> v \<in> vset hs (L ! j) \<Longrightarrow> prt ! v = int j" using r(2) by (simp add: numbers_def)
  have "\<exists>!j. j < length L \<and> v \<in> vset hs (L ! j)" if v: "v < nvtxs (hs ! 0)" for v
  proof -
    have "v \<in> (\<Union>k \<in> set L. vset hs k)" unfolding un using v by simp
    then obtain k where "k \<in> set L" "v \<in> vset hs k" by blast
    then obtain j where j: "j < length L" "v \<in> vset hs (L ! j)" by (metis in_set_conv_nth)
    then show ?thesis using num by (metis of_nat_eq_iff)
  qed
  moreover have "v < nvtxs (hs ! 0)" if "j < length L" "v \<in> vset hs (L ! j)" for j v
    using un that nth_mem[of j L] by blast
  moreover have "length prt = length (part (hs ! 0))" "\<forall>k \<in> set L. leaf (hs ! k)" using r(2) by (simp_all add: numbers_def)
  ultimately show ?thesis using r(1) num by blast
qed

theorem dfsForWriteParts_correct_witness:
  "heap_tree [sample_hyper] \<and> (\<exists>L prt. dfsForWriteParts 2 [sample_hyper] (Some 0) 0 (part sample_hyper) = Inr (length L, prt) \<and>
     length L = 1 \<and> (\<forall>j < length L. \<forall>v \<in> vset [sample_hyper] (L ! j). v < 4 \<and> prt ! v = int j))"
proof -
  have t: "heap_tree [sample_hyper]" using wf_sample by (simp add: heap_tree_def leaf_def sample_hyper_def)
  have "sbind (dfsForWriteParts 2 [sample_hyper] (Some 0) 0 (part sample_hyper)) (\<lambda>(c, _). Inr c) = Inr 1" by code_simp
  moreover have "nvtxs sample_hyper = 4" by (simp add: sample_hyper_def)
  moreover obtain L prt where "dfsForWriteParts 2 [sample_hyper] (Some 0) 0 (part sample_hyper) = Inr (length L, prt)"
      "\<forall>j < length L. \<forall>v \<in> vset [sample_hyper] (L ! j). v < nvtxs sample_hyper \<and> prt ! v = int j"
    using dfsForWriteParts_correct[OF t] by (auto simp: numeral_2_eq_2 simp del: dfsForWriteParts.simps)
  ultimately show ?thesis using t by (intro conjI exI[of _ L] exI[of _ prt]) simp_all
qed

section \<open>Merged parts\<close>

text \<open>
  \<open>mapForLastPart\<close> is a forest: a part is merged into one with a smaller number, and the
  representative of a part is found by going down.
\<close>

definition forest :: "nat \<Rightarrow> (int, int) smap \<Rightarrow> bool" where
  "forest n M \<longleftrightarrow> smap_ok M \<and> (\<forall>k v. sfind M k = Some v \<longrightarrow> 0 \<le> v \<and> v < k \<and> k < int n)"

definition rep :: "(int, int) smap \<Rightarrow> int \<Rightarrow> int" where
  "rep M w = (case whichpart M w of Inr r \<Rightarrow> r | Inl _ \<Rightarrow> 0)"

lemma resolve_ok:
  assumes "forest n M" "0 \<le> w" "card {k \<in> skeys M. k \<le> w} < fuel"
  shows "ok (resolve fuel M w) (\<lambda>r. 0 \<le> r \<and> r \<le> w \<and> sfind M r = None)"
  using assms(2,3)
proof (induction fuel arbitrary: w)
  case (Suc fuel)
  show ?case
  proof (cases "sfind M w")
    case (Some v)
    then have v: "0 \<le> v" "v < w" "w \<in> skeys M" using assms(1) sfind_dom[of M w] by (auto simp: forest_def)
    have "{k \<in> skeys M. k \<le> v} \<subset> {k \<in> skeys M. k \<le> w}" using v by force
    then have "card {k \<in> skeys M. k \<le> v} < card {k \<in> skeys M. k \<le> w}" by (intro psubset_card_mono) simp_all
    then have "ok (resolve fuel M v) (\<lambda>r. 0 \<le> r \<and> r \<le> v \<and> sfind M r = None)"
      using Suc.prems(2) v(1) by (intro Suc.IH) auto
    then show ?thesis using Some v(2) by (auto elim!: ok_mono)
  qed (use Suc.prems in simp)
qed simp

lemma whichpart_rep:
  assumes "forest n M" "0 \<le> w"
  shows "whichpart M w = Inr (rep M w)" "0 \<le> rep M w" "rep M w \<le> w" "sfind M (rep M w) = None"
proof -
  have "card {k \<in> skeys M. k \<le> w} \<le> card (skeys M)" by (intro card_mono) auto
  also have "\<dots> \<le> length M" unfolding skeys_def by (metis card_image_le card_length finite_set le_trans)
  finally have "ok (whichpart M w) (\<lambda>r. 0 \<le> r \<and> r \<le> w \<and> sfind M r = None)"
    unfolding whichpart_def by (intro resolve_ok[OF assms]) simp
  then show "whichpart M w = Inr (rep M w)" "0 \<le> rep M w" "rep M w \<le> w" "sfind M (rep M w) = None"
    by (auto simp: ok_iff rep_def)
qed

lemma forest_Nil [simp]: "forest n []"
  by (simp add: forest_def)

lemma forest_insert:
  assumes "forest n M" "sfind M k = None" "0 \<le> v" "v < k" "k < int n"
  shows "forest n (sinsert k v M)"
  using assms by (auto simp: forest_def sfind_sinsert fun_upd_def split: if_splits)

text \<open>The matrix of the hyperedges shared by two parts.\<close>

definition square :: "nat \<Rightarrow> int list list \<Rightarrow> bool" where
  "square n E \<longleftrightarrow> length E = n \<and> (\<forall>i < n. length (E ! i) = n)"

lemma bump_ok:
  assumes E: "square n E" and u: "0 \<le> u" "u < int n" and w: "0 \<le> w" "w < int n" and ne: "u \<noteq> w"
  shows "ok (bump w E u) (\<lambda>E'. square n E' \<and> (\<forall>a b. a < b \<longrightarrow> b < n \<longrightarrow>
     E' ! a ! b = E ! a ! b + (if int a = min u w \<and> int b = max u w then 1 else 0)))"
proof -
  have "nat (min u w) < n" "nat (max u w) < n" using u w by auto
  then show ?thesis
    using E u w ne by (auto simp: bump_def Let_def safe_simps square_def nth_list_update min_def max_def split: if_splits)
qed

lemma bumps_ok:
  assumes E: "square n E" and w: "0 \<le> w" "w < int n" "w \<notin> set us" and us: "\<forall>u \<in> set us. 0 \<le> u \<and> u < int n" "distinct us"
  shows "ok (mfold (bump w) E us) (\<lambda>E'. square n E' \<and> (\<forall>a b. a < b \<longrightarrow> b < n \<longrightarrow>
     E' ! a ! b = E ! a ! b + (if int a = w \<and> int b \<in> set us \<or> int b = w \<and> int a \<in> set us then 1 else 0)))"
  using E w(3) us
proof (induction us arbitrary: E)
  case (Cons u us)
  obtain E1 where E1: "bump w E u = Inr E1" "square n E1" "\<forall>a b. a < b \<longrightarrow> b < n \<longrightarrow>
     E1 ! a ! b = E ! a ! b + (if int a = min u w \<and> int b = max u w then 1 else 0)"
    using bump_ok[OF Cons.prems(1), of u w] Cons.prems w by (auto simp: ok_iff)
  have "ok (mfold (bump w) E1 us) (\<lambda>E'. square n E' \<and> (\<forall>a b. a < b \<longrightarrow> b < n \<longrightarrow>
     E' ! a ! b = E1 ! a ! b + (if int a = w \<and> int b \<in> set us \<or> int b = w \<and> int a \<in> set us then 1 else 0)))"
    using Cons.prems E1(2) by (intro Cons.IH) auto
  then show ?case
    unfolding mfold.simps E1(1) sbind_Inr
  proof (rule ok_mono, intro conjI allI impI, goal_cases)
    case (2 E' a b)
    have "u \<noteq> w" "u \<notin> set us" using Cons.prems by auto
    then have "(if int a = min u w \<and> int b = max u w then 1 else 0 :: int) +
       (if int a = w \<and> int b \<in> set us \<or> int b = w \<and> int a \<in> set us then 1 else 0) =
       (if int a = w \<and> int b \<in> set (u # us) \<or> int b = w \<and> int a \<in> set (u # us) then 1 else 0)"
      using 2(4) Cons.prems(2) by (auto simp: min_def max_def)
    then show ?case using 2 E1(3) by simp
  qed simp
qed simp

definition in_range :: "nat \<Rightarrow> CMygraph \<Rightarrow> int list \<Rightarrow> bool" where
  "in_range n g prt \<longleftrightarrow> nvetes g \<le> length prt \<and> (\<forall>v < nvetes g. 0 \<le> prt ! v \<and> prt ! v < int n)"

definition eparts :: "CMygraph \<Rightarrow> (int, int) smap \<Rightarrow> int list \<Rightarrow> nat \<Rightarrow> int set" where
  "eparts g M prt e = (\<lambda>v. rep M (prt ! v)) ` set (epins g e)"

lemma count_pins_ok:
  assumes M: "forest n M" and r: "in_range n g prt" and E: "square n E" and vs: "\<forall>v \<in> set vs. v < nvetes g"
  shows "ok (mfold (count_pin M prt) (E, [], []) vs) (\<lambda>(E', X, us). square n E' \<and> smap_ok X \<and> skeys X = set us \<and>
     distinct us \<and> set us = (\<lambda>v. rep M (prt ! v)) ` set vs \<and> (\<forall>u \<in> set us. 0 \<le> u \<and> u < int n) \<and>
     (\<forall>a b. a < b \<longrightarrow> b < n \<longrightarrow> E' ! a ! b = E ! a ! b + (if int a \<in> set us \<and> int b \<in> set us then 1 else 0)))"
proof (rule mfold_ok_prefix[where I = "\<lambda>ys (E', X, us). square n E' \<and> smap_ok X \<and> skeys X = set us \<and>
     distinct us \<and> set us = (\<lambda>v. rep M (prt ! v)) ` set ys \<and> (\<forall>u \<in> set us. 0 \<le> u \<and> u < int n) \<and>
     (\<forall>a b. a < b \<longrightarrow> b < n \<longrightarrow> E' ! a ! b = E ! a ! b + (if int a \<in> set us \<and> int b \<in> set us then 1 else 0))"], goal_cases)
  case (2 ys v zs t)
  obtain E' X us where t: "t = (E', X, us)" by (metis prod.collapse)
  note I = 2(2)[unfolded t prod.case]
  define w where "w = rep M (prt ! v)"
  have v: "v < length prt" "0 \<le> prt ! v" "prt ! v < int n" using vs r 2(1) by (auto simp: in_range_def)
  have w: "whichpart M (prt ! v) = Inr w" "0 \<le> w" "w < int n"
    using whichpart_rep[OF M v(2)] v(3) by (auto simp: w_def)
  show ?case
  proof (cases "w \<in> set us")
    case True
    then have "sfind X w \<noteq> None" using I by (simp add: sfind_None_iff del: not_None_eq)
    then show ?thesis using True t I v(1) w(1) by (auto simp: count_pin_def w_def[symmetric] insert_absorb)
  next
    case False
    then have none: "sfind X w = None" using I by (simp add: sfind_None_iff)
    have "ok (mfold (bump w) E' us) (\<lambda>E''. square n E'' \<and> (\<forall>a b. a < b \<longrightarrow> b < n \<longrightarrow>
     E'' ! a ! b = E' ! a ! b + (if int a = w \<and> int b \<in> set us \<or> int b = w \<and> int a \<in> set us then 1 else 0)))"
      using I w False by (intro bumps_ok) auto
    then obtain E'' where E'': "mfold (bump w) E' us = Inr E''" "square n E''" "\<forall>a b. a < b \<longrightarrow> b < n \<longrightarrow>
     E'' ! a ! b = E' ! a ! b + (if int a = w \<and> int b \<in> set us \<or> int b = w \<and> int a \<in> set us then 1 else 0)"
      by (auto simp: ok_iff)
    have "E'' ! a ! b = E ! a ! b + (if int a \<in> set (us @ [w]) \<and> int b \<in> set (us @ [w]) then 1 else 0)" if "a < b" "b < n" for a b
      using E''(3) I that False by auto
    then show ?thesis
      using I t v(1) w none False E''(1,2) by (simp add: count_pin_def w_def[symmetric])
  qed
qed (use E in auto)

definition shared :: "CMygraph \<Rightarrow> (int, int) smap \<Rightarrow> int list \<Rightarrow> nat \<Rightarrow> int \<Rightarrow> int \<Rightarrow> nat" where
  "shared g M prt n a b = card {e. e < n \<and> a \<in> eparts g M prt e \<and> b \<in> eparts g M prt e}"

lemma shared_Suc:
  "shared g M prt (Suc n) a b = shared g M prt n a b + (if a \<in> eparts g M prt n \<and> b \<in> eparts g M prt n then 1 else 0)"
proof -
  let ?S = "\<lambda>n. {e. e < n \<and> a \<in> eparts g M prt e \<and> b \<in> eparts g M prt e}"
  have "?S (Suc n) = (if a \<in> eparts g M prt n \<and> b \<in> eparts g M prt n then insert n (?S n) else ?S n)"
    by (auto simp: less_Suc_eq)
  then show ?thesis by (simp add: shared_def)
qed

lemma count_edges_ok:
  assumes M: "forest n M" and g: "wf_mygraph g" and r: "in_range n g prt"
  shows "ok (count_edges g M prt n) (\<lambda>E. square n E \<and>
     (\<forall>a b. a < b \<longrightarrow> b < n \<longrightarrow> E ! a ! b = int (shared g M prt (g_nhedges g) (int a) (int b))))"
  unfolding count_edges_def
proof (rule mfold_ok_upt[where I = "\<lambda>k E. square n E \<and>
     (\<forall>a b. a < b \<longrightarrow> b < n \<longrightarrow> E ! a ! b = int (shared g M prt k (int a) (int b)))"], goal_cases)
  case 2
  then show ?case by (auto simp: square_def shared_def)
next
  case (3 e E)
  note f = wf_edge_facts[OF g 3(2)]
  obtain E' X us where c: "mfold (count_pin M prt) (E, [], []) (epins g e) = Inr (E', X, us)" "square n E'"
     "set us = eparts g M prt e"
     "\<forall>a b. a < b \<longrightarrow> b < n \<longrightarrow> E' ! a ! b = E ! a ! b + (if int a \<in> set us \<and> int b \<in> set us then 1 else 0)"
    using count_pins_ok[OF M r, of E "epins g e"] 3(3) f(4) by (auto simp: ok_iff epins_def eparts_def)
  then show ?case using f(1) 3(3) by (simp add: epins_def[symmetric] shared_Suc)
qed simp

lemma set_part_pairs: "set (part_pairs n) = {(i, j). i < j \<and> j < n}"
  by (auto simp: part_pairs_def image_iff intro!: bexI)

lemma max_entry_ok:
  assumes "square n E"
  shows "ok (max_entry E test n) (\<lambda>(mx, i, j). (\<forall>a b. a < b \<longrightarrow> b < n \<longrightarrow> test a b \<longrightarrow> E ! a ! b \<le> mx) \<and>
     (mx = - 1 \<or> i < j \<and> j < n \<and> test i j \<and> E ! i ! j = mx))"
proof -
  have "ok (max_entry E test n) (\<lambda>(mx, i, j). (\<forall>(a, b) \<in> set (part_pairs n). test a b \<longrightarrow> E ! a ! b \<le> mx) \<and>
     (mx = - 1 \<or> (i, j) \<in> set (part_pairs n) \<and> test i j \<and> E ! i ! j = mx))"
    unfolding max_entry_def
  proof (rule mfold_ok_prefix[where I = "\<lambda>ys (mx, i, j). (\<forall>(a, b) \<in> set ys. test a b \<longrightarrow> E ! a ! b \<le> mx) \<and>
     (mx = - 1 \<or> (i, j) \<in> set ys \<and> test i j \<and> E ! i ! j = mx)"], goal_cases)
    case (2 ys p zs t)
    obtain a b where p: "p = (a, b)" by force
    have "(a, b) \<in> set (part_pairs n)" unfolding 2(1) p by simp
    then have "a < length E" "b < length (E ! a)" using assms by (auto simp: set_part_pairs square_def)
    then show ?case using 2(2) p by (cases t) (auto simp: safe_simps split: if_splits)
  qed auto
  then show ?thesis by (rule ok_mono) (auto simp: set_part_pairs)
qed

text \<open>A round merges parts that are still representatives, or finds that no two share more than one.\<close>

lemma shared_rep:
  assumes M: "forest n M" and r: "in_range n g prt" and g: "wf_mygraph g" and s: "0 < shared g M prt (g_nhedges g) a b"
  shows "sfind M b = None"
proof -
  obtain e where e: "e < g_nhedges g" "b \<in> eparts g M prt e" using s by (auto simp: shared_def card_gt_0_iff)
  then obtain v where v: "v \<in> set (epins g e)" "b = rep M (prt ! v)" by (auto simp: eparts_def)
  then have "v < nvetes g" using wf_edge_facts(4)[OF g e(1)] by (simp add: epins_def)
  then show ?thesis using whichpart_rep(4)[OF M] r v(2) by (simp add: in_range_def)
qed

lemma merge_round_ok:
  assumes M: "forest n M" and g: "wf_mygraph g" and r: "in_range n g prt"
  shows "ok (merge_round g prt n M) (\<lambda>res. case res of
       None \<Rightarrow> (\<forall>a b. a < b \<longrightarrow> b < n \<longrightarrow> shared g M prt (g_nhedges g) (int a) (int b) \<le> 1)
     | Some M' \<Rightarrow> forest n M' \<and> skeys M \<subset> skeys M')"
proof -
  obtain E where E: "count_edges g M prt n = Inr E" "square n E"
      "\<forall>a b. a < b \<longrightarrow> b < n \<longrightarrow> E ! a ! b = int (shared g M prt (g_nhedges g) (int a) (int b))"
    using count_edges_ok[OF M g r] by (auto simp: ok_iff)
  obtain mx i j where m: "max_entry E (\<lambda>_ _. True) n = Inr (mx, i, j)" "\<forall>a b. a < b \<longrightarrow> b < n \<longrightarrow> E ! a ! b \<le> mx"
      "mx = - 1 \<or> i < j \<and> j < n \<and> E ! i ! j = mx"
    using max_entry_ok[OF E(2), of "\<lambda>_ _. True"] by (auto simp: ok_iff)
  show ?thesis
  proof (cases "mx > 1")
    case False
    then have "shared g M prt (g_nhedges g) (int a) (int b) \<le> 1" if "a < b" "b < n" for a b
      using m(2) E(3) that by force
    then show ?thesis using False E(1) m(1) by (simp add: merge_round_def)
  next
    case True
    have entry: "sfind M (int b) = None" if "a < b" "b < n" "1 < E ! a ! b" for a b
      using shared_rep[OF M r g, of "int a" "int b"] E(3) that by simp
    have ij: "i < j" "j < n" "sfind M (int j) = None" using m(3) True entry by auto
    let ?M = "sinsert (int j) (int i) M"
    have M1: "forest n ?M" "skeys ?M = insert (int j) (skeys M)" using forest_insert[OF M] ij by auto
    have new: "skeys M \<subset> skeys ?M" using ij(3) M1(2) by (auto simp: sfind_None_iff)
    obtain sx ii jj where s: "max_entry E (\<lambda>a b. a \<noteq> i \<and> b \<noteq> j) n = Inr (sx, ii, jj)"
        "sx = - 1 \<or> ii < jj \<and> jj < n \<and> jj \<noteq> j \<and> E ! ii ! jj = sx"
      using max_entry_ok[OF E(2), of "\<lambda>a b. a \<noteq> i \<and> b \<noteq> j"] by (auto simp: ok_iff)
    have "forest n (sinsert (int jj) (int ii) ?M) \<and> skeys M \<subset> skeys (sinsert (int jj) (int ii) ?M)" if "sx > 1"
    proof -
      have b: "ii < jj" "jj < n" "jj \<noteq> j" "sfind M (int jj) = None" using s(2) that entry by auto
      have "smap_ok M" using M by (simp add: forest_def)
      then have "sfind ?M (int jj) = None" using b(3,4) by (simp add: sfind_sinsert)
      then show ?thesis using forest_insert[OF M1(1)] b new by auto
    qed
    then show ?thesis using True E(1) m(1) s(1) M1(1) new by (simp add: merge_round_def Let_def)
  qed
qed

lemma merge_loop_ok:
  assumes M: "forest n M" and g: "wf_mygraph g" and r: "in_range n g prt" and f: "n - card (skeys M) < fuel"
  shows "ok (merge_loop fuel g prt n M) (\<lambda>M'. forest n M' \<and>
     (\<forall>a b. a < b \<longrightarrow> b < n \<longrightarrow> shared g M' prt (g_nhedges g) (int a) (int b) \<le> 1))"
  using M f
proof (induction fuel arbitrary: M)
  case (Suc fuel)
  obtain res where res: "merge_round g prt n M = Inr res" "case res of
       None \<Rightarrow> (\<forall>a b. a < b \<longrightarrow> b < n \<longrightarrow> shared g M prt (g_nhedges g) (int a) (int b) \<le> 1)
     | Some M' \<Rightarrow> forest n M' \<and> skeys M \<subset> skeys M'"
    using merge_round_ok[OF Suc.prems(1) g r] by (auto simp: ok_iff)
  show ?case
  proof (cases res)
    case None
    with res Suc.prems(1) show ?thesis by simp
  next
    case (Some M')
    have M': "forest n M'" "skeys M \<subset> skeys M'" using res(2) Some by auto
    have "k \<in> {0..<int n}" if "k \<in> skeys M'" for k
      using M'(1) that in_skeys[of k M'] by (fastforce simp: forest_def)
    then have "card (skeys M') \<le> card {0..<int n}" by (intro card_mono) auto
    moreover have "card (skeys M) < card (skeys M')" using M'(2) by (intro psubset_card_mono) simp_all
    ultimately show ?thesis using Some res(1) Suc.IH[OF M'(1)] Suc.prems(2) by simp
  qed
qed simp

section \<open>The final parts\<close>

text \<open>What \<open>mergeParts\<close> returns, for the objects and the graph of a finished splitting.\<close>

definition merged :: "CHypergraph \<Rightarrow> CMygraph \<Rightarrow> nat \<times> int list \<times> (int, int) smap \<Rightarrow> bool" where
  "merged p g = (\<lambda>(partnum, prt, M). forest partnum M \<and> in_range partnum g prt \<and>
     (\<forall>a b. a < b \<longrightarrow> b < partnum \<longrightarrow> shared g M prt (g_nhedges g) (int a) (int b) \<le> 1))"

lemma mergeParts_ok:
  assumes t: "heap_tree hs" and g: "mygraph_spec p g" "wf_hyper p" "nvtxs (hs ! 0) = nvtxs p"
  shows "ok (mergeParts hs (Some g) []) (merged p g)"
proof -
  have len: "nvtxs (hs ! 0) \<le> length (part (hs ! 0))" and h0: "0 < length hs" using t by (auto simp: heap_tree_def wf_hyper_def)
  obtain L prt where d: "dfsForWriteParts (length hs + 1) hs (Some 0) 0 (part (hs ! 0)) = Inr (length L, prt)"
      "numbers hs 0 0 (part (hs ! 0)) L prt"
    using dfs_ok[OF t below_root.root len, of "length hs + 1" 0] by (auto simp: ok_iff)
  have n: "nvetes g = nvtxs (hs ! 0)" using g(1,3) by (simp add: mygraph_spec_def)
  have "0 \<le> prt ! v \<and> prt ! v < int (length L)" if v: "v < nvtxs (hs ! 0)" for v
  proof -
    have "v \<in> (\<Union>k \<in> set L. vset hs k)" using d(2) vset_root[OF t] v by (simp add: numbers_def)
    then obtain k where "k \<in> set L" "v \<in> vset hs k" by blast
    then obtain j where "j < length L" "v \<in> vset hs (L ! j)" by (metis in_set_conv_nth)
    then have "j < length L" "prt ! v = int j" using d(2) by (simp_all add: numbers_def)
    then show ?thesis by simp
  qed
  then have r: "in_range (length L) g prt" using n len d(2) by (simp add: in_range_def numbers_def)
  have "ok (merge_loop (length L + 1) g prt (length L) []) (\<lambda>M. merged p g (length L, prt, M))"
    by (rule ok_mono[OF merge_loop_ok[OF forest_Nil mygraph_spec_wf[OF g(2,1)] r]]) (use r in \<open>auto simp: merged_def\<close>)
  then show ?thesis using d(1) h0 by (auto simp: mergeParts_def elim!: ok_mono)
qed

lemma doHmetis_ok:
  assumes "fresh_root p" "END_NUM \<le> nvtxs p"
  shows "\<exists>n prt M g. doHmetis mem p = Inr (n, prt, M) \<and> mygraph_spec p g \<and> merged p g (n, prt, M)"
proof -
  obtain st where st: "splitAll mem p = Inr st" "split_inv p st" "sp_queue st = []"
    using splitAll_ok[OF assms(1), of mem] by (auto simp: ok_iff)
  note I = split_invD[OF st(2)]
  obtain g where g: "sp_graph st = Some g" "mygraph_spec p g"
    using I(10,11) st(3) assms(2) by (cases "sp_graph st") auto
  have wf: "wf_hyper p" using assms(1) by (simp add: fresh_root_def)
  have n0: "nvtxs (sp_heap st ! 0) = nvtxs p" using I(2) by (simp add: core_def)
  obtain n prt M where r: "mergeParts (sp_heap st) (Some g) [] = Inr (n, prt, M)" "merged p g (n, prt, M)"
    using mergeParts_ok[OF I(1) g(2) wf n0] by (auto simp: ok_iff)
  have "doHmetis mem p = Inr (n, prt, M)" using st(1) g(1) r(1) by (simp add: doHmetis_def)
  then show ?thesis using g(2) r(2) by blast
qed

lemma merged_separates:
  assumes "fresh_root p" "mygraph_spec p g" "merged p g (n, prt, M)"
  shows "(\<forall>k w. sfind M k = Some w \<longrightarrow> 0 \<le> w \<and> w < k \<and> k < int n) \<and>
     (\<forall>v < nvtxs p. \<exists>w. whichpart M (prt ! v) = Inr w \<and> 0 \<le> w \<and> w < int n) \<and>
     (\<forall>a b. a \<noteq> b \<longrightarrow> card {e. e < nhedges p \<and>
        (\<exists>u \<in> set (edge_pins p e). whichpart M (prt ! u) = Inr a) \<and>
        (\<exists>u \<in> set (edge_pins p e). whichpart M (prt ! u) = Inr b)} \<le> 1)"
proof -
  have wf: "wf_hyper p" using assms(1) by (simp add: fresh_root_def)
  have F: "forest n M" and R: "in_range n g prt"
    and S: "\<And>a b. a < b \<Longrightarrow> b < n \<Longrightarrow> shared g M prt (g_nhedges g) (int a) (int b) \<le> 1"
    using assms(3) by (auto simp: merged_def)
  have ng: "nvetes g = nvtxs p" "g_nhedges g = nhedges p" using assms(2) by (simp_all add: mygraph_spec_def)
  have pin: "set (epins g e) = set (edge_pins p e)" if "e < nhedges p" for e
    using assms(2) that by (simp add: mygraph_spec_def epins_def)
  have wp: "whichpart M (prt ! v) = Inr (rep M (prt ! v))" "0 \<le> rep M (prt ! v)" "rep M (prt ! v) < int n" if "v < nvtxs p" for v
    using whichpart_rep[OF F, of "prt ! v"] R that ng(1) by (auto simp: in_range_def)
  have pb: "u < nvtxs p" if "e < nhedges p" "u \<in> set (edge_pins p e)" for e u using kpins_bound(1)[OF wf that] .
  have ep: "(\<exists>u \<in> set (edge_pins p e). whichpart M (prt ! u) = Inr a) \<longleftrightarrow> a \<in> eparts g M prt e" if "e < nhedges p" for e a
    using pb[OF that] wp(1) pin[OF that] by (auto simp: eparts_def)
  have sh: "{e. e < nhedges p \<and> (\<exists>u \<in> set (edge_pins p e). whichpart M (prt ! u) = Inr a) \<and>
        (\<exists>u \<in> set (edge_pins p e). whichpart M (prt ! u) = Inr b)} =
      {e. e < nhedges p \<and> a \<in> eparts g M prt e \<and> b \<in> eparts g M prt e}" for a b
    using ep by blast
  have rng: "0 \<le> a \<and> a < int n" if "e < nhedges p" "a \<in> eparts g M prt e" for a e
    using that pb[OF that(1)] pin[OF that(1)] wp(2,3) by (auto simp: eparts_def)
  have le: "card {e. e < nhedges p \<and> a \<in> eparts g M prt e \<and> b \<in> eparts g M prt e} \<le> 1" if "a < b" for a b
  proof (cases "0 \<le> a \<and> b < int n")
    case True
    then have "shared g M prt (g_nhedges g) (int (nat a)) (int (nat b)) \<le> 1" using that by (intro S) auto
    then show ?thesis using True that ng(2) by (simp add: shared_def)
  next
    case False
    then have "{e. e < nhedges p \<and> a \<in> eparts g M prt e \<and> b \<in> eparts g M prt e} = {}" using rng by blast
    then show ?thesis by (simp only: card.empty)
  qed
  have "card {e. e < nhedges p \<and> a \<in> eparts g M prt e \<and> b \<in> eparts g M prt e} \<le> 1" if "a \<noteq> b" for a b
  proof (cases "a < b")
    case True
    then show ?thesis by (rule le)
  next
    case False
    then have "b < a" using that by simp
    moreover have "{e. e < nhedges p \<and> a \<in> eparts g M prt e \<and> b \<in> eparts g M prt e} =
        {e. e < nhedges p \<and> b \<in> eparts g M prt e \<and> a \<in> eparts g M prt e}" by blast
    ultimately show ?thesis using le[of b a] by simp
  qed
  then have fin: "\<forall>a b. a \<noteq> b \<longrightarrow> card {e. e < nhedges p \<and> (\<exists>u \<in> set (edge_pins p e). whichpart M (prt ! u) = Inr a) \<and>
        (\<exists>u \<in> set (edge_pins p e). whichpart M (prt ! u) = Inr b)} \<le> 1" unfolding sh by blast
  have "\<forall>k w. sfind M k = Some w \<longrightarrow> 0 \<le> w \<and> w < k \<and> k < int n" using F by (simp add: forest_def)
  then show ?thesis using fin wp by blast
qed

text \<open>
  C10. \<open>doHmetis\<close> ends on every well-formed root with at least \<open>END_NUM\<close> vertices, and the
  parts it leaves are separated: every vertex has a part number, merged parts point to smaller
  numbers, so that the final part of a vertex is found by following them, and any two
  different final parts have at most one hyperedge in common.
\<close>

theorem doHmetis_separates:
  assumes "fresh_root p" "END_NUM \<le> nvtxs p"
  shows "\<exists>partnum prt M. doHmetis mem p = Inr (partnum, prt, M) \<and>
     (\<forall>k w. sfind M k = Some w \<longrightarrow> 0 \<le> w \<and> w < k \<and> k < int partnum) \<and>
     (\<forall>v < nvtxs p. \<exists>w. whichpart M (prt ! v) = Inr w \<and> 0 \<le> w \<and> w < int partnum) \<and>
     (\<forall>a b. a \<noteq> b \<longrightarrow> card {e. e < nhedges p \<and>
        (\<exists>u \<in> set (edge_pins p e). whichpart M (prt ! u) = Inr a) \<and>
        (\<exists>u \<in> set (edge_pins p e). whichpart M (prt ! u) = Inr b)} \<le> 1)"
  using doHmetis_ok[OF assms, of mem] merged_separates[OF assms(1)] by blast

theorem doHmetis_separates_witness:
  "fresh_root sample_hyper \<and> END_NUM \<le> nvtxs sample_hyper \<and>
   (\<exists>prt M. doHmetis sample_rounds sample_hyper = Inr (2, prt, M) \<and>
     (\<forall>k w. sfind M k = Some w \<longrightarrow> 0 \<le> w \<and> w < k \<and> k < int 2))"
proof -
  have n: "END_NUM \<le> nvtxs sample_hyper" by code_simp
  have "sbind (doHmetis sample_rounds sample_hyper) (\<lambda>(n, _). Inr n) = Inr 2" by code_simp
  with doHmetis_separates[OF sample_root n, of sample_rounds] sample_root n show ?thesis by auto
qed

lemma doHmetis_small:
  assumes "fresh_root p" "nvtxs p < END_NUM"
  shows "doHmetis mem p = Inl BadIndex"
proof -
  have small: "\<not> END_NUM - 1 < nvtxs p" using assms(2) by (simp add: END_NUM_def)
  have wf: "wf_hyper p" "nvtxs p \<le> length (part p)" using assms(1) by (auto simp: fresh_root_def wf_hyper_def)
  let ?p = "p\<lparr>gfloor := 1, coupling := 0, cohesion := 1, trueNvtxs := nvtxs p, Modu := 0\<rparr>"
  have "splitAll mem p = Inr ((split_start p)\<lparr>sp_rounds := 1, endParts := [0], sp_queue := []\<rparr>)"
    using small by (simp add: splitAll_def numeral_2_eq_2 split_start_def split_round_def Let_def)
  moreover have "heap_tree [?p]"
    using split_invD(1)[OF split_start_inv(1)[OF assms(1)]] by (simp add: split_start_def)
  then obtain c prt where "dfsForWriteParts 2 [?p] (Some 0) 0 (part ?p) = Inr (c, prt)"
    using dfs_ok[OF _ below_root.root, of "[?p]" "part ?p" 2 0] wf(2) by (auto simp: ok_iff)
  ultimately show ?thesis by (simp add: doHmetis_def mergeParts_def split_start_def numeral_2_eq_2 del: dfsForWriteParts.simps)
qed

text \<open>
  A root with fewer than \<open>END_NUM\<close> vertices is never given to the partitioner, so
  \<open>pMyGraph\<close> is never set and \<open>mergeParts\<close> dereferences a wild pointer.
\<close>

theorem doHmetis_small_root:
  assumes "fresh_root p" "nvtxs p < END_NUM"
  shows "doHmetis mem p = Inl BadIndex"
  by (rule doHmetis_small[OF assms])

definition tiny_hyper :: CHypergraph where
  "tiny_hyper = sample_hyper\<lparr>nvtxs := 2, nhedges := 1, vwgts := [1, 1], eptr := [0, 2], eind := [0, 1], hewgts := [1], part := [0, 0]\<rparr>"

theorem doHmetis_small_root_witness:
  "fresh_root tiny_hyper \<and> nvtxs tiny_hyper < END_NUM \<and> doHmetis sample_rounds tiny_hyper = Inl BadIndex"
proof -
  have "wf_hyper tiny_hyper" unfolding wf_hyper_def by code_simp
  then have f: "fresh_root tiny_hyper" by (simp add: fresh_root_def leaf_def tiny_hyper_def sample_hyper_def)
  have n: "nvtxs tiny_hyper < END_NUM" by code_simp
  show ?thesis using doHmetis_small_root[OF f n] f n by simp
qed

section \<open>The written partition\<close>

text \<open>The renumbering is by first occurrence: \<open>r i\<close> is the final part of vertex \<open>i\<close>.\<close>

text \<open>
  The state after \<open>k\<close> vertices: the numbers given out are those below \<open>c\<close>, by first occurrence,
  and the map takes the final parts of these vertices to their numbers.
\<close>

definition numbered :: "(int, int) smap \<Rightarrow> int list \<Rightarrow> nat \<Rightarrow> (int, nat) smap \<times> nat \<times> nat list \<Rightarrow> bool" where
  "numbered M prt k = (\<lambda>(W, c, out). smap_ok W \<and> length out = k \<and> set out = {..<c} \<and>
     skeys W = (\<lambda>i. rep M (prt ! i)) ` {..<k} \<and> (\<forall>i < k. sfind W (rep M (prt ! i)) = Some (out ! i)) \<and> inj_on (sfind W) (skeys W) \<and>
     (\<forall>i < k. \<exists>c'. set (take i out) = {..<c'} \<and> out ! i \<le> c'))"

lemma numbered_range:
  assumes "numbered M prt k (W, c, out)" "sfind W w = Some x"
  shows "x < c"
proof -
  obtain j where j: "j < k" "w = rep M (prt ! j)" using sfind_dom[of W w x] assms by (auto simp: numbered_def)
  then have "x = out ! j" "j < length out" using assms by (auto simp: numbered_def)
  then have "x \<in> set out" by simp
  then show ?thesis using assms(1) by (auto simp: numbered_def)
qed

lemma inj_on_new:
  assumes "inj_on (sfind W) K" "\<And>z. sfind W z \<noteq> Some c"
  shows "inj_on ((sfind W)(k \<mapsto> c)) (insert k K)"
proof (rule inj_onI)
  fix x y assume x: "x \<in> insert k K" "y \<in> insert k K" and e: "((sfind W)(k \<mapsto> c)) x = ((sfind W)(k \<mapsto> c)) y"
  then show "x = y" using assms inj_onD[of "sfind W" K x y] by (cases "x = k"; cases "y = k") (simp_all, metis)
qed

lemma numbered_new:
  assumes I: "numbered M prt k (W, c, out)" and None: "sfind W (rep M (prt ! k)) = None"
  shows "numbered M prt (Suc k) (sinsert (rep M (prt ! k)) c W, c + 1, out @ [c])"
proof -
  let ?r = "\<lambda>i. rep M (prt ! i)"
  have f: "sfind (sinsert (?r k) c W) = (sfind W)(?r k \<mapsto> c)" using I None by (simp add: numbered_def sfind_sinsert fun_upd_def)
  have "inj_on (sfind W) (skeys W)" using I unfolding numbered_def prod.case by blast
  then have inj: "inj_on (sfind (sinsert (?r k) c W)) (skeys (sinsert (?r k) c W))"
    unfolding f skeys_sinsert by (rule inj_on_new) (use numbered_range[OF I] in auto)
  have "?r k \<notin> skeys W" using None by (simp add: sfind_None_iff)
  moreover have "skeys W = ?r ` {..<k}" using I by (simp add: numbered_def)
  ultimately have old: "?r j \<noteq> ?r k" if "j < k" for j using that by (metis imageI lessThan_iff)
  have "set (take j (out @ [c])) = set (take j out)" if "j < k" for j using that I by (simp add: numbered_def)
  then have "\<forall>j < Suc k. \<exists>c'. set (take j (out @ [c])) = {..<c'} \<and> (out @ [c]) ! j \<le> c'"
    using I by (auto simp: less_Suc_eq nth_append numbered_def)
  moreover have "\<forall>j < Suc k. sfind (sinsert (?r k) c W) (?r j) = Some ((out @ [c]) ! j)"
    unfolding f using I old by (auto simp: less_Suc_eq nth_append numbered_def)
  moreover have "skeys (sinsert (?r k) c W) = ?r ` {..<Suc k}" "set (out @ [c]) = {..<c + 1}" "smap_ok (sinsert (?r k) c W)" "length (out @ [c]) = Suc k"
    using I by (auto simp: lessThan_Suc numbered_def)
  ultimately show ?thesis using inj unfolding numbered_def prod.case by blast
qed

lemma numbered_seen:
  assumes I: "numbered M prt k (W, c, out)" and Some: "sfind W (rep M (prt ! k)) = Some x"
  shows "numbered M prt (Suc k) (W, c, out @ [x])"
proof -
  have x: "x < c" by (rule numbered_range[OF I Some])
  have "\<forall>j < Suc k. \<exists>c'. set (take j (out @ [x])) = {..<c'} \<and> (out @ [x]) ! j \<le> c'"
    using I x by (auto simp: less_Suc_eq nth_append numbered_def intro: exI[of _ c])
  moreover have "rep M (prt ! k) \<in> skeys W" using sfind_dom[OF Some] .
  ultimately show ?thesis using Some I x by (auto simp: numbered_def lessThan_Suc less_Suc_eq nth_append insert_absorb)
qed

lemma write_parts_ok:
  assumes M: "forest n M" and prt: "k \<le> length prt" "\<forall>v < k. 0 \<le> prt ! v"
  shows "ok (write_parts k prt M) (\<lambda>out. length out = k \<and> (\<exists>c. set out = {..<c} \<and>
     (\<forall>i < k. \<exists>c'. set (take i out) = {..<c'} \<and> out ! i \<le> c')) \<and>
     (\<forall>i j. i < k \<longrightarrow> j < k \<longrightarrow> (out ! i = out ! j \<longleftrightarrow> rep M (prt ! i) = rep M (prt ! j))))"
proof -
  have "ok (mfold (write_part M prt) ([], 0, []) [0..<k]) (numbered M prt k)"
  proof (rule mfold_ok_upt[where I = "numbered M prt"], goal_cases)
    case (3 i t)
    obtain W c out where t: "t = (W, c, out)" by (metis prod.collapse)
    have i: "i < length prt" "whichpart M (prt ! i) = Inr (rep M (prt ! i))" using 3(2) prt whichpart_rep(1)[OF M] by auto
    show ?case using numbered_new[of M prt i W c out] numbered_seen[of M prt i W c out] 3(3) t i
      by (cases "sfind W (rep M (prt ! i))") (simp_all add: write_part_def)
  qed (auto simp: numbered_def)
  then show ?thesis
    unfolding write_parts_def ok_sbind
  proof (rule ok_mono, goal_cases)
    case (1 t)
    obtain W c out where t: "t = (W, c, out)" by (metis prod.collapse)
    note I = 1(2)[unfolded t numbered_def prod.case]
    have "out ! i = out ! j \<longleftrightarrow> rep M (prt ! i) = rep M (prt ! j)" if "i < k" "j < k" for i j
    proof -
      have "sfind W (rep M (prt ! i)) = Some (out ! i)" "sfind W (rep M (prt ! j)) = Some (out ! j)"
          "rep M (prt ! i) \<in> skeys W" "rep M (prt ! j) \<in> skeys W" using I that by auto
      moreover have "inj_on (sfind W) (skeys W)" using I by blast
      ultimately show ?thesis by (metis inj_onD option.inject)
    qed
    then show ?case using I t by auto
  qed
qed

lemma merged_written:
  assumes "mygraph_spec p g" "merged p g (n, prt, M)"
  shows "\<exists>out. write_parts (nvtxs p) prt M = Inr out \<and> length out = nvtxs p \<and> (\<exists>c. set out = {..<c}) \<and>
     (\<forall>v < nvtxs p. \<exists>c. set (take v out) = {..<c} \<and> out ! v \<le> c) \<and>
     (\<forall>u v. u < nvtxs p \<longrightarrow> v < nvtxs p \<longrightarrow> (out ! u = out ! v \<longleftrightarrow> whichpart M (prt ! u) = whichpart M (prt ! v)))"
proof -
  have F: "forest n M" and R: "nvtxs p \<le> length prt" "\<forall>v < nvtxs p. 0 \<le> prt ! v"
    using assms by (auto simp: merged_def in_range_def mygraph_spec_def)
  have w: "whichpart M (prt ! v) = Inr (rep M (prt ! v))" if "v < nvtxs p" for v
    using whichpart_rep(1)[OF F] R(2) that by blast
  obtain out where "write_parts (nvtxs p) prt M = Inr out" "length out = nvtxs p" "\<exists>c. set out = {..<c}"
     "\<forall>v < nvtxs p. \<exists>c. set (take v out) = {..<c} \<and> out ! v \<le> c"
     "\<forall>i j. i < nvtxs p \<longrightarrow> j < nvtxs p \<longrightarrow> (out ! i = out ! j \<longleftrightarrow> rep M (prt ! i) = rep M (prt ! j))"
    using write_parts_ok[OF F R] by (auto simp: ok_iff)
  then show ?thesis using w by (intro exI[of _ out]) simp
qed

text \<open>
  C11. The numbers written to the partition file: for a root with at least \<open>END_NUM\<close> vertices,
  one number is written per vertex, in order; the numbers run from 0 without gaps, each new one
  is the next unused one, and two vertices get the same number exactly if they are in the same
  final part.
\<close>

theorem write_parts_correct:
  assumes "fresh_root p" "END_NUM \<le> nvtxs p"
  shows "\<exists>partnum prt M out. doHmetis mem p = Inr (partnum, prt, M) \<and> write_parts (nvtxs p) prt M = Inr out \<and>
     length out = nvtxs p \<and> (\<exists>c. set out = {..<c}) \<and>
     (\<forall>v < nvtxs p. \<exists>c. set (take v out) = {..<c} \<and> out ! v \<le> c) \<and>
     (\<forall>u v. u < nvtxs p \<longrightarrow> v < nvtxs p \<longrightarrow> (out ! u = out ! v \<longleftrightarrow> whichpart M (prt ! u) = whichpart M (prt ! v)))"
  using doHmetis_ok[OF assms, of mem] merged_written by blast

theorem write_parts_correct_witness:
  "fresh_root sample_hyper \<and> END_NUM \<le> nvtxs sample_hyper \<and>
   (\<exists>prt M out. doHmetis sample_rounds sample_hyper = Inr (2, prt, M) \<and>
      write_parts (nvtxs sample_hyper) prt M = Inr out \<and> length out = 4 \<and> (\<exists>c. set out = {..<c}))"
proof -
  have n: "END_NUM \<le> nvtxs sample_hyper" by code_simp
  have "sbind (doHmetis sample_rounds sample_hyper) (\<lambda>(n, _). Inr n) = Inr 2" by code_simp
  moreover have "nvtxs sample_hyper = 4" by (simp add: sample_hyper_def)
  ultimately show ?thesis using write_parts_correct[OF sample_root n, of sample_rounds] sample_root n by auto
qed

end
