(* ===== verification/Text.thy ===== *)
theory Text
  imports Prelude
begin

text \<open>
  Text and numbers: what the program uses of \<open>sprintf("%d")\<close> and of \<open>atoi\<close>, with the
  round trip between them, and splitting a line at blanks as a specification.
\<close>

section \<open>Printing a number\<close>

definition digit :: "nat \<Rightarrow> char" where
  "digit d = char_of (48 + d)"

definition is_digit :: "char \<Rightarrow> bool" where
  "is_digit c \<longleftrightarrow> 48 \<le> (of_char c :: nat) \<and> (of_char c :: nat) \<le> 57"

definition digit_val :: "char \<Rightarrow> nat" where
  "digit_val c = of_char c - 48"

fun nat_digits :: "nat \<Rightarrow> string" where
  "nat_digits n = (if n < 10 then [digit n] else nat_digits (n div 10) @ [digit (n mod 10)])"

declare nat_digits.simps [simp del]

text \<open>\<open>sprintf(buf, "%d", n)\<close>.\<close>

definition sprintf_d :: "int \<Rightarrow> string" where
  "sprintf_d n = (if n < 0 then CHR ''-'' # nat_digits (nat (- n)) else nat_digits (nat n))"

section \<open>Reading a number\<close>

text \<open>
  \<open>atoi\<close>: white space, an optional sign, digits up to the first other character; 0 where there
  are no digits. A value outside the range of \<open>int\<close> is undefined behaviour in C and is the
  unbounded value here.
\<close>

definition is_space :: "char \<Rightarrow> bool" where
  "is_space c \<longleftrightarrow> (let k = of_char c :: nat in k = 32 \<or> 9 \<le> k \<and> k \<le> 13)"

definition digits_val :: "string \<Rightarrow> nat" where
  "digits_val ds = foldl (\<lambda>a c. 10 * a + digit_val c) 0 ds"

definition atoi :: "string \<Rightarrow> int" where
  "atoi s = (let t = dropWhile is_space s in case t of
     [] \<Rightarrow> 0
   | c # cs \<Rightarrow>
       if c = CHR ''-'' then - int (digits_val (takeWhile is_digit cs))
       else if c = CHR ''+'' then int (digits_val (takeWhile is_digit cs))
       else int (digits_val (takeWhile is_digit t)))"

lemma atoi_Nil [simp]: "atoi [] = 0"
  by (simp add: atoi_def)

section \<open>Round trip\<close>

lemma of_char_digit: "d < 10 \<Longrightarrow> (of_char (digit d) :: nat) = 48 + d"
  by (simp add: digit_def)

lemma digit_facts [simp]: "d < 10 \<Longrightarrow> is_digit (digit d)" "d < 10 \<Longrightarrow> digit_val (digit d) = d"
  by (simp_all add: is_digit_def digit_val_def of_char_digit)

lemma nat_digits_all: "\<forall>c \<in> set (nat_digits n). is_digit c"
proof (induction n rule: nat_digits.induct)
  case (1 n)
  then show ?case by (subst nat_digits.simps) auto
qed

lemma nat_digits_ne [simp]: "nat_digits n \<noteq> []"
  by (subst nat_digits.simps) simp

lemma digits_val_snoc: "digits_val (ds @ [c]) = 10 * digits_val ds + digit_val c"
  by (simp add: digits_val_def)

lemma digits_val_nat: "digits_val (nat_digits n) = n"
proof (induction n rule: nat_digits.induct)
  case (1 n)
  show ?case
  proof (cases "n < 10")
    case True
    then show ?thesis by (subst nat_digits.simps) (simp add: digits_val_def)
  next
    case False
    with 1 have "digits_val (nat_digits (n div 10)) = n div 10" by blast
    with False show ?thesis by (subst nat_digits.simps) (simp add: digits_val_snoc)
  qed
qed

lemma nat_digits_inj: "nat_digits a = nat_digits b \<Longrightarrow> a = b"
  by (metis digits_val_nat)

lemma takeWhile_digits:
  assumes "rest = [] \<or> \<not> is_digit (hd rest)"
  shows "takeWhile is_digit (nat_digits n @ rest) = nat_digits n"
proof -
  have "takeWhile is_digit rest = []" using assms by (cases rest) auto
  then show ?thesis using nat_digits_all[of n] by (simp add: takeWhile_append2)
qed

lemma digit_char:
  assumes "is_digit c"
  shows "\<not> is_space c" "c \<noteq> CHR ''-''" "c \<noteq> CHR ''+''"
  using assms by (auto simp: is_digit_def is_space_def Let_def)

text \<open>\<open>atoi\<close> reads back what \<open>sprintf\<close> printed, also after blanks and before other text.\<close>

lemma atoi_sprintf:
  assumes b: "\<forall>c \<in> set bl. is_space c" and r: "rest = [] \<or> \<not> is_digit (hd rest)"
  shows "atoi (bl @ sprintf_d n @ rest) = n"
proof (cases "n < 0")
  case True
  have "dropWhile is_space (bl @ sprintf_d n @ rest) = CHR ''-'' # nat_digits (nat (- n)) @ rest"
    using b True by (simp add: sprintf_d_def dropWhile_append2 is_space_def)
  then show ?thesis using True takeWhile_digits[OF r, of "nat (- n)"] by (simp add: atoi_def digits_val_nat)
next
  case False
  let ?d = "nat_digits (nat n)"
  obtain c cs where d: "?d = c # cs" by (cases ?d) auto
  have c: "is_digit c" using nat_digits_all[of "nat n"] d by simp
  have "dropWhile is_space (bl @ sprintf_d n @ rest) = ?d @ rest"
    using b False d digit_char[OF c] by (simp add: sprintf_d_def dropWhile_append2)
  moreover have "digits_val (c # cs) = nat n" using digits_val_nat[of "nat n"] d by simp
  ultimately show ?thesis using False takeWhile_digits[OF r, of "nat n"] d digit_char[OF c]
    by (simp add: atoi_def)
qed

text \<open>No digit, no sign: 0.\<close>

lemma atoi_blank: "\<forall>c \<in> set s. is_space c \<Longrightarrow> atoi s = 0"
proof -
  assume "\<forall>c \<in> set s. is_space c"
  then have "dropWhile is_space s = []" by simp
  then show ?thesis by (simp only: atoi_def Let_def list.case)
qed

section \<open>Searching for a character\<close>

lemma find_suf_char: "c \<notin> set B \<Longrightarrow> find_suf [c] (B @ c # C) k = int (k + length B)"
  by (induction B arbitrary: k) auto

lemma find_suf_char_none: "c \<notin> set B \<Longrightarrow> find_suf [c] B k = - 1"
  by (induction B arbitrary: k) auto

lemma str_find_char: "c \<notin> set B \<Longrightarrow> str_find (A @ B @ c # C) [c] (int (length A)) = int (length A + length B)"
  by (simp add: str_find_def find_suf_char)

lemma str_find_char_none: "c \<notin> set B \<Longrightarrow> str_find (A @ B) [c] (int (length A)) = - 1"
  by (simp add: str_find_def find_suf_char_none)

end
