(* ===== verification/CreateHypergraph.thy ===== *)
theory CreateHypergraph
  imports Parts Text
begin

text \<open>
  \<open>CTestCaseCpp::createHypergraph\<close> of \<open>src/CArchitecture/TestCase.cpp\<close>: the map of the classes
  and their callers becomes a hypergraph, as flat arrays and as the text of three output files,
  and the line of the menu file becomes the options of the partitioner.
\<close>

section \<open>The code\<close>

text \<open>
  A \<open>calledclass\<close>. The chain of cells that hangs on a key of \<open>calledrelation\<close> is only ever
  extended at its end and read from its start: it is a list here, \<open>next\<close> is the tail.
\<close>

record calledclass =
  c_name :: string
  c_count :: nat
  bIsmemberVar :: bool

definition calledclass_init :: "string \<Rightarrow> calledclass" where
  "calledclass_init nm = \<lparr>c_name = nm, c_count = 1, bIsmemberVar = False\<rparr>"

type_synonym relation = "(string, calledclass list) smap"

subsection \<open>Numbering the classes\<close>

record numbering =
  classtonum :: "(string, nat) smap"
  classnum :: nat
  edge_count :: nat
  eind_length :: nat
  b_hyperstring :: string
  b_verticestring :: string
  b_answerstring :: string

definition numbering_init :: numbering where
  "numbering_init = \<lparr>classtonum = [], classnum = 1, edge_count = 0, eind_length = 0, b_hyperstring = [],
     b_verticestring = [], b_answerstring = []\<rparr>"

text \<open>A class met for the first time gets the next number, with a line of \<open>verticestring\<close>.\<close>

definition father_note :: "(string, string) smap \<Rightarrow> string \<Rightarrow> string" where
  "father_note fathermap nm = (case sfind fathermap nm of None \<Rightarrow> [] | Some f \<Rightarrow> ''  father: '' @ f)"

definition number_class :: "string \<Rightarrow> string \<Rightarrow> numbering \<Rightarrow> numbering" where
  "number_class nm note st = (case sfind (classtonum st) nm of
     None \<Rightarrow>
       let nownum = sprintf_d (int (classnum st)) in
       st\<lparr>classtonum := sinsert nm (classnum st) (classtonum st),
          b_verticestring := b_verticestring st @ nownum @ ''  '' @ nm @ note @ [NL],
          eind_length := eind_length st + 1, b_hyperstring := b_hyperstring st @ nownum @ '' '',
          classnum := classnum st + 1\<rparr>
   | Some n \<Rightarrow>
       st\<lparr>b_hyperstring := b_hyperstring st @ sprintf_d (int n) @ '' '', eind_length := eind_length st + 1\<rparr>)"

definition number_member :: "numbering \<Rightarrow> calledclass \<Rightarrow> numbering" where
  "number_member st p = number_class (c_name p) [] (st\<lparr>b_answerstring := b_answerstring st @ c_name p @ ''  ''\<rparr>)"

definition number_edge :: "(string, string) smap \<Rightarrow> numbering \<Rightarrow> string \<times> calledclass list \<Rightarrow> numbering" where
  "number_edge fathermap st = (\<lambda>(key, chain).
     let st = number_class key (father_note fathermap key) (st\<lparr>b_hyperstring := b_hyperstring st @ ''1 ''\<rparr>);
         st = foldl number_member (st\<lparr>b_answerstring := b_answerstring st @ key @ ''   ->   ''\<rparr>) chain in
     st\<lparr>b_answerstring := b_answerstring st @ [NL], b_hyperstring := b_hyperstring st @ [NL],
        edge_count := edge_count st + 1\<rparr>)"

definition number_all :: "(string, string) smap \<Rightarrow> relation \<Rightarrow> numbering" where
  "number_all fathermap calledrelation = foldl (number_edge fathermap) numbering_init calledrelation"

definition hyper_text :: "numbering \<Rightarrow> string" where
  "hyper_text st = sprintf_d (int (edge_count st)) @ '' '' @ sprintf_d (int (classnum st) - 1) @ '' '' @ ''11'' @ [NL] @
     b_hyperstring st @ concat (replicate (classnum st - 1) (''1'' @ [NL]))"

subsection \<open>Filling the arrays\<close>

text \<open>\<open>find\<close> without a test: a class without a number would dereference \<open>end()\<close>.\<close>

definition put_class :: "(string, nat) smap \<Rightarrow> nat list \<times> nat \<Rightarrow> string \<Rightarrow> error + nat list \<times> nat" where
  "put_class nums = (\<lambda>(eind, eindnum) nm. case sfind nums nm of
     None \<Rightarrow> Inl BadIndex
   | Some n \<Rightarrow> sbind (aset eind eindnum (n - 1)) (\<lambda>eind. Inr (eind, eindnum + 1)))"

definition put_edge :: "(string, nat) smap \<Rightarrow> nat list \<times> nat list \<times> nat \<times> nat \<Rightarrow> string \<times> calledclass list \<Rightarrow>
    error + nat list \<times> nat list \<times> nat \<times> nat" where
  "put_edge nums = (\<lambda>(eptr, eind, eindnum, edgenum) (key, chain).
     sbind (put_class nums (eind, eindnum) key) (\<lambda>(eind, next).
     sbind (aset eptr edgenum eindnum) (\<lambda>eptr.
     sbind (mfold (put_class nums) (eind, next) (map c_name chain)) (\<lambda>(eind, next).
       Inr (eptr, eind, next, edgenum + 1)))))"

subsection \<open>The options\<close>

text \<open>
  \<open>string str[10]\<close> takes the text before every blank of the line; what follows the last blank
  is not stored.
\<close>

fun para_loop :: "nat \<Rightarrow> string \<Rightarrow> string list \<Rightarrow> nat \<Rightarrow> int \<Rightarrow> int \<Rightarrow> error + string list \<times> nat" where
  "para_loop 0 strPara str n lastpos pos = Inl OutOfFuel"
| "para_loop (Suc fuel) strPara str n lastpos pos =
     (if pos = - 1 then Inr (str, n)
      else sbind (str_substr strPara lastpos (pos - lastpos)) (\<lambda>w.
           sbind (aset str n w) (\<lambda>str.
             para_loop fuel strPara str (n + 1) pos (str_find strPara '' '' (pos + 1)))))"

definition para_words :: "string \<Rightarrow> error + string list \<times> nat" where
  "para_words strPara = para_loop (length strPara + 1) strPara (replicate 10 []) 0 0 (str_find strPara '' '' 0)"

definition set_options :: "string \<Rightarrow> CHypergraph \<Rightarrow> error + CHypergraph" where
  "set_options strPara p = sbind (para_words strPara) (\<lambda>(str, NumOfLineWord).
     if NumOfLineWord + 1 = 3 then
       Inr (p\<lparr>npart := atoi (str ! 1), ubfactor := atoi (str ! 2), inOptions := [0, 10, 1, 1, 1, 0, 0, - 1, 0]\<rparr>)
     else if NumOfLineWord + 1 = 9 then
       Inr (p\<lparr>npart := atoi (str ! 1), ubfactor := atoi (str ! 2),
         inOptions := [1, atoi (str ! 3), atoi (str ! 4), atoi (str ! 5), atoi (str ! 6), atoi (str ! 7), 0, - 1, atoi (str ! 8)]\<rparr>)
     else Inr p)"

subsection \<open>The whole function\<close>

text \<open>Memory that \<open>new\<close> returns: the object itself and the arrays.\<close>

record hyper_mem =
  hm_obj :: CHypergraph
  hm_eptr :: "nat \<Rightarrow> nat"
  hm_eind :: "nat \<Rightarrow> nat"
  hm_part :: "nat \<Rightarrow> int"
  hm_options :: "nat \<Rightarrow> int"

definition createHypergraph :: "hyper_mem \<Rightarrow> (string, string) smap \<Rightarrow> relation \<Rightarrow> string \<Rightarrow> error + CHypergraph" where
  "createHypergraph mem fathermap calledrelation strPara =
     (let st = number_all fathermap calledrelation; i = edge_count st in
      sbind (mfold (put_edge (classtonum st)) (fresh (hm_eptr mem) (i + 1), fresh (hm_eind mem) (eind_length st), 0, 0) calledrelation)
        (\<lambda>(eptr', eind', eindnum, edgenum).
      sbind (aset eptr' edgenum eindnum) (\<lambda>eptr'.
        set_options strPara ((CHypergraph_init (hm_obj mem))\<lparr>
          hyperstring := hyper_text st, answerstring := b_answerstring st, verticestring := b_verticestring st,
          nhedges := i, nvtxs := classnum st - 1, hewgts := replicate i 1, eptr := eptr', eind := eind',
          vwgts := replicate (classnum st - 1) 1, part := fresh (hm_part mem) (classnum st - 1),
          inOptions := fresh (hm_options mem) 9\<rparr>))))"

section \<open>Numbers by first occurrence\<close>

definition firsts :: "'a list \<Rightarrow> 'a list" where
  "firsts ns = foldl (\<lambda>xs x. if x \<in> set xs then xs else xs @ [x]) [] ns"

definition vno :: "'a list \<Rightarrow> 'a \<Rightarrow> nat" where
  "vno ns x = length (takeWhile (\<lambda>y. y \<noteq> x) (firsts ns))"

lemma firsts_Nil [simp]: "firsts [] = []"
  by (simp add: firsts_def)

lemma set_firsts [simp]: "set (firsts ns) = set ns"
  by (induction ns rule: rev_induct) (auto simp: firsts_def)

lemma firsts_snoc: "firsts (ns @ [x]) = (if x \<in> set ns then firsts ns else firsts ns @ [x])"
  using set_firsts[of ns] by (simp add: firsts_def)

lemma firsts_distinct [simp]: "distinct (firsts ns)"
  by (induction ns rule: rev_induct) (auto simp: firsts_snoc)

lemma firsts_append: "\<exists>xs. firsts (ns @ ms) = firsts ns @ xs"
proof (induction ms rule: rev_induct)
  case (snoc x ms)
  then obtain xs where "firsts (ns @ ms) = firsts ns @ xs" by blast
  then show ?case using firsts_snoc[of "ns @ ms" x] by (cases "x \<in> set (ns @ ms)") auto
qed simp

lemma vno_append: "x \<in> set ns \<Longrightarrow> vno (ns @ ms) x = vno ns x"
proof -
  assume x: "x \<in> set ns"
  obtain xs where "firsts (ns @ ms) = firsts ns @ xs" using firsts_append by blast
  then show ?thesis using x by (simp add: vno_def takeWhile_append1[of x])
qed

lemma nth_vno: "x \<in> set ns \<Longrightarrow> vno ns x < length (firsts ns) \<and> firsts ns ! vno ns x = x"
proof -
  assume "x \<in> set ns"
  then have "x \<in> set (firsts ns)" by simp
  then obtain as bs where d: "firsts ns = as @ x # bs" "x \<notin> set as" by (metis split_list_first)
  then have "takeWhile (\<lambda>y. y \<noteq> x) (firsts ns) = as" by (auto simp: takeWhile_append)
  then show ?thesis using d by (simp add: vno_def)
qed

lemma vno_new: "x \<notin> set ns \<Longrightarrow> vno (ns @ [x]) x = length (firsts ns)"
proof -
  assume x: "x \<notin> set ns"
  then have "takeWhile (\<lambda>y. y \<noteq> x) (firsts ns @ [x]) = firsts ns" by (subst takeWhile_append2) auto
  then show ?thesis using x by (simp add: vno_def firsts_snoc)
qed

lemma vno_inj: "x \<in> set ns \<Longrightarrow> y \<in> set ns \<Longrightarrow> vno ns x = vno ns y \<Longrightarrow> x = y"
  using nth_vno[of x ns] nth_vno[of y ns] by metis

section \<open>The classes get their numbers\<close>

definition names :: "string \<times> calledclass list \<Rightarrow> string list" where
  "names = (\<lambda>(key, chain). key # map c_name chain)"

definition all_names :: "relation \<Rightarrow> string list" where
  "all_names rel = concat (map names rel)"

definition nums_text :: "string list \<Rightarrow> string list \<Rightarrow> string" where
  "nums_text ns nms = concat (map (\<lambda>nm. sprintf_d (int (vno ns nm) + 1) @ '' '') nms)"

definition named_by :: "string list \<Rightarrow> numbering \<Rightarrow> bool" where
  "named_by ns st \<longleftrightarrow> smap_ok (classtonum st) \<and> skeys (classtonum st) = set ns \<and>
     classnum st = length (firsts ns) + 1 \<and> (\<forall>nm \<in> set ns. sfind (classtonum st) nm = Some (vno ns nm + 1))"

lemma nums_text_append: "set nms \<subseteq> set ns \<Longrightarrow> nums_text (ns @ ms) nms = nums_text ns nms"
proof -
  assume a: "set nms \<subseteq> set ns"
  then have "map (\<lambda>nm. sprintf_d (int (vno (ns @ ms) nm) + 1) @ '' '') nms = map (\<lambda>nm. sprintf_d (int (vno ns nm) + 1) @ '' '') nms"
    using vno_append[of _ ns ms] by (intro map_cong) auto
  then show ?thesis by (simp only: nums_text_def)
qed

lemma number_class_ok:
  assumes "named_by ns st"
  shows "named_by (ns @ [nm]) (number_class nm note st)"
    "b_hyperstring (number_class nm note st) = b_hyperstring st @ nums_text (ns @ [nm]) [nm]"
    "eind_length (number_class nm note st) = eind_length st + 1"
    "edge_count (number_class nm note st) = edge_count st"
    "b_answerstring (number_class nm note st) = b_answerstring st"
proof -
  have I: "smap_ok (classtonum st)" "skeys (classtonum st) = set ns" "classnum st = length (firsts ns) + 1"
      "\<And>x. x \<in> set ns \<Longrightarrow> sfind (classtonum st) x = Some (vno ns x + 1)" using assms by (auto simp: named_by_def)
  have "named_by (ns @ [nm]) (number_class nm note st) \<and>
    b_hyperstring (number_class nm note st) = b_hyperstring st @ nums_text (ns @ [nm]) [nm]"
  proof (cases "nm \<in> set ns")
    case True
    have ns: "firsts (ns @ [nm]) = firsts ns" "vno (ns @ [nm]) = vno ns" using True by (auto simp: firsts_snoc vno_def fun_eq_iff)
    then show ?thesis
      using True I by (auto simp: number_class_def named_by_def nums_text_def insert_absorb add.commute)
  next
    case False
    then have none: "sfind (classtonum st) nm = None" using I(2) by (simp add: sfind_None_iff)
    have "x \<in> set ns \<Longrightarrow> vno (ns @ [nm]) x = vno ns x" for x by (rule vno_append)
    then show ?thesis
      using False I none vno_new[OF False]
      by (auto simp: number_class_def named_by_def nums_text_def Let_def sfind_sinsert firsts_snoc add.commute)
  qed
  then show "named_by (ns @ [nm]) (number_class nm note st)"
    "b_hyperstring (number_class nm note st) = b_hyperstring st @ nums_text (ns @ [nm]) [nm]" by auto
qed (auto simp: number_class_def Let_def split: option.splits)

lemma named_by_upd [simp]:
  "named_by ns (st\<lparr>b_hyperstring := h\<rparr>) = named_by ns st" "named_by ns (st\<lparr>b_answerstring := h\<rparr>) = named_by ns st"
  "named_by ns (st\<lparr>edge_count := k\<rparr>) = named_by ns st"
  by (simp_all add: named_by_def)

lemma number_members_ok:
  assumes "named_by ns st"
  shows "let st' = foldl number_member st chain in named_by (ns @ map c_name chain) st' \<and>
     b_hyperstring st' = b_hyperstring st @ nums_text (ns @ map c_name chain) (map c_name chain) \<and>
     eind_length st' = eind_length st + length chain \<and> edge_count st' = edge_count st \<and>
     b_answerstring st' = b_answerstring st @ concat (map (\<lambda>p. c_name p @ ''  '') chain)"
  using assms
proof (induction chain arbitrary: ns st)
  case Nil
  then show ?case by (simp add: nums_text_def)
next
  case (Cons p chain)
  let ?st = "number_member st p" and ?ns = "ns @ [c_name p]"
  have "named_by ns (st\<lparr>b_answerstring := b_answerstring st @ c_name p @ ''  ''\<rparr>)" using Cons.prems by simp
  note s = number_class_ok[OF this, of "c_name p" "[]", folded number_member_def]
  have "nums_text (ns @ c_name p # map c_name chain) [c_name p] = nums_text ?ns [c_name p]"
    using nums_text_append[of "[c_name p]" ?ns "map c_name chain"] by simp
  then show ?case using Cons.IH[OF s(1)] s(2-5) by (simp add: Let_def nums_text_def)
qed

definition edge_text :: "string list \<Rightarrow> string \<times> calledclass list \<Rightarrow> string" where
  "edge_text ns e = ''1 '' @ nums_text ns (names e) @ [NL]"

definition answer_text :: "string \<times> calledclass list \<Rightarrow> string" where
  "answer_text = (\<lambda>(key, chain). key @ ''   ->   '' @ concat (map (\<lambda>p. c_name p @ ''  '') chain) @ [NL])"

lemma number_edge_ok:
  assumes "named_by ns st"
  shows "named_by (ns @ names e) (number_edge fm st e) \<and>
     b_hyperstring (number_edge fm st e) = b_hyperstring st @ edge_text (ns @ names e) e \<and>
     eind_length (number_edge fm st e) = eind_length st + length (names e) \<and>
     edge_count (number_edge fm st e) = edge_count st + 1 \<and>
     b_answerstring (number_edge fm st e) = b_answerstring st @ answer_text e"
proof -
  obtain key chain where e: "e = (key, chain)" by force
  let ?st0 = "st\<lparr>b_hyperstring := b_hyperstring st @ ''1 ''\<rparr>"
  define st1 where "st1 = number_class key (father_note fm key) ?st0"
  have "named_by ns ?st0" using assms by simp
  note s = number_class_ok[OF this, of key "father_note fm key", folded st1_def]
  let ?st2 = "st1\<lparr>b_answerstring := b_answerstring st1 @ key @ ''   ->   ''\<rparr>"
  have "named_by (ns @ [key]) ?st2" using s(1) by simp
  note t = number_members_ok[OF this, of chain, unfolded Let_def]
  have k: "nums_text (ns @ key # map c_name chain) [key] = nums_text (ns @ [key]) [key]"
    using nums_text_append[of "[key]" "ns @ [key]" "map c_name chain"] by simp
  show ?thesis using t s(2-5) k
    by (simp add: e number_edge_def Let_def st1_def[symmetric] names_def edge_text_def answer_text_def nums_text_def)
qed

lemma edge_text_append: "set (names e) \<subseteq> set ns \<Longrightarrow> edge_text (ns @ ms) e = edge_text ns e"
  by (simp add: edge_text_def nums_text_append)

lemma number_all_ok:
  "let st = number_all fm rel in named_by (all_names rel) st \<and>
     b_hyperstring st = concat (map (edge_text (all_names rel)) rel) \<and>
     eind_length st = length (all_names rel) \<and> edge_count st = length rel \<and>
     b_answerstring st = concat (map answer_text rel)"
proof (induction rel rule: rev_induct)
  case Nil
  then show ?case by (simp add: number_all_def numbering_init_def named_by_def all_names_def)
next
  case (snoc e rel)
  let ?st = "number_all fm rel"
  have I: "named_by (all_names rel) ?st" using snoc by (simp add: Let_def)
  have st: "number_all fm (rel @ [e]) = number_edge fm ?st e" by (simp add: number_all_def)
  have ns: "all_names (rel @ [e]) = all_names rel @ names e" by (simp add: all_names_def)
  have "map (edge_text (all_names rel @ names e)) rel = map (edge_text (all_names rel)) rel"
    by (rule map_cong) (auto simp: all_names_def intro!: edge_text_append)
  then show ?case using snoc number_edge_ok[OF I, of e fm] unfolding Let_def st ns map_append concat_append by (simp del: map_eq_conv)
qed

section \<open>The arrays\<close>

lemma put_classes_ok:
  assumes "\<forall>nm \<in> set nms. sfind nums nm = Some (f nm + 1)" "length A = k" "k + length nms \<le> length (A @ B)"
  shows "mfold (put_class nums) (A @ B, k) nms = Inr (A @ map f nms @ drop (length nms) B, k + length nms)"
  using assms
proof (induction nms arbitrary: A B k)
  case (Cons nm nms)
  obtain b B' where B: "B = b # B'" using Cons.prems by (cases B) auto
  have "aset (A @ B) k (f nm) = Inr ((A @ [f nm]) @ B')" using Cons.prems B by (auto simp: aset_def)
  moreover have "mfold (put_class nums) ((A @ [f nm]) @ B', k + 1) nms =
      Inr ((A @ [f nm]) @ map f nms @ drop (length nms) B', k + 1 + length nms)"
    by (rule Cons.IH) (use Cons.prems B in auto)
  ultimately show ?case using Cons.prems(1) B by (simp add: put_class_def)
qed simp

lemma put_edge_fold:
  "put_edge nums (eptr0, eind0, k, n) e = sbind (aget (names e) 0) (\<lambda>_.
     sbind (put_class nums (eind0, k) (hd (names e))) (\<lambda>(eind1, k1). sbind (aset eptr0 n k) (\<lambda>eptr1.
     sbind (mfold (put_class nums) (eind1, k1) (tl (names e))) (\<lambda>(eind1, k1). Inr (eptr1, eind1, k1, n + 1)))))"
  by (cases e) (simp add: put_edge_def names_def)

lemma put_edge_ok:
  assumes "\<forall>nm \<in> set (names e). sfind nums nm = Some (f nm + 1)" "length A + length (names e) \<le> length (A @ B)" "n < length eptr0"
  shows "put_edge nums (eptr0, A @ B, length A, n) e =
     Inr (eptr0[n := length A], A @ map f (names e) @ drop (length (names e)) B, length A + length (names e), n + 1)"
proof -
  obtain nm nms where e: "names e = nm # nms" by (cases e) (simp add: names_def)
  obtain b B' where B: "B = b # B'" using assms(2) e by (cases B) auto
  have "put_class nums (A @ B, length A) nm = Inr ((A @ [f nm]) @ B', length A + 1)"
    using assms(1) e B by (simp add: put_class_def aset_def)
  moreover have "mfold (put_class nums) ((A @ [f nm]) @ B', length A + 1) nms =
      Inr ((A @ [f nm]) @ map f nms @ drop (length nms) B', length A + 1 + length nms)"
    by (rule put_classes_ok) (use assms(1,2) e B in auto)
  ultimately show ?thesis using assms(3) e B by (simp add: put_edge_fold)
qed

definition place :: "(string \<Rightarrow> nat) \<Rightarrow> relation \<Rightarrow> nat list" where
  "place f rel = concat (map (map f \<circ> names) rel)"

lemma length_place: "length (place f rel) = length (all_names rel)"
  by (induction rel) (auto simp: place_def all_names_def)

lemma put_edges_ok:
  assumes nm: "\<forall>nm \<in> set (all_names rel). sfind nums nm = Some (f nm + 1)" and l: "length eind0 = length (all_names rel)"
    and e: "length eptr0 = length rel + 1"
  shows "ok (mfold (put_edge nums) (eptr0, eind0, 0, 0) rel) (\<lambda>(eptr1, eind1, k, n). eind1 = place f rel \<and>
     k = length (all_names rel) \<and> n = length rel \<and> length eptr1 = length rel + 1 \<and>
     (\<forall>i < length rel. eptr1 ! i = length (all_names (take i rel))))"
proof -
  have "ok (mfold (put_edge nums) (eptr0, eind0, 0, 0) rel) (\<lambda>(eptr1, eind1, k, n).
     eind1 = place f rel @ drop (length (all_names rel)) eind0 \<and> k = length (all_names rel) \<and> n = length rel \<and> length eptr1 = length eptr0 \<and>
     (\<forall>i < length rel. eptr1 ! i = length (all_names (take i rel))))"
  proof (rule mfold_ok_prefix[where I = "\<lambda>ys (eptr1, eind1, k, n).
     eind1 = place f ys @ drop (length (all_names ys)) eind0 \<and> k = length (all_names ys) \<and> n = length ys \<and> length eptr1 = length eptr0 \<and>
     (\<forall>i < length ys. eptr1 ! i = length (all_names (take i ys)))"], goal_cases)
    case (2 ys z zs t)
    obtain eptr1 eind1 k n where t: "t = (eptr1, eind1, k, n)" by (metis prod.collapse)
    note I = 2(2)[unfolded t prod.case]
    have len: "length (all_names rel) = length (all_names ys) + length (names z) + length (all_names zs)"
      by (simp add: 2(1) all_names_def)
    have "put_edge nums (eptr1, place f ys @ drop (length (all_names ys)) eind0, length (place f ys), n) z =
       Inr (eptr1[n := length (place f ys)], place f ys @ map f (names z) @ drop (length (names z)) (drop (length (all_names ys)) eind0),
         length (place f ys) + length (names z), n + 1)"
    proof (rule put_edge_ok)
      show "\<forall>nm \<in> set (names z). sfind nums nm = Some (f nm + 1)" using nm by (simp add: 2(1) all_names_def)
      show "length (place f ys) + length (names z) \<le> length (place f ys @ drop (length (all_names ys)) eind0)"
        using len l by (simp add: length_place)
      show "n < length eptr1" using I e 2(1) by simp
    qed
    moreover have "all_names (ys @ [z]) = all_names ys @ names z" "place f (ys @ [z]) = place f ys @ map f (names z)"
      by (simp_all add: all_names_def place_def)
    ultimately show ?case using I t e 2(1) by (auto simp: length_place nth_list_update less_Suc_eq add.commute)
  qed (auto simp: place_def all_names_def)
  then show ?thesis using l e by (auto elim!: ok_mono)
qed

lemma map_nth_middle: "map ((!) (A @ B @ C)) [length A..<length A + length B] = B"
  by (rule nth_equalityI) (auto simp: nth_append)

text \<open>The pins of an edge are the numbers of its classes.\<close>

lemma place_edge:
  assumes "i < length rel"
  shows "map ((!) (place f rel)) [length (all_names (take i rel))..<length (all_names (take (i + 1) rel))] = map f (names (rel ! i))"
proof -
  have r: "rel = take i rel @ rel ! i # drop (i + 1) rel" using assms by (simp add: id_take_nth_drop)
  have "place f rel = place f (take i rel) @ map f (names (rel ! i)) @ place f (drop (i + 1) rel)"
    by (subst r) (simp add: place_def)
  moreover have "length (all_names (take (i + 1) rel)) = length (place f (take i rel)) + length (map f (names (rel ! i)))"
    using assms by (simp add: take_Suc_conv_app_nth length_place) (simp add: all_names_def)
  ultimately show ?thesis using map_nth_middle[of "place f (take i rel)" "map f (names (rel ! i))"] by (simp add: length_place)
qed

section \<open>The options\<close>

text \<open>A line as words separated by single blanks.\<close>

definition unwords :: "string \<Rightarrow> string list \<Rightarrow> string" where
  "unwords w ws = w @ concat (map (Cons CHR '' '') ws)"

definition blank_free :: "string list \<Rightarrow> bool" where
  "blank_free ws \<longleftrightarrow> (\<forall>w \<in> set ws. CHR '' '' \<notin> set w)"

lemma unwords_ex: "\<exists>w ws. s = unwords w ws \<and> blank_free (w # ws) \<and> length ws = count_list s CHR '' ''"
proof (induction s)
  case Nil
  then show ?case by (intro exI[of _ "[]"]) (simp add: unwords_def blank_free_def)
next
  case (Cons c s)
  then obtain w ws where I: "s = unwords w ws" "blank_free (w # ws)" "length ws = count_list s CHR '' ''" by blast
  show ?case
  proof (cases "c = CHR '' ''")
    case True
    with I show ?thesis by (intro exI[of _ "[]"] exI[of _ "w # ws"]) (simp add: unwords_def blank_free_def)
  next
    case False
    with I show ?thesis by (intro exI[of _ "c # w"] exI[of _ ws]) (auto simp: unwords_def blank_free_def)
  qed
qed

lemma para_loop_ok:
  assumes "blank_free ws" "n + length ws \<le> length str" "length ws < fuel"
  shows "para_loop fuel (P @ unwords w ws) str n (int (length P))
       (if ws = [] then - 1 else int (length P + length w)) =
     Inr (take n str @ take (length ws) (w # map (Cons CHR '' '') ws) @ drop (n + length ws) str, n + length ws)"
  using assms
proof (induction ws arbitrary: fuel P w n str)
  case Nil
  then show ?case by (cases fuel) auto
next
  case (Cons v ws)
  let ?s = "P @ unwords w (v # ws)" and ?P = "P @ w" and ?w = "CHR '' '' # v"
  obtain f where f: "fuel = Suc f" "length ws < f" using Cons.prems(3) by (cases fuel) auto
  have s: "?s = ?P @ unwords ?w ws" by (simp add: unwords_def)
  have sub: "str_substr ?s (int (length P)) (int (length P + length w) - int (length P)) = Inr w"
    by (simp add: str_substr_def unwords_def)
  have n: "n < length str" using Cons.prems(2) by simp
  have find: "str_find ?s '' '' (int (length ?P) + 1) = (if ws = [] then - 1 else int (length ?P + length ?w))"
  proof (cases ws)
    case Nil
    then show ?thesis
      using str_find_char_none[of "CHR '' ''" v "?P @ '' ''"] Cons.prems(1) by (simp add: s unwords_def blank_free_def add.commute)
  next
    case (Cons u us)
    then show ?thesis
      using str_find_char[of "CHR '' ''" v "?P @ '' ''" "u @ concat (map (Cons CHR '' '') us)"] Cons.prems(1)
      by (simp add: s unwords_def blank_free_def add.commute)
  qed
  have "para_loop f ?s (str[n := w]) (n + 1) (int (length ?P)) (str_find ?s '' '' (int (length ?P) + 1)) =
     Inr (take (n + 1) (str[n := w]) @ take (length ws) (?w # map (Cons CHR '' '') ws) @ drop (n + 1 + length ws) (str[n := w]), n + 1 + length ws)"
    unfolding find unfolding s by (rule Cons.IH) (use Cons.prems f in \<open>auto simp: blank_free_def\<close>)
  moreover have "para_loop fuel ?s str n (int (length P)) (int (length P + length w)) =
      para_loop f ?s (str[n := w]) (n + 1) (int (length ?P)) (str_find ?s '' '' (int (length ?P) + 1))"
    using f(1) sub n by simp
  moreover have "take (n + 1) (str[n := w]) = take n str @ [w]" using n by (simp add: take_Suc_conv_app_nth)
  ultimately show ?case by simp
qed

text \<open>What \<open>para_words\<close> stores of a line: every word but the last, all but the first with their blank.\<close>

lemma para_words_ok:
  assumes "blank_free (w # ws)" "length ws \<le> 10"
  shows "para_words (unwords w ws) = Inr (take (length ws) (w # map (Cons CHR '' '') ws) @ replicate (10 - length ws) [], length ws)"
proof -
  have "length ws < length (unwords w ws) + 1" 
  proof (induction ws)
    case (Cons v ws)
    then show ?case by (simp add: unwords_def)
  qed simp
  moreover have "str_find (unwords w ws) '' '' 0 = (if ws = [] then - 1 else int (length w))"
  proof (cases ws)
    case Nil
    then show ?thesis using str_find_char_none[of "CHR '' ''" w "[]"] assms(1) by (simp add: unwords_def blank_free_def)
  next
    case (Cons v vs)
    then show ?thesis using str_find_char[of "CHR '' ''" w "[]" "v @ concat (map (Cons CHR '' '') vs)"] assms(1)
      by (simp add: unwords_def blank_free_def)
  qed
  ultimately show ?thesis
    using para_loop_ok[of ws 0 "replicate 10 []" "length (unwords w ws) + 1" "[]" w] assms
    by (cases "ws = []") (simp_all add: para_words_def blank_free_def del: para_loop.simps)
qed

lemma set_options_frame:
  assumes "count_list strPara CHR '' '' \<le> 10" "length (inOptions p) = 9"
  shows "ok (set_options strPara p) (\<lambda>q. \<exists>a b c. q = p\<lparr>npart := a, ubfactor := b, inOptions := c\<rparr> \<and> length c = 9)"
proof -
  obtain w ws where "strPara = unwords w ws" "blank_free (w # ws)" "length ws = count_list strPara CHR '' ''"
    using unwords_ex by blast
  then have "\<exists>str. para_words strPara = Inr (str, length ws)" using para_words_ok[of w ws] assms(1) by auto
  then obtain str n where str: "para_words strPara = Inr (str, n)" by blast
  let ?Q = "\<lambda>q. \<exists>a b c. q = p\<lparr>npart := a, ubfactor := b, inOptions := c\<rparr> \<and> length c = 9"
  have Q: "?Q (p\<lparr>npart := a, ubfactor := b, inOptions := c\<rparr>)" if "length c = 9" for a b c using that by blast
  have "?Q p" by (intro exI[of _ "npart p"] exI[of _ "ubfactor p"] exI[of _ "inOptions p"]) (simp add: assms(2))
  then show ?thesis unfolding set_options_def str sbind_Inr prod.case ok_if ok_Inr using Q by simp
qed

section \<open>The hypergraph of a relation\<close>

text \<open>
  What the parser establishes of \<open>calledrelation\<close>: no class is among its own callers and no
  caller is listed twice.
\<close>

definition wf_relation :: "relation \<Rightarrow> bool" where
  "wf_relation rel \<longleftrightarrow> smap_ok rel \<and> (\<forall>e \<in> set rel. distinct (names e))"

text \<open>The hMetis file of a hypergraph: a header, a line per hyperedge, a line per vertex.\<close>

definition hgr_text :: "CHypergraph \<Rightarrow> string" where
  "hgr_text p = sprintf_d (int (nhedges p)) @ '' '' @ sprintf_d (int (nvtxs p)) @ '' 11'' @ [NL] @
     concat (map (\<lambda>e. ''1 '' @ concat (map (\<lambda>v. sprintf_d (int v + 1) @ '' '') (edge_pins p e)) @ [NL]) [0..<nhedges p]) @
     concat (replicate (nvtxs p) (''1'' @ [NL]))"

text \<open>The two arrays hold the numbers of the names, edge after edge: a well-formed hypergraph.\<close>

lemma placed_hypergraph:
  assumes wf: "wf_relation rel"
    and f: "nvtxs q = length (firsts (all_names rel))" "nhedges q = length rel" "length (eptr q) = length rel + 1"
      "\<forall>i \<le> length rel. eptr q ! i = length (all_names (take i rel))" "eind q = place (vno (all_names rel)) rel"
  shows "e < length rel \<Longrightarrow> edge_pins q e = map (vno (all_names rel)) (names (rel ! e))"
    "hewgts q = replicate (nhedges q) 1 \<Longrightarrow> vwgts q = replicate (nvtxs q) 1 \<Longrightarrow> nvtxs q \<le> length (part q) \<Longrightarrow> wf_hyper q"
proof -
  define ns where "ns = all_names rel"
  note f' = f[folded ns_def]
  show pins: "edge_pins q e = map (vno ns) (names (rel ! e))" if "e < length rel" for e
    using place_edge[OF that, of "vno ns"] that f' by (simp add: edge_pins_def)
  have sub: "set (names (rel ! e)) \<subseteq> set ns" if "e < length rel" for e
    using nth_mem[OF that] unfolding ns_def all_names_def set_concat set_map by blast
  assume w: "hewgts q = replicate (nhedges q) 1" "vwgts q = replicate (nvtxs q) 1" "nvtxs q \<le> length (part q)"
  show "wf_hyper q"
    unfolding wf_hyper_def
  proof (intro conjI allI impI ballI)
    fix e assume e: "e < nhedges q"
    have "length (all_names (take (e + 1) rel)) = length (all_names (take e rel)) + length (names (rel ! e))"
      using e f(2) by (simp add: take_Suc_conv_app_nth all_names_def)
    then show "eptr q ! e < eptr q ! (e + 1)"
      using f(4) e f(2) by (cases "rel ! e") (simp add: names_def)
    show "distinct (edge_pins q e)"
      using pins wf e f(2) sub vno_inj[of _ ns] by (auto simp: distinct_map wf_relation_def inj_on_def subset_iff)
    show "v < nvtxs q" if "v \<in> set (edge_pins q e)" for v
      using that pins e f'(1,2) sub nth_vno[of _ ns] by (auto simp: subset_iff)
  next
    fix v assume v: "v < nvtxs q"
    then have m: "firsts ns ! v \<in> set ns" using f'(1) nth_mem[of v "firsts ns"] by simp
    then obtain e where e: "e < length rel" "firsts ns ! v \<in> set (names (rel ! e))"
      by (auto simp: ns_def all_names_def in_set_conv_nth[of _ rel])
    have "vno ns (firsts ns ! v) = v"
      using nth_vno[OF m] v f'(1) nth_eq_iff_index_eq[OF firsts_distinct] by metis
    then show "\<exists>e < nhedges q. v \<in> set (edge_pins q e)" using e pins f(2) by (metis imageI set_map)
  qed (use f w in \<open>auto simp: length_place\<close>)
qed

lemma createHypergraph_ok:
  assumes wf: "wf_relation rel" and sp: "count_list strPara CHR '' '' \<le> 10"
  shows "ok (createHypergraph mem fm rel strPara) (\<lambda>p. fresh_root p \<and> nvtxs p = length (firsts (all_names rel)) \<and>
     nhedges p = length rel \<and> (\<forall>e < length rel. edge_pins p e = map (vno (all_names rel)) (names (rel ! e))) \<and>
     hyperstring p = hgr_text p \<and> answerstring p = concat (map answer_text rel))"
proof -
  define ns where "ns = all_names rel"
  define st where "st = number_all fm rel"
  have N: "named_by ns st" "b_hyperstring st = concat (map (edge_text ns) rel)" "eind_length st = length ns"
     "edge_count st = length rel" "b_answerstring st = concat (map answer_text rel)"
    using number_all_ok[of fm rel] by (auto simp: ns_def st_def Let_def)
  have num: "\<forall>nm \<in> set (all_names rel). sfind (classtonum st) nm = Some (vno ns nm + 1)" and cn: "classnum st - 1 = length (firsts ns)"
    "int (classnum st) - 1 = int (length (firsts ns))"
    using N(1) by (auto simp: named_by_def ns_def)
  obtain eptr1 eind1 where P: "mfold (put_edge (classtonum st)) (fresh (hm_eptr mem) (edge_count st + 1), fresh (hm_eind mem) (eind_length st), 0, 0) rel =
       Inr (eptr1, eind1, length ns, length rel)" "eind1 = place (vno ns) rel" "length eptr1 = length rel + 1"
       "\<forall>i < length rel. eptr1 ! i = length (all_names (take i rel))"
    using put_edges_ok[OF num, of "fresh (hm_eind mem) (eind_length st)" "fresh (hm_eptr mem) (edge_count st + 1)"] N(3,4)
    by (auto simp: ok_iff ns_def)
  let ?eptr = "eptr1[length rel := length ns]"
  have ptr: "?eptr ! i = length (all_names (take i rel))" if "i \<le> length rel" for i
    using P(3,4) that by (cases "i = length rel") (auto simp: ns_def)
  define p where "p = (CHypergraph_init (hm_obj mem))\<lparr>
          hyperstring := hyper_text st, answerstring := b_answerstring st, verticestring := b_verticestring st,
          nhedges := edge_count st, nvtxs := classnum st - 1, hewgts := replicate (edge_count st) 1, eptr := ?eptr, eind := eind1,
          vwgts := replicate (classnum st - 1) 1, part := fresh (hm_part mem) (classnum st - 1),
          inOptions := fresh (hm_options mem) 9\<rparr>"
  have c: "createHypergraph mem fm rel strPara = set_options strPara p"
    using P by (simp add: createHypergraph_def Let_def st_def[symmetric] p_def)
  obtain a b o' where q: "set_options strPara p = Inr (p\<lparr>npart := a, ubfactor := b, inOptions := o'\<rparr>)" "length o' = 9"
    using set_options_frame[OF sp, of p] by (auto simp: ok_iff p_def)
  define q' where "q' = p\<lparr>npart := a, ubfactor := b, inOptions := o'\<rparr>"
  have f: "nvtxs q' = length (firsts ns)" "nhedges q' = length rel" "eptr q' = ?eptr" "eind q' = place (vno ns) rel"
      "hyperstring q' = hyper_text st" "answerstring q' = b_answerstring st"
    using cn N P(2) by (simp_all add: q'_def p_def)
  note W = placed_hypergraph[OF wf, of q', folded ns_def, OF f(1,2) _ _ f(4)]
  have pins: "edge_pins q' e = map (vno ns) (names (rel ! e))" if "e < length rel" for e
    by (rule W(1)) (use that f(3) P(3) ptr in auto)
  have "wf_hyper q'"
    by (rule W(2)) (use f(3) P(3) ptr N(4) cn in \<open>auto simp: q'_def p_def\<close>)
  then have fr: "fresh_root q'" using q(2) by (simp add: fresh_root_def leaf_def q'_def p_def CHypergraph_init_def)
  have "concat (map (\<lambda>e. ''1 '' @ concat (map (\<lambda>v. sprintf_d (int v + 1) @ '' '') (edge_pins q' e)) @ [NL]) [0..<length rel]) =
      concat (map (\<lambda>e. edge_text ns (rel ! e)) [0..<length rel])"
    by (rule arg_cong[where f = concat], rule map_cong) (auto simp: pins edge_text_def nums_text_def comp_def)
  also have "map (\<lambda>e. edge_text ns (rel ! e)) [0..<length rel] = map (edge_text ns) rel"
    by (rule nth_equalityI) auto
  finally have "hyperstring q' = hgr_text q'" using f N(2,4) cn by (simp add: hgr_text_def hyper_text_def)
  then show ?thesis using c q(1) fr f N(5) pins by (simp add: q'_def[symmetric] ns_def[symmetric])
qed

text \<open>The same order, from the library: the first occurrences of a list are the last ones of the reversed list.\<close>

lemma firsts_remdups: "firsts ns = rev (remdups (rev ns))"
  by (induction ns rule: rev_induct) (simp_all add: firsts_def[of "_ @ _"] firsts_def[symmetric])

lemma createHypergraph_numbered:
  assumes "wf_relation rel" "count_list strPara CHR '' '' \<le> 10" "cls = rev (remdups (rev (concat (map names rel))))"
  shows "\<exists>p. createHypergraph mem fm rel strPara = Inr p \<and> fresh_root p \<and> nvtxs p = length cls \<and> nhedges p = length rel \<and>
     (\<forall>e < nhedges p. map ((!) cls) (edge_pins p e) = names (rel ! e)) \<and>
     hyperstring p = hgr_text p \<and> answerstring p = concat (map answer_text rel)"
proof -
  let ?ns = "all_names rel"
  have cls: "cls = firsts ?ns" by (simp add: assms(3) firsts_remdups all_names_def)
  obtain p where p: "createHypergraph mem fm rel strPara = Inr p" "fresh_root p" "nvtxs p = length (firsts ?ns)"
     "nhedges p = length rel" "\<forall>e < length rel. edge_pins p e = map (vno ?ns) (names (rel ! e))"
     "hyperstring p = hgr_text p" "answerstring p = concat (map answer_text rel)"
    using createHypergraph_ok[OF assms(1,2), of mem fm] by (auto simp: ok_iff)
  have "map ((!) cls) (edge_pins p e) = names (rel ! e)" if "e < length rel" for e
  proof -
    have "set (names (rel ! e)) \<subseteq> set ?ns" using nth_mem[OF that] unfolding all_names_def set_concat set_map by blast
    then have "map (\<lambda>x. firsts ?ns ! vno ?ns x) (names (rel ! e)) = map id (names (rel ! e))"
      using nth_vno[of _ ?ns] by (intro map_cong) auto
    then show ?thesis using p(5) that by (simp add: comp_def cls)
  qed
  then show ?thesis using p cls by (intro exI[of _ p]) simp
qed

lemma createHypergraph_root:
  assumes "wf_relation rel" "count_list strPara CHR '' '' \<le> 10"
  shows "\<exists>p. createHypergraph mem fm rel strPara = Inr p \<and> fresh_root p \<and>
     nvtxs p = card (\<Union>e \<in> set rel. set (names e)) \<and> nhedges p = length rel \<and>
     (\<exists>cls. distinct cls \<and> length cls = nvtxs p \<and> set cls = (\<Union>e \<in> set rel. set (names e)) \<and>
        (\<forall>e < nhedges p. map ((!) cls) (edge_pins p e) = names (rel ! e))) \<and>
     hyperstring p = hgr_text p \<and> answerstring p = concat (map answer_text rel)"
proof -
  let ?cls = "rev (remdups (rev (concat (map names rel))))"
  have "length ?cls = card (\<Union>e \<in> set rel. set (names e))" by (simp add: length_remdups_card_conv)
  then show ?thesis using createHypergraph_numbered[OF assms refl, of mem fm] by (elim exE) (rule exI, auto intro!: exI[of _ ?cls])
qed

text \<open>
  C30. For a relation without repeated callers and a menu line with at most ten blanks,
  \<open>createHypergraph\<close> returns a root that the splitting can start from: its vertices are the
  classes in the order of their first occurrence when the relation is read edge after edge, the called
  class before its callers; hyperedge \<open>e\<close> holds the numbers of the \<open>e\<close>-th called class
  and its callers, in their order; and the text for hMetis describes the same hypergraph as the arrays.
\<close>

theorem createHypergraph_correct:
  assumes "wf_relation rel" "count_list strPara CHR '' '' \<le> 10" "cls = rev (remdups (rev (concat (map names rel))))"
  shows "\<exists>p. createHypergraph mem fm rel strPara = Inr p \<and> fresh_root p \<and>
     nvtxs p = length cls \<and> nvtxs p = card (\<Union>e \<in> set rel. set (names e)) \<and> nhedges p = length rel \<and>
     (\<forall>e < nhedges p. map ((!) cls) (edge_pins p e) = names (rel ! e) \<and> (\<forall>v \<in> set (edge_pins p e). v < length cls)) \<and>
     hyperstring p = hgr_text p \<and> answerstring p = concat (map answer_text rel)"
proof -
  obtain p where p: "createHypergraph mem fm rel strPara = Inr p" "fresh_root p" "nvtxs p = length cls" "nhedges p = length rel"
      "\<forall>e < nhedges p. map ((!) cls) (edge_pins p e) = names (rel ! e)" "hyperstring p = hgr_text p" "answerstring p = concat (map answer_text rel)"
    using createHypergraph_numbered[OF assms, of mem fm] by blast
  have "length cls = card (\<Union>e \<in> set rel. set (names e))" by (simp add: assms(3) length_remdups_card_conv)
  moreover have "wf_hyper p" using p(2) by (simp add: fresh_root_def)
  then have "\<forall>e < nhedges p. \<forall>v \<in> set (edge_pins p e). v < length cls" using p(3) by (simp add: wf_hyper_def)
  ultimately show ?thesis using p by (intro exI[of _ p]) simp
qed

definition sample_relation :: relation where
  "sample_relation = [(''A'', [calledclass_init ''B'', calledclass_init ''C'']), (''C'', [calledclass_init ''B''])]"

definition sample_hyper_mem :: hyper_mem where
  "sample_hyper_mem = \<lparr>hm_obj = sample_hyper, hm_eptr = \<lambda>_. 7, hm_eind = \<lambda>_. 7, hm_part = \<lambda>_. 7, hm_options = \<lambda>_. 7\<rparr>"

lemma sample_relation_wf: "wf_relation sample_relation"
  by code_simp

theorem createHypergraph_correct_witness:
  "wf_relation sample_relation \<and> count_list ''t 2 10'' CHR '' '' \<le> 10 \<and>
   (\<exists>p. createHypergraph sample_hyper_mem [] sample_relation ''t 2 10'' = Inr p \<and> fresh_root p \<and>
      nhedges p = 2 \<and> nvtxs p = 3 \<and> edge_pins p 1 = [2, 1] \<and> map ((!) [''A'', ''B'', ''C'']) (edge_pins p 1) = names (sample_relation ! 1) \<and>
      hyperstring p = hgr_text p)"
proof -
  have b: "count_list ''t 2 10'' CHR '' '' \<le> 10" by code_simp
  have c: "[''A'', ''B'', ''C''] = rev (remdups (rev (concat (map names sample_relation))))" by code_simp
  obtain p where p: "createHypergraph sample_hyper_mem [] sample_relation ''t 2 10'' = Inr p" "fresh_root p" "hyperstring p = hgr_text p"
      "\<forall>e < nhedges p. map ((!) [''A'', ''B'', ''C'']) (edge_pins p e) = names (sample_relation ! e)"
    using createHypergraph_correct[OF sample_relation_wf b c, of sample_hyper_mem "[]"] by blast
  moreover have "sbind (createHypergraph sample_hyper_mem [] sample_relation ''t 2 10'') (\<lambda>p. Inr (nhedges p, nvtxs p, edge_pins p 1)) = Inr (2, 3, [2, 1])"
    by code_simp
  ultimately have v: "nhedges p = 2" "nvtxs p = 3" "edge_pins p 1 = [2, 1]" by simp_all
  have "map ((!) [''A'', ''B'', ''C'']) (edge_pins p 1) = names (sample_relation ! 1)" using p(4) v(1) by (metis one_less_numeral_iff semiring_norm(76))
  then show ?thesis using b sample_relation_wf p(1-3) v by blast
qed

lemma atoi_Cons_blank [simp]: "atoi (CHR '' '' # w) = atoi w"
  by (simp add: atoi_def is_space_def)

text \<open>
  C38. The last word of the menu line is never read: of a line of three words the partitioner
  gets the imbalance factor 0 whatever the third word is, and of a line of nine words the last
  option is 0 whatever the ninth word is. The other words are read as numbers in their order.
\<close>

theorem createHypergraph_options:
  assumes "blank_free (w # ws)" "wf_relation rel"
  shows "(length ws = 2 \<longrightarrow> sbind (createHypergraph mem fm rel (unwords w ws)) (\<lambda>p. Inr (npart p, ubfactor p, inOptions p)) =
       Inr (atoi (ws ! 0), 0, [0, 10, 1, 1, 1, 0, 0, - 1, 0])) \<and>
    (length ws = 8 \<longrightarrow> sbind (createHypergraph mem fm rel (unwords w ws)) (\<lambda>p. Inr (npart p, ubfactor p, inOptions p)) =
       Inr (atoi (ws ! 0), atoi (ws ! 1), [1, atoi (ws ! 2), atoi (ws ! 3), atoi (ws ! 4), atoi (ws ! 5), atoi (ws ! 6), 0, - 1, 0]))"
proof -
  have "count_list (unwords w ws) CHR '' '' = length ws"
    using assms(1) by (induction ws) (auto simp: unwords_def blank_free_def)
  then have "\<exists>p. createHypergraph mem fm rel (unwords w ws) = set_options (unwords w ws) p" if "length ws \<le> 10"
    using createHypergraph_ok[OF assms(2), of "unwords w ws" mem fm] that unfolding createHypergraph_def Let_def
    by (auto simp: ok_iff sbind_eq_Inr) metis
  then obtain p where p: "length ws \<le> 10 \<Longrightarrow> createHypergraph mem fm rel (unwords w ws) = set_options (unwords w ws) p" by blast
  note pw = para_words_ok[OF assms(1)]
  show ?thesis using p pw by (auto simp: set_options_def nth_append)
qed

theorem createHypergraph_options_witness:
  "sbind (createHypergraph sample_hyper_mem [] sample_relation (unwords ''t'' [''2'', ''10'']))
     (\<lambda>p. Inr (npart p, ubfactor p, inOptions p)) = Inr (2, 0, [0, 10, 1, 1, 1, 0, 0, - 1, 0])"
proof -
  have "blank_free (''t'' # [''2'', ''10''])" by (simp add: blank_free_def)
  moreover have "atoi ''2'' = 2" by code_simp
  ultimately show ?thesis using createHypergraph_options[OF _ sample_relation_wf, of "''t''" "[''2'', ''10'']"] by simp
qed

end
