(* ===== verification/Scan.thy ===== *)
theory Scan
  imports Text
begin

text \<open>
  The loops with which the parser walks through a text: forward and backward while the
  character at the position passes a test, with or without collecting the characters, and the
  count of braces up to the matching one. A walk that leaves the text is the exception of
  \<open>string::at\<close>. Files are read by \<open>readallfile\<close>, which \<open>CReadH\<close> and \<open>CReadCpp\<close> both have.
\<close>

section \<open>Walking through a text\<close>

text \<open>\<open>while(P(s.at(i))) { acc += s.at(i); i++; }\<close>\<close>

function collect_fwd :: "(char \<Rightarrow> bool) \<Rightarrow> string \<Rightarrow> int \<Rightarrow> string \<Rightarrow> error + string \<times> int" where
  "collect_fwd P s i acc = sbind (str_at s i) (\<lambda>c. if P c then collect_fwd P s (i + 1) (acc @ [c]) else Inr (acc, i))"
  by pat_completeness auto
termination
  by (relation "measure (\<lambda>(_, s, i, _). nat (int (length s) - i))") (auto simp: str_at_eq_Inr)

text \<open>\<open>while(P(s.at(i))) { acc = s.at(i) + acc; i--; }\<close>\<close>

function collect_bwd :: "(char \<Rightarrow> bool) \<Rightarrow> string \<Rightarrow> int \<Rightarrow> string \<Rightarrow> error + string \<times> int" where
  "collect_bwd P s i acc = sbind (str_at s i) (\<lambda>c. if P c then collect_bwd P s (i - 1) (c # acc) else Inr (acc, i))"
  by pat_completeness auto
termination
  by (relation "measure (\<lambda>(_, s, i, _). nat (i + 1))") (auto simp: str_at_eq_Inr)

declare collect_fwd.simps [simp del] collect_bwd.simps [simp del]

definition skip_fwd :: "(char \<Rightarrow> bool) \<Rightarrow> string \<Rightarrow> int \<Rightarrow> error + int" where
  "skip_fwd P s i = sbind (collect_fwd P s i []) (\<lambda>(_, j). Inr j)"

definition skip_bwd :: "(char \<Rightarrow> bool) \<Rightarrow> string \<Rightarrow> int \<Rightarrow> error + int" where
  "skip_bwd P s i = sbind (collect_bwd P s i []) (\<lambda>(_, j). Inr j)"

text \<open>The same walk where the loop also ends at the end of the text.\<close>

function collect_end :: "(char \<Rightarrow> bool) \<Rightarrow> string \<Rightarrow> int \<Rightarrow> string \<Rightarrow> error + string \<times> int" where
  "collect_end P s i acc = sbind (str_at s i) (\<lambda>c.
     if P c then (if i + 1 \<ge> int (length s) then Inr (acc @ [c], i + 1) else collect_end P s (i + 1) (acc @ [c]))
     else Inr (acc, i))"
  by pat_completeness auto
termination
  by (relation "measure (\<lambda>(_, s, i, _). nat (int (length s) - i))") (auto simp: str_at_eq_Inr)

declare collect_end.simps [simp del]

subsection \<open>Where the walks end\<close>

lemma collect_fwd_eq:
  assumes "0 \<le> i"
  shows "collect_fwd P s i acc = (let w = takeWhile P (drop (nat i) s) in
     if i + int (length w) < int (length s) then Inr (acc @ w, i + int (length w)) else Inl OutOfRange)"
  using assms
proof (induction P s i acc rule: collect_fwd.induct)
  case (1 P s i acc)
  show ?case
  proof (cases "i < int (length s)")
    case True
    then have d: "drop (nat i) s = s ! nat i # drop (nat (i + 1)) s"
      using 1(2) by (simp add: Cons_nth_drop_Suc nat_add_distrib)
    show ?thesis
      using True 1 by (subst collect_fwd.simps) (auto simp: d Let_def str_at_def add.assoc)
  next
    case False
    then show ?thesis using 1(2) by (subst collect_fwd.simps) (simp add: str_at_def)
  qed
qed

lemma collect_bwd_eq:
  assumes "i < int (length s)"
  shows "collect_bwd P s i acc = (let w = takeWhile P (rev (take (nat (i + 1)) s)) in
     if int (length w) \<le> i then Inr (rev w @ acc, i - int (length w)) else Inl OutOfRange)"
  using assms
proof (induction P s i acc rule: collect_bwd.induct)
  case (1 P s i acc)
  show ?case
  proof (cases "0 \<le> i")
    case True
    then have d: "rev (take (nat (i + 1)) s) = s ! nat i # rev (take (nat i) s)"
      using 1(2) by (simp add: nat_add_distrib take_Suc_conv_app_nth)
    have r: "str_at s i = Inr (s ! nat i)" using True 1(2) by simp
    have IH: "P (s ! nat i) \<Longrightarrow> collect_bwd P s (i - 1) (s ! nat i # acc) = (let w = takeWhile P (rev (take (nat i) s)) in
       if int (length w) \<le> i - 1 then Inr (rev w @ s ! nat i # acc, i - 1 - int (length w)) else Inl OutOfRange)"
      using 1(1)[OF r] 1(2) by simp
    show ?thesis using IH r True by (subst collect_bwd.simps) (auto simp: d Let_def)
  next
    case False
    then show ?thesis by (subst collect_bwd.simps) (simp add: str_at_def)
  qed
qed

lemma collect_end_eq:
  assumes "0 \<le> i" "i < int (length s)"
  shows "collect_end P s i acc = (let w = takeWhile P (drop (nat i) s) in Inr (acc @ w, i + int (length w)))"
  using assms
proof (induction P s i acc rule: collect_end.induct)
  case (1 P s i acc)
  have d: "drop (nat i) s = s ! nat i # drop (nat (i + 1)) s"
    using 1(2,3) by (simp add: Cons_nth_drop_Suc nat_add_distrib)
  have r: "str_at s i = Inr (s ! nat i)" using 1(2,3) by simp
  have IH: "P (s ! nat i) \<Longrightarrow> i + 1 < int (length s) \<Longrightarrow> collect_end P s (i + 1) (acc @ [s ! nat i]) =
      (let w = takeWhile P (drop (nat (i + 1)) s) in Inr ((acc @ [s ! nat i]) @ w, i + 1 + int (length w)))"
    using 1(1)[OF r] 1(2) by simp
  have "i + 1 \<ge> int (length s) \<Longrightarrow> drop (nat (i + 1)) s = []" using 1(2) by (simp add: nat_le_iff)
  then show ?case using IH r by (subst collect_end.simps) (auto simp: d Let_def not_le)
qed

subsection \<open>Walks in a text given by its parts\<close>

lemma str_at_app: "i = int (length A) \<Longrightarrow> str_at (A @ c # B) i = Inr c"
  by (simp add: str_at_def)

lemma str_substr_app: "i = int (length A) \<Longrightarrow> n = int (length w) \<Longrightarrow> str_substr (A @ w @ B) i n = Inr w"
  by (simp add: str_substr_def)

lemma collect_fwd_app:
  assumes "i = int (length A)" "\<forall>x \<in> set w. P x" "\<not> P c"
  shows "collect_fwd P (A @ w @ c # B) i acc = Inr (acc @ w, i + int (length w))"
proof -
  have "takeWhile P (w @ c # B) = w" using assms(2,3) by (simp add: takeWhile_append2)
  then show ?thesis using assms(1) by (simp add: collect_fwd_eq Let_def)
qed

lemma skip_fwd_app:
  assumes "i = int (length A)" "\<forall>x \<in> set w. P x" "\<not> P c"
  shows "skip_fwd P (A @ w @ c # B) i = Inr (i + int (length w))"
  using collect_fwd_app[OF assms, of B "[]"] by (simp add: skip_fwd_def)

lemma collect_bwd_app:
  assumes "i = int (length A + length w)" "\<forall>x \<in> set w. P x" "\<not> P c"
  shows "collect_bwd P (A @ c # w @ B) i acc = Inr (w @ acc, int (length A))"
proof -
  have "take (nat (i + 1)) (A @ c # w @ B) = A @ c # w" using assms(1) by (simp add: nat_add_distrib)
  moreover have "takeWhile P (rev (A @ c # w)) = rev w" using assms(2,3) takeWhile_append2[of "rev w" P "c # rev A"] by simp
  ultimately show ?thesis using assms(1) by (simp add: collect_bwd_eq Let_def)
qed

lemma skip_bwd_app:
  assumes "i = int (length A + length w)" "\<forall>x \<in> set w. P x" "\<not> P c"
  shows "skip_bwd P (A @ c # w @ B) i = Inr (int (length A))"
  using collect_bwd_app[OF assms, of B "[]"] by (simp add: skip_bwd_def)

text \<open>A walk back that meets no stop leaves the text: the program ends with an exception.\<close>

lemma collect_bwd_throws:
  assumes "i = int (length w) - 1" "\<forall>x \<in> set w. P x"
  shows "collect_bwd P (w @ B) i acc = Inl OutOfRange"
proof (cases "w = []")
  case True
  then show ?thesis using assms(1) by (subst collect_bwd.simps) (simp add: str_at_def)
next
  case False
  have "takeWhile P (rev w) = rev w" using assms(2) by simp
  then show ?thesis using False assms(1) by (subst collect_bwd_eq) (simp_all add: Let_def del: takeWhile_eq_all_conv)
qed

lemma collect_fwd_throws:
  assumes "i = int (length A)" "\<forall>x \<in> set w. P x"
  shows "collect_fwd P (A @ w) i acc = Inl OutOfRange"
proof -
  have "takeWhile P w = w" using assms(2) by simp
  then show ?thesis using assms(1) by (simp add: collect_fwd_eq Let_def del: takeWhile_eq_all_conv)
qed

lemma collect_end_app:
  assumes "i = int (length A)" "\<forall>x \<in> set w. P x" "B \<noteq> [] \<longrightarrow> \<not> P (hd B)" "w @ B \<noteq> []"
  shows "collect_end P (A @ w @ B) i acc = Inr (acc @ w, i + int (length w))"
proof -
  have "takeWhile P (w @ B) = w" using assms(2,3) by (cases B) (simp_all add: takeWhile_append2)
  moreover have "i < int (length (A @ w @ B))" using assms(1,4) by (cases w; cases B) auto
  ultimately show ?thesis using assms(1) by (subst collect_end_eq) (simp_all add: Let_def)
qed

subsection \<open>Searching across a separator\<close>

lemma find_suf_sep:
  assumes "c \<notin> set pat" "pat \<noteq> []"
  shows "find_suf pat (A @ c # B) k = (if find_suf pat A k \<noteq> - 1 then find_suf pat A k else find_suf pat B (k + length A + 1))"
proof (induction A arbitrary: k)
  case Nil
  have "take (length pat) (c # B) \<noteq> pat" using assms by (cases pat) auto
  then show ?case using assms(2) by simp
next
  case (Cons a A)
  have "take (length pat) ((a # A) @ c # B) = pat \<longleftrightarrow> take (length pat) (a # A) = pat"
  proof (cases "length pat \<le> length (a # A)")
    case False
    then have "c \<in> set (take (length pat) ((a # A) @ c # B))" by (auto simp: take_Cons' split: if_splits)
    moreover have "length (take (length pat) (a # A)) < length pat" using False by simp
    ultimately show ?thesis using assms(1) by (metis less_irrefl)
  next
    case True
    then have "take (length pat) ((a # A) @ c # B) = take (length pat) (a # A)" by (simp only: take_append) simp
    then show ?thesis by simp
  qed
  then show ?case using Cons by simp
qed

lemma find_suf_shift: "find_suf pat s k = - 1 \<longleftrightarrow> find_suf pat s j = - 1"
  by (induction s arbitrary: k j) auto

lemma str_find_at:
  assumes "i = int (length A)"
  shows "str_find (A @ B) pat i = find_suf pat B (length A)"
  using assms by (simp add: str_find_def)

section \<open>Braces\<close>

text \<open>
  \<open>for(k = bodystart+1; k < content.length(); k++)\<close> with \<open>ileft\<close>: the position of the brace
  that closes, or the length of the text.
\<close>

function close_brace :: "string \<Rightarrow> int \<Rightarrow> int \<Rightarrow> error + int" where
  "close_brace s k ileft =
     (if k < int (length s) then
        sbind (str_at s k) (\<lambda>c.
          let ileft' = (if c = CHR ''{'' then ileft + 1 else if c = CHR ''}'' then ileft - 1 else ileft) in
          if ileft' = 0 then Inr k else close_brace s (k + 1) ileft')
      else Inr k)"
  by pat_completeness auto
termination
  by (relation "measure (\<lambda>(s, k, _). nat (int (length s) - k))") auto

declare close_brace.simps [simp del]

text \<open>A text in which the braces close: \<open>d\<close> of them are open at its start.\<close>

fun closes :: "nat \<Rightarrow> string \<Rightarrow> bool" where
  "closes d [] \<longleftrightarrow> d = 0"
| "closes d (c # cs) \<longleftrightarrow> (if c = CHR ''{'' then closes (Suc d) cs
     else if c = CHR ''}'' then d \<noteq> 0 \<and> closes (d - 1) cs else closes d cs)"

abbreviation balanced :: "string \<Rightarrow> bool" where
  "balanced \<equiv> closes 0"

lemma close_brace_bounds:
  assumes "0 \<le> k" "k \<le> int (length s)"
  shows "ok (close_brace s k d) (\<lambda>j. k \<le> j \<and> j \<le> int (length s))"
  using assms
proof (induction s k d rule: close_brace.induct)
  case (1 s k d)
  show ?case
  proof (cases "k < int (length s)")
    case True
    have r: "str_at s k = Inr (s ! nat k)" using True 1(2) by simp
    show ?thesis using 1(1)[OF True r refl] 1(2) True r
      by (subst close_brace.simps) (auto simp: Let_def elim!: ok_mono)
  next
    case False
    then show ?thesis using 1 by (subst close_brace.simps) simp
  qed
qed

text \<open>After a balanced text the closing brace is found.\<close>

lemma close_brace_closes:
  assumes "closes d body"
  shows "close_brace (A @ body @ CHR ''}'' # B) (int (length A)) (int d + 1) = Inr (int (length A + length body))"
  using assms
proof (induction body arbitrary: A d)
  case Nil
  then show ?case by (subst close_brace.simps) (simp add: nth_append)
next
  case (Cons c body)
  let ?s = "A @ (c # body) @ CHR ''}'' # B"
  have at: "str_at ?s (int (length A)) = Inr c" by (simp add: nth_append)
  have IH: "closes d' body \<Longrightarrow> close_brace ?s (int (length A) + 1) (int d' + 1) = Inr (int (length A + length (c # body)))" for d'
    using Cons.IH[of d' "A @ [c]"] by (simp add: add.commute)
  show ?case
    using Cons.prems IH[of "Suc d"] IH[of d] IH[of "d - 1"] at
    by (subst close_brace.simps) (auto simp: Let_def add.commute split: if_splits)
qed

section \<open>Reading a file\<close>

text \<open>
  What the file system and the allocator answer for a file: its bytes, whether \<open>malloc\<close> gives a
  buffer of that size, how many bytes \<open>fread\<close> returns, and the memory that follows the buffer.
\<close>

record file_data =
  f_data :: string
  f_malloc :: bool
  f_read :: nat
  f_after :: string

type_synonym filesystem = "string \<Rightarrow> file_data option"

text \<open>\<open>string(buffer)\<close>: the characters up to the first NUL, wherever that is.\<close>

definition c_string :: "string \<Rightarrow> error + string" where
  "c_string mem = (if NUL \<in> set mem then Inr (takeWhile (\<lambda>c. c \<noteq> NUL) mem) else Inl BadIndex)"

end
