(* ===== verification/ReadH.thy ===== *)
theory ReadH
  imports Scan
begin

text \<open>
  \<open>src/CArchitecture/ReadH.cpp\<close>: a header file is read and searched for the classes it declares
  (name, base classes, body), for the headers it includes and for the text outside all braces.
\<close>

section \<open>The code\<close>

record CClassContent =
  defbody :: string
  fatherclass :: string

record CReadH =
  Hname :: string
  h_globalStr :: string
  h_headfile :: "string list"
  h_classposition :: int
  classdef :: "(string, CClassContent) smap"

definition CClassContent_init :: CClassContent where
  "CClassContent_init = \<lparr>defbody = [], fatherclass = []\<rparr>"

definition QUOTE :: char where "QUOTE = CHR 0x22"

definition INCLUDE :: string where "INCLUDE = ''#include '' @ [QUOTE]"

definition CLASS :: string where "CLASS = NL # ''class ''"

text \<open>\<open>readallfile\<close>: the build for Linux. The buffer has no terminating NUL of its own.\<close>

definition CReadH_readallfile :: "filesystem \<Rightarrow> string \<Rightarrow> error + string" where
  "CReadH_readallfile fs name = (case fs name of
     None \<Rightarrow> Inl (ExitCode 1)
   | Some f \<Rightarrow>
       let lSize = length (f_data f) in
       if \<not> f_malloc f then Inl (ExitCode 2)
       else if f_read f \<noteq> lSize then Inl (ExitCode 3)
       else c_string (f_data f @ f_after f))"

subsection \<open>Included headers\<close>

function head_loop :: "string \<Rightarrow> int \<Rightarrow> string list \<Rightarrow> error + string list" where
  "head_loop mycontent pos headfile =
     (if pos = - 1 then Inr headfile
      else let pos = pos + int (length INCLUDE) in
        sbind (collect_fwd (\<lambda>c. c \<noteq> QUOTE) mycontent pos []) (\<lambda>(filename, _).
          head_loop mycontent (str_find mycontent INCLUDE pos) (headfile @ [filename])))"
  by pat_completeness auto

lemma collect_fwd_start:
  assumes "collect_fwd P s i acc = Inr r"
  shows "0 \<le> i" "i < int (length s)"
  using assms by (auto simp: collect_fwd.simps[of P s i acc] sbind_eq_Inr str_at_eq_Inr)

termination head_loop
  by (relation "measure (\<lambda>(s, pos, _). if pos = - 1 then 0 else nat (int (length s) + 1 - pos))")
    (auto simp: INCLUDE_def dest: collect_fwd_start dest!: str_find_found(1))

declare head_loop.simps [simp del]

definition CReadH_getheadfile :: "int \<Rightarrow> string \<Rightarrow> CReadH \<Rightarrow> error + CReadH" where
  "CReadH_getheadfile classstart content h =
     sbind (str_substr content 0 (classstart + 1)) (\<lambda>mycontent.
     sbind (head_loop mycontent (str_find mycontent INCLUDE 0) (h_headfile h)) (\<lambda>hf.
       Inr (h\<lparr>h_headfile := hf\<rparr>)))"

subsection \<open>A class declaration\<close>

function father_loop :: "string \<Rightarrow> int \<Rightarrow> string \<Rightarrow> error + string" where
  "father_loop defline start ans =
     (if start = - 1 then Inr ans
      else let i = start + 6 in
        if i \<ge> int (length defline) then Inr []
        else sbind (str_at defline i) (\<lambda>c.
          if \<not> is_blank c then father_loop defline (str_find defline ''public'' (start + 5)) ans
          else sbind (collect_end is_blank defline i []) (\<lambda>(_, i).
            sbind (if i < int (length defline)
                   then sbind (collect_end is_ident defline i []) (\<lambda>(w, _). Inr (ans @ w @ '' ''))
                   else Inr ans) (\<lambda>ans.
              father_loop defline (str_find defline ''public'' (start + 5)) ans))))"
  by pat_completeness auto
termination
  by (relation "measure (\<lambda>(s, start, _). if start = - 1 then 0 else nat (int (length s) + 1 - start))")
    (auto dest!: str_find_found(1))

declare father_loop.simps [simp del]

definition CReadH_getfatherclassname :: "int \<Rightarrow> string \<Rightarrow> error + string" where
  "CReadH_getfatherclassname pos content =
     sbind (skip_fwd (\<lambda>c. c \<noteq> CHR ''{'' \<and> c \<noteq> CHR '';'') content (pos + 6)) (\<lambda>i.
     sbind (str_substr content (pos + 1) (i - pos - 1)) (\<lambda>defline.
       father_loop defline (str_find defline ''public'' 0) []))"

definition CReadH_getclassname :: "int \<Rightarrow> string \<Rightarrow> error + string" where
  "CReadH_getclassname pos content =
     sbind (skip_fwd is_blank content (pos + 6)) (\<lambda>i.
     sbind (collect_fwd is_alnum content i []) (\<lambda>(ans, i).
     sbind (str_at content i) (\<lambda>c. Inr (if c = CHR '';'' then [] else ans))))"

definition CReadH_getclassbody :: "int \<Rightarrow> string \<Rightarrow> error + string" where
  "CReadH_getclassbody pos content =
     (let bodystart = str_find content ''{'' pos in
      if bodystart \<noteq> - 1 then
        sbind (close_brace content (bodystart + 1) 1) (\<lambda>i. str_substr content pos (i - pos + 1))
      else Inr [])"

subsection \<open>All classes of the header\<close>

definition class_at :: "string \<Rightarrow> int \<Rightarrow> CReadH \<Rightarrow> error + CReadH" where
  "class_at allContent pos h =
     sbind (CReadH_getclassname pos allContent) (\<lambda>classname.
       if classname \<noteq> [] then
         sbind (CReadH_getfatherclassname pos allContent) (\<lambda>father.
         sbind (CReadH_getclassbody pos allContent) (\<lambda>classbody.
           Inr (h\<lparr>h_classposition := (if h_classposition h = - 1 then pos else h_classposition h),
                  classdef := sinsert classname (CClassContent_init\<lparr>fatherclass := father, defbody := classbody\<rparr>) (classdef h)\<rparr>)))
       else Inr h)"

lemma skip_fwd_start:
  assumes "skip_fwd P s i = Inr r"
  shows "0 \<le> i" "i < int (length s)"
  using assms collect_fwd_start[of P s i "[]"] by (auto simp: skip_fwd_def sbind_eq_Inr)

function class_loop :: "string \<Rightarrow> int \<Rightarrow> CReadH \<Rightarrow> error + CReadH" where
  "class_loop allContent pos h =
     (if pos = - 1 then Inr h
      else sbind (class_at allContent pos h) (\<lambda>h.
        class_loop allContent (str_find allContent CLASS (pos + int (length CLASS))) h))"
  by pat_completeness auto

lemma class_at_start:
  assumes "class_at s pos h = Inr h'"
  shows "- 6 \<le> pos" "pos + 6 < int (length s)"
  using assms skip_fwd_start[of is_blank s "pos + 6"]
  by (auto simp: class_at_def CReadH_getclassname_def sbind_eq_Inr split: if_splits)

termination class_loop
proof (relation "measure (\<lambda>(s, pos, _). if pos = - 1 then 0 else nat (int (length s) + 1 - pos))", goal_cases)
  case (2 s pos h h')
  note b = class_at_start[OF 2(2)]
  have "str_find s CLASS (pos + int (length CLASS)) = - 1 \<or> pos < str_find s CLASS (pos + int (length CLASS))"
    using str_find_found(1)[of s CLASS "pos + int (length CLASS)"] by (force simp: CLASS_def)
  then show ?case using 2(1) b by auto
qed simp

declare class_loop.simps [simp del]

definition CReadH_getclass :: "string \<Rightarrow> CReadH \<Rightarrow> error + CReadH" where
  "CReadH_getclass allContent h = class_loop allContent (str_find allContent CLASS 0) h"

subsection \<open>The text outside all braces\<close>

function last_semicolon :: "string \<Rightarrow> int \<Rightarrow> error + int" where
  "last_semicolon g posfen =
     (if posfen \<ge> 0 then sbind (str_at g posfen) (\<lambda>c. if c = CHR '';'' then Inr posfen else last_semicolon g (posfen - 1))
      else Inr posfen)"
  by pat_completeness auto
termination
  by (relation "measure (\<lambda>(_, posfen). nat (posfen + 1))") auto

declare last_semicolon.simps [simp del]

definition cut_statement :: "string \<Rightarrow> error + string" where
  "cut_statement g = sbind (last_semicolon g (int (length g) - 1)) (\<lambda>posfen.
     str_erase g (posfen + 1) (int (length g) - posfen - 1))"

function global_loop :: "string \<Rightarrow> int \<Rightarrow> int \<Rightarrow> string \<Rightarrow> error + string" where
  "global_loop content i leftnum strForGlobal =
     (if i < int (length content) then
        sbind (str_at content i) (\<lambda>c.
        sbind (if c = CHR ''{'' then sbind (cut_statement strForGlobal) (\<lambda>g. Inr (leftnum + 1, g))
               else if c = CHR ''}'' then Inr (leftnum - 1, strForGlobal)
               else Inr (leftnum, strForGlobal)) (\<lambda>(leftnum, g).
          let g = (if leftnum = 0 \<and> c \<noteq> CHR ''}'' then g @ [c] else g) in
          if leftnum < 0 then Inr g else global_loop content (i + 1) leftnum g))
      else Inr strForGlobal)"
  by pat_completeness auto
termination
  by (relation "measure (\<lambda>(s, i, _). nat (int (length s) - i))") auto

declare global_loop.simps [simp del]

definition CReadH_findGlobal :: "string \<Rightarrow> error + string" where
  "CReadH_findGlobal content = global_loop content 0 0 []"

subsection \<open>The object of a header\<close>

definition CReadH_new :: "filesystem \<Rightarrow> string \<Rightarrow> error + CReadH" where
  "CReadH_new fs name =
     (let h = \<lparr>Hname = name, h_globalStr = [], h_headfile = [], h_classposition = - 1, classdef = []\<rparr> in
      sbind (CReadH_readallfile fs (Hname h)) (\<lambda>allContent.
      sbind (CReadH_getclass allContent h) (\<lambda>h.
      sbind (CReadH_getheadfile (h_classposition h) allContent h) (\<lambda>h.
      sbind (CReadH_findGlobal allContent) (\<lambda>g. Inr (h\<lparr>h_globalStr := g\<rparr>))))))"

section \<open>The text outside all braces, as a function of the text\<close>

definition upto_semicolon :: "string \<Rightarrow> string" where
  "upto_semicolon g = rev (dropWhile (\<lambda>c. c \<noteq> CHR '';'') (rev g))"

lemma upto_semicolon_idem [simp]: "upto_semicolon (upto_semicolon g) = upto_semicolon g"
  by (simp add: upto_semicolon_def)

lemma upto_semicolon_prefix: "\<exists>t. g = upto_semicolon g @ t"
proof -
  have "rev g = takeWhile (\<lambda>c. c \<noteq> CHR '';'') (rev g) @ dropWhile (\<lambda>c. c \<noteq> CHR '';'') (rev g)" by simp
  then have "g = rev (dropWhile (\<lambda>c. c \<noteq> CHR '';'') (rev g)) @ rev (takeWhile (\<lambda>c. c \<noteq> CHR '';'') (rev g))"
    by (metis rev_append rev_rev_ident)
  then show ?thesis unfolding upto_semicolon_def by blast
qed

lemma last_semicolon_eq:
  assumes "n \<le> length g"
  shows "last_semicolon g (int n - 1) = Inr (int (length (upto_semicolon (take n g))) - 1)"
  using assms
proof (induction n)
  case 0
  then show ?case by (subst last_semicolon.simps) (simp add: upto_semicolon_def)
next
  case (Suc n)
  then show ?case by (subst last_semicolon.simps) (simp add: upto_semicolon_def take_Suc_conv_app_nth)
qed

lemma cut_statement_eq: "cut_statement g = Inr (upto_semicolon g)"
proof -
  obtain t where t: "g = upto_semicolon g @ t" using upto_semicolon_prefix by blast
  define n where "n = length (upto_semicolon g)"
  have "take n g = upto_semicolon g" "n \<le> length g" unfolding n_def by (metis append_eq_conv_conj t, metis le_add1 length_append t)
  then show ?thesis using last_semicolon_eq[of "length g" g]
    by (simp add: cut_statement_def str_erase_def n_def[symmetric])
qed

fun glob :: "nat \<Rightarrow> string \<Rightarrow> string \<Rightarrow> string" where
  "glob d acc [] = acc"
| "glob d acc (c # cs) =
     (if c = CHR ''{'' then glob (Suc d) (upto_semicolon acc) cs
      else if c = CHR ''}'' then (if d = 0 then acc else glob (d - 1) acc cs)
      else glob d (if d = 0 then acc @ [c] else acc) cs)"

lemma global_loop_glob:
  assumes "0 \<le> i" "i \<le> int (length s)"
  shows "global_loop s i (int d) acc = Inr (glob d acc (drop (nat i) s))"
  using assms
proof (induction "nat (int (length s) - i)" arbitrary: i d acc)
  case 0
  then show ?case by (subst global_loop.simps) simp
next
  case (Suc n)
  then have i: "i < int (length s)" by simp
  then have d: "drop (nat i) s = s ! nat i # drop (nat (i + 1)) s"
    using Suc.prems by (simp add: Cons_nth_drop_Suc nat_add_distrib)
  have IH: "global_loop s (i + 1) (int e) a = Inr (glob e a (drop (nat (i + 1)) s))" for e a
    using Suc i by (intro Suc.hyps(1)) auto
  have IH1: "global_loop s (i + 1) (int e + 1) a = Inr (glob (Suc e) a (drop (nat (i + 1)) s))" for e a
    using IH[of "Suc e" a] by (simp add: add.commute)
  have IH2: "0 < e \<Longrightarrow> global_loop s (i + 1) (int e - 1) a = Inr (glob (e - 1) a (drop (nat (i + 1)) s))" for e a
    using IH[of "e - 1" a] by (simp add: of_nat_diff)
  show ?case unfolding d using i Suc.prems IH IH1 IH2
    by (subst global_loop.simps) (auto simp: cut_statement_eq Let_def)
qed

lemma CReadH_findGlobal_eq: "CReadH_findGlobal s = Inr (glob 0 [] s)"
  using global_loop_glob[of 0 s 0 "[]"] by (simp add: CReadH_findGlobal_def)

definition brace_free :: "string \<Rightarrow> bool" where
  "brace_free g \<longleftrightarrow> CHR ''{'' \<notin> set g \<and> CHR ''}'' \<notin> set g"

lemma glob_free: "brace_free g \<Longrightarrow> glob 0 acc (g @ rest) = glob 0 (acc @ g) rest"
  by (induction g arbitrary: acc) (auto simp: brace_free_def)

lemma glob_block: "closes d body \<Longrightarrow> upto_semicolon acc = acc \<Longrightarrow> glob (Suc d) acc (body @ CHR ''}'' # rest) = glob 0 acc rest"
proof (induction body arbitrary: d)
  case (Cons c body)
  then show ?case using Cons.IH[of "d - 1"] by (cases d) (auto split: if_splits)
qed simp

definition block :: "string \<times> string \<Rightarrow> string" where
  "block = (\<lambda>(g, body). g @ ''{'' @ body @ ''}'')"

lemma glob_blocks:
  assumes "\<forall>(g, body) \<in> set blocks. brace_free g \<and> balanced body"
  shows "glob 0 acc (concat (map block blocks) @ rest) = glob 0 (foldl (\<lambda>a (g, _). upto_semicolon (a @ g)) acc blocks) rest"
  using assms
proof (induction blocks arbitrary: acc)
  case (Cons b blocks)
  obtain g body where b: "b = (g, body)" by force
  have "glob 0 acc (concat (map block (b # blocks)) @ rest) =
      glob 0 (upto_semicolon (acc @ g)) (concat (map block blocks) @ rest)"
    using Cons.prems b glob_block[of 0 body "upto_semicolon (acc @ g)"] by (simp add: block_def glob_free)
  then show ?case using Cons b by simp
qed simp

text \<open>
  C33. \<open>findGlobal\<close> never throws, and of a text that is a sequence of blocks in balanced braces
  with text between them it returns the text outside the blocks, where an opening brace drops
  everything back to the last semicolon: the head of a function or class goes with its body.
\<close>

theorem CReadH_findGlobal_correct:
  assumes "\<forall>(g, body) \<in> set blocks. brace_free g \<and> balanced body" "brace_free rest"
  shows "CReadH_findGlobal (concat (map block blocks) @ rest) =
     Inr (foldl (\<lambda>a (g, _). upto_semicolon (a @ g)) [] blocks @ rest)"
  using glob_blocks[OF assms(1), of "[]" rest] glob_free[OF assms(2), of _ "[]"] by (simp add: CReadH_findGlobal_eq)

theorem CReadH_findGlobal_correct_witness:
  "CReadH_findGlobal ''int a;void f(){if(a){a=1;}}int b;'' = Inr ''int a;int b;''"
proof -
  have "\<forall>(g, body) \<in> set [(''int a;void f()'', ''if(a){a=1;}'')]. brace_free g \<and> balanced body" "brace_free ''int b;''" by code_simp+
  from CReadH_findGlobal_correct[OF this] show ?thesis by (simp add: block_def upto_semicolon_def)
qed

section \<open>A class declaration is read back\<close>

definition class_text :: "string \<Rightarrow> string \<Rightarrow> string \<Rightarrow> string" where
  "class_text nm father body = CLASS @ nm @ '':public '' @ father @ ''{'' @ body @ ''}''"

definition class_parts :: "string \<Rightarrow> string \<Rightarrow> string \<Rightarrow> bool" where
  "class_parts nm father body \<longleftrightarrow> nm \<noteq> [] \<and> (\<forall>c \<in> set nm. is_alnum c) \<and> father \<noteq> [] \<and> (\<forall>c \<in> set father. is_ident c) \<and>
     str_find nm ''public'' 0 = - 1 \<and> str_find father ''public'' 0 = - 1 \<and> balanced body"

lemma alnum_not: "is_alnum c \<Longrightarrow> c \<noteq> CHR ''{'' \<and> c \<noteq> CHR '';'' \<and> c \<noteq> CHR '':'' \<and> \<not> is_blank c"
  by (auto simp: is_alnum_def is_blank_def TAB_def Let_def)

lemma ident_not: "is_ident c \<Longrightarrow> c \<noteq> CHR ''{'' \<and> c \<noteq> CHR '';'' \<and> c \<noteq> CHR '':'' \<and> \<not> is_blank c"
  using alnum_not[of c] by (auto simp: is_ident_def is_blank_def TAB_def)

lemma getclassname_text:
  assumes "class_parts nm father body"
  shows "CReadH_getclassname (int (length A)) (A @ class_text nm father body @ B) = Inr nm"
proof -
  let ?s = "A @ class_text nm father body @ B" and ?p = "int (length A)"
  let ?r = "''public '' @ father @ ''{'' @ body @ ''}'' @ B"
  obtain c cs where nm: "nm = c # cs" and al: "\<forall>c \<in> set nm. is_alnum c" using assms by (cases nm) (auto simp: class_parts_def)
  have s0: "?s = (A @ NL # ''class'') @ '' '' @ c # cs @ '':'' @ ?r" by (simp add: nm class_text_def CLASS_def)
  have s1: "skip_fwd is_blank ?s (?p + 6) = Inr (?p + 7)"
    unfolding s0 using skip_fwd_app[of "?p + 6" "A @ NL # ''class''" "'' ''" is_blank c "cs @ '':'' @ ?r"] al nm alnum_not[of c]
    by (simp add: is_blank_def)
  have s: "?s = (A @ CLASS) @ nm @ CHR '':'' # ?r" by (simp add: class_text_def CLASS_def)
  have s2: "collect_fwd is_alnum ?s (?p + 7) [] = Inr (nm, ?p + 7 + int (length nm))"
    unfolding s using al collect_fwd_app[of "?p + 7" "A @ CLASS" nm is_alnum "CHR '':''" ?r "[]"] by (simp add: CLASS_def is_alnum_def)
  have "?s = (A @ CLASS @ nm) @ CHR '':'' # ?r" by (simp add: s)
  then have s3: "str_at ?s (?p + 7 + int (length nm)) = Inr CHR '':''" by (simp only:) (rule str_at_app, simp add: CLASS_def)
  show ?thesis unfolding CReadH_getclassname_def s1 sbind_Inr s2 prod.case s3 by simp
qed

lemma getclassbody_text:
  assumes "class_parts nm father body"
  shows "CReadH_getclassbody (int (length A)) (A @ class_text nm father body @ B) = Inr (class_text nm father body)"
proof -
  let ?s = "A @ class_text nm father body @ B"
  let ?h = "CLASS @ nm @ '':public '' @ father"
  have h: "CHR ''{'' \<notin> set ?h" using assms alnum_not ident_not by (auto simp: class_parts_def CLASS_def NL_def)
  have s: "?s = A @ ?h @ CHR ''{'' # body @ CHR ''}'' # B" by (simp add: class_text_def)
  have f: "str_find ?s ''{'' (int (length A)) = int (length A + length ?h)" unfolding s by (rule str_find_char[OF h])
  have s': "?s = (A @ ?h @ ''{'') @ body @ CHR ''}'' # B" by (simp add: class_text_def)
  have "close_brace ?s (int (length (A @ ?h @ ''{''))) (int 0 + 1) = Inr (int (length (A @ ?h @ ''{'') + length body))"
    unfolding s' using assms by (intro close_brace_closes) (simp add: class_parts_def)
  then have c: "close_brace ?s (int (length A + length ?h) + 1) 1 = Inr (int (length A + length (class_text nm father body)) - 1)"
    by (simp add: class_text_def add.commute)
  have "str_substr ?s (int (length A)) (int (length (class_text nm father body))) = Inr (class_text nm father body)"
    by (rule str_substr_app) simp_all
  then show ?thesis unfolding CReadH_getclassbody_def Let_def f using c by simp
qed

lemma find_public:
  assumes "class_parts nm father body"
  shows "str_find (''class '' @ nm @ '':public '' @ father) ''public'' 0 = int (7 + length nm)"
    "str_find (''class '' @ nm @ '':public '' @ father) ''public'' (int (7 + length nm) + 5) = - 1"
proof -
  have n: "find_suf ''public'' nm k = - 1" "find_suf ''public'' father k = - 1" for k
    using assms find_suf_shift[of "''public''" _ k 0] by (auto simp: class_parts_def str_find_def)
  have "find_suf ''public'' (''class'' @ CHR '' '' # nm @ CHR '':'' # ''public '' @ father) 0 = int (7 + length nm)"
    by (subst find_suf_sep) (simp_all add: n find_suf_sep[of "CHR '':''"])
  then show "str_find (''class '' @ nm @ '':public '' @ father) ''public'' 0 = int (7 + length nm)" by (simp add: str_find_def)
  have "str_find ((''class '' @ nm @ '':publi'') @ ''c'' @ CHR '' '' # father) ''public'' (int (7 + length nm) + 5) =
      find_suf ''public'' (''c'' @ CHR '' '' # father) (length (''class '' @ nm @ '':publi''))"
    by (rule str_find_at) simp
  also have "\<dots> = - 1" by (subst find_suf_sep) (simp_all add: n)
  finally show "str_find (''class '' @ nm @ '':public '' @ father) ''public'' (int (7 + length nm) + 5) = - 1" by simp
qed

lemma getfather_text:
  assumes "class_parts nm father body"
  shows "CReadH_getfatherclassname (int (length A)) (A @ class_text nm father body @ B) = Inr (father @ '' '')"
proof -
  let ?s = "A @ class_text nm father body @ B" and ?p = "int (length A)"
  let ?d = "''class '' @ nm @ '':public '' @ father" and ?w = "'' '' @ nm @ '':public '' @ father"
  let ?st = "int (7 + length nm)"
  have s: "?s = (A @ NL # ''class'') @ ?w @ CHR ''{'' # body @ ''}'' @ B" "?s = (A @ [NL]) @ ?d @ ''{'' @ body @ ''}'' @ B"
    by (simp_all add: class_text_def CLASS_def)
  have "skip_fwd (\<lambda>c. c \<noteq> CHR ''{'' \<and> c \<noteq> CHR '';'') ?s (?p + 6) = Inr (?p + 6 + int (length ?w))"
    unfolding s(1) using assms alnum_not ident_not by (intro skip_fwd_app) (auto simp: class_parts_def)
  moreover have "str_substr ?s (?p + 1) (?p + 6 + int (length ?w) - ?p - 1) = Inr ?d"
    unfolding s(2) by (rule str_substr_app) simp_all
  moreover have "father_loop ?d ?st [] = Inr (father @ '' '')"
  proof -
    have f: "father \<noteq> []" "\<forall>c \<in> set father. is_ident c" using assms by (auto simp: class_parts_def)
    have d: "?d = (''class '' @ nm @ '':public'') @ '' '' @ father" "?d = (''class '' @ nm @ '':public '') @ father @ []"
      "?d = (''class '' @ nm @ '':public'') @ CHR '' '' # father" by simp_all
    have i: "?st + 6 < int (length ?d)" by simp
    have "str_at ?d (?st + 6) = Inr CHR '' ''" unfolding d(3) by (rule str_at_app) simp
    moreover have "collect_end is_blank ?d (?st + 6) [] = Inr ('' '', ?st + 7)"
      unfolding d(1) using collect_end_app[of "?st + 6" "''class '' @ nm @ '':public''" "'' ''" is_blank father "[]"] f ident_not
      by (simp add: is_blank_def)
    moreover have "collect_end is_ident ?d (?st + 7) [] = Inr (father, ?st + 7 + int (length father))"
      unfolding d(2) using collect_end_app[of "?st + 7" "''class '' @ nm @ '':public ''" father is_ident "[]" "[]"] f by simp
    moreover have "?st + 7 < int (length ?d)" using f(1) by simp
    ultimately show ?thesis
      using find_public(2)[OF assms] i
      by (subst father_loop.simps) (simp add: Let_def is_blank_def father_loop.simps[of _ "- 1"])
  qed
  ultimately show ?thesis unfolding CReadH_getfatherclassname_def using find_public(1)[OF assms] by simp
qed

text \<open>
  A class declaration is read back as it was written: wherever the text of a class with an
  alphanumeric name, one public base class and a balanced body stands in a header, the reader
  records under the name of the class the name of its base class and its text.
\<close>

theorem class_at_roundtrip:
  assumes "class_parts nm father body" "smap_ok (classdef h)" "sfind (classdef h) nm = None"
  shows "\<exists>h'. class_at (A @ class_text nm father body @ B) (int (length A)) h = Inr h' \<and>
     classdef h' = sinsert nm \<lparr>defbody = class_text nm father body, fatherclass = father @ '' ''\<rparr> (classdef h) \<and>
     sfind (classdef h') nm = Some \<lparr>defbody = class_text nm father body, fatherclass = father @ '' ''\<rparr> \<and>
     h_classposition h' \<noteq> - 1"
proof -
  have "nm \<noteq> []" using assms(1) by (simp add: class_parts_def)
  then show ?thesis
    using getclassname_text[OF assms(1), of A B] getfather_text[OF assms(1), of A B] getclassbody_text[OF assms(1), of A B] assms(2,3)
    by (simp add: class_at_def CClassContent_init_def sfind_sinsert)
qed

theorem class_at_roundtrip_witness:
  "class_parts ''Dog'' ''Animal'' ''int a;void f(){}'' \<and>
   (\<exists>h'. class_at (''x'' @ class_text ''Dog'' ''Animal'' ''int a;void f(){}'' @ '';'') 1
       \<lparr>Hname = ''d.h'', h_globalStr = [], h_headfile = [], h_classposition = - 1, classdef = []\<rparr> = Inr h' \<and>
     sfind (classdef h') ''Dog'' = Some \<lparr>defbody = class_text ''Dog'' ''Animal'' ''int a;void f(){}'', fatherclass = ''Animal ''\<rparr>)"
proof -
  have p: "class_parts ''Dog'' ''Animal'' ''int a;void f(){}''" by code_simp
  from class_at_roundtrip[OF p, of "\<lparr>Hname = ''d.h'', h_globalStr = [], h_headfile = [], h_classposition = - 1, classdef = []\<rparr>" "''x''" "'';''"] p
  show ?thesis by auto
qed

section \<open>Reading beyond the buffer\<close>

text \<open>
  \<open>readallfile\<close> makes a string of a buffer without a terminating NUL: for a file without NUL
  bytes the string is the file followed by whatever the memory holds up to the next NUL, and
  it is the file itself exactly if a NUL happens to follow the buffer.
\<close>

theorem CReadH_readallfile_overrun:
  assumes "fs name = Some f" "f_malloc f" "f_read f = length (f_data f)" "NUL \<notin> set (f_data f)" "NUL \<in> set (f_after f)"
  shows "CReadH_readallfile fs name = Inr (f_data f @ takeWhile (\<lambda>c. c \<noteq> NUL) (f_after f)) \<and>
     (CReadH_readallfile fs name = Inr (f_data f) \<longleftrightarrow> hd (f_after f) = NUL)"
proof -
  have "takeWhile (\<lambda>c. c \<noteq> NUL) (f_data f @ f_after f) = f_data f @ takeWhile (\<lambda>c. c \<noteq> NUL) (f_after f)"
    using assms(4) by (subst takeWhile_append2) auto
  then have r: "CReadH_readallfile fs name = Inr (f_data f @ takeWhile (\<lambda>c. c \<noteq> NUL) (f_after f))"
    using assms by (simp add: CReadH_readallfile_def c_string_def Let_def)
  show ?thesis unfolding r using assms(5) by (cases "f_after f") auto
qed

definition sample_file :: file_data where
  "sample_file = \<lparr>f_data = ''int a;'', f_malloc = True, f_read = 6, f_after = ''int'' @ [NUL]\<rparr>"

theorem CReadH_readallfile_overrun_witness:
  "CReadH_readallfile (\<lambda>_. Some sample_file) ''a.h'' = Inr ''int a;int'' \<and>
   CReadH_readallfile (\<lambda>_. Some sample_file) ''a.h'' \<noteq> Inr (f_data sample_file)"
proof -
  have "f_malloc sample_file" "f_read sample_file = length (f_data sample_file)" "NUL \<notin> set (f_data sample_file)"
    "NUL \<in> set (f_after sample_file)" by code_simp+
  from CReadH_readallfile_overrun[OF refl this, of "''a.h''"] show ?thesis
    by (simp add: sample_file_def NUL_def)
qed

end
