(* ===== verification/ReadCpp.thy ===== *)
theory ReadCpp
  imports ReadH
begin

text \<open>
  \<open>src/CArchitecture/ReadCpp.cpp\<close>: a source file is searched for the methods it defines, by the
  \<open>::\<close> of a line that does not start with a blank and does not end with a semicolon.
\<close>

section \<open>The code\<close>

text \<open>
  A \<open>CMethodBody\<close>. The chain of the methods of a class is extended at its end and read from its
  start: it is a list here, as is the chain of the \<open>CReadCpp\<close> objects of a test case.
\<close>

record CMethodBody =
  m_body :: string
  funcline :: string
  paraCnt :: nat
  CallParemeter :: "nat list"

record CReadCpp =
  CppName :: string
  imatch :: int
  p_classposition :: int
  p_globalStr :: string
  p_headfile :: "string list"
  cppclass :: "(string, CMethodBody list) smap"

definition CMethodBody_new :: "string \<Rightarrow> string \<Rightarrow> nat \<Rightarrow> CMethodBody" where
  "CMethodBody_new method funcbody cnt = \<lparr>m_body = method, funcline = funcbody, paraCnt = cnt, CallParemeter = []\<rparr>"

definition CReadCpp_readallfile :: "filesystem \<Rightarrow> string \<Rightarrow> error + string" where
  "CReadCpp_readallfile fs name = (case fs name of
     None \<Rightarrow> Inl (ExitCode 1)
   | Some f \<Rightarrow>
       let lSize = length (f_data f) in
       if \<not> f_malloc f then Inl (ExitCode 2)
       else if f_read f \<noteq> lSize then Inl (ExitCode 3)
       else c_string (f_data f @ f_after f))"

subsection \<open>A line with \<open>::\<close>\<close>

text \<open>\<open>while(content.at(i)!='\n') { i--; if(i<0) break; }\<close>\<close>

function line_start :: "string \<Rightarrow> int \<Rightarrow> error + int" where
  "line_start s i = sbind (str_at s i) (\<lambda>c.
     if c \<noteq> NL then (if i - 1 < 0 then Inr (i - 1) else line_start s (i - 1)) else Inr i)"
  by pat_completeness auto
termination
  by (relation "measure (\<lambda>(s, i). nat (i + 1))") (auto simp: str_at_eq_Inr)

declare line_start.simps [simp del]

definition class_line :: "string \<Rightarrow> int \<Rightarrow> error + bool" where
  "class_line content pos =
     sbind (skip_fwd (\<lambda>c. c \<noteq> NL) content (pos + 2)) (\<lambda>i.
     sbind (str_at content (i - 1)) (\<lambda>c.
       if c = CHR '';'' then Inr False
       else sbind (line_start content pos) (\<lambda>i.
            sbind (str_at content (i + 1)) (\<lambda>c. Inr (\<not> is_blank c)))))"

definition class_of_method :: "string \<Rightarrow> int \<Rightarrow> error + string" where
  "class_of_method content pos =
     sbind (skip_bwd is_blank content (pos - 1)) (\<lambda>endpo.
     sbind (skip_bwd (\<lambda>c. \<not> is_blank c \<and> c \<noteq> NL) content endpo) (\<lambda>j.
     sbind (str_substr content (j + 1) (endpo - j)) (\<lambda>oneclassname.
       Inr (takeWhile is_ident oneclassname))))"

subsection \<open>Name and parameters of a method\<close>

text \<open>
  \<open>for(i = 0; i < s.length(); i++) if(blank) s.erase(i,1)\<close>: the character after an erased blank
  is skipped.
\<close>

function erase_blanks :: "string \<Rightarrow> nat \<Rightarrow> string" where
  "erase_blanks s i =
     (if i < length s then erase_blanks (if is_blank (s ! i) then take i s @ drop (i + 1) s else s) (i + 1)
      else s)"
  by pat_completeness auto
termination
  by (relation "measure (\<lambda>(s, i). length s - i)") auto

declare erase_blanks.simps [simp del]

fun count_commas :: "string \<Rightarrow> nat" where
  "count_commas [] = 0"
| "count_commas (c # cs) = (if c = CHR ''{'' then 0 else (if c = CHR '','' then 1 else 0) + count_commas cs)"

definition method_head :: "string \<Rightarrow> error + string \<times> nat" where
  "method_head oneclassbody =
     (let colons = str_find oneclassbody ''::'' 0; open_p = str_find oneclassbody ''('' 0; close_p = str_find oneclassbody '')'' 0 in
      sbind (str_substr oneclassbody (colons + 2) (open_p - 2 - colons)) (\<lambda>funcbody.
      sbind (str_substr oneclassbody (open_p + 1) (close_p - 1 - open_p)) (\<lambda>strPara.
        let strPara = erase_blanks strPara 0 in
        Inr (erase_blanks funcbody 0, (if length strPara > 2 then 1 else 0) + count_commas strPara))))"

definition add_method :: "string \<Rightarrow> CMethodBody \<Rightarrow> (string, CMethodBody list) smap \<Rightarrow> (string, CMethodBody list) smap" where
  "add_method oneclassname p m = (case sfind m oneclassname of
     Some q \<Rightarrow> supdate oneclassname (q @ [p]) m
   | None \<Rightarrow> sinsert oneclassname [p] m)"

subsection \<open>All methods of the file\<close>

text \<open>The search for the next method: the position after it, and the method with its class if there is one.\<close>

definition method_at :: "int \<Rightarrow> string \<Rightarrow> error + int \<times> (string \<times> CMethodBody) option" where
  "method_at s content =
     (let pos = str_find content ''::'' s in
      if pos = - 1 then Inr (pos, None)
      else sbind (class_line content pos) (\<lambda>isclass.
        if isclass then
          sbind (class_of_method content pos) (\<lambda>oneclassname.
            let bodystart = str_find content ''{'' pos in
            if bodystart = - 1 then Inr (bodystart, None)
            else
              sbind (close_brace content (bodystart + 1) 1) (\<lambda>k.
              sbind (skip_bwd (\<lambda>c. c \<noteq> NL) content pos) (\<lambda>start.
              sbind (str_substr content (start + 1) (k - start)) (\<lambda>oneclassbody.
              sbind (method_head oneclassbody) (\<lambda>(funcbody, cnt).
                Inr (k, Some (oneclassname, CMethodBody_new oneclassbody funcbody cnt)))))))
        else Inr (pos + 2, None)))"

definition findclasses :: "int \<Rightarrow> string \<Rightarrow> CReadCpp \<Rightarrow> error + int \<times> CReadCpp" where
  "findclasses s content r = sbind (method_at s content) (\<lambda>(pos, found). Inr (pos, case found of
     None \<Rightarrow> r
   | Some (oneclassname, p) \<Rightarrow> r\<lparr>cppclass := add_method oneclassname p (cppclass r), p_classposition := pos\<rparr>))"

text \<open>Both in one.\<close>

lemma findclasses_eq:
  "findclasses s content r =
     (let pos = str_find content ''::'' s in
      if pos = - 1 then Inr (pos, r)
      else sbind (class_line content pos) (\<lambda>isclass.
        if isclass then
          sbind (class_of_method content pos) (\<lambda>oneclassname.
            let bodystart = str_find content ''{'' pos in
            if bodystart = - 1 then Inr (bodystart, r)
            else
              sbind (close_brace content (bodystart + 1) 1) (\<lambda>k.
              sbind (skip_bwd (\<lambda>c. c \<noteq> NL) content pos) (\<lambda>start.
              sbind (str_substr content (start + 1) (k - start)) (\<lambda>oneclassbody.
              sbind (method_head oneclassbody) (\<lambda>(funcbody, cnt).
                Inr (k, r\<lparr>cppclass := add_method oneclassname (CMethodBody_new oneclassbody funcbody cnt) (cppclass r),
                          p_classposition := k\<rparr>))))))
        else Inr (pos + 2, r)))"
  by (simp add: findclasses_def method_at_def Let_def sbind_assoc if_distrib[of "\<lambda>m. sbind m f" for f] case_prod_unfold cong: if_cong)

text \<open>A call of \<open>findclasses\<close> that finds something ends behind the place it started from.\<close>

lemma findclasses_progress:
  assumes "findclasses s content r = Inr (pos, r')" "pos \<noteq> - 1"
  shows "s < pos" "pos \<le> int (length content)"
proof -
  let ?p = "str_find content ''::'' s" and ?b = "str_find content ''{'' (str_find content ''::'' s)"
  have p: "?p \<noteq> - 1" using assms by (auto simp: findclasses_eq Let_def)
  note f = str_find_found[OF p]
  have b: "?b \<noteq> - 1 \<Longrightarrow> close_brace content (?b + 1) 1 = Inr k \<Longrightarrow> ?p < k \<and> k \<le> int (length content)" for k
    using str_find_found(1-3)[of content "''{''" ?p] close_brace_bounds[of "?b + 1" content 1] f(1,2) by simp
  show "s < pos" "pos \<le> int (length content)"
    using assms p f(1,3) b by (auto simp: findclasses_eq Let_def sbind_eq_Inr split: if_splits)
qed

function relation_loop :: "string \<Rightarrow> int \<Rightarrow> int \<Rightarrow> CReadCpp \<Rightarrow> error + int \<times> CReadCpp" where
  "relation_loop content pos classstart r =
     (if pos = - 1 then Inr (classstart, r)
      else let classstart = (if p_classposition r \<noteq> - 1 \<and> classstart = - 1 then p_classposition r else classstart) in
        sbind (findclasses pos content r) (\<lambda>(pos, r). relation_loop content pos classstart r))"
  by pat_completeness auto

termination relation_loop
proof (relation "measure (\<lambda>(s, pos, _). if pos = - 1 then 0 else nat (int (length s) + 1 - pos) + 1)", goal_cases)
  case (2 content pos classstart r cs x pos' r')
  then have "findclasses pos content r = Inr (pos', r')" by auto
  then show ?case using findclasses_progress[of pos content r pos' r'] 2(1) by auto
qed simp

declare relation_loop.simps [simp del]

text \<open>The bodies of \<open>getheadfile\<close> and \<open>findGlobal\<close> are those of \<open>CReadH\<close>, word for word.\<close>

definition CReadCpp_getheadfile :: "int \<Rightarrow> string \<Rightarrow> CReadCpp \<Rightarrow> error + CReadCpp" where
  "CReadCpp_getheadfile classstart content r =
     sbind (str_substr content 0 (classstart + 1)) (\<lambda>mycontent.
     sbind (head_loop mycontent (str_find mycontent INCLUDE 0) (p_headfile r)) (\<lambda>hf.
       Inr (r\<lparr>p_headfile := hf\<rparr>)))"

definition CReadCpp_findGlobal :: "string \<Rightarrow> error + string" where
  "CReadCpp_findGlobal content = global_loop content 0 0 []"

definition getrelation :: "filesystem \<Rightarrow> CReadCpp \<Rightarrow> error + CReadCpp" where
  "getrelation fs r =
     sbind (CReadCpp_readallfile fs (CppName r)) (\<lambda>content.
     sbind (findclasses 0 content r) (\<lambda>(pos, r).
     sbind (relation_loop content pos (- 1) r) (\<lambda>(classstart, r).
     sbind (if classstart \<noteq> - 1 then CReadCpp_getheadfile classstart content r else Inr r) (\<lambda>r.
     sbind (CReadCpp_findGlobal content) (\<lambda>g. Inr (r\<lparr>p_globalStr := g\<rparr>))))))"

definition CReadCpp_new :: "filesystem \<Rightarrow> string \<Rightarrow> error + CReadCpp" where
  "CReadCpp_new fs name = getrelation fs \<lparr>CppName = name, imatch = 0, p_classposition = - 1, p_globalStr = [],
     p_headfile = [], cppclass = []\<rparr>"

section \<open>A method is read back\<close>

lemma find_suf_first: "c \<notin> set B \<Longrightarrow> find_suf (c # p) (B @ c # p @ C) k = int (k + length B)"
proof (induction B arbitrary: k)
  case (Cons b B)
  have "take (length (c # p)) ((b # B) @ c # p @ C) \<noteq> c # p" using Cons.prems by auto
  then show ?case using Cons by simp
qed simp

definition method_text :: "string \<Rightarrow> string \<Rightarrow> string \<Rightarrow> string \<Rightarrow> string \<Rightarrow> string" where
  "method_text rt cls fn para body = rt @ '' '' @ cls @ ''::'' @ fn @ ''('' @ para @ '')'' @ NL # ''{'' @ body @ ''}''"

definition method_parts :: "string \<Rightarrow> string \<Rightarrow> string \<Rightarrow> string \<Rightarrow> string \<Rightarrow> bool" where
  "method_parts rt cls fn para body \<longleftrightarrow> rt \<noteq> [] \<and> cls \<noteq> [] \<and> (\<forall>c \<in> set (rt @ cls @ fn). is_ident c) \<and>
     (\<forall>c \<in> set para. c \<notin> set ''(){'' \<and> c \<noteq> NL) \<and> balanced body"

lemma ident_not': "is_ident c \<Longrightarrow> c \<noteq> CHR ''('' \<and> c \<noteq> CHR '')'' \<and> c \<noteq> NL"
  by (auto simp: is_ident_def is_alnum_def Let_def NL_def)

lemma erase_blanks_free: "\<forall>c \<in> set s. \<not> is_blank c \<Longrightarrow> erase_blanks s i = s"
proof (induction "length s - i" arbitrary: i)
  case 0
  then show ?case by (subst erase_blanks.simps) simp
next
  case (Suc n)
  then have "i < length s" "\<not> is_blank (s ! i)" by auto
  then show ?case using Suc.hyps(1)[of "i + 1"] Suc.hyps(2) Suc.prems by (subst erase_blanks.simps) simp
qed

lemma method_head_text:
  assumes "method_parts rt cls fn para body"
  shows "method_head (method_text rt cls fn para body) =
     Inr (fn, (if length (erase_blanks para 0) > 2 then 1 else 0) + count_commas (erase_blanks para 0))"
proof -
  let ?m = "method_text rt cls fn para body" and ?a = "rt @ '' '' @ cls" and ?r = "NL # ''{'' @ body @ ''}''"
  have id: "\<forall>c \<in> set (rt @ cls @ fn). is_ident c" and pa: "\<forall>c \<in> set para. c \<notin> set ''(){''" using assms by (auto simp: method_parts_def)
  have m: "?m = ?a @ CHR '':'' # '':'' @ fn @ ''('' @ para @ '')'' @ ?r"
    "?m = [] @ (?a @ ''::'' @ fn) @ CHR ''('' # para @ '')'' @ ?r"
    "?m = [] @ (?a @ ''::'' @ fn @ ''('' @ para) @ CHR '')'' # ?r"
    "?m = (?a @ ''::'') @ fn @ ''('' @ para @ '')'' @ ?r" "?m = (?a @ ''::'' @ fn @ ''('') @ para @ '')'' @ ?r"
    by (simp_all add: method_text_def)
  have f1: "str_find ?m ''::'' 0 = int (length ?a)"
    unfolding m(1) using find_suf_first[of "CHR '':''" ?a "'':''" "fn @ ''('' @ para @ '')'' @ ?r" 0] id ident_not by (auto simp: str_find_def)
  have f2: "str_find ?m ''('' 0 = int (length (?a @ ''::'' @ fn))"
    unfolding m(2) using str_find_char[of "CHR ''(''" "?a @ ''::'' @ fn" "[]" "para @ '')'' @ ?r"] id ident_not' by auto
  have f3: "str_find ?m '')'' 0 = int (length (?a @ ''::'' @ fn @ ''('' @ para))"
    unfolding m(3) using str_find_char[of "CHR '')''" "?a @ ''::'' @ fn @ ''('' @ para" "[]" ?r] id ident_not' pa by auto
  have s1: "str_substr ?m (int (length ?a) + 2) (int (length (?a @ ''::'' @ fn)) - 2 - int (length ?a)) = Inr fn"
    unfolding m(4) by (rule str_substr_app) simp_all
  have s2: "str_substr ?m (int (length (?a @ ''::'' @ fn)) + 1) (int (length (?a @ ''::'' @ fn @ ''('' @ para)) - 1 - int (length (?a @ ''::'' @ fn))) = Inr para"
    unfolding m(5) by (rule str_substr_app) simp_all
  have e: "erase_blanks fn 0 = fn" using id ident_not by (intro erase_blanks_free) auto
  show ?thesis unfolding method_head_def Let_def f1 f2 f3 s1 s2 sbind_Inr e ..
qed

lemma line_start_app:
  assumes "i = int (length A + length w)" "NL \<notin> set w"
  shows "line_start (A @ NL # w @ B) i = Inr (int (length A))"
  using assms
proof (induction w arbitrary: i B rule: rev_induct)
  case Nil
  then show ?case by (subst line_start.simps) simp
next
  case (snoc c w)
  have "str_at (A @ NL # (w @ [c]) @ B) i = Inr c" using str_at_app[of i "A @ NL # w" c B] snoc.prems by simp
  moreover have "line_start (A @ NL # w @ c # B) (i - 1) = Inr (int (length A))" using snoc.prems by (intro snoc.IH) auto
  moreover have "c \<noteq> NL" using snoc.prems by auto
  ultimately show ?case using snoc.prems by (subst line_start.simps) simp
qed

lemma class_line_method:
  assumes "method_parts rt cls fn para body"
  shows "class_line (A @ NL # method_text rt cls fn para body @ B) (int (length (A @ NL # rt @ '' '' @ cls))) = Inr True"
proof -
  let ?s = "A @ NL # method_text rt cls fn para body @ B" and ?l = "rt @ '' '' @ cls"
  let ?p = "int (length (A @ NL # ?l))" and ?w = "fn @ ''('' @ para @ '')''"
  have id: "\<forall>c \<in> set (rt @ cls @ fn). is_ident c" and pa: "NL \<notin> set para" using assms by (auto simp: method_parts_def)
  obtain c cs where rt: "rt = c # cs" using assms by (cases rt) (auto simp: method_parts_def)
  have s: "?s = (A @ NL # ?l @ ''::'') @ ?w @ NL # ''{'' @ body @ ''}'' @ B"
    "?s = (A @ NL # ?l @ ''::'' @ fn @ ''('' @ para) @ CHR '')'' # NL # ''{'' @ body @ ''}'' @ B"
    "?s = A @ NL # (?l @ '':'') @ '':'' @ ?w @ NL # ''{'' @ body @ ''}'' @ B"
    "?s = (A @ [NL]) @ c # cs @ '' '' @ cls @ ''::'' @ ?w @ NL # ''{'' @ body @ ''}'' @ B" by (simp_all add: method_text_def rt)
  have "skip_fwd (\<lambda>c. c \<noteq> NL) ?s (?p + 2) = Inr (?p + 2 + int (length ?w))"
    unfolding s(1) using id ident_not' pa by (intro skip_fwd_app) (auto simp: NL_def)
  moreover have "str_at ?s (?p + 2 + int (length ?w) - 1) = Inr CHR '')''" unfolding s(2) by (rule str_at_app) simp
  moreover have "line_start ?s ?p = Inr (int (length A))"
    unfolding s(3) using id ident_not' by (intro line_start_app) (auto simp: NL_def)
  moreover have "str_at ?s (int (length A) + 1) = Inr c" unfolding s(4) by (rule str_at_app) simp
  moreover have "\<not> is_blank c" using id rt ident_not by simp
  ultimately show ?thesis by (simp add: class_line_def)
qed

lemma class_of_method_text:
  assumes "method_parts rt cls fn para body"
  shows "class_of_method (A @ NL # method_text rt cls fn para body @ B) (int (length (A @ NL # rt @ '' '' @ cls))) = Inr cls"
proof -
  let ?s = "A @ NL # method_text rt cls fn para body @ B"
  let ?p = "int (length (A @ NL # rt @ '' '' @ cls))" and ?r = "''::'' @ fn @ ''('' @ para @ '')'' @ NL # ''{'' @ body @ ''}'' @ B"
  have id: "\<forall>c \<in> set cls. is_ident c" using assms by (auto simp: method_parts_def)
  obtain cs c where cls: "cls = cs @ [c]" using assms by (cases cls rule: rev_cases) (auto simp: method_parts_def)
  have s: "?s = (A @ NL # rt @ '' '' @ cs) @ c # [] @ ?r" "?s = (A @ NL # rt) @ CHR '' '' # cls @ ?r"
    "?s = (A @ NL # rt @ '' '') @ cls @ ?r" by (simp_all add: method_text_def cls)
  have "skip_bwd is_blank ?s (?p - 1) = Inr (int (length (A @ NL # rt @ '' '' @ cs)))"
    unfolding s(1) using id cls ident_not by (intro skip_bwd_app) auto
  then have s1: "skip_bwd is_blank ?s (?p - 1) = Inr (?p - 1)" by (simp add: cls)
  have s2: "skip_bwd (\<lambda>c. \<not> is_blank c \<and> c \<noteq> NL) ?s (?p - 1) = Inr (int (length (A @ NL # rt)))"
    unfolding s(2) using id ident_not ident_not' by (intro skip_bwd_app) (auto simp: is_blank_def)
  have s3: "str_substr ?s (int (length (A @ NL # rt)) + 1) (?p - 1 - int (length (A @ NL # rt))) = Inr cls"
    unfolding s(3) by (rule str_substr_app) simp_all
  have "takeWhile is_ident cls = cls" using id by simp
  then show ?thesis unfolding class_of_method_def s1 sbind_Inr s2 s3 by (simp del: takeWhile_eq_all_conv)
qed

text \<open>
  A method definition is read back as it was written: where the next \<open>::\<close> belongs to the
  text of a method, on a line of its own that starts with its return type, and its body has
  balanced braces, \<open>findclasses\<close> records the whole text of the method, its name and its number
  of parameters at the end of the chain of its class, and continues at its closing brace.
\<close>

theorem findclasses_roundtrip:
  assumes "method_parts rt cls fn para body"
    and "content = A @ NL # method_text rt cls fn para body @ B"
    and "str_find content ''::'' s = int (length (A @ NL # rt @ '' '' @ cls))"
  shows "findclasses s content r = Inr (int (length (A @ NL # method_text rt cls fn para body)) - 1,
     r\<lparr>cppclass := add_method cls \<lparr>m_body = method_text rt cls fn para body, funcline = fn,
          paraCnt = (if length (erase_blanks para 0) > 2 then 1 else 0) + count_commas (erase_blanks para 0), CallParemeter = []\<rparr> (cppclass r),
        p_classposition := int (length (A @ NL # method_text rt cls fn para body)) - 1\<rparr>)"
proof -
  let ?m = "method_text rt cls fn para body" and ?l = "rt @ '' '' @ cls"
  let ?p = "int (length (A @ NL # ?l))" and ?h = "''::'' @ fn @ ''('' @ para @ '')'' @ [NL]"
  have id: "\<forall>c \<in> set (rt @ cls @ fn). is_ident c" and pa: "\<forall>c \<in> set para. c \<noteq> CHR ''{''" and ba: "balanced body"
    using assms(1) by (auto simp: method_parts_def)
  have s: "content = (A @ NL # ?l) @ ?h @ CHR ''{'' # body @ ''}'' @ B"
    "content = (A @ NL # ?l @ ?h @ ''{'') @ body @ CHR ''}'' # B"
    "content = A @ NL # (?l @ '':'') @ '':'' @ fn @ ''('' @ para @ '')'' @ NL # ''{'' @ body @ ''}'' @ B"
    "content = (A @ [NL]) @ ?m @ B" by (simp_all add: assms(2) method_text_def)
  have "CHR ''{'' \<notin> set ?h" using id pa ident_not by (auto simp: NL_def)
  then have f: "str_find content ''{'' ?p = ?p + int (length ?h)" unfolding s(1) by (subst str_find_char) simp_all
  have "close_brace content (int (length (A @ NL # ?l @ ?h @ ''{''))) (int 0 + 1) = Inr (int (length (A @ NL # ?l @ ?h @ ''{'') + length body))"
    unfolding s(2) by (rule close_brace_closes[OF ba])
  then have k: "close_brace content (?p + int (length ?h) + 1) 1 = Inr (int (length (A @ NL # ?m)) - 1)"
    by (simp add: method_text_def algebra_simps)
  have b: "skip_bwd (\<lambda>c. c \<noteq> NL) content ?p = Inr (int (length A))"
    unfolding s(3) using id ident_not' by (intro skip_bwd_app) (auto simp: NL_def)
  have "str_substr content (int (length A) + 1) (int (length (A @ NL # ?m)) - 1 - int (length A)) = Inr ?m"
    unfolding s(4) by (rule str_substr_app) simp_all
  then show ?thesis
    unfolding findclasses_eq Let_def assms(3) class_line_method[OF assms(1), of A B, folded assms(2)]
      class_of_method_text[OF assms(1), of A B, folded assms(2)] f k b sbind_Inr
    using method_head_text[OF assms(1)] by (simp add: CMethodBody_new_def)
qed

theorem findclasses_roundtrip_witness:
  "\<exists>r'. findclasses 0 (''x'' @ NL # method_text ''void'' ''Dog'' ''run'' ''int a,int b'' ''if(a){b=1;}'' @ [NL])
      \<lparr>CppName = ''d.cpp'', imatch = 0, p_classposition = - 1, p_globalStr = [], p_headfile = [], cppclass = []\<rparr> = Inr (41, r') \<and>
     cppclass r' = [(''Dog'', [\<lparr>m_body = method_text ''void'' ''Dog'' ''run'' ''int a,int b'' ''if(a){b=1;}'', funcline = ''run'',
        paraCnt = 2, CallParemeter = []\<rparr>])]"
proof -
  let ?c = "''x'' @ NL # method_text ''void'' ''Dog'' ''run'' ''int a,int b'' ''if(a){b=1;}'' @ [NL]"
  have p: "method_parts ''void'' ''Dog'' ''run'' ''int a,int b'' ''if(a){b=1;}''" by code_simp
  have f: "str_find ?c ''::'' 0 = int (length (''x'' @ NL # ''void'' @ '' '' @ ''Dog''))" by code_simp
  have e: "length (erase_blanks ''int a,int b'' 0) = 9" "count_commas (erase_blanks ''int a,int b'' 0) = 1" by code_simp+
  have l: "length (''x'' @ NL # method_text ''void'' ''Dog'' ''run'' ''int a,int b'' ''if(a){b=1;}'') = 42" by code_simp
  show ?thesis unfolding findclasses_roundtrip[OF p refl f] e l by (simp add: add_method_def)
qed

section \<open>A method on the first line\<close>

lemma line_start_first:
  assumes "i = int (length w) - 1" "NL \<notin> set w" "w \<noteq> []"
  shows "line_start (w @ B) i = Inr (- 1)"
  using assms
proof (induction w arbitrary: i B rule: rev_induct)
  case (snoc c w)
  have c: "str_at ((w @ [c]) @ B) i = Inr c" using str_at_app[of i w c B] snoc.prems by simp
  show ?case
  proof (cases "w = []")
    case True
    then show ?thesis using c snoc.prems by (subst line_start.simps) auto
  next
    case False
    then have "line_start (w @ c # B) (i - 1) = Inr (- 1)" using snoc.prems by (intro snoc.IH) auto
    moreover have "c \<noteq> NL" "\<not> i - 1 < 0" using snoc.prems False by (auto simp: Suc_le_eq)
    ultimately show ?thesis using c by (subst line_start.simps) simp
  qed
qed simp

lemma collect_bwd_result:
  assumes "i < int (length s)"
  shows "collect_bwd P s i acc = Inl OutOfRange \<or> (\<exists>w j. collect_bwd P s i acc = Inr (w, j) \<and> 0 \<le> j \<and> j \<le> i)"
  using collect_bwd_eq[OF assms, of P acc] by (auto simp: Let_def)

lemma skip_bwd_result:
  assumes "i < int (length s)"
  shows "skip_bwd P s i = Inl OutOfRange \<or> (\<exists>j. skip_bwd P s i = Inr j \<and> 0 \<le> j \<and> j \<le> i)"
  using collect_bwd_result[OF assms, of P "[]"] by (auto simp: skip_bwd_def)

lemma class_of_method_result:
  assumes "pos < int (length s)"
  shows "class_of_method s pos = Inl OutOfRange \<or> (\<exists>n. class_of_method s pos = Inr n)"
proof -
  have "skip_bwd is_blank s (pos - 1) = Inl OutOfRange \<or> (\<exists>j. skip_bwd is_blank s (pos - 1) = Inr j \<and> 0 \<le> j \<and> j \<le> pos - 1)"
    by (rule skip_bwd_result) (use assms in simp)
  then show ?thesis
  proof (elim disjE exE conjE)
    fix j assume j: "skip_bwd is_blank s (pos - 1) = Inr j" "0 \<le> j" "j \<le> pos - 1"
    then have "skip_bwd (\<lambda>c. \<not> is_blank c \<and> c \<noteq> NL) s j = Inl OutOfRange \<or>
        (\<exists>k. skip_bwd (\<lambda>c. \<not> is_blank c \<and> c \<noteq> NL) s j = Inr k \<and> 0 \<le> k \<and> k \<le> j)"
      using assms by (intro skip_bwd_result) simp
    then show ?thesis using j assms by (auto simp: class_of_method_def str_substr_def)
  qed (simp add: class_of_method_def)
qed

text \<open>
  C39. A method that is defined on the first line of a file ends the program with an exception:
  the search for the start of the line walks past the start of the text. This holds for every
  file whose first line contains \<open>::\<close>, starts with no blank, does not end in a semicolon and is
  followed by an opening brace.
\<close>

theorem findclasses_first_line_throws:
  assumes "content = L @ ''::'' @ R @ NL # B" "L \<noteq> []" "\<not> is_blank (hd L)" "NL \<notin> set (L @ R)" "CHR '':'' \<notin> set L"
    and "R = [] \<or> last R \<noteq> CHR '';''" "CHR ''{'' \<in> set (R @ B)"
  shows "findclasses 0 content r = Inl OutOfRange"
proof -
  let ?p = "int (length L)"
  obtain c L' where L: "L = c # L'" using assms(2) by (cases L) auto
  have s: "content = L @ CHR '':'' # '':'' @ R @ NL # B" "content = (L @ ''::'') @ R @ NL # B"
    "content = (L @ '':'') @ '':'' @ R @ NL # B" "content = [] @ c # L' @ ''::'' @ R @ NL # B" by (simp_all add: assms(1) L)
  have f: "str_find content ''::'' 0 = ?p"
    unfolding s(1) using find_suf_first[of "CHR '':''" L "'':''" "R @ NL # B" 0] assms(5) by (simp add: str_find_def)
  have nl: "\<forall>x \<in> set R. x \<noteq> NL" "NL \<notin> set (L @ '':'')" using assms(4) by (auto simp: NL_def)
  have "skip_fwd (\<lambda>c. c \<noteq> NL) content (?p + 2) = Inr (?p + 2 + int (length R))"
    unfolding s(2) using nl(1) by (intro skip_fwd_app) auto
  moreover obtain d where "str_at content (?p + 2 + int (length R) - 1) = Inr d" "d \<noteq> CHR '';''"
  proof (cases R rule: rev_cases)
    case Nil
    then have "str_at content (?p + 2 + int (length R) - 1) = Inr CHR '':''"
      using str_at_app[of "?p + 2 + int (length R) - 1" "L @ '':''" "CHR '':''" "NL # B"] by (simp add: assms(1))
    then show ?thesis using that by blast
  next
    case (snoc R' d)
    then have "str_at content (?p + 2 + int (length R) - 1) = Inr d"
      using str_at_app[of "?p + 2 + int (length R) - 1" "L @ ''::'' @ R'" d "NL # B"] by (simp add: assms(1))
    then show ?thesis using that assms(6) snoc by simp
  qed
  moreover have "line_start content ?p = Inr (- 1)"
    unfolding s(3) by (rule line_start_first) (use nl(2) in auto)
  moreover have "str_at content 0 = Inr c" unfolding s(4) by (rule str_at_app) simp
  ultimately have line: "class_line content ?p = Inr True" using assms(3) L by (simp add: class_line_def)
  have p: "?p < int (length content)" by (simp add: assms(1))
  have "CHR ''{'' \<in> set (''::'' @ R @ NL # B)" using assms(7) by auto
  then obtain C D where cd: "''::'' @ R @ NL # B = C @ CHR ''{'' # D" "CHR ''{'' \<notin> set C" by (metis split_list_first)
  then have b: "str_find content ''{'' ?p = ?p + int (length C)" using str_find_char[of "CHR ''{''" C L D] by (simp add: assms(1))
  have "?p + int (length C) + 1 \<le> int (length content)" using cd(1) by (simp add: assms(1))
  then obtain k where k: "close_brace content (?p + int (length C) + 1) 1 = Inr k"
    using close_brace_bounds[of "?p + int (length C) + 1" content 1] by (auto simp: ok_iff)
  have "collect_bwd (\<lambda>c. c \<noteq> NL) content ?p [] = Inl OutOfRange"
    unfolding s(3) by (rule collect_bwd_throws) (use nl(2) in auto)
  then have "skip_bwd (\<lambda>c. c \<noteq> NL) content ?p = Inl OutOfRange" by (simp add: skip_bwd_def)
  then show ?thesis
    using class_of_method_result[OF p] unfolding findclasses_eq Let_def f b using line k by auto
qed

theorem findclasses_first_line_throws_witness:
  "findclasses 0 (''void A'' @ ''::'' @ ''f()'' @ NL # ''{}'' @ [NL])
     \<lparr>CppName = ''a.cpp'', imatch = 0, p_classposition = - 1, p_globalStr = [], p_headfile = [], cppclass = []\<rparr> = Inl OutOfRange"
  by (rule findclasses_first_line_throws[OF refl]) (simp_all add: is_blank_def NL_def TAB_def)

end
