(* ===== verification/Symbols.thy ===== *)
theory Symbols
  imports CreateHypergraph ReadCpp
begin

text \<open>
  The parser proper, of \<open>src/CArchitecture/TestCase.cpp\<close>: splitting a line into words, type
  definitions, the parameters a method dereferences, the type of a variable, and
  \<open>findsymbol\<close>, which turns every \<open>x->f\<close> and \<open>x.f\<close> of a method into a pair of classes.
\<close>

section \<open>The code\<close>

subsection \<open>Words and type definitions\<close>

definition has_char :: "string \<Rightarrow> char \<Rightarrow> bool" where
  "has_char line c \<longleftrightarrow> str_find line [c] 0 \<noteq> - 1"

definition split_char :: "string \<Rightarrow> string \<Rightarrow> int \<times> string list \<Rightarrow> nat \<Rightarrow> error + int \<times> string list" where
  "split_char str pattern = (\<lambda>(position, result) i.
     sbind (str_at str (int i)) (\<lambda>c.
       if c \<in> set pattern then
         sbind (str_substr str (position + 1) (int i - 1 - position)) (\<lambda>ans.
           Inr (int i, if ans \<noteq> [] then result @ [ans] else result))
       else Inr (position, result)))"

definition split :: "string \<Rightarrow> string \<Rightarrow> error + string list" where
  "split line pattern =
     (let str = line @ '','' in
      if has_char line CHR ''{'' \<or> has_char line CHR ''<'' \<or> has_char line CHR ''/'' \<or> has_char line CHR ''('' \<or> has_char line CHR ''}''
      then Inr []
      else sbind (mfold (split_char str pattern) (- 1, []) [0..<length str]) (\<lambda>(_, result). Inr result))"

definition blanks_pattern :: string where
  "blanks_pattern = '' '' @ [TAB] @ '','' @ [NL] @ ''*''"

definition add_names :: "string \<Rightarrow> string list \<Rightarrow> (string, string) smap \<Rightarrow> (string, string) smap" where
  "add_names name1 ws m = foldl (\<lambda>m w. sinsert w name1 m) m ws"

definition typedef_words :: "string list \<Rightarrow> (string, string) smap \<Rightarrow> (string, string) smap" where
  "typedef_words words m =
     (if length words \<ge> 3 then
        if words ! 1 = ''class'' then add_names (words ! 2) (drop 3 words) m
        else add_names (words ! 1) (drop 2 words) m
      else m)"

function typedef_loop :: "string \<Rightarrow> int \<Rightarrow> int \<Rightarrow> (string, string) smap \<Rightarrow> error + (string, string) smap" where
  "typedef_loop content pos1 pos2 m =
     (if pos1 \<noteq> - 1 \<and> pos2 \<noteq> - 1 then
        sbind (str_substr content pos1 (pos2 - pos1)) (\<lambda>line.
        sbind (split line blanks_pattern) (\<lambda>words.
          let pos1 = str_find content ''typedef'' (pos1 + 7) in
          typedef_loop content pos1 (str_find content '';'' pos1) (typedef_words words m)))
      else Inr m)"
  by pat_completeness auto

termination typedef_loop
proof (relation "measure (\<lambda>(s, pos1, _). if pos1 = - 1 then 0 else nat (int (length s) + 1 - pos1))", goal_cases)
  case (2 content pos1 pos2 m line words pos1')
  then have b: "0 \<le> pos1" "pos1 \<le> int (length content)" by (auto simp: str_substr_def split: if_splits)
  then show ?case using 2(1,4) str_find_found(1)[of content "''typedef''" "pos1 + 7"] by (auto simp: Let_def)
qed simp

declare typedef_loop.simps [simp del]

definition dealwithTypeDef :: "string \<Rightarrow> (string, string) smap \<Rightarrow> error + (string, string) smap" where
  "dealwithTypeDef content m =
     (let pos1 = str_find content ''typedef'' 0 in typedef_loop content pos1 (str_find content '';'' pos1) m)"

subsection \<open>The parameters a method dereferences\<close>

text \<open>The characters from a position up to another, by \<open>at\<close>.\<close>

definition chars_between :: "string \<Rightarrow> int \<Rightarrow> int \<Rightarrow> error + string" where
  "chars_between s i j = mfold (\<lambda>acc k. sbind (str_at s k) (\<lambda>c. Inr (acc @ [c]))) [] [i..j - 1]"

definition count_char :: "char \<Rightarrow> string \<Rightarrow> nat" where
  "count_char c s = length (filter (\<lambda>x. x = c) s)"

fun arrow_loop :: "nat \<Rightarrow> string \<Rightarrow> string \<Rightarrow> int \<Rightarrow> nat list \<Rightarrow> error + nat list" where
  "arrow_loop 0 body funcPara pos ps = Inl OutOfFuel"
| "arrow_loop (Suc fuel) body funcPara pos ps =
     (if pos = - 1 then Inr ps
      else sbind (collect_bwd is_ident body (pos - 1) []) (\<lambda>(valuename, _).
        let pos2 = str_find funcPara valuename 0;
            ps = (if pos2 \<noteq> - 1 then ps @ [count_char CHR '','' (take (nat pos2) funcPara) + 1] else ps) in
        arrow_loop fuel body funcPara (str_find body ''->'' (pos + 2)) ps))"

definition InitCalledParameter :: "CMethodBody \<Rightarrow> error + CMethodBody" where
  "InitCalledParameter p =
     (let body = m_body p in
      sbind (chars_between body (str_find body ''('' 0 + 1) (str_find body '')'' 0)) (\<lambda>funcPara.
      sbind (arrow_loop (length body + 1) body funcPara (str_find body ''->'' 0) (CallParemeter p)) (\<lambda>ps.
        Inr (p\<lparr>CallParemeter := ps\<rparr>))))"

subsection \<open>The type of a variable\<close>

text \<open>\<open>while(is_ident(c)) { typeofname = content.at(k) + typeofname; k--; if(k<0) return ""; c = content.at(k); }\<close>\<close>

function type_word :: "string \<Rightarrow> int \<Rightarrow> string \<Rightarrow> error + string" where
  "type_word content k typeofname =
     sbind (str_at content k) (\<lambda>c.
       if is_ident c then (if k - 1 < 0 then Inr [] else type_word content (k - 1) (c # typeofname))
       else Inr typeofname)"
  by pat_completeness auto
termination
  by (relation "measure (\<lambda>(_, k, _). nat (k + 1))") (auto simp: str_at_eq_Inr)

declare type_word.simps [simp del]

definition is_star_blank :: "char \<Rightarrow> bool" where
  "is_star_blank c \<longleftrightarrow> c = CHR ''*'' \<or> is_blank c"

text \<open>
  The loop makes progress only for a non-empty name: \<open>find("")\<close> returns the position it starts
  from. The callers test the name; the fuel is enough for every other one.
\<close>

fun findtype_loop :: "nat \<Rightarrow> string \<Rightarrow> string \<Rightarrow> int \<Rightarrow> int \<Rightarrow> error + string" where
  "findtype_loop 0 content valuename endpos pos2 = Inl OutOfFuel"
| "findtype_loop (Suc fuel) content valuename endpos pos2 =
     (if pos2 = - 1 then Inr []
      else let next = int (length valuename) + pos2 in
        if content \<noteq> [] \<and> next > int (length content) - 1 then Inr []
        else sbind (str_at content next) (\<lambda>c.
          if is_ident c then findtype_loop fuel content valuename endpos (str_find content valuename next)
          else if pos2 - 1 < 0 then Inr []
          else sbind (str_at content (pos2 - 1)) (\<lambda>c.
            if is_ident c then findtype_loop fuel content valuename endpos (str_find content valuename next)
            else if pos2 \<ge> endpos then Inr []
            else sbind (skip_bwd is_star_blank content (pos2 - 1)) (\<lambda>k. type_word content k []))))"

definition findtype :: "string \<Rightarrow> string \<Rightarrow> int \<Rightarrow> error + string" where
  "findtype content valuename endpos =
     findtype_loop (length content + 2) content valuename endpos (str_find content valuename 0)"

subsection \<open>Where the variable may be declared\<close>

definition strip_path :: "string \<Rightarrow> error + string" where
  "strip_path headname =
     (if str_find headname ''/'' 0 \<noteq> - 1 then
        sbind (skip_bwd (\<lambda>c. c \<noteq> CHR ''/'') headname (int (length headname) - 1)) (\<lambda>k.
          str_substr headname (k + 1) (int (length headname) - 1 - k))
      else Inr headname)"

type_synonym headers = "(string, CReadH) smap"

text \<open>In the class of the method, as the first included header that declares it has it.\<close>

fun member_type :: "headers \<Rightarrow> string \<Rightarrow> string \<Rightarrow> string list \<Rightarrow> error + string" where
  "member_type hmap classname valuename [] = Inr []"
| "member_type hmap classname valuename (h # hs) =
     sbind (strip_path h) (\<lambda>headname. case sfind hmap headname of
       None \<Rightarrow> member_type hmap classname valuename hs
     | Some H \<Rightarrow> (case sfind (classdef H) classname of
         None \<Rightarrow> member_type hmap classname valuename hs
       | Some C \<Rightarrow> findtype (defbody C) valuename (int (length (defbody C)))))"

text \<open>Breadth first through the included headers: \<open>donemap\<close> and the queue.\<close>

definition push_head :: "(string, bool) smap \<times> string list \<Rightarrow> string \<Rightarrow> error + (string, bool) smap \<times> string list" where
  "push_head = (\<lambda>(donemap, q) h. sbind (strip_path h) (\<lambda>headname.
     if sfind donemap headname = None then Inr (sinsert headname True donemap, q @ [headname]) else Inr (donemap, q)))"

fun head_bfs :: "nat \<Rightarrow> headers \<Rightarrow> string \<Rightarrow> (string, bool) smap \<Rightarrow> string list \<Rightarrow> error + string" where
  "head_bfs 0 hmap valuename donemap q = Inl OutOfFuel"
| "head_bfs (Suc fuel) hmap valuename donemap [] = Inr []"
| "head_bfs (Suc fuel) hmap valuename donemap (h # q) = (case sfind hmap h of
     None \<Rightarrow> head_bfs fuel hmap valuename donemap q
   | Some H \<Rightarrow>
       sbind (findtype (h_globalStr H) valuename (int (length (h_globalStr H)))) (\<lambda>typeofname.
         if typeofname \<noteq> [] then Inr typeofname
         else sbind (mfold push_head (donemap, q) (h_headfile H)) (\<lambda>(donemap, q). head_bfs fuel hmap valuename donemap q)))"

definition head_fuel :: "headers \<Rightarrow> string list \<Rightarrow> nat" where
  "head_fuel hmap heads = length heads + sum_list (map (\<lambda>(_, H). length (h_headfile H)) hmap) + 1"

definition global_type :: "headers \<Rightarrow> CReadCpp \<Rightarrow> string \<Rightarrow> error + string" where
  "global_type hmap p valuename =
     sbind (findtype (p_globalStr p) valuename (int (length (p_globalStr p)))) (\<lambda>typeofname.
       if typeofname \<noteq> [] then Inr typeofname
       else sbind (mfold push_head ([], []) (p_headfile p)) (\<lambda>(donemap, q).
         head_bfs (head_fuel hmap (p_headfile p)) hmap valuename donemap q))"

text \<open>The three places in their order, with \<open>declarationPos == 2\<close> for a member.\<close>

definition variable_type :: "headers \<Rightarrow> CReadCpp \<Rightarrow> string \<Rightarrow> string \<Rightarrow> string \<Rightarrow> int \<Rightarrow> error + string \<times> bool" where
  "variable_type hmap p classname methodbody valuename pos =
     sbind (findtype methodbody valuename pos) (\<lambda>typeofname.
       if typeofname \<noteq> [] then Inr (typeofname, False)
       else sbind (member_type hmap classname valuename (p_headfile p)) (\<lambda>typeofname.
         if typeofname \<noteq> [] then Inr (typeofname, True)
         else sbind (global_type hmap p valuename) (\<lambda>typeofname. Inr (typeofname, False))))"

subsection \<open>The relation between classes\<close>

text \<open>The first cell of that name counts one more, or the new cell goes to the end of the chain.\<close>

fun add_cell :: "calledclass \<Rightarrow> calledclass list \<Rightarrow> calledclass list" where
  "add_cell new [] = [new]"
| "add_cell new (t # ts) = (if c_name t = c_name new then t\<lparr>c_count := c_count t + 1\<rparr> # ts else t # add_cell new ts)"

definition add_relation :: "string \<Rightarrow> calledclass \<Rightarrow> relation \<Rightarrow> relation" where
  "add_relation key new rel = (case sfind rel key of
     Some chain \<Rightarrow> supdate key (add_cell new chain) rel
   | None \<Rightarrow> sinsert key [new] rel)"

text \<open>\<open>string funcPara[20]\<close>: the text of each argument of a call, with its comma.\<close>

definition arg_char :: "string \<Rightarrow> string list \<times> nat \<Rightarrow> int \<Rightarrow> error + string list \<times> nat" where
  "arg_char methodbody = (\<lambda>(funcPara, douCnt) j.
     sbind (str_at methodbody j) (\<lambda>c.
     sbind (aget funcPara douCnt) (\<lambda>w.
     sbind (aset funcPara douCnt (w @ [c])) (\<lambda>funcPara.
       Inr (funcPara, if c = CHR '','' then douCnt + 1 else douCnt)))))"

text \<open>What follows the symbol: the name called, whether it is a function, its arguments.\<close>

definition call_of :: "string \<Rightarrow> string \<Rightarrow> int \<Rightarrow> error + string \<times> bool \<times> string list \<times> nat" where
  "call_of symbol methodbody pos =
     sbind (collect_fwd is_ident methodbody (pos + int (length symbol)) []) (\<lambda>(funcname, i).
     sbind (str_at methodbody i) (\<lambda>c.
       if c = CHR ''('' then
         sbind (mfold (arg_char methodbody) (replicate 20 [], 0)
             [str_find methodbody ''('' pos + 1..str_find methodbody '')'' pos - 1]) (\<lambda>(funcPara, douCnt).
           Inr (funcname, True, funcPara, douCnt))
       else Inr (funcname, False, replicate 20 [], 0)))"

text \<open>The relation between objects: the arguments that the called method dereferences.\<close>

definition relate_args :: "string \<Rightarrow> string list \<Rightarrow> CMethodBody \<Rightarrow> relation \<Rightarrow> error + relation" where
  "relate_args valuename funcPara m objectrelation =
     mfold (\<lambda>rel n. sbind (aget funcPara (n - 1)) (\<lambda>a. Inr (add_relation a (calledclass_init valuename) rel)))
       objectrelation (CallParemeter m)"

fun find_method :: "string \<Rightarrow> nat \<Rightarrow> CMethodBody list \<Rightarrow> CMethodBody option" where
  "find_method funcname douCnt [] = None"
| "find_method funcname douCnt (m # ms) =
     (if funcline m = funcname \<and> paraCnt m = douCnt + 1 then Some m else find_method funcname douCnt ms)"

fun relate_objects :: "string \<Rightarrow> string \<Rightarrow> string \<Rightarrow> string list \<Rightarrow> nat \<Rightarrow> CReadCpp list \<Rightarrow> relation \<Rightarrow> error + relation" where
  "relate_objects typeofname funcname valuename funcPara douCnt [] objectrelation = Inr objectrelation"
| "relate_objects typeofname funcname valuename funcPara douCnt (r # rs) objectrelation =
     (case sfind (cppclass r) typeofname of
        None \<Rightarrow> relate_objects typeofname funcname valuename funcPara douCnt rs objectrelation
      | Some ms \<Rightarrow> (case find_method funcname douCnt ms of
          None \<Rightarrow> relate_objects typeofname funcname valuename funcPara douCnt rs objectrelation
        | Some m \<Rightarrow> relate_args valuename funcPara m objectrelation))"

text \<open>What \<open>findsymbol\<close> reads and what it changes.\<close>

record parse_env =
  hmap :: headers
  mapForTypeDef :: "(string, string) smap"
  cpps :: "CReadCpp list"

record parse_state =
  calledrelation :: relation
  lastans :: string
  objectrelation :: relation

definition relate_header :: "parse_env \<Rightarrow> string \<Rightarrow> string \<Rightarrow> bool \<Rightarrow> string \<Rightarrow> string \<times> bool \<times> string list \<times> nat \<Rightarrow>
    parse_state \<Rightarrow> string \<times> CReadH \<Rightarrow> error + parse_state" where
  "relate_header env classname typeofname member valuename = (\<lambda>(funcname, is_func, funcPara, douCnt) st (_, H).
     case sfind (classdef H) typeofname of
       None \<Rightarrow> Inr st
     | Some _ \<Rightarrow>
         let st = st\<lparr>lastans := lastans st @ classname @ ''  called  '' @ typeofname @ [NL]\<rparr>;
             st = (if classname \<noteq> typeofname then
                     st\<lparr>calledrelation := add_relation typeofname ((calledclass_init classname)\<lparr>bIsmemberVar := member\<rparr>) (calledrelation st)\<rparr>
                   else st) in
         if is_func then
           sbind (relate_objects typeofname funcname valuename funcPara douCnt (cpps env) (objectrelation st)) (\<lambda>orel.
             Inr (st\<lparr>objectrelation := orel\<rparr>))
         else Inr st)"

definition symbol_at :: "parse_env \<Rightarrow> string \<Rightarrow> string \<Rightarrow> string \<Rightarrow> CReadCpp \<Rightarrow> int \<Rightarrow> parse_state \<Rightarrow> error + parse_state" where
  "symbol_at env symbol methodbody classname p pos st =
     sbind (collect_bwd is_ident methodbody (pos - 1) []) (\<lambda>(valuename, _).
     sbind (call_of symbol methodbody pos) (\<lambda>call.
       if valuename \<noteq> [] then
         sbind (variable_type (hmap env) p classname methodbody valuename pos) (\<lambda>(typeofname, member).
           if typeofname \<noteq> [] then
             let typeofname = (case sfind (mapForTypeDef env) typeofname of Some t \<Rightarrow> t | None \<Rightarrow> typeofname) in
             mfold (relate_header env classname typeofname member valuename call) st (hmap env)
           else Inr st)
       else Inr st))"

fun symbol_loop :: "nat \<Rightarrow> parse_env \<Rightarrow> string \<Rightarrow> string \<Rightarrow> string \<Rightarrow> CReadCpp \<Rightarrow> int \<Rightarrow> parse_state \<Rightarrow> error + parse_state" where
  "symbol_loop 0 env symbol methodbody classname p pos st = Inl OutOfFuel"
| "symbol_loop (Suc fuel) env symbol methodbody classname p pos st =
     (if pos = - 1 then Inr st
      else sbind (symbol_at env symbol methodbody classname p pos st) (\<lambda>st.
        symbol_loop fuel env symbol methodbody classname p (str_find methodbody symbol (pos + int (length symbol))) st))"

text \<open>\<open>objectrelation\<close> is a local variable: it starts empty and is dropped at the end.\<close>

definition findsymbol :: "parse_env \<Rightarrow> string \<Rightarrow> string \<Rightarrow> string \<Rightarrow> CReadCpp \<Rightarrow> parse_state \<Rightarrow> error + parse_state" where
  "findsymbol env symbol methodbody classname p st =
     symbol_loop (length methodbody + 2) env symbol methodbody classname p (str_find methodbody symbol 0) (st\<lparr>objectrelation := []\<rparr>)"

section \<open>Words\<close>

text \<open>The words of a line: what stands between the characters of the pattern, if anything.\<close>

fun tokens :: "string \<Rightarrow> string \<Rightarrow> string \<Rightarrow> string list" where
  "tokens pattern acc [] = (if acc \<noteq> [] then [acc] else [])"
| "tokens pattern acc (c # cs) =
     (if c \<in> set pattern then (if acc \<noteq> [] then acc # tokens pattern [] cs else tokens pattern [] cs)
      else tokens pattern (acc @ [c]) cs)"

lemma tokens_end: "c \<in> set pattern \<Longrightarrow> tokens pattern acc (s @ [c]) = tokens pattern acc s"
  by (induction s arbitrary: acc) auto

lemma has_char_iff: "has_char line c \<longleftrightarrow> c \<in> set line"
proof (cases "c \<in> set line")
  case True
  then obtain A B where "line = A @ c # B" "c \<notin> set A" by (metis split_list_first)
  then show ?thesis using str_find_char[of c A "[]" B] True by (simp add: has_char_def)
next
  case False
  then show ?thesis using str_find_char_none[of c line "[]"] by (simp add: has_char_def)
qed

lemma split_scan_ok:
  "ok (mfold (split_char s pattern) (- 1, []) [0..<length s]) (\<lambda>(position, result).
     - 1 \<le> position \<and> position < int (length s) \<and> (\<forall>j. position < j \<longrightarrow> j < int (length s) \<longrightarrow> s ! nat j \<notin> set pattern) \<and>
     result @ tokens pattern (drop (nat (position + 1)) s) [] = tokens pattern [] s)"
proof -
  have "ok (mfold (split_char s pattern) (- 1, []) [0..<length s]) (\<lambda>(position, result).
     - 1 \<le> position \<and> position < int (length s) \<and> (\<forall>j. position < j \<longrightarrow> j < int (length s) \<longrightarrow> s ! nat j \<notin> set pattern) \<and>
     result @ tokens pattern (drop (nat (position + 1)) (take (length s) s)) (drop (length s) s) = tokens pattern [] s)"
  proof (rule mfold_ok_upt[where I = "\<lambda>i (position, result).
     - 1 \<le> position \<and> position < int i \<and> (\<forall>j. position < j \<longrightarrow> j < int i \<longrightarrow> s ! nat j \<notin> set pattern) \<and>
     result @ tokens pattern (drop (nat (position + 1)) (take i s)) (drop i s) = tokens pattern [] s"], goal_cases)
    case (3 i t)
    obtain p r where t: "t = (p, r)" by force
    note I = 3(3)[unfolded t prod.case]
    have d: "drop i s = s ! i # drop (Suc i) s" using 3(2) by (simp add: Cons_nth_drop_Suc)
    have at: "str_at s (int i) = Inr (s ! i)" using 3(2) by (simp add: str_at_def)
    have np: "nat (p + 1) \<le> i" "nat (int i - 1 - p) = i - nat (p + 1)" using I by linarith+
    show ?case
    proof (cases "s ! i \<in> set pattern")
      case True
      have "str_substr s (p + 1) (int i - 1 - p) = Inr (drop (nat (p + 1)) (take i s))"
        using I np 3(2) by (simp add: str_substr_def drop_take)
      then show ?thesis using True I t at d by (auto simp: split_char_def nat_add_distrib split: if_splits)
    next
      case False
      have "take (Suc i) s = take i s @ [s ! i]" using 3(2) by (simp add: take_Suc_conv_app_nth)
      then have "drop (nat (p + 1)) (take (Suc i) s) = drop (nat (p + 1)) (take i s) @ [s ! i]"
        using np(1) 3(2) by simp
      moreover have "s ! nat j \<notin> set pattern" if "p < j" "j < 1 + int i" for j
      proof (cases "j = int i")
        case True
        then show ?thesis using False by simp
      next
        case ne: False
        then show ?thesis using I that by simp
      qed
      ultimately show ?thesis using False I t at d by (simp add: split_char_def)
    qed
  qed auto
  then show ?thesis by simp
qed

lemma split_correct_line:
  assumes "CHR '','' \<in> set pattern"
  shows "split line pattern = Inr (if \<exists>c \<in> set ''{</(}''. c \<in> set line then [] else tokens pattern [] line)"
proof -
  let ?s = "line @ '',''"
  obtain p r where m: "mfold (split_char ?s pattern) (- 1, []) [0..<length ?s] = Inr (p, r)" and
    I: "- 1 \<le> p" "p < int (length ?s)" "\<forall>j. p < j \<longrightarrow> j < int (length ?s) \<longrightarrow> ?s ! nat j \<notin> set pattern"
      "r @ tokens pattern (drop (nat (p + 1)) ?s) [] = tokens pattern [] ?s"
    using split_scan_ok[of ?s pattern] by (auto simp: ok_iff)
  have "p = int (length line)"
  proof (rule ccontr)
    assume "p \<noteq> int (length line)"
    then have "p < int (length line)" using I(2) by simp
    then have "?s ! nat (int (length line)) \<notin> set pattern" using spec[OF I(3), of "int (length line)"] by simp
    then show False using assms by simp
  qed
  then have "r = tokens pattern [] line" using I(4) tokens_end[OF assms, of "[]" line] by (simp add: nat_add_distrib)
  then show ?thesis using m by (auto simp: split_def Let_def has_char_iff)
qed

text \<open>
  C34. \<open>split\<close> never throws. A line with one of the characters \<open>{ < / ( }\<close> gives no words; of any
  other line, with a pattern that contains the comma, it returns exactly the non-empty pieces
  between the characters of the pattern, in order, the last one included.
\<close>

theorem split_correct:
  assumes "CHR '','' \<in> set pattern"
  shows "split line pattern = Inr (if \<exists>c \<in> set ''{</(}''. c \<in> set line then [] else tokens pattern [] line)"
  using assms by (rule split_correct_line)

theorem split_correct_witness:
  "CHR '','' \<in> set blanks_pattern \<and> split ''typedef class Dog  *LPDOG, DOG'' blanks_pattern = Inr [''typedef'', ''class'', ''Dog'', ''LPDOG'', ''DOG'']"
proof -
  have "CHR '','' \<in> set blanks_pattern" by (simp add: blanks_pattern_def)
  moreover have "tokens blanks_pattern [] ''typedef class Dog  *LPDOG, DOG'' = [''typedef'', ''class'', ''Dog'', ''LPDOG'', ''DOG'']" by code_simp
  ultimately show ?thesis using split_correct[of blanks_pattern "''typedef class Dog  *LPDOG, DOG''"] by simp
qed

section \<open>The parser ends\<close>

text \<open>A computation that does not run out of fuel: the loop it stands for ends.\<close>

definition ends :: "error + 'a \<Rightarrow> bool" where
  "ends m \<longleftrightarrow> m \<noteq> Inl OutOfFuel"

named_theorems ends_intros

lemma ends_Inr [simp]: "ends (Inr x)"
  by (simp add: ends_def)

lemma ends_sbind [ends_intros]: "ends m \<Longrightarrow> (\<And>x. m = Inr x \<Longrightarrow> ends (f x)) \<Longrightarrow> ends (sbind m f)"
  by (cases m) (auto simp: ends_def)

lemma ends_mfold [ends_intros]: "(\<And>t x. x \<in> set xs \<Longrightarrow> ends (f t x)) \<Longrightarrow> ends (mfold f s xs)"
  by (induction xs arbitrary: s) (auto intro!: ends_sbind)

lemma ends_str_at [simp]: "ends (str_at s i)"
  by (simp add: str_at_def ends_def)

lemma ends_str_substr [simp]: "ends (str_substr s i n)"
  by (simp add: str_substr_def ends_def)

lemma ends_array [simp]: "ends (aget xs i)" "ends (aset xs i v)"
  by (simp_all add: aget_def aset_def ends_def)

lemma ends_collect_fwd [simp]: "ends (collect_fwd P s i acc)"
proof (cases "0 \<le> i")
  case False
  then show ?thesis by (subst collect_fwd.simps) (simp add: str_at_def ends_def)
qed (simp add: collect_fwd_eq Let_def ends_def)

lemma ends_collect_bwd [simp]: "ends (collect_bwd P s i acc)"
proof (cases "i < int (length s)")
  case False
  then show ?thesis by (subst collect_bwd.simps) (simp add: str_at_def ends_def)
qed (simp add: collect_bwd_eq Let_def ends_def)

lemma ends_skip_bwd [simp]: "ends (skip_bwd P s i)"
  unfolding skip_bwd_def by (intro ends_sbind) auto

lemma ends_type_word [simp]: "ends (type_word s k acc)"
proof (induction s k acc rule: type_word.induct)
  case (1 s k acc)
  then show ?case by (subst type_word.simps) (auto intro!: ends_sbind)
qed

lemma ends_strip_path [simp]: "ends (strip_path h)"
  by (auto simp: strip_path_def intro!: ends_sbind)

lemma findtype_loop_ends:
  assumes "v \<noteq> []" "pos = - 1 \<or> 0 \<le> pos \<and> int (length s) < pos + int fuel" "0 < fuel"
  shows "ends (findtype_loop fuel s v e pos)"
  using assms(2,3)
proof (induction fuel arbitrary: pos)
  case (Suc fuel)
  let ?n = "int (length v) + pos"
  have IH: "ends (findtype_loop fuel s v e (str_find s v ?n))" if "0 \<le> pos" "str_at s ?n = Inr c" for c
  proof (rule Suc.IH)
    have n: "?n \<le> int (length s) - 1" using that by (simp add: str_at_eq_Inr)
    have "0 < length v" using assms(1) by simp
    then show "str_find s v ?n = - 1 \<or> 0 \<le> str_find s v ?n \<and> int (length s) < str_find s v ?n + int fuel"
      using str_find_found(1)[of s v ?n] that(1) n Suc.prems(1) by linarith
    show "0 < fuel" using Suc.prems that(1) n by (cases fuel) auto
  qed
  then show ?case using Suc.prems(1) by (auto simp: Let_def intro!: ends_sbind)
qed simp

lemma findtype_ends: "v \<noteq> [] \<Longrightarrow> ends (findtype s v e)"
  unfolding findtype_def by (rule findtype_loop_ends) (use str_find_ge[of s v 0] in auto)

lemma member_type_ends: "v \<noteq> [] \<Longrightarrow> ends (member_type hm cls v hs)"
proof (induction hs)
  case (Cons h hs)
  then show ?case by (auto intro!: ends_sbind findtype_ends split: option.splits)
qed simp

text \<open>A header is put into the queue at most once: the names that are still to come become fewer.\<close>

definition head_names :: "headers \<Rightarrow> string set" where
  "head_names hm = {n. \<exists>(_, H) \<in> set hm. \<exists>h \<in> set (h_headfile H). strip_path h = Inr n}"

lemma card_head_names: "finite (head_names hm) \<and> card (head_names hm) \<le> sum_list (map (\<lambda>(_, H). length (h_headfile H)) hm)"
proof (induction hm)
  case (Cons e hm)
  obtain k H where e: "e = (k, H)" by force
  let ?f = "\<lambda>h. case strip_path h of Inr n \<Rightarrow> n | Inl _ \<Rightarrow> []"
  have sub: "head_names (e # hm) \<subseteq> ?f ` set (h_headfile H) \<union> head_names hm"
    unfolding head_names_def e by (fastforce split: sum.splits intro: rev_image_eqI)
  have fin: "finite (?f ` set (h_headfile H) \<union> head_names hm)" using Cons by simp
  have "card (?f ` set (h_headfile H) \<union> head_names hm) \<le> card (?f ` set (h_headfile H)) + card (head_names hm)" by (rule card_Un_le)
  also have "card (?f ` set (h_headfile H)) \<le> length (h_headfile H)" by (metis card_image_le card_length finite_set le_trans)
  finally show ?case using card_mono[OF fin sub] finite_subset[OF sub fin] Cons e by simp
qed (simp add: head_names_def)

lemma push_heads:
  assumes "mfold push_head (d, q) hs = Inr (d', q')"
  shows "\<exists>new. q' = q @ new \<and> skeys d' = skeys d \<union> set new \<and> distinct new \<and> set new \<inter> skeys d = {} \<and>
     set new \<subseteq> {n. \<exists>h \<in> set hs. strip_path h = Inr n} \<and> length new \<le> length hs"
  using assms
proof (induction hs arbitrary: d q)
  case (Cons h hs)
  then obtain n where n: "strip_path h = Inr n" by (auto simp: push_head_def sbind_eq_Inr)
  show ?case
  proof (cases "sfind d n = None")
    case True
    have m: "mfold push_head (sinsert n True d, q @ [n]) hs = Inr (d', q')" using Cons.prems n True by (simp add: push_head_def)
    obtain new where "q' = (q @ [n]) @ new" "skeys d' = skeys (sinsert n True d) \<union> set new" "distinct new"
       "set new \<inter> skeys (sinsert n True d) = {}" "set new \<subseteq> {n. \<exists>h \<in> set hs. strip_path h = Inr n}" "length new \<le> length hs"
      using Cons.IH[OF m] by blast
    moreover have "n \<notin> skeys d" using True by (simp add: sfind_None_iff)
    ultimately show ?thesis using n by (intro exI[of _ "n # new"]) auto
  next
    case False
    have m: "mfold push_head (d, q) hs = Inr (d', q')" using Cons.prems n False by (simp add: push_head_def)
    obtain new where "q' = q @ new" "skeys d' = skeys d \<union> set new" "distinct new"
       "set new \<inter> skeys d = {}" "set new \<subseteq> {n. \<exists>h \<in> set hs. strip_path h = Inr n}" "length new \<le> length hs"
      using Cons.IH[OF m] by blast
    then show ?thesis by (intro exI[of _ new]) auto
  qed
qed simp

lemma push_head_ends [simp]: "ends (push_head t h)"
  by (cases t) (auto simp: push_head_def intro!: ends_sbind)

lemma head_bfs_ends:
  assumes "v \<noteq> []" "length q + card (head_names hm - skeys d) < fuel"
  shows "ends (head_bfs fuel hm v d q)"
  using assms(2)
proof (induction fuel arbitrary: d q)
  case (Suc fuel)
  show ?case
  proof (cases q)
    case (Cons h q1)
    show ?thesis
    proof (cases "sfind hm h")
      case None
      then show ?thesis using Cons Suc by simp
    next
      case (Some H)
      have "ends (head_bfs fuel hm v d' q')" if m: "mfold push_head (d, q1) (h_headfile H) = Inr (d', q')" for d' q'
      proof (rule Suc.IH)
        obtain new where new: "q' = q1 @ new" "skeys d' = skeys d \<union> set new" "distinct new" "set new \<inter> skeys d = {}"
            "set new \<subseteq> {n. \<exists>h \<in> set (h_headfile H). strip_path h = Inr n}" using push_heads[OF m] by blast
        have "(h, H) \<in> set hm" using Some by (rule map_of_SomeD)
        then have "set new \<subseteq> head_names hm - skeys d" using new(4,5) unfolding head_names_def by blast
        moreover have "finite (head_names hm - skeys d)" using card_head_names by simp
        moreover have n': "head_names hm - skeys d' = (head_names hm - skeys d) - set new" using new(2) by blast
        ultimately have "card (head_names hm - skeys d') + length new = card (head_names hm - skeys d)"
          using new(3) by (metis (no_types, lifting) card_Diff_subset card_mono distinct_card finite_set le_add_diff_inverse2 n')
        then show "length q' + card (head_names hm - skeys d') < fuel" using Suc.prems Cons new(1) by simp
      qed
      then show ?thesis using Cons Some assms(1) by (auto intro!: ends_sbind ends_mfold findtype_ends)
    qed
  qed simp
qed simp

lemma global_type_ends: "v \<noteq> [] \<Longrightarrow> ends (global_type hm p v)"
proof -
  assume v: "v \<noteq> []"
  have "ends (head_bfs (head_fuel hm (p_headfile p)) hm v d q)" if m: "mfold push_head ([], []) (p_headfile p) = Inr (d, q)" for d q
  proof (rule head_bfs_ends[OF v])
    have "length q \<le> length (p_headfile p)" using push_heads[OF m] by auto
    moreover have "card (head_names hm - skeys d) \<le> card (head_names hm)" using card_head_names by (intro card_mono) auto
    ultimately show "length q + card (head_names hm - skeys d) < head_fuel hm (p_headfile p)"
      using card_head_names[of hm] by (simp add: head_fuel_def)
  qed
  then show ?thesis using v by (auto simp: global_type_def intro!: ends_sbind ends_mfold findtype_ends)
qed

lemma variable_type_ends: "v \<noteq> [] \<Longrightarrow> ends (variable_type hm p cls body v pos)"
  by (auto simp: variable_type_def intro!: ends_sbind findtype_ends member_type_ends global_type_ends)

lemma call_of_ends [simp]: "ends (call_of symbol body pos)"
proof -
  have "ends (arg_char body t j)" for t j by (cases t) (auto simp: arg_char_def intro!: ends_sbind)
  then show ?thesis by (auto simp: call_of_def intro!: ends_sbind ends_mfold)
qed

lemma relate_objects_ends [simp]: "ends (relate_objects t f v fp n rs rel)"
  by (induction t f v fp n rs rel rule: relate_objects.induct)
    (auto simp: relate_args_def intro!: ends_mfold ends_sbind split: option.splits)

lemma symbol_at_ends [simp]: "ends (symbol_at env symbol body cls p pos st)"
proof -
  have "ends (relate_header env cls t mb v call st e)" for t mb v call st e
    by (cases call; cases e) (auto simp: relate_header_def Let_def intro!: ends_sbind split: option.splits)
  then show ?thesis
    by (auto simp: symbol_at_def Let_def intro!: ends_sbind ends_mfold variable_type_ends)
qed

lemma symbol_loop_ends:
  assumes "symbol \<noteq> []" "pos = - 1 \<or> 0 \<le> pos \<and> int (length body) < pos + int fuel" "0 < fuel"
  shows "ends (symbol_loop fuel env symbol body cls p pos st)"
  using assms(2,3)
proof (induction fuel arbitrary: pos st)
  case (Suc fuel)
  let ?n = "str_find body symbol (pos + int (length symbol))"
  have "ends (symbol_loop fuel env symbol body cls p ?n st')" if "pos \<noteq> - 1" "symbol_at env symbol body cls p pos st = Inr st'" for st'
  proof (rule Suc.IH)
    have l: "0 < length symbol" using assms(1) by simp
    then show "?n = - 1 \<or> 0 \<le> ?n \<and> int (length body) < ?n + int fuel"
      using str_find_found(1)[of body symbol "pos + int (length symbol)"] that(1) Suc.prems(1) by linarith
    have "pos + int (length symbol) < int (length body)"
      using that(2) collect_fwd_start(2)[of is_ident body "pos + int (length symbol)" "[]"] by (auto simp: symbol_at_def call_of_def sbind_eq_Inr)
    then show "0 < fuel" using Suc.prems(1) that(1) by (cases fuel) auto
  qed
  then show ?case by (auto intro!: ends_sbind)
qed simp

lemma findsymbol_ends: "symbol \<noteq> [] \<Longrightarrow> ends (findsymbol env symbol methodbody classname p st)"
  unfolding findsymbol_def by (rule symbol_loop_ends) (use str_find_ge[of methodbody symbol 0] in auto)

text \<open>
  The analysis of a method ends: whatever the text of the method, the headers and the files
  are (headers may include each other in a cycle), \<open>findsymbol\<close> returns or throws for every
  non-empty symbol.
\<close>

theorem findsymbol_terminates:
  assumes "symbol \<noteq> []"
  shows "findsymbol env symbol methodbody classname p st \<noteq> Inl OutOfFuel"
  using findsymbol_ends[OF assms] by (simp add: ends_def)

section \<open>The relation that the parser collects\<close>

definition callers :: "relation \<Rightarrow> (string \<times> string) set" where
  "callers rel = {(key, nm). \<exists>chain. sfind rel key = Some chain \<and> nm \<in> c_name ` set chain}"

definition declared :: "parse_env \<Rightarrow> string \<Rightarrow> bool" where
  "declared env t \<longleftrightarrow> (\<exists>(_, H) \<in> set (hmap env). sfind (classdef H) t \<noteq> None)"

lemma wf_relation_iff:
  "wf_relation rel \<longleftrightarrow> smap_ok rel \<and> (\<forall>key chain. sfind rel key = Some chain \<longrightarrow> distinct (key # map c_name chain))"
proof (cases "smap_ok rel")
  case True
  then have "sfind rel k = Some v \<longleftrightarrow> (k, v) \<in> set rel" for k v by (simp add: smap_ok_distinct map_of_eq_Some_iff)
  then show ?thesis using True by (fastforce simp: wf_relation_def names_def)
qed (simp add: wf_relation_def)

lemma add_cell_names:
  "c_name ` set (add_cell new chain) = insert (c_name new) (c_name ` set chain)"
  "distinct (map c_name chain) \<Longrightarrow> distinct (map c_name (add_cell new chain))"
proof (induction chain)
  case (Cons t ts)
  { case 1 show ?case using Cons.IH(1) by auto }
  { case 2
    have "c_name ` set (add_cell new ts) = insert (c_name new) (c_name ` set ts)"
      using Cons.IH(1) .
    then show ?case using 2 Cons.IH(2) by (auto simp: image_iff) }
qed simp_all

lemma add_relation_ok:
  assumes "wf_relation rel" "c_name new \<noteq> key"
  shows "wf_relation (add_relation key new rel)" "callers (add_relation key new rel) = insert (key, c_name new) (callers rel)"
proof -
  have ok: "smap_ok rel" and d: "\<And>k ch. sfind rel k = Some ch \<Longrightarrow> distinct (k # map c_name ch)"
    using assms(1) by (auto simp: wf_relation_iff)
  let ?ch = "case sfind rel key of Some chain \<Rightarrow> add_cell new chain | None \<Rightarrow> [new]"
  have f: "sfind (add_relation key new rel) = (sfind rel)(key \<mapsto> ?ch)"
    using ok by (auto simp: add_relation_def sfind_sinsert sfind_supdate split: option.splits)
  have "smap_ok (add_relation key new rel)" using ok by (auto simp: add_relation_def split: option.splits)
  moreover have "distinct (key # map c_name ?ch)"
  proof (cases "sfind rel key")
    case (Some chain)
    have "key \<notin> c_name ` set (add_cell new chain)" using d[OF Some] assms(2) by (simp add: add_cell_names(1))
    then show ?thesis using d[OF Some] Some by (simp add: add_cell_names(2))
  qed (use assms(2) in simp)
  ultimately show "wf_relation (add_relation key new rel)" using d unfolding wf_relation_iff f by auto
  show "callers (add_relation key new rel) = insert (key, c_name new) (callers rel)"
  proof (rule set_eqI)
    fix x :: "string \<times> string"
    obtain k nm where x: "x = (k, nm)" by force
    show "x \<in> callers (add_relation key new rel) \<longleftrightarrow> x \<in> insert (key, c_name new) (callers rel)"
    proof (cases "k = key")
      case True
      then show ?thesis unfolding callers_def f x by (cases "sfind rel key") (simp_all add: add_cell_names(1))
    next
      case False
      then show ?thesis unfolding callers_def f x by simp
    qed
  qed
qed

text \<open>What one step of the parser may do to the relation, for a method of class \<open>cls\<close>.\<close>

definition extends :: "parse_env \<Rightarrow> string \<Rightarrow> relation \<Rightarrow> relation \<Rightarrow> bool" where
  "extends env cls rel rel' \<longleftrightarrow> (wf_relation rel \<longrightarrow> wf_relation rel' \<and> callers rel \<subseteq> callers rel' \<and>
     callers rel' \<subseteq> callers rel \<union> {(t, cls) |t. declared env t \<and> t \<noteq> cls})"

lemma extends_refl [simp]: "extends env cls rel rel"
  by (simp add: extends_def)

lemma extends_trans: "extends env cls a b \<Longrightarrow> extends env cls b c \<Longrightarrow> extends env cls a c"
  unfolding extends_def by blast

lemma mfold_keeps:
  assumes "mfold f s xs = Inr t" "R s s" "\<And>u x v. x \<in> set xs \<Longrightarrow> f u x = Inr v \<Longrightarrow> R s u \<Longrightarrow> R s v"
  shows "R s t"
proof -
  have "R s u \<Longrightarrow> mfold f u ys = Inr t \<Longrightarrow> set ys \<subseteq> set xs \<Longrightarrow> R s t" for u ys
    using assms(3) by (induction ys arbitrary: u) (auto simp: sbind_eq_Inr)
  then show ?thesis using assms(1,2) by blast
qed

lemma relate_header_extends:
  assumes "relate_header env cls t mb v call st e = Inr st'" "e \<in> set (hmap env)"
  shows "extends env cls (calledrelation st) (calledrelation st')"
proof (cases "sfind (classdef (snd e)) t")
  case None
  then show ?thesis using assms(1) by (cases call; cases e) (simp add: relate_header_def)
next
  case (Some C)
  then have d: "declared env t" using assms(2) unfolding declared_def by (intro bexI[of _ e]) (auto simp: case_prod_beta)
  have "calledrelation st' = (if cls \<noteq> t then add_relation t ((calledclass_init cls)\<lparr>bIsmemberVar := mb\<rparr>) (calledrelation st) else calledrelation st)"
    using assms(1) Some by (cases call; cases e) (auto simp: relate_header_def Let_def sbind_eq_Inr split: if_splits)
  then show ?thesis using d add_relation_ok[of "calledrelation st" "(calledclass_init cls)\<lparr>bIsmemberVar := mb\<rparr>" t]
    by (auto simp: extends_def calledclass_init_def)
qed

lemma symbol_at_extends:
  assumes "symbol_at env symbol body cls p pos st = Inr st'"
  shows "extends env cls (calledrelation st) (calledrelation st')"
proof -
  have "extends env cls (calledrelation st) (calledrelation st')" if "mfold (relate_header env cls t mb v call) st (hmap env) = Inr st'" for t mb v call
    using that by (rule mfold_keeps) (auto dest: relate_header_extends intro: extends_trans)
  then show ?thesis using assms by (auto simp: symbol_at_def sbind_eq_Inr Let_def split: if_splits)
qed

lemma symbol_loop_extends:
  "symbol_loop fuel env symbol body cls p pos st = Inr st' \<Longrightarrow> extends env cls (calledrelation st) (calledrelation st')"
proof (induction fuel arbitrary: pos st)
  case (Suc fuel)
  show ?case
  proof (cases "pos = - 1")
    case False
    then obtain st1 where "symbol_at env symbol body cls p pos st = Inr st1"
       "symbol_loop fuel env symbol body cls p (str_find body symbol (pos + int (length symbol))) st1 = Inr st'"
      using Suc.prems by (auto simp: sbind_eq_Inr)
    then show ?thesis using Suc.IH symbol_at_extends extends_trans by blast
  qed (use Suc.prems in simp)
qed simp

lemma findsymbol_extends:
  "findsymbol env symbol body cls p st = Inr st' \<Longrightarrow> extends env cls (calledrelation st) (calledrelation st')"
  unfolding findsymbol_def by (drule symbol_loop_extends) simp

text \<open>
  \<open>findsymbol\<close> keeps the relation in order: no class is entered as its own caller and no
  caller twice, nothing is lost, and all it adds is that the class of the method calls classes
  that are declared in one of the headers.
\<close>

theorem findsymbol_relation:
  assumes "findsymbol env symbol methodbody classname p st = Inr st'" "wf_relation (calledrelation st)"
  shows "wf_relation (calledrelation st') \<and> callers (calledrelation st) \<subseteq> callers (calledrelation st') \<and>
     callers (calledrelation st') \<subseteq> callers (calledrelation st) \<union> {(t, classname) |t. declared env t \<and> t \<noteq> classname}"
  using findsymbol_extends[OF assms(1)] assms(2) by (simp add: extends_def)

definition sample_header :: CReadH where
  "sample_header = \<lparr>Hname = ''dog.h'', h_globalStr = [], h_headfile = [], h_classposition = 0,
     classdef = [(''Dog'', \<lparr>defbody = ''class Dog{}'', fatherclass = []\<rparr>)]\<rparr>"

definition sample_cpp :: CReadCpp where
  "sample_cpp = \<lparr>CppName = ''a.cpp'', imatch = 0, p_classposition = 9, p_globalStr = [], p_headfile = [''x/dog.h''], cppclass = []\<rparr>"

definition sample_env :: parse_env where
  "sample_env = \<lparr>hmap = [(''dog.h'', sample_header)], mapForTypeDef = [], cpps = [sample_cpp]\<rparr>"

definition sample_state :: parse_state where
  "sample_state = \<lparr>calledrelation = [], lastans = [], objectrelation = []\<rparr>"

lemma sample_run:
  "sbind (findsymbol sample_env ''->'' ''A::f(){Dog *d;d->run(1,2);}'' ''A'' sample_cpp sample_state) (\<lambda>st. Inr (calledrelation st)) =
     Inr [(''Dog'', [calledclass_init ''A''])]"
  by code_simp

theorem findsymbol_terminates_witness:
  "findsymbol sample_env ''->'' ''A::f(){Dog *d;d->run(1,2);}'' ''A'' sample_cpp sample_state \<noteq> Inl OutOfFuel"
  by (rule findsymbol_terminates) simp

theorem findsymbol_relation_witness:
  "\<exists>st'. findsymbol sample_env ''->'' ''A::f(){Dog *d;d->run(1,2);}'' ''A'' sample_cpp sample_state = Inr st' \<and>
     wf_relation (calledrelation st') \<and> calledrelation st' = [(''Dog'', [calledclass_init ''A''])]"
proof -
  obtain st' where st: "findsymbol sample_env ''->'' ''A::f(){Dog *d;d->run(1,2);}'' ''A'' sample_cpp sample_state = Inr st'"
    "calledrelation st' = [(''Dog'', [calledclass_init ''A''])]" using sample_run by (auto simp: sbind_eq_Inr)
  have "wf_relation (calledrelation sample_state)" by code_simp
  from findsymbol_relation[OF st(1) this] st show ?thesis by blast
qed

section \<open>Declarations\<close>

lemma type_word_app:
  assumes "i = int (length A + length w)" "\<forall>c \<in> set w. is_ident c" "\<not> is_ident c"
  shows "type_word (A @ c # w @ B) i acc = Inr (w @ acc)"
  using assms(1,2)
proof (induction w arbitrary: i B acc rule: rev_induct)
  case Nil
  then show ?case using assms(3) by (subst type_word.simps) simp
next
  case (snoc d w)
  have "str_at (A @ c # (w @ [d]) @ B) i = Inr d" using str_at_app[of i "A @ c # w" d B] snoc.prems by simp
  moreover have "type_word (A @ c # w @ d # B) (i - 1) (d # acc) = Inr (w @ d # acc)"
    using snoc.prems by (intro snoc.IH) auto
  ultimately show ?case using snoc.prems by (subst type_word.simps) simp
qed

text \<open>
  The type of a declared variable is found: where the first occurrence of the name in the
  text is a declaration \<open>T v\<close> (with blanks and stars between, and no letter around the name)
  before the position of its use, \<open>findtype\<close> returns \<open>T\<close>.
\<close>

theorem findtype_declaration:
  assumes "content = A @ c # T @ sep @ v @ d # B" "str_find content v 0 = int (length (A @ c # T @ sep))"
    and "\<forall>x \<in> set T. is_ident x" "T \<noteq> []" "\<not> is_ident c" "\<not> is_star_blank c"
    and "sep \<noteq> []" "\<forall>x \<in> set sep. is_star_blank x" "\<not> is_ident d" "int (length (A @ c # T @ sep)) < endpos"
  shows "findtype content v endpos = Inr T"
proof -
  let ?p = "int (length (A @ c # T @ sep))"
  have sb: "\<not> is_ident x" if "is_star_blank x" for x
    using that ident_not[of x] by (auto simp: is_star_blank_def is_ident_def is_alnum_def Let_def)
  have idsb: "\<not> is_star_blank x" if "is_ident x" for x using that sb by blast
  obtain sep' e where sep: "sep = sep' @ [e]" using assms(7) by (cases sep rule: rev_cases) auto
  obtain T' t where T: "T = T' @ [t]" using assms(4) by (cases T rule: rev_cases) auto
  have s: "content = (A @ c # T @ sep @ v) @ d # B" "content = (A @ c # T @ sep') @ e # v @ d # B"
    "content = (A @ c # T') @ t # sep @ v @ d # B" "content = A @ c # T @ sep @ v @ d # B" by (simp_all add: assms(1) sep T)
  have a1: "str_at content (int (length v) + ?p) = Inr d" unfolding s(1) by (rule str_at_app) simp
  have a2: "str_at content (?p - 1) = Inr e" unfolding s(2) by (rule str_at_app) (simp add: sep)
  have k: "skip_bwd is_star_blank content (?p - 1) = Inr (int (length (A @ c # T')))"
    unfolding s(3) by (rule skip_bwd_app) (use assms(3,8) T idsb in auto)
  have w: "type_word content (int (length (A @ c # T'))) [] = Inr (T @ [])"
    unfolding s(4) by (rule type_word_app) (use assms(3,5) T in auto)
  have n: "\<not> is_ident e" "\<not> ?p - 1 < 0" using assms(8) sep sb by auto
  have "\<not> int (length v) + ?p > int (length content) - 1" by (simp add: assms(1))
  then show ?thesis
    unfolding findtype_def assms(2) using a1 a2 k w n assms(9,10) by (simp add: Let_def numeral_2_eq_2)
qed

theorem findtype_declaration_witness:
  "findtype ''A::f(){Dog *d;d->run(1,2);}'' ''d'' 15 = Inr ''Dog''"
  by (rule findtype_declaration[where A = "''A::f()''" and c = "CHR ''{''" and T = "''Dog''" and sep = "'' *''" and d = "CHR '';''" and B = "''d->run(1,2);}''"])
    (simp_all add: str_find_def is_ident_def is_alnum_def is_star_blank_def is_blank_def TAB_def)

lemma tokens_word: "\<forall>c \<in> set w. c \<notin> set pattern \<Longrightarrow> tokens pattern acc (w @ s) = tokens pattern (acc @ w) s"
  by (induction w arbitrary: acc) auto

lemma ident_not_pattern: "is_ident c \<Longrightarrow> c \<notin> set blanks_pattern \<and> c \<notin> set ''{</(}''"
  by (auto simp: blanks_pattern_def is_ident_def is_alnum_def Let_def TAB_def NL_def)

lemma split_typedef:
  assumes "\<forall>c \<in> set (a @ b). is_ident c" "a \<noteq> []" "b \<noteq> []"
  shows "split (''typedef '' @ a @ '' '' @ b) blanks_pattern = Inr [''typedef'', a, b]"
proof -
  let ?l = "''typedef'' @ '' '' @ a @ '' '' @ b"
  have p: "CHR '','' \<in> set blanks_pattern" "CHR '' '' \<in> set blanks_pattern" by (auto simp: blanks_pattern_def)
  have td: "\<forall>c \<in> set ''typedef''. c \<notin> set blanks_pattern" by code_simp
  have ab: "\<forall>c \<in> set a. c \<notin> set blanks_pattern" "\<forall>c \<in> set b. c \<notin> set blanks_pattern" using assms(1) ident_not_pattern by auto
  have "tokens blanks_pattern [] ?l = ''typedef'' # tokens blanks_pattern [] (a @ '' '' @ b)"
    unfolding tokens_word[OF td] using p(2) by simp
  also have "tokens blanks_pattern [] (a @ '' '' @ b) = a # tokens blanks_pattern [] (b @ [])"
    unfolding tokens_word[OF ab(1)] using p(2) assms(2) by simp
  also have "tokens blanks_pattern [] (b @ []) = [b]" unfolding tokens_word[OF ab(2)] using assms(3) by simp
  finally have t: "tokens blanks_pattern [] ?l = [''typedef'', a, b]" .
  have "\<not> (\<exists>c \<in> set ''{</(}''. c \<in> set ?l)" using assms(1) ident_not_pattern by auto
  then show ?thesis using split_correct_line[OF p(1), of ?l] t by simp
qed

text \<open>
  A type definition is entered: of a text whose only \<open>typedef\<close> is \<open>typedef a b;\<close> the name \<open>b\<close>
  is entered as an alias of \<open>a\<close>, unless it is an alias already.
\<close>

theorem dealwithTypeDef_alias:
  assumes "content = P @ ''typedef '' @ a @ '' '' @ b @ '';'' @ Q" "\<forall>c \<in> set (a @ b). is_ident c"
    and "a \<noteq> []" "b \<noteq> []" "a \<noteq> ''class''"
    and "str_find content ''typedef'' 0 = int (length P)" "str_find content ''typedef'' (int (length P) + 7) = - 1"
  shows "dealwithTypeDef content m = Inr (sinsert b a m)"
proof -
  let ?l = "''typedef '' @ a @ '' '' @ b"
  have s: "content = P @ ?l @ CHR '';'' # Q" "content = P @ ?l @ '';'' @ Q" by (simp_all add: assms(1))
  have "CHR '';'' \<notin> set ?l" using assms(2) ident_not by auto
  then have f: "str_find content '';'' (int (length P)) = int (length P + length ?l)" unfolding s(1) by (rule str_find_char)
  have sub: "str_substr content (int (length P)) (int (length P + length ?l) - int (length P)) = Inr ?l"
    unfolding s(2) by (rule str_substr_app) simp_all
  have "typedef_loop content (int (length P)) (int (length P + length ?l)) m = Inr (sinsert b a m)"
    using sub split_typedef[OF assms(2,3,4)] assms(5,7)
    by (subst typedef_loop.simps) (simp add: Let_def typedef_words_def add_names_def typedef_loop.simps[of _ "- 1"])
  then show ?thesis by (simp only: dealwithTypeDef_def Let_def assms(6) f)
qed

theorem dealwithTypeDef_alias_witness:
  "dealwithTypeDef ''int x;typedef Dog DOG;'' [] = Inr [(''DOG'', ''Dog'')]"
proof -
  have "dealwithTypeDef ''int x;typedef Dog DOG;'' [] = Inr (sinsert ''DOG'' ''Dog'' [])"
    by (rule dealwithTypeDef_alias[where P = "''int x;''" and Q = "[]"])
      (simp_all add: is_ident_def is_alnum_def str_find_def)
  then show ?thesis by simp
qed

section \<open>The parameters of a method\<close>

lemma count_char_take: "count_char c (take n s) \<le> count_char c s"
proof -
  have "count_char c s = count_char c (take n s) + count_char c (drop n s)"
    unfolding count_char_def by (metis append_take_drop_id filter_append length_append)
  then show ?thesis by simp
qed

lemma arrow_loop_bound:
  assumes "arrow_loop fuel body fp pos ps = Inr qs"
  shows "\<exists>new. qs = ps @ new \<and> (\<forall>n \<in> set new. 1 \<le> n \<and> n \<le> count_char CHR '','' fp + 1)"
  using assms
proof (induction fuel arbitrary: pos ps)
  case (Suc fuel)
  show ?case
  proof (cases "pos = - 1")
    case False
    then obtain v j where c: "collect_bwd is_ident body (pos - 1) [] = Inr (v, j)" using Suc.prems by (auto simp: sbind_eq_Inr)
    let ?k = "str_find fp v 0"
    let ?ps = "if ?k \<noteq> - 1 then ps @ [count_char CHR '','' (take (nat ?k) fp) + 1] else ps"
    have "arrow_loop fuel body fp (str_find body ''->'' (pos + 2)) ?ps = Inr qs"
      using Suc.prems False c by (simp add: Let_def)
    then obtain new where n: "qs = ?ps @ new" "\<forall>n \<in> set new. 1 \<le> n \<and> n \<le> count_char CHR '','' fp + 1" using Suc.IH by blast
    show ?thesis
    proof (cases "?k = - 1")
      case True
      then show ?thesis using n by auto
    next
      case False
      then show ?thesis
        using n count_char_take[of "CHR '',''" "nat ?k" fp] by (intro exI[of _ "(count_char CHR '','' (take (nat ?k) fp) + 1) # new"]) auto
    qed
  qed (use Suc.prems in auto)
qed simp

lemma arrow_loop_ends:
  assumes "pos = - 1 \<or> 0 \<le> pos \<and> pos + 2 \<le> int (length body) \<and> int (length body) < pos + int fuel" "0 < fuel"
  shows "ends (arrow_loop fuel body fp pos ps)"
  using assms
proof (induction fuel arbitrary: pos ps)
  case (Suc fuel)
  let ?n = "str_find body ''->'' (pos + 2)"
  have "ends (arrow_loop fuel body fp ?n qs)" if p: "pos \<noteq> - 1" for qs
  proof (rule Suc.IH)
    show "?n = - 1 \<or> 0 \<le> ?n \<and> ?n + 2 \<le> int (length body) \<and> int (length body) < ?n + int fuel"
    proof (cases "?n = - 1")
      case False
      then show ?thesis using str_find_found(1,3)[OF False] p Suc.prems(1) by simp
    qed simp
    show "0 < fuel" using Suc.prems(1) p by (cases fuel) auto
  qed
  then show ?case by (auto simp: Let_def intro!: ends_sbind)
qed simp

text \<open>
  \<open>InitCalledParameter\<close> ends, and the numbers it appends to a method are numbers of its
  parameters: between one and one more than the commas between its parentheses, so that they
  index the arguments of a call.
\<close>

theorem InitCalledParameter_bounds:
  "InitCalledParameter p \<noteq> Inl OutOfFuel \<and>
   (\<forall>p'. InitCalledParameter p = Inr p' \<longrightarrow> (\<exists>funcPara new.
      chars_between (m_body p) (str_find (m_body p) ''('' 0 + 1) (str_find (m_body p) '')'' 0) = Inr funcPara \<and>
      p' = p\<lparr>CallParemeter := CallParemeter p @ new\<rparr> \<and>
      (\<forall>n \<in> set new. 1 \<le> n \<and> n \<le> count_char CHR '','' funcPara + 1)))"
proof -
  let ?b = "m_body p" and ?pos = "str_find (m_body p) ''->'' 0"
  have "?pos = - 1 \<or> 0 \<le> ?pos \<and> ?pos + 2 \<le> int (length ?b) \<and> int (length ?b) < ?pos + int (length ?b + 1)"
    using str_find_found(1,3)[of ?b "''->''" 0] by (cases "?pos = - 1") auto
  then have "ends (arrow_loop (length ?b + 1) ?b fp ?pos ps)" for fp ps by (rule arrow_loop_ends) simp
  then have "ends (InitCalledParameter p)"
    unfolding InitCalledParameter_def Let_def chars_between_def by (intro ends_sbind ends_mfold ends_Inr ends_str_at)
  moreover have "\<exists>fp new. chars_between ?b (str_find ?b ''('' 0 + 1) (str_find ?b '')'' 0) = Inr fp \<and>
      p' = p\<lparr>CallParemeter := CallParemeter p @ new\<rparr> \<and> (\<forall>n \<in> set new. 1 \<le> n \<and> n \<le> count_char CHR '','' fp + 1)"
    if "InitCalledParameter p = Inr p'" for p'
    using that arrow_loop_bound[of "length ?b + 1" ?b _ ?pos "CallParemeter p"]
    by (fastforce simp: InitCalledParameter_def Let_def sbind_eq_Inr)
  ultimately show ?thesis by (simp add: ends_def)
qed

theorem InitCalledParameter_bounds_witness:
  "InitCalledParameter (CMethodBody_new ''A::f(int n,Dog *d){d->run();}'' ''f'' 2) =
     Inr ((CMethodBody_new ''A::f(int n,Dog *d){d->run();}'' ''f'' 2)\<lparr>CallParemeter := [2]\<rparr>) \<and>
   (\<exists>funcPara. chars_between ''A::f(int n,Dog *d){d->run();}'' 5 17 = Inr funcPara \<and> 2 \<le> count_char CHR '','' funcPara + 1)"
proof -
  let ?p = "CMethodBody_new ''A::f(int n,Dog *d){d->run();}'' ''f'' 2"
  have r: "InitCalledParameter ?p = Inr (?p\<lparr>CallParemeter := [2]\<rparr>)" by code_simp
  have b: "m_body ?p = ''A::f(int n,Dog *d){d->run();}''" "CallParemeter ?p = []" by (simp_all add: CMethodBody_new_def)
  have f: "str_find ''A::f(int n,Dog *d){d->run();}'' ''('' 0 + 1 = 5" "str_find ''A::f(int n,Dog *d){d->run();}'' '')'' 0 = 17" by code_simp+
  obtain fp new where "chars_between ''A::f(int n,Dog *d){d->run();}'' 5 17 = Inr fp" "?p\<lparr>CallParemeter := [2]\<rparr> = ?p\<lparr>CallParemeter := new\<rparr>"
     "\<forall>n \<in> set new. 1 \<le> n \<and> n \<le> count_char CHR '','' fp + 1"
    using InitCalledParameter_bounds[of ?p] r b f by auto
  moreover from this(2) have "new = [2]" by (simp add: CMethodBody_new_def)
  ultimately show ?thesis using r by auto
qed

end
