(* ===== verification/Folder.thy ===== *)
theory Folder
  imports Scan "HOL-Library.Word"
begin

text \<open>
  \<open>CTestCaseCpp::dfsFolder\<close> of \<open>src/CArchitecture/TestCase.cpp\<close>: the walk through the folder of a
  test case that collects the names of the sources and the headers, in the build for Linux.
\<close>

section \<open>The code\<close>

text \<open>
  What \<open>readdir\<close> tells of an entry; \<open>d_type\<close> is an unsigned character of \<open>dirent.h\<close>, whose
  value 4 stands for a directory (6 for a block device, 8 for a file, 10 for a link, 12 for
  a socket). \<open>opendir\<close> is a function of the system: the entries of a path, or null.
\<close>

record dirent =
  d_name :: string
  d_type :: "8 word"

type_synonym directories = "string \<Rightarrow> dirent list option"

definition DT_DIR :: "8 word" where
  "DT_DIR = 4"

definition is_subdir :: "dirent \<Rightarrow> bool" where
  "is_subdir ent \<longleftrightarrow> and (d_type ent) DT_DIR \<noteq> 0"

definition is_dot :: "dirent \<Rightarrow> bool" where
  "is_dot ent \<longleftrightarrow> d_name ent = ''.'' \<or> d_name ent = ''..''"

text \<open>\<open>strstr(s, pat) != NULL\<close>.\<close>

definition strstr :: "string \<Rightarrow> string \<Rightarrow> bool" where
  "strstr s pat \<longleftrightarrow> str_find s pat 0 \<noteq> - 1"

definition add_file :: "string \<Rightarrow> dirent \<Rightarrow> string list \<times> string list \<Rightarrow> string list \<times> string list" where
  "add_file path ent = (\<lambda>(arycpp, aryh).
     (if strstr (d_name ent) ''cpp'' then arycpp @ [path @ ''//'' @ d_name ent] else arycpp,
      if strstr (d_name ent) ''h'' then aryh @ [path @ ''//'' @ d_name ent] else aryh))"

text \<open>
  The loop over the entries of an open folder. \<open>sprintf\<close> writes the path of a subfolder into
  512 characters: a longer one is written past them, and since the path of a subfolder is
  longer than the one of its folder, the recursion ends on every system of folders.
\<close>

function dfs_entries :: "directories \<Rightarrow> string \<Rightarrow> dirent list \<Rightarrow> string list \<times> string list \<Rightarrow> error + string list \<times> string list" where
  "dfs_entries od path [] acc = Inr acc"
| "dfs_entries od path (ent # ents) acc =
     (if is_subdir ent then
        if is_dot ent then dfs_entries od path ents acc
        else let childpath = path @ ''/'' @ d_name ent in
          if 512 \<le> length childpath then Inl BadIndex
          else case od childpath of
            None \<Rightarrow> Inl NullDeref
          | Some es \<Rightarrow> sbind (dfs_entries od childpath es acc) (\<lambda>acc. dfs_entries od path ents acc)
      else dfs_entries od path ents (add_file path ent acc))"
  by pat_completeness auto
termination
  by (relation "measures [\<lambda>(_, path, _). 512 - length path, \<lambda>(_, _, ents, _). length ents]") auto

definition dfsFolder :: "directories \<Rightarrow> string \<Rightarrow> string list \<times> string list \<Rightarrow> error + string list \<times> string list" where
  "dfsFolder od path acc = (case od path of None \<Rightarrow> Inl NullDeref | Some es \<Rightarrow> dfs_entries od path es acc)"

section \<open>What the walk collects\<close>

text \<open>The folders of a tree, by their paths.\<close>

definition folder_in :: "directories \<Rightarrow> string \<Rightarrow> string \<Rightarrow> bool" where
  "folder_in od d c \<longleftrightarrow> (\<exists>es ent. od d = Some es \<and> ent \<in> set es \<and> is_subdir ent \<and> \<not> is_dot ent \<and> c = d @ ''/'' @ d_name ent)"

inductive in_tree :: "directories \<Rightarrow> string \<Rightarrow> string \<Rightarrow> bool" for od root where
  root: "in_tree od root root"
| sub: "in_tree od root d \<Longrightarrow> folder_in od d c \<Longrightarrow> in_tree od root c"

inductive_simps in_tree_iff: "in_tree od root d"

lemma in_tree_trans: "in_tree od b c \<Longrightarrow> in_tree od a b \<Longrightarrow> in_tree od a c"
  by (induction rule: in_tree.induct) (auto intro: in_tree.sub)

lemma in_tree_step: "in_tree od a c \<longleftrightarrow> c = a \<or> (\<exists>b. folder_in od a b \<and> in_tree od b c)"
proof
  show "in_tree od a c \<Longrightarrow> c = a \<or> (\<exists>b. folder_in od a b \<and> in_tree od b c)"
    by (induction rule: in_tree.induct) (auto intro: in_tree.intros)
  show "c = a \<or> (\<exists>b. folder_in od a b \<and> in_tree od b c) \<Longrightarrow> in_tree od a c"
    using in_tree_trans[OF _ in_tree.sub[OF in_tree.root]] by (auto intro: in_tree.root)
qed

text \<open>The files of one folder and of a tree whose names satisfy a condition.\<close>

definition files_at :: "(string \<Rightarrow> bool) \<Rightarrow> string \<Rightarrow> dirent list \<Rightarrow> string set" where
  "files_at P d es = {d @ ''//'' @ d_name ent |ent. ent \<in> set es \<and> \<not> is_subdir ent \<and> P (d_name ent)}"

definition tree_files :: "directories \<Rightarrow> (string \<Rightarrow> bool) \<Rightarrow> string \<Rightarrow> string set" where
  "tree_files od P root = (\<Union>d \<in> {d. in_tree od root d}. case od d of None \<Rightarrow> {} | Some es \<Rightarrow> files_at P d es)"

text \<open>A tree the walk can handle: all folders can be opened, and their paths fit the buffer.\<close>

definition fits :: "directories \<Rightarrow> string \<Rightarrow> bool" where
  "fits od d \<longleftrightarrow> od d \<noteq> None \<and> length d < 512"

definition walkable :: "directories \<Rightarrow> string \<Rightarrow> bool" where
  "walkable od root \<longleftrightarrow> od root \<noteq> None \<and> (\<forall>d. in_tree od root d \<longrightarrow> d \<noteq> root \<longrightarrow> fits od d)"

definition below :: "directories \<Rightarrow> string \<Rightarrow> dirent list \<Rightarrow> string set" where
  "below od path es = {d. \<exists>ent \<in> set es. is_subdir ent \<and> \<not> is_dot ent \<and> in_tree od (path @ ''/'' @ d_name ent) d}"

definition below_files :: "directories \<Rightarrow> (string \<Rightarrow> bool) \<Rightarrow> string \<Rightarrow> dirent list \<Rightarrow> string set" where
  "below_files od P path es = files_at P path es \<union> (\<Union>d \<in> below od path es. case od d of None \<Rightarrow> {} | Some es \<Rightarrow> files_at P d es)"

lemma in_tree_below: "od a = Some es \<Longrightarrow> in_tree od a c \<longleftrightarrow> c = a \<or> c \<in> below od a es"
  by (subst in_tree_step) (auto simp: folder_in_def below_def)

lemma in_tree_length: "in_tree od a c \<Longrightarrow> length a \<le> length c"
  by (induction rule: in_tree.induct) (auto simp: folder_in_def)

lemma tree_files_below: "od a = Some es \<Longrightarrow> tree_files od P a = below_files od P a es"
proof -
  assume a: "od a = Some es"
  have "{d. in_tree od a d} = insert a (below od a es)" using in_tree_below[of od a es] a by auto
  then show ?thesis by (simp add: tree_files_def below_files_def a)
qed

lemma below_Nil [simp]: "below od p [] = {}"
  by (simp add: below_def)

lemma below_Cons: "below od p (ent # es) =
    (if is_subdir ent \<and> \<not> is_dot ent then {d. in_tree od (p @ ''/'' @ d_name ent) d} else {}) \<union> below od p es"
  by (auto simp: below_def)

lemma files_at_Nil [simp]: "files_at P d [] = {}"
  by (simp add: files_at_def)

lemma files_at_Cons: "files_at P d (ent # es) =
    (if \<not> is_subdir ent \<and> P (d_name ent) then {d @ ''//'' @ d_name ent} else {}) \<union> files_at P d es"
  by (auto simp: files_at_def)

lemma below_files_Cons: "below_files od P p (ent # es) =
    (if is_subdir ent then (if is_dot ent then {} else tree_files od P (p @ ''/'' @ d_name ent))
     else if P (d_name ent) then {p @ ''//'' @ d_name ent} else {}) \<union> below_files od P p es"
  by (auto simp: below_files_def below_Cons files_at_Cons tree_files_def)

definition walked :: "directories \<Rightarrow> string set \<Rightarrow> string set \<Rightarrow> string set \<Rightarrow> error + string list \<times> string list \<Rightarrow> bool" where
  "walked od D C H r = (case r of
     Inr (c, h) \<Rightarrow> (\<forall>d \<in> D. fits od d) \<and> set c = C \<and> set h = H
   | Inl e \<Rightarrow> (\<exists>d \<in> D. \<not> fits od d))"

abbreviation is_cpp_name :: "string \<Rightarrow> bool" where
  "is_cpp_name n \<equiv> strstr n ''cpp''"

abbreviation is_h_name :: "string \<Rightarrow> bool" where
  "is_h_name n \<equiv> strstr n ''h''"

lemma walked_seq:
  assumes "walked od D C H r" "\<And>c h. r = Inr (c, h) \<Longrightarrow> set c = C \<Longrightarrow> set h = H \<Longrightarrow> walked od D' C' H' (f (c, h))"
  shows "walked od (D \<union> D') C' H' (sbind r f)"
proof (cases r)
  case (Inl e)
  then show ?thesis using assms(1) by (auto simp: walked_def)
next
  case (Inr x)
  obtain c h where x: "x = (c, h)" by (cases x)
  have "\<forall>d \<in> D. fits od d" "set c = C" "set h = H" using assms(1) Inr x by (auto simp: walked_def)
  moreover have "walked od D' C' H' (f (c, h))" using assms(2) Inr x calculation by blast
  ultimately show ?thesis using Inr x by (auto simp: walked_def split: sum.splits)
qed

lemma dfs_entries_walked:
  "walked od (below od path es) (set (fst acc) \<union> below_files od is_cpp_name path es)
     (set (snd acc) \<union> below_files od is_h_name path es) (dfs_entries od path es acc)"
proof (induction od path es acc rule: dfs_entries.induct)
  case (1 od path acc)
  then show ?case by (cases acc) (simp add: walked_def below_files_def)
next
  case (2 od path ent ents acc)
  let ?child = "path @ ''/'' @ d_name ent"
  consider (plain) "\<not> is_subdir ent" | (dot) "is_subdir ent" "is_dot ent"
    | (dir) "is_subdir ent" "\<not> is_dot ent" by blast
  then show ?case
  proof cases
    case plain
    then show ?thesis using 2(4) by (cases acc) (auto simp: below_Cons below_files_Cons add_file_def)
  next
    case dot
    then show ?thesis using 2(1) by (simp add: below_Cons below_files_Cons)
  next
    case dir
    show ?thesis
    proof (cases "fits od ?child")
      case False
      have "?child \<in> below od path (ent # ents)" using dir in_tree.root[of od ?child] by (simp add: below_Cons)
      moreover have "\<exists>e. dfs_entries od path (ent # ents) acc = Inl e" using False dir by (auto simp: fits_def Let_def)
      ultimately show ?thesis using False by (auto simp: walked_def)
    next
      case True
      then obtain es where es: "od ?child = Some es" "length ?child < 512" by (auto simp: fits_def)
      have T: "{d. in_tree od ?child d} = insert ?child (below od ?child es)" using in_tree_below[of od ?child es] es(1) by auto
      have r: "dfs_entries od path (ent # ents) acc = sbind (dfs_entries od ?child es acc) (dfs_entries od path ents)"
        using dir es by simp
      have W: "walked od {d. in_tree od ?child d} (set (fst acc) \<union> tree_files od is_cpp_name ?child)
          (set (snd acc) \<union> tree_files od is_h_name ?child) (dfs_entries od ?child es acc)"
        unfolding T tree_files_below[of od ?child es, OF es(1)]
        using 2(2)[OF dir refl _ es(1)] es(2) True by (auto simp: walked_def split: sum.splits)
      show ?thesis unfolding r
      proof (subst below_Cons, simp only: dir if_True simp_thms, rule walked_seq[OF W])
        fix c h
        assume "dfs_entries od ?child es acc = Inr (c, h)" "set c = set (fst acc) \<union> tree_files od is_cpp_name ?child"
          "set h = set (snd acc) \<union> tree_files od is_h_name ?child"
        then show "walked od (below od path ents) (set (fst acc) \<union> below_files od is_cpp_name path (ent # ents))
            (set (snd acc) \<union> below_files od is_h_name path (ent # ents)) (dfs_entries od path ents (c, h))"
          using 2(3)[OF dir refl _ es(1)] es(2) dir by (auto simp: below_files_Cons Un_assoc)
      qed
    qed
  qed
qed

text \<open>
  C35. \<open>dfsFolder\<close> ends on every system of folders. It returns exactly if every folder of the tree
  can be opened and no path of a subfolder is longer than 511 characters, and then the
  collected sources are the files of the tree whose names contain \<open>cpp\<close> anywhere, the
  collected headers those whose names contain the letter \<open>h\<close>.
\<close>

theorem dfsFolder_correct:
  "case dfsFolder od root ([], []) of
     Inr (arycpp, aryh) \<Rightarrow> walkable od root \<and> set arycpp = tree_files od is_cpp_name root \<and> set aryh = tree_files od is_h_name root
   | Inl e \<Rightarrow> \<not> walkable od root"
proof (cases "od root")
  case None
  then show ?thesis by (simp add: dfsFolder_def walkable_def)
next
  case (Some es)
  have b: "walkable od root \<longleftrightarrow> (\<forall>d \<in> below od root es. fits od d)"
  proof -
    have "length root < length d" if "d \<in> below od root es" for d using that in_tree_length by (fastforce simp: below_def)
    then show ?thesis using Some in_tree_below[of od root es] by (auto simp: walkable_def)
  qed
  show ?thesis using dfs_entries_walked[of od root es "([], [])"] Some b
    by (auto simp: dfsFolder_def walked_def tree_files_below[of od root es, OF Some] split: sum.splits)
qed

end
