(* ===== verification/JobQueue.thy ===== *)
theory JobQueue
  imports Prelude
begin

text \<open>
  The three queues of the program, as linked lists through the objects themselves: the jobs and
  the I/O jobs of \<open>src/CArchitecture/CMgrJob.cpp\<close> and the notes of \<open>src/CArchitecture/CLog.cpp\<close>,
  each behind a lock of \<open>src/CArchitecture/CLock.cpp\<close>. Addresses are positions of a heap of
  objects, the null pointer is \<open>None\<close>; a deleted object leaves a hole, and going through it is
  an error. The locale \<open>fifo\<close> is what the users of the queues rely on.
\<close>

section \<open>Locks\<close>

text \<open>
  A mutex, and what the \<open>pthread\<close> calls on it return: every non-zero code ends the process with
  \<open>_exit(0)\<close>. A lock that is already taken makes its caller wait; with no other thread to
  release it the call does not return.
\<close>

record CLock =
  locked :: bool
  mutex_rc :: int

definition CLock_new :: "int \<Rightarrow> error + CLock" where
  "CLock_new rc = (if rc \<noteq> 0 then Inl (ExitCode 0) else Inr \<lparr>locked = False, mutex_rc = rc\<rparr>)"

definition CLock_Lock :: "CLock \<Rightarrow> error + CLock" where
  "CLock_Lock l = (if mutex_rc l \<noteq> 0 then Inl (ExitCode 0) else if locked l then Inl OutOfFuel else Inr (l\<lparr>locked := True\<rparr>))"

definition CLock_Unlock :: "CLock \<Rightarrow> error + CLock" where
  "CLock_Unlock l = (if mutex_rc l \<noteq> 0 then Inl (ExitCode 0) else Inr (l\<lparr>locked := False\<rparr>))"

definition lock_free :: "CLock \<Rightarrow> bool" where
  "lock_free l \<longleftrightarrow> mutex_rc l = 0 \<and> \<not> locked l"

lemma lock_unlock [simp]:
  "lock_free l \<Longrightarrow> CLock_Lock l = Inr (l\<lparr>locked := True\<rparr>)"
  "lock_free l \<Longrightarrow> CLock_Unlock (l\<lparr>locked := True\<rparr>) = Inr l"
  by (cases l; simp add: lock_free_def CLock_Lock_def CLock_Unlock_def)+

section \<open>Objects behind pointers\<close>

definition load :: "'a option list \<Rightarrow> nat option \<Rightarrow> error + 'a" where
  "load h p = (case p of None \<Rightarrow> Inl NullDeref
     | Some a \<Rightarrow> sbind (aget h a) (\<lambda>c. case c of None \<Rightarrow> Inl BadIndex | Some x \<Rightarrow> Inr x))"

definition store :: "'a option list \<Rightarrow> nat option \<Rightarrow> 'a \<Rightarrow> error + 'a option list" where
  "store h p x = sbind (load h p) (\<lambda>_. case p of None \<Rightarrow> Inl NullDeref | Some a \<Rightarrow> Inr (h[a := Some x]))"

definition live :: "'a option list \<Rightarrow> nat \<Rightarrow> bool" where
  "live h a \<longleftrightarrow> a < length h \<and> h ! a \<noteq> None"

lemma load_live [simp]: "live h a \<Longrightarrow> load h (Some a) = Inr (the (h ! a))"
  by (auto simp: load_def live_def)

lemma store_live [simp]: "live h a \<Longrightarrow> store h (Some a) x = Inr (h[a := Some x])"
  by (simp add: store_def)

lemma live_upd [simp]: "live (h[a := Some x]) b \<longleftrightarrow> live h b \<or> b = a \<and> a < length h"
  by (cases "a = b") (auto simp: live_def)

section \<open>The stages of a job\<close>

datatype stage = INIT_STAGE | READ_END_STAGE | MODEL_END_STAGE | WRITE_END_STAGE

primrec stage_no :: "stage \<Rightarrow> nat" where
  "stage_no INIT_STAGE = 0"
| "stage_no READ_END_STAGE = 1"
| "stage_no MODEL_END_STAGE = 2"
| "stage_no WRITE_END_STAGE = 3"

lemma stage_no_inj [simp]: "stage_no a = stage_no b \<longleftrightarrow> a = b"
  by (cases a; cases b) auto

instantiation stage :: linorder
begin

definition less_eq_stage :: "stage \<Rightarrow> stage \<Rightarrow> bool" where
  "less_eq_stage a b \<longleftrightarrow> stage_no a \<le> stage_no b"

definition less_stage :: "stage \<Rightarrow> stage \<Rightarrow> bool" where
  "less_stage a b \<longleftrightarrow> stage_no a < stage_no b"

instance
  by intro_classes (auto simp: less_eq_stage_def less_stage_def)

end

text \<open>A \<open>CTestCase\<close>: its links, which its constructor does not set, its stage, and its data.\<close>

record 'd CTestCase =
  stage :: stage
  m_pNext_test :: "nat option"
  m_pIONext_test :: "nat option"
  tc_data :: 'd

type_synonym 'd jobs = "'d CTestCase option list"

definition setNext :: "'d jobs \<Rightarrow> nat option \<Rightarrow> nat option \<Rightarrow> error + 'd jobs" where
  "setNext h this nextcase = sbind (load h this) (\<lambda>t. store h this (t\<lparr>m_pNext_test := nextcase\<rparr>))"

definition getNext :: "'d jobs \<Rightarrow> nat option \<Rightarrow> error + nat option" where
  "getNext h this = sbind (load h this) (\<lambda>t. Inr (m_pNext_test t))"

definition setIONext :: "'d jobs \<Rightarrow> nat option \<Rightarrow> nat option \<Rightarrow> error + 'd jobs" where
  "setIONext h this nextcase = sbind (load h this) (\<lambda>t. store h this (t\<lparr>m_pIONext_test := nextcase\<rparr>))"

definition getIONext :: "'d jobs \<Rightarrow> nat option \<Rightarrow> error + nat option" where
  "getIONext h this = sbind (load h this) (\<lambda>t. Inr (m_pIONext_test t))"

definition getStage :: "'d jobs \<Rightarrow> nat option \<Rightarrow> error + stage" where
  "getStage h this = sbind (load h this) (\<lambda>t. Inr (stage t))"

definition setStage :: "'d jobs \<Rightarrow> nat option \<Rightarrow> stage \<Rightarrow> error + 'd jobs" where
  "setStage h this s = sbind (load h this) (\<lambda>t. store h this (t\<lparr>stage := s\<rparr>))"

section \<open>The job manager\<close>

record CMgrJob =
  mpIOHead :: "nat option"
  mpIOTail :: "nat option"
  mpHead :: "nat option"
  mpTail :: "nat option"
  loopWorking :: bool
  mpLock :: CLock
  mpIOLock :: CLock

definition CMgrJob_new :: "int \<Rightarrow> error + CMgrJob" where
  "CMgrJob_new rc = sbind (CLock_new rc) (\<lambda>l1. sbind (CLock_new rc) (\<lambda>l2.
     Inr \<lparr>mpIOHead = None, mpIOTail = None, mpHead = None, mpTail = None, loopWorking = True, mpLock = l1, mpIOLock = l2\<rparr>))"

text \<open>The parts of the operations between \<open>Lock()\<close> and \<open>Unlock()\<close>, then the operations.\<close>

definition addJob_body :: "nat option \<Rightarrow> CMgrJob \<times> 'd jobs \<Rightarrow> error + bool \<times> CMgrJob \<times> 'd jobs" where
  "addJob_body addjob = (\<lambda>(m, h).
     if addjob = None then Inr (False, m, h)
     else if mpHead m = None then Inr (True, m\<lparr>mpHead := addjob, mpTail := addjob\<rparr>, h)
     else sbind (setNext h (mpTail m) addjob) (\<lambda>h. Inr (True, m\<lparr>mpTail := addjob\<rparr>, h)))"

definition addIOJob_body :: "nat option \<Rightarrow> CMgrJob \<times> 'd jobs \<Rightarrow> error + bool \<times> CMgrJob \<times> 'd jobs" where
  "addIOJob_body job = (\<lambda>(m, h).
     if job = None then Inr (False, m, h)
     else if mpIOHead m = None then Inr (True, m\<lparr>mpIOHead := job, mpIOTail := job\<rparr>, h)
     else sbind (setIONext h (mpIOTail m) job) (\<lambda>h. Inr (True, m\<lparr>mpIOTail := job\<rparr>, h)))"

definition getJob_body :: "CMgrJob \<times> 'd jobs \<Rightarrow> error + nat option \<times> CMgrJob \<times> 'd jobs" where
  "getJob_body = (\<lambda>(m, h).
     if mpTail m = None then Inr (None, m, h)
     else if mpHead m = mpTail m then Inr (mpHead m, m\<lparr>mpHead := None, mpTail := None\<rparr>, h)
     else sbind (getNext h (mpHead m)) (\<lambda>n. Inr (mpHead m, m\<lparr>mpHead := n\<rparr>, h)))"

definition getIOJob_body :: "CMgrJob \<times> 'd jobs \<Rightarrow> error + nat option \<times> CMgrJob \<times> 'd jobs" where
  "getIOJob_body = (\<lambda>(m, h).
     if mpIOTail m = None then Inr (None, m, h)
     else if mpIOHead m = mpIOTail m then Inr (mpIOHead m, m\<lparr>mpIOHead := None, mpIOTail := None\<rparr>, h)
     else sbind (getIONext h (mpIOHead m)) (\<lambda>n. Inr (mpIOHead m, m\<lparr>mpIOHead := n\<rparr>, h)))"

definition with_lock :: "(CMgrJob \<times> 'd jobs \<Rightarrow> error + 'r \<times> CMgrJob \<times> 'd jobs) \<Rightarrow> CMgrJob \<times> 'd jobs \<Rightarrow> error + 'r \<times> CMgrJob \<times> 'd jobs" where
  "with_lock body = (\<lambda>(m, h). sbind (CLock_Lock (mpLock m)) (\<lambda>l. sbind (body (m\<lparr>mpLock := l\<rparr>, h)) (\<lambda>(r, m, h).
     sbind (CLock_Unlock (mpLock m)) (\<lambda>l. Inr (r, m\<lparr>mpLock := l\<rparr>, h)))))"

definition with_IOlock :: "(CMgrJob \<times> 'd jobs \<Rightarrow> error + 'r \<times> CMgrJob \<times> 'd jobs) \<Rightarrow> CMgrJob \<times> 'd jobs \<Rightarrow> error + 'r \<times> CMgrJob \<times> 'd jobs" where
  "with_IOlock body = (\<lambda>(m, h). sbind (CLock_Lock (mpIOLock m)) (\<lambda>l. sbind (body (m\<lparr>mpIOLock := l\<rparr>, h)) (\<lambda>(r, m, h).
     sbind (CLock_Unlock (mpIOLock m)) (\<lambda>l. Inr (r, m\<lparr>mpIOLock := l\<rparr>, h)))))"

definition addJob :: "nat option \<Rightarrow> CMgrJob \<times> 'd jobs \<Rightarrow> error + bool \<times> CMgrJob \<times> 'd jobs" where
  "addJob addjob = with_lock (addJob_body addjob)"

definition getJob :: "CMgrJob \<times> 'd jobs \<Rightarrow> error + nat option \<times> CMgrJob \<times> 'd jobs" where
  "getJob = with_lock getJob_body"

definition addIOJob :: "nat option \<Rightarrow> CMgrJob \<times> 'd jobs \<Rightarrow> error + bool \<times> CMgrJob \<times> 'd jobs" where
  "addIOJob job = with_IOlock (addIOJob_body job)"

definition getIOJob :: "CMgrJob \<times> 'd jobs \<Rightarrow> error + nat option \<times> CMgrJob \<times> 'd jobs" where
  "getIOJob = with_IOlock getIOJob_body"

definition setLoopWorking :: "CMgrJob \<Rightarrow> CMgrJob" where
  "setLoopWorking m = m\<lparr>loopWorking := \<not> loopWorking m\<rparr>"

section \<open>The log\<close>

record CLogWrite =
  message :: string
  ThreadID :: string
  l_next :: "nat option"

record CLog =
  l_mpHead :: "nat option"
  l_mpTail :: "nat option"
  l_mpLock :: CLock
  loopwork :: bool

text \<open>The log with its notes and the text of \<open>clog.txt\<close>, which the constructor empties.\<close>

type_synonym log_state = "CLog \<times> CLogWrite option list \<times> string"

definition CLog_new :: "int \<Rightarrow> CLogWrite option list \<Rightarrow> error + log_state" where
  "CLog_new rc h = sbind (CLock_new rc) (\<lambda>l.
     Inr (\<lparr>l_mpHead = None, l_mpTail = None, l_mpLock = l, loopwork = True\<rparr>, h, []))"

definition CLogWrite_new :: "string \<Rightarrow> string \<Rightarrow> nat option \<Rightarrow> CLogWrite" where
  "CLogWrite_new str mem_id mem_next = \<lparr>message = str, ThreadID = mem_id, l_next = mem_next\<rparr>"

definition log_setNext :: "CLogWrite option list \<Rightarrow> nat option \<Rightarrow> nat option \<Rightarrow> error + CLogWrite option list" where
  "log_setNext h this temp = sbind (load h this) (\<lambda>t. store h this (t\<lparr>l_next := temp\<rparr>))"

definition log_getNext :: "CLogWrite option list \<Rightarrow> nat option \<Rightarrow> error + nat option" where
  "log_getNext h this = sbind (load h this) (\<lambda>t. Inr (l_next t))"

definition setThreadID :: "CLogWrite option list \<Rightarrow> nat option \<Rightarrow> string \<Rightarrow> error + CLogWrite option list" where
  "setThreadID h this tid = sbind (load h this) (\<lambda>t. store h this (t\<lparr>ThreadID := tid\<rparr>))"

text \<open>\<open>addCLogWrite\<close>, called by the thread \<open>tid\<close>; it also leaks an empty note.\<close>

definition addCLogWrite :: "string \<Rightarrow> nat option \<Rightarrow> log_state \<Rightarrow> error + bool \<times> log_state" where
  "addCLogWrite tid temp = (\<lambda>(g, h, out).
     sbind (CLock_Lock (l_mpLock g)) (\<lambda>l.
     let g = g\<lparr>l_mpLock := l\<rparr> in
     sbind (if temp = None then Inr (False, g, h)
            else sbind (setThreadID h temp tid) (\<lambda>h.
              if l_mpHead g = None then Inr (True, g\<lparr>l_mpHead := temp, l_mpTail := temp\<rparr>, h)
              else sbind (log_setNext h (l_mpTail g) temp) (\<lambda>h. Inr (True, g\<lparr>l_mpTail := temp\<rparr>, h)))) (\<lambda>(r, g, h).
     sbind (CLock_Unlock (l_mpLock g)) (\<lambda>l. Inr (r, g\<lparr>l_mpLock := l\<rparr>, h, out)))))"

definition getCLogWrite :: "log_state \<Rightarrow> error + nat option \<times> log_state" where
  "getCLogWrite = (\<lambda>(g, h, out).
     sbind (CLock_Lock (l_mpLock g)) (\<lambda>l.
     let g = g\<lparr>l_mpLock := l\<rparr> in
     sbind (if l_mpTail g = None then Inr (None, g)
            else if l_mpHead g = l_mpTail g then Inr (l_mpHead g, g\<lparr>l_mpHead := None, l_mpTail := None\<rparr>)
            else sbind (log_getNext h (l_mpHead g)) (\<lambda>n. Inr (l_mpHead g, g\<lparr>l_mpHead := n\<rparr>))) (\<lambda>(r, g).
     sbind (CLock_Unlock (l_mpLock g)) (\<lambda>l. Inr (r, g\<lparr>l_mpLock := l\<rparr>, h, out)))))"

text \<open>\<open>strlen(sy.c_str())\<close>: only the text up to a NUL is written. \<open>stamp\<close> is what the clock gives.\<close>

definition writeLogFile :: "string \<Rightarrow> nat option \<Rightarrow> log_state \<Rightarrow> error + log_state" where
  "writeLogFile stamp this = (\<lambda>(g, h, out). sbind (load h this) (\<lambda>t.
     let sy = stamp @ '' '' @ [CHR 0x0D] @ '' '' @ ThreadID t @ '' '' @ [CHR 0x0D] @ '' '' @ message t in
     Inr (g, h, out @ takeWhile (\<lambda>c. c \<noteq> NUL) sy @ [NL])))"

definition GenerateTimeStamp :: "string \<Rightarrow> string" where
  "GenerateTimeStamp formatted = (if length formatted < 16 then formatted else [])"

text \<open>One turn of \<open>CLog::loop\<close> while \<open>loopwork\<close> is set: a note is written, or the thread sleeps.\<close>

definition log_turn :: "string \<Rightarrow> log_state \<Rightarrow> error + log_state" where
  "log_turn formatted s = sbind (getCLogWrite s) (\<lambda>(dowrite, s).
     if dowrite \<noteq> None then writeLogFile (GenerateTimeStamp formatted) dowrite s else Inr s)"

definition CLogNote :: "string \<Rightarrow> string \<Rightarrow> nat option \<Rightarrow> string \<Rightarrow> log_state \<Rightarrow> error + log_state" where
  "CLogNote tid mem_id mem_next note = (\<lambda>(g, h, out).
     sbind (addCLogWrite tid (Some (length h)) (g, h @ [Some (CLogWrite_new note mem_id mem_next)], out)) (\<lambda>(_, s). Inr s))"

section \<open>A chain of objects is a queue\<close>

text \<open>The objects \<open>xs\<close> hang on each other by \<open>nxt\<close>; what the last one points to is not looked at.\<close>

fun linked :: "(nat \<Rightarrow> nat option) \<Rightarrow> nat list \<Rightarrow> bool" where
  "linked nxt (x # y # zs) \<longleftrightarrow> nxt x = Some y \<and> linked nxt (y # zs)"
| "linked nxt xs \<longleftrightarrow> True"

definition queue_rep :: "(nat \<Rightarrow> nat option) \<Rightarrow> nat option \<Rightarrow> nat option \<Rightarrow> nat list \<Rightarrow> bool" where
  "queue_rep nxt h t xs \<longleftrightarrow> distinct xs \<and> linked nxt xs \<and>
     h = (if xs = [] then None else Some (hd xs)) \<and> t = (if xs = [] then None else Some (last xs))"

lemma linked_cong: "(\<And>x. x \<in> set (butlast xs) \<Longrightarrow> f x = g x) \<Longrightarrow> linked f xs = linked g xs"
proof (induction f xs rule: linked.induct)
  case (1 nxt x y zs)
  have "linked nxt (y # zs) = linked g (y # zs)" using 1 by auto
  moreover have "nxt x = g x" using 1(2)[of x] by simp
  ultimately show ?case by simp
qed auto

lemma linked_snoc: "xs \<noteq> [] \<Longrightarrow> linked f (xs @ [a]) \<longleftrightarrow> linked f xs \<and> f (last xs) = Some a"
  by (induction f xs rule: linked.induct) auto

lemma queue_rep_Nil [simp]: "queue_rep f h t [] \<longleftrightarrow> h = None \<and> t = None"
  by (simp add: queue_rep_def)

text \<open>Appending through the tail, taking from the head.\<close>

lemma queue_rep_snoc:
  assumes "queue_rep f h t xs" "a \<notin> set xs" "xs \<noteq> []" "\<And>x. x \<noteq> last xs \<Longrightarrow> g x = f x" "g (last xs) = Some a"
  shows "queue_rep g h (Some a) (xs @ [a])"
proof -
  have "distinct xs" "linked f xs" using assms(1) by (auto simp: queue_rep_def)
  have nl: "x \<noteq> last xs" if "x \<in> set (butlast xs)" for x
    using that \<open>distinct xs\<close> assms(3) by (metis append_butlast_last_id distinct_append disjoint_insert(1) list.set(2))
  have "linked g xs = linked f xs" by (rule linked_cong) (use nl assms(4) in blast)
  then show ?thesis using assms \<open>linked f xs\<close> by (simp add: queue_rep_def linked_snoc)
qed

lemma queue_rep_hd:
  assumes "queue_rep f h t (x # xs)"
  shows "h = Some x" "t = Some (last (x # xs))" "h = t \<longleftrightarrow> xs = []"
    "xs \<noteq> [] \<Longrightarrow> f x = Some (hd xs)" "xs \<noteq> [] \<Longrightarrow> queue_rep f (f x) t xs"
proof -
  show h: "h = Some x" "t = Some (last (x # xs))" using assms by (auto simp: queue_rep_def)
  have d: "distinct (x # xs)" and l: "linked f (x # xs)" using assms by (auto simp: queue_rep_def)
  show "h = t \<longleftrightarrow> xs = []" using h d last_in_set[of xs] by (cases xs) auto
  show f: "f x = Some (hd xs)" if "xs \<noteq> []" using l that by (cases xs) auto
  show "queue_rep f (f x) t xs" if "xs \<noteq> []" using d l h f that by (cases xs) (auto simp: queue_rep_def)
qed

lemma queue_rep_cong:
  "(\<And>x. x \<in> set xs \<Longrightarrow> f x = g x) \<Longrightarrow> queue_rep f h t xs = queue_rep g h t xs"
  using linked_cong[of xs f g] by (auto simp: queue_rep_def dest: in_set_butlastD)

section \<open>The interface of a queue\<close>

text \<open>Sequences of operations on a queue, and what a list does on them.\<close>

datatype op = Add nat | Get

fun run_ops :: "(nat option \<Rightarrow> 's \<Rightarrow> error + bool \<times> 's) \<Rightarrow> ('s \<Rightarrow> error + nat option \<times> 's) \<Rightarrow> op list \<Rightarrow> 's \<Rightarrow>
    error + nat option list \<times> 's" where
  "run_ops add get [] s = Inr ([], s)"
| "run_ops add get (Add a # ops) s = sbind (add (Some a) s) (\<lambda>(_, s). run_ops add get ops s)"
| "run_ops add get (Get # ops) s = sbind (get s) (\<lambda>(r, s). sbind (run_ops add get ops s) (\<lambda>(rs, s). Inr (r # rs, s)))"

fun list_ops :: "op list \<Rightarrow> nat list \<Rightarrow> nat option list \<times> nat list" where
  "list_ops [] xs = ([], xs)"
| "list_ops (Add a # ops) xs = list_ops ops (xs @ [a])"
| "list_ops (Get # ops) [] = (let (rs, ys) = list_ops ops [] in (None # rs, ys))"
| "list_ops (Get # ops) (x # xs) = (let (rs, ys) = list_ops ops xs in (Some x # rs, ys))"

text \<open>An object is added only while it is not in the queue.\<close>

fun legal_ops :: "op list \<Rightarrow> nat list \<Rightarrow> bool" where
  "legal_ops [] xs \<longleftrightarrow> True"
| "legal_ops (Add a # ops) xs \<longleftrightarrow> a \<notin> set xs \<and> legal_ops ops (xs @ [a])"
| "legal_ops (Get # ops) xs \<longleftrightarrow> legal_ops ops (tl xs)"

definition adds :: "op list \<Rightarrow> nat set" where
  "adds ops = {a. Add a \<in> set ops}"

lemma adds_simps [simp]: "adds [] = {}" "adds (Add a # ops) = insert a (adds ops)" "adds (Get # ops) = adds ops"
  by (auto simp: adds_def)

locale fifo =
  fixes rep :: "'s \<Rightarrow> nat list \<Rightarrow> bool"
    and valid :: "'s \<Rightarrow> nat \<Rightarrow> bool"
    and add :: "nat option \<Rightarrow> 's \<Rightarrow> error + bool \<times> 's"
    and get :: "'s \<Rightarrow> error + nat option \<times> 's"
  assumes add_null: "rep s xs \<Longrightarrow> add None s = Inr (False, s)"
    and add_end: "rep s xs \<Longrightarrow> valid s a \<Longrightarrow> a \<notin> set xs \<Longrightarrow>
      ok (add (Some a) s) (\<lambda>(r, s'). r \<and> rep s' (xs @ [a]) \<and> valid s' = valid s)"
    and get_empty: "rep s [] \<Longrightarrow> get s = Inr (None, s)"
    and get_front: "rep s (x # xs) \<Longrightarrow> ok (get s) (\<lambda>(r, s'). r = Some x \<and> rep s' xs \<and> valid s' = valid s)"
begin

lemma run_refines:
  assumes "rep s xs" "legal_ops ops xs" "\<forall>a \<in> adds ops. valid s a"
  shows "ok (run_ops add get ops s) (\<lambda>(rs, s'). rs = fst (list_ops ops xs) \<and> rep s' (snd (list_ops ops xs)) \<and> valid s' = valid s)"
  using assms
proof (induction ops xs arbitrary: s rule: list_ops.induct)
  case (2 a ops xs)
  then obtain r s1 where s1: "add (Some a) s = Inr (r, s1)" "rep s1 (xs @ [a])" "valid s1 = valid s"
    using add_end[of s xs a] by (auto simp: ok_iff)
  show ?case using "2.IH"[OF s1(2)] "2.prems" s1 by simp
next
  case (3 ops)
  show ?case using "3.IH"[of s] "3.prems" get_empty[of s] by (auto simp: case_prod_beta Let_def elim!: ok_mono)
next
  case (4 ops x xs)
  then obtain s1 where s1: "get s = Inr (Some x, s1)" "rep s1 xs" "valid s1 = valid s"
    using get_front[of s x xs] by (auto simp: ok_iff)
  show ?case using "4.IH"[OF s1(2)] "4.prems" s1 by (auto simp: case_prod_beta Let_def elim!: ok_mono)
qed simp

end

subsection \<open>The three queues\<close>

definition next_of :: "'d jobs \<Rightarrow> nat \<Rightarrow> nat option" where
  "next_of h a = (if live h a then m_pNext_test (the (h ! a)) else None)"

definition ionext_of :: "'d jobs \<Rightarrow> nat \<Rightarrow> nat option" where
  "ionext_of h a = (if live h a then m_pIONext_test (the (h ! a)) else None)"

definition tag :: "'d jobs \<Rightarrow> nat \<Rightarrow> (stage \<times> 'd) option" where
  "tag h a = (if live h a then Some (stage (the (h ! a)), tc_data (the (h ! a))) else None)"

lemma live_tag: "live h = live h' \<longleftrightarrow> (\<forall>a. tag h a = None \<longleftrightarrow> tag h' a = None)"
  by (auto simp: tag_def fun_eq_iff)

lemma setNext_ok:
  assumes "live h a"
  shows "\<exists>h'. setNext h (Some a) p = Inr h' \<and> next_of h' = (next_of h)(a := p) \<and> ionext_of h' = ionext_of h \<and> tag h' = tag h"
proof -
  have a: "a < length h" using assms by (simp add: live_def)
  let ?h = "h[a := Some ((the (h ! a))\<lparr>m_pNext_test := p\<rparr>)]"
  have l: "live ?h b = live h b" for b using assms a by auto
  have "next_of ?h = (next_of h)(a := p)" "ionext_of ?h = ionext_of h" "tag ?h = tag h"
    using assms a by (auto simp: next_of_def ionext_of_def tag_def l fun_eq_iff nth_list_update simp del: live_upd)
  moreover have "setNext h (Some a) p = Inr ?h" using assms by (simp add: setNext_def)
  ultimately show ?thesis by blast
qed

lemma setIONext_ok:
  assumes "live h a"
  shows "\<exists>h'. setIONext h (Some a) p = Inr h' \<and> ionext_of h' = (ionext_of h)(a := p) \<and> next_of h' = next_of h \<and> tag h' = tag h"
proof -
  have a: "a < length h" using assms by (simp add: live_def)
  let ?h = "h[a := Some ((the (h ! a))\<lparr>m_pIONext_test := p\<rparr>)]"
  have l: "live ?h b = live h b" for b using assms a by auto
  have "ionext_of ?h = (ionext_of h)(a := p)" "next_of ?h = next_of h" "tag ?h = tag h"
    using assms a by (auto simp: next_of_def ionext_of_def tag_def l fun_eq_iff nth_list_update simp del: live_upd)
  moreover have "setIONext h (Some a) p = Inr ?h" using assms by (simp add: setIONext_def)
  ultimately show ?thesis by blast
qed

lemma getNext_ok: "live h a \<Longrightarrow> getNext h (Some a) = Inr (next_of h a)" "live h a \<Longrightarrow> getIONext h (Some a) = Inr (ionext_of h a)"
  by (simp_all add: getNext_def getIONext_def next_of_def ionext_of_def)

text \<open>The bodies: each changes its own queue only, and no stage and no data.\<close>

lemma addJob_body_ok:
  assumes q: "queue_rep (next_of h) (mpHead m) (mpTail m) xs" "\<forall>x \<in> set xs. live h x" "a \<notin> set xs"
  shows "ok (addJob_body (Some a) (m, h)) (\<lambda>(r, m', h'). r \<and> queue_rep (next_of h') (mpHead m') (mpTail m') (xs @ [a]) \<and>
     m' = m\<lparr>mpHead := mpHead m', mpTail := mpTail m'\<rparr> \<and> tag h' = tag h \<and> ionext_of h' = ionext_of h)"
proof (cases "xs = []")
  case True
  then have "mpHead m = None" using q by simp
  then show ?thesis using True by (simp add: addJob_body_def queue_rep_def)
next
  case False
  have t: "mpHead m \<noteq> None" "mpTail m = Some (last xs)" "live h (last xs)" using q False by (auto simp: queue_rep_def)
  obtain h' where h': "setNext h (Some (last xs)) (Some a) = Inr h'" "next_of h' = (next_of h)(last xs := Some a)"
      "ionext_of h' = ionext_of h" "tag h' = tag h" using setNext_ok[OF t(3)] by blast
  have "queue_rep (next_of h') (mpHead m) (Some a) (xs @ [a])"
    by (rule queue_rep_snoc[OF q(1,3) False]) (simp_all add: h'(2))
  then show ?thesis using t h' by (auto simp: addJob_body_def)
qed

lemma addIOJob_body_ok:
  assumes q: "queue_rep (ionext_of h) (mpIOHead m) (mpIOTail m) xs" "\<forall>x \<in> set xs. live h x" "a \<notin> set xs"
  shows "ok (addIOJob_body (Some a) (m, h)) (\<lambda>(r, m', h'). r \<and> queue_rep (ionext_of h') (mpIOHead m') (mpIOTail m') (xs @ [a]) \<and>
     m' = m\<lparr>mpIOHead := mpIOHead m', mpIOTail := mpIOTail m'\<rparr> \<and> tag h' = tag h \<and> next_of h' = next_of h)"
proof (cases "xs = []")
  case True
  then have "mpIOHead m = None" using q by simp
  then show ?thesis using True by (simp add: addIOJob_body_def queue_rep_def)
next
  case False
  have t: "mpIOHead m \<noteq> None" "mpIOTail m = Some (last xs)" "live h (last xs)" using q False by (auto simp: queue_rep_def)
  obtain h' where h': "setIONext h (Some (last xs)) (Some a) = Inr h'" "ionext_of h' = (ionext_of h)(last xs := Some a)"
      "next_of h' = next_of h" "tag h' = tag h" using setIONext_ok[OF t(3)] by blast
  have "queue_rep (ionext_of h') (mpIOHead m) (Some a) (xs @ [a])"
    by (rule queue_rep_snoc[OF q(1,3) False]) (simp_all add: h'(2))
  then show ?thesis using t h' by (auto simp: addIOJob_body_def)
qed

lemma getJob_body_ok:
  assumes q: "queue_rep (next_of h) (mpHead m) (mpTail m) xs" "\<forall>x \<in> set xs. live h x"
  shows "ok (getJob_body (m, h)) (\<lambda>(r, m', h'). h' = h \<and> r = (if xs = [] then None else Some (hd xs)) \<and>
     queue_rep (next_of h) (mpHead m') (mpTail m') (tl xs) \<and> m' = m\<lparr>mpHead := mpHead m', mpTail := mpTail m'\<rparr>)"
proof (cases xs)
  case Nil
  then show ?thesis using q by (simp add: getJob_body_def)
next
  case (Cons x ys)
  note r = queue_rep_hd[OF q(1)[unfolded Cons]]
  have n: "getNext h (Some x) = Inr (next_of h x)" using q(2) Cons by (simp add: getNext_ok)
  show ?thesis using r n Cons by (cases "ys = []") (auto simp: getJob_body_def)
qed

lemma getIOJob_body_ok:
  assumes q: "queue_rep (ionext_of h) (mpIOHead m) (mpIOTail m) xs" "\<forall>x \<in> set xs. live h x"
  shows "ok (getIOJob_body (m, h)) (\<lambda>(r, m', h'). h' = h \<and> r = (if xs = [] then None else Some (hd xs)) \<and>
     queue_rep (ionext_of h) (mpIOHead m') (mpIOTail m') (tl xs) \<and> m' = m\<lparr>mpIOHead := mpIOHead m', mpIOTail := mpIOTail m'\<rparr>)"
proof (cases xs)
  case Nil
  then show ?thesis using q by (simp add: getIOJob_body_def)
next
  case (Cons x ys)
  note r = queue_rep_hd[OF q(1)[unfolded Cons]]
  have n: "getIONext h (Some x) = Inr (ionext_of h x)" using q(2) Cons by (simp add: getNext_ok)
  show ?thesis using r n Cons by (cases "ys = []") (auto simp: getIOJob_body_def)
qed

definition job_rep :: "CMgrJob \<times> 'd jobs \<Rightarrow> nat list \<Rightarrow> bool" where
  "job_rep = (\<lambda>(m, h) xs. lock_free (mpLock m) \<and> queue_rep (next_of h) (mpHead m) (mpTail m) xs \<and> (\<forall>a \<in> set xs. live h a))"

definition io_rep :: "CMgrJob \<times> 'd jobs \<Rightarrow> nat list \<Rightarrow> bool" where
  "io_rep = (\<lambda>(m, h) xs. lock_free (mpIOLock m) \<and> queue_rep (ionext_of h) (mpIOHead m) (mpIOTail m) xs \<and> (\<forall>a \<in> set xs. live h a))"

definition job_valid :: "CMgrJob \<times> 'd jobs \<Rightarrow> nat \<Rightarrow> bool" where
  "job_valid = (\<lambda>(m, h). live h)"

lemma tag_live: "tag h' = tag h \<Longrightarrow> live h' = live h"
  by (metis live_tag)

lemma addJob_ok:
  assumes "job_rep s xs" "job_valid s a" "a \<notin> set xs"
  shows "ok (addJob (Some a) s) (\<lambda>(r, s'). r \<and> job_rep s' (xs @ [a]) \<and> job_valid s' = job_valid s)"
proof -
  obtain m h where s: "s = (m, h)" by force
  let ?m = "m\<lparr>mpLock := (mpLock m)\<lparr>locked := True\<rparr>\<rparr>"
  have l: "lock_free (mpLock m)" and q: "queue_rep (next_of h) (mpHead ?m) (mpTail ?m) xs" "\<forall>x \<in> set xs. live h x" "live h a"
    using assms(1,2) by (auto simp: s job_rep_def job_valid_def)
  obtain m' h' where b: "addJob_body (Some a) (?m, h) = Inr (True, m', h')" "queue_rep (next_of h') (mpHead m') (mpTail m') (xs @ [a])"
      "m' = ?m\<lparr>mpHead := mpHead m', mpTail := mpTail m'\<rparr>" "tag h' = tag h"
    using addJob_body_ok[OF q(1,2) assms(3)] by (auto simp: ok_iff)
  have "mpLock m' = (mpLock m)\<lparr>locked := True\<rparr>" by (subst b(3)) simp
  then show ?thesis using s l b(1,2) q(2,3) tag_live[OF b(4)]
    by (simp add: addJob_def with_lock_def job_rep_def job_valid_def)
qed

lemma addIOJob_ok:
  assumes "io_rep s xs" "job_valid s a" "a \<notin> set xs"
  shows "ok (addIOJob (Some a) s) (\<lambda>(r, s'). r \<and> io_rep s' (xs @ [a]) \<and> job_valid s' = job_valid s)"
proof -
  obtain m h where s: "s = (m, h)" by force
  let ?m = "m\<lparr>mpIOLock := (mpIOLock m)\<lparr>locked := True\<rparr>\<rparr>"
  have l: "lock_free (mpIOLock m)" and q: "queue_rep (ionext_of h) (mpIOHead ?m) (mpIOTail ?m) xs" "\<forall>x \<in> set xs. live h x" "live h a"
    using assms(1,2) by (auto simp: s io_rep_def job_valid_def)
  obtain m' h' where b: "addIOJob_body (Some a) (?m, h) = Inr (True, m', h')" "queue_rep (ionext_of h') (mpIOHead m') (mpIOTail m') (xs @ [a])"
      "m' = ?m\<lparr>mpIOHead := mpIOHead m', mpIOTail := mpIOTail m'\<rparr>" "tag h' = tag h"
    using addIOJob_body_ok[OF q(1,2) assms(3)] by (auto simp: ok_iff)
  have "mpIOLock m' = (mpIOLock m)\<lparr>locked := True\<rparr>" by (subst b(3)) simp
  then show ?thesis using s l b(1,2) q(2,3) tag_live[OF b(4)]
    by (simp add: addIOJob_def with_IOlock_def io_rep_def job_valid_def)
qed

lemma getJob_ok:
  assumes "job_rep s xs"
  shows "ok (getJob s) (\<lambda>(r, s'). r = (if xs = [] then None else Some (hd xs)) \<and> job_rep s' (tl xs) \<and> job_valid s' = job_valid s)"
proof -
  obtain m h where s: "s = (m, h)" by force
  let ?m = "m\<lparr>mpLock := (mpLock m)\<lparr>locked := True\<rparr>\<rparr>"
  have l: "lock_free (mpLock m)" and q: "queue_rep (next_of h) (mpHead ?m) (mpTail ?m) xs" "\<forall>x \<in> set xs. live h x"
    using assms by (auto simp: s job_rep_def)
  obtain r m' where b: "getJob_body (?m, h) = Inr (r, m', h)" "r = (if xs = [] then None else Some (hd xs))"
      "queue_rep (next_of h) (mpHead m') (mpTail m') (tl xs)" "m' = ?m\<lparr>mpHead := mpHead m', mpTail := mpTail m'\<rparr>"
    using getJob_body_ok[OF q] by (auto simp: ok_iff)
  have "\<forall>x \<in> set (tl xs). live h x" using q(2) by (cases xs) auto
  moreover have "mpLock m' = (mpLock m)\<lparr>locked := True\<rparr>" by (subst b(4)) simp
  ultimately show ?thesis using s l b(1-3)
    by (auto simp: getJob_def with_lock_def job_rep_def job_valid_def)
qed

lemma getIOJob_ok:
  assumes "io_rep s xs"
  shows "ok (getIOJob s) (\<lambda>(r, s'). r = (if xs = [] then None else Some (hd xs)) \<and> io_rep s' (tl xs) \<and> job_valid s' = job_valid s)"
proof -
  obtain m h where s: "s = (m, h)" by force
  let ?m = "m\<lparr>mpIOLock := (mpIOLock m)\<lparr>locked := True\<rparr>\<rparr>"
  have l: "lock_free (mpIOLock m)" and q: "queue_rep (ionext_of h) (mpIOHead ?m) (mpIOTail ?m) xs" "\<forall>x \<in> set xs. live h x"
    using assms by (auto simp: s io_rep_def)
  obtain r m' where b: "getIOJob_body (?m, h) = Inr (r, m', h)" "r = (if xs = [] then None else Some (hd xs))"
      "queue_rep (ionext_of h) (mpIOHead m') (mpIOTail m') (tl xs)" "m' = ?m\<lparr>mpIOHead := mpIOHead m', mpIOTail := mpIOTail m'\<rparr>"
    using getIOJob_body_ok[OF q] by (auto simp: ok_iff)
  have "\<forall>x \<in> set (tl xs). live h x" using q(2) by (cases xs) auto
  moreover have "mpIOLock m' = (mpIOLock m)\<lparr>locked := True\<rparr>" by (subst b(4)) simp
  ultimately show ?thesis using s l b(1-3)
    by (auto simp: getIOJob_def with_IOlock_def io_rep_def job_valid_def)
qed

lemma get_nothing:
  "job_rep s [] \<Longrightarrow> getJob s = Inr (None, s)" "io_rep s [] \<Longrightarrow> getIOJob s = Inr (None, s)"
  "job_rep s xs \<Longrightarrow> addJob None s = Inr (False, s)" "io_rep s xs \<Longrightarrow> addIOJob None s = Inr (False, s)"
  by (cases s; auto simp: job_rep_def io_rep_def getJob_def getIOJob_def addJob_def addIOJob_def with_lock_def with_IOlock_def
      getJob_body_def getIOJob_body_def addJob_body_def addIOJob_body_def)+

interpretation jq: fifo job_rep job_valid addJob getJob
proof unfold_locales
  show "job_rep s (x # xs) \<Longrightarrow> ok (getJob s) (\<lambda>(r, s'). r = Some x \<and> job_rep s' xs \<and> job_valid s' = job_valid s)"
    for s :: "CMgrJob \<times> 'a jobs" and x xs using getJob_ok[of s "x # xs"] by simp
qed (auto simp: get_nothing intro: addJob_ok)

interpretation iq: fifo io_rep job_valid addIOJob getIOJob
proof unfold_locales
  show "io_rep s (x # xs) \<Longrightarrow> ok (getIOJob s) (\<lambda>(r, s'). r = Some x \<and> io_rep s' xs \<and> job_valid s' = job_valid s)"
    for s :: "CMgrJob \<times> 'a jobs" and x xs using getIOJob_ok[of s "x # xs"] by simp
qed (auto simp: get_nothing intro: addIOJob_ok)

definition log_next_of :: "CLogWrite option list \<Rightarrow> nat \<Rightarrow> nat option" where
  "log_next_of h a = (if live h a then l_next (the (h ! a)) else None)"

definition log_rep :: "log_state \<Rightarrow> nat list \<Rightarrow> bool" where
  "log_rep = (\<lambda>(g, h, out) xs. lock_free (l_mpLock g) \<and> queue_rep (log_next_of h) (l_mpHead g) (l_mpTail g) xs \<and> (\<forall>a \<in> set xs. live h a))"

definition log_valid :: "log_state \<Rightarrow> nat \<Rightarrow> bool" where
  "log_valid = (\<lambda>(g, h, out). live h)"

definition note_of :: "CLogWrite option list \<Rightarrow> nat \<Rightarrow> string \<times> string" where
  "note_of h a = (ThreadID (the (h ! a)), message (the (h ! a)))"

lemma log_upd:
  assumes "live h a"
  shows "live (h[a := Some t]) = live h" "log_next_of (h[a := Some t]) = (log_next_of h)(a := l_next t)"
    "note_of (h[a := Some t]) = (note_of h)(a := (ThreadID t, message t))"
proof -
  have a: "a < length h" using assms by (simp add: live_def)
  show l: "live (h[a := Some t]) = live h" using assms a by (auto simp: fun_eq_iff)
  show "log_next_of (h[a := Some t]) = (log_next_of h)(a := l_next t)"
    using assms a by (auto simp: log_next_of_def l fun_eq_iff nth_list_update)
  show "note_of (h[a := Some t]) = (note_of h)(a := (ThreadID t, message t))"
    using a by (auto simp: note_of_def fun_eq_iff nth_list_update)
qed

lemma addCLogWrite_ok:
  assumes r: "log_rep (g, h, out) xs" and a: "live h a" "a \<notin> set xs"
  shows "ok (addCLogWrite tid (Some a) (g, h, out)) (\<lambda>(r, g', h', out'). r \<and> log_rep (g', h', out') (xs @ [a]) \<and> live h' = live h \<and>
     length h' = length h \<and> out' = out \<and> note_of h' = (note_of h)(a := (tid, snd (note_of h a))))"
proof -
  let ?h = "h[a := Some ((the (h ! a))\<lparr>ThreadID := tid\<rparr>)]" and ?g = "g\<lparr>l_mpLock := (l_mpLock g)\<lparr>locked := True\<rparr>\<rparr>"
  have l: "lock_free (l_mpLock g)" and q: "queue_rep (log_next_of h) (l_mpHead g) (l_mpTail g) xs" "\<forall>x \<in> set xs. live h x"
    using r by (auto simp: log_rep_def)
  have h1: "live ?h = live h" "log_next_of ?h = log_next_of h" "note_of ?h = (note_of h)(a := (tid, snd (note_of h a)))"
    using log_upd[OF a(1)] a(1) by (auto simp: log_next_of_def note_of_def fun_eq_iff)
  have s: "setThreadID h (Some a) tid = Inr ?h" using a(1) by (simp add: setThreadID_def)
  show ?thesis
  proof (cases "xs = []")
    case True
    then have "l_mpHead g = None" using q(1) by simp
    then show ?thesis using True l s h1 a by (simp add: addCLogWrite_def Let_def log_rep_def queue_rep_def del: live_upd)
  next
    case False
    have t: "l_mpHead g \<noteq> None" "l_mpTail g = Some (last xs)" "live ?h (last xs)"
      using q False h1(1) by (auto simp: queue_rep_def simp del: live_upd)
    let ?h2 = "?h[last xs := Some ((the (?h ! last xs))\<lparr>l_next := Some a\<rparr>)]"
    have h2: "live ?h2 = live ?h" "log_next_of ?h2 = (log_next_of ?h)(last xs := Some a)" "note_of ?h2 = note_of ?h"
      using log_upd[OF t(3)] by (auto simp: note_of_def fun_eq_iff simp del: live_upd)
    have n: "log_setNext ?h (Some (last xs)) (Some a) = Inr ?h2" using t(3) by (simp add: log_setNext_def del: live_upd)
    have "queue_rep (log_next_of ?h2) (l_mpHead g) (Some a) (xs @ [a])"
      by (rule queue_rep_snoc[OF q(1) a(2) False]) (simp_all add: h2(2) h1(2) del: live_upd)
    then show ?thesis using l s t(1,2) n h1 h2 q(2) a(1)
      by (auto simp: addCLogWrite_def Let_def log_rep_def simp del: live_upd)
  qed
qed

lemma getCLogWrite_ok:
  assumes r: "log_rep (g, h, out) xs"
  shows "ok (getCLogWrite (g, h, out)) (\<lambda>(r, g', h', out'). r = (if xs = [] then None else Some (hd xs)) \<and>
     log_rep (g', h', out') (tl xs) \<and> h' = h \<and> out' = out)"
proof -
  have l: "lock_free (l_mpLock g)" and q: "queue_rep (log_next_of h) (l_mpHead g) (l_mpTail g) xs" "\<forall>x \<in> set xs. live h x"
    using r by (auto simp: log_rep_def)
  show ?thesis
  proof (cases xs)
    case Nil
    then show ?thesis using l q by (simp add: getCLogWrite_def Let_def log_rep_def)
  next
    case (Cons x ys)
    note r = queue_rep_hd[OF q(1)[unfolded Cons]]
    have n: "log_getNext h (Some x) = Inr (log_next_of h x)" using q(2) Cons by (simp add: log_getNext_def log_next_of_def)
    show ?thesis using r n Cons l q(2) by (cases "ys = []") (auto simp: getCLogWrite_def Let_def log_rep_def)
  qed
qed

interpretation lq: fifo log_rep log_valid "addCLogWrite tid" getCLogWrite for tid
proof unfold_locales
  fix s :: log_state and xs a
  assume "log_rep s xs" "log_valid s a" "a \<notin> set xs"
  then show "ok (addCLogWrite tid (Some a) s) (\<lambda>(r, s'). r \<and> log_rep s' (xs @ [a]) \<and> log_valid s' = log_valid s)"
    using addCLogWrite_ok[of "fst s" "fst (snd s)" "snd (snd s)" xs a tid]
    by (cases s) (auto simp: log_valid_def elim!: ok_mono)
next
  fix s :: log_state and x xs
  assume "log_rep s (x # xs)"
  then show "ok (getCLogWrite s) (\<lambda>(r, s'). r = Some x \<and> log_rep s' xs \<and> log_valid s' = log_valid s)"
    using getCLogWrite_ok[of "fst s" "fst (snd s)" "snd (snd s)" "x # xs"]
    by (cases s) (auto simp: log_valid_def elim!: ok_mono)
next
  fix s :: log_state and xs
  assume "log_rep s xs"
  then show "addCLogWrite tid None s = Inr (False, s)" by (cases s) (auto simp: addCLogWrite_def Let_def log_rep_def)
next
  fix s :: log_state
  assume "log_rep s []"
  then show "getCLogWrite s = Inr (None, s)" by (cases s) (auto simp: getCLogWrite_def Let_def log_rep_def)
qed

section \<open>Properties of the queues\<close>

text \<open>
  C22. The queues of the job manager are queues: any sequence of \<open>addJob\<close> and \<open>getJob\<close> (and of
  \<open>addIOJob\<close> and \<open>getIOJob\<close>) that adds an object only while it is not in the queue gives the
  results of a first-in first-out list, whatever the links of the objects held before: a link
  that was never set, or is left from an earlier stay in the queue, is never followed.
\<close>

theorem job_queues_fifo:
  assumes "legal_ops ops xs" "\<forall>a \<in> adds ops. job_valid s a"
  shows "(job_rep s xs \<longrightarrow> (\<exists>s'. run_ops addJob getJob ops s = Inr (fst (list_ops ops xs), s') \<and> job_rep s' (snd (list_ops ops xs)))) \<and>
     (io_rep s xs \<longrightarrow> (\<exists>s'. run_ops addIOJob getIOJob ops s = Inr (fst (list_ops ops xs), s') \<and> io_rep s' (snd (list_ops ops xs))))"
  using jq.run_refines[of s xs ops] iq.run_refines[of s xs ops] assms by (auto simp: ok_iff)

definition sample_jobs :: "unit jobs" where
  "sample_jobs = map (\<lambda>p. Some \<lparr>stage = INIT_STAGE, m_pNext_test = p, m_pIONext_test = p, tc_data = ()\<rparr>) [Some 7, Some 0, None]"

definition sample_mgr :: CMgrJob where
  "sample_mgr = \<lparr>mpIOHead = None, mpIOTail = None, mpHead = None, mpTail = None, loopWorking = True,
     mpLock = \<lparr>locked = False, mutex_rc = 0\<rparr>, mpIOLock = \<lparr>locked = False, mutex_rc = 0\<rparr>\<rparr>"

theorem job_queues_fifo_witness:
  "legal_ops [Add 2, Add 0, Get, Get, Add 2, Get, Get] [] \<and>
   (\<exists>s'. run_ops addJob getJob [Add 2, Add 0, Get, Get, Add 2, Get, Get] (sample_mgr, sample_jobs) =
      Inr ([Some 2, Some 0, Some 2, None], s') \<and> job_rep s' [])"
proof -
  let ?ops = "[Add 2, Add 0, Get, Get, Add 2, Get, Get]"
  have l: "legal_ops ?ops []" by simp
  have v: "\<forall>a \<in> adds ?ops. job_valid (sample_mgr, sample_jobs) a" by (simp add: job_valid_def live_def sample_jobs_def)
  have r: "job_rep (sample_mgr, sample_jobs) []" by (simp add: job_rep_def sample_mgr_def lock_free_def)
  show ?thesis using job_queues_fifo[OF l v] r l by simp
qed

text \<open>
  Notes made one after the other; the constructor of a note leaves its link \<open>next\<close> unset, so it is
  whatever the memory \<open>mem\<close> holds at its address (its string \<open>ThreadID\<close> is made empty).
\<close>

fun note_all :: "(nat \<Rightarrow> nat option) \<Rightarrow> (string \<times> string) list \<Rightarrow> log_state \<Rightarrow> error + log_state" where
  "note_all mem [] s = Inr s"
| "note_all mem ((tid, note) # ns) s = sbind (CLogNote tid [] (mem (length (fst (snd s)))) note s) (note_all mem ns)"

fun turn_all :: "string list \<Rightarrow> log_state \<Rightarrow> error + log_state" where
  "turn_all [] s = Inr s"
| "turn_all (st # sts) s = sbind (log_turn st s) (turn_all sts)"

definition log_line :: "string \<Rightarrow> string \<times> string \<Rightarrow> string" where
  "log_line stamp = (\<lambda>(tid, note). takeWhile (\<lambda>c. c \<noteq> NUL)
     (GenerateTimeStamp stamp @ '' '' @ [CHR 0x0D] @ '' '' @ tid @ '' '' @ [CHR 0x0D] @ '' '' @ note) @ [NL])"

lemma note_all_ok:
  assumes "log_rep (g, h, out) xs"
  shows "ok (note_all mem ns (g, h, out)) (\<lambda>(g', h', out'). \<exists>ys. log_rep (g', h', out') (xs @ ys) \<and> out' = out \<and>
     map (note_of h') (xs @ ys) = map (note_of h) xs @ ns)"
  using assms
proof (induction ns arbitrary: g h xs)
  case Nil
  then show ?case by (auto intro!: exI[of _ "[]"])
next
  case (Cons n ns)
  obtain tid msg where n: "n = (tid, msg)" by force
  let ?h = "h @ [Some (CLogWrite_new msg [] (mem (length h)))]" and ?a = "length h"
  have old: "live ?h x" "log_next_of ?h x = log_next_of h x" "note_of ?h x = note_of h x" if "live h x" for x
    using that by (auto simp: live_def log_next_of_def note_of_def nth_append)
  have xs: "\<forall>x \<in> set xs. live h x" using Cons.prems by (simp add: log_rep_def)
  then have a: "?a \<notin> set xs" by (auto simp: live_def)
  have "log_rep (g, ?h, out) xs"
    using Cons.prems xs old queue_rep_cong[of xs "log_next_of ?h" "log_next_of h"] by (auto simp: log_rep_def)
  moreover have la: "live ?h ?a" "note_of ?h ?a = ([], msg)" by (simp_all add: live_def note_of_def CLogWrite_new_def)
  ultimately obtain g1 h1 where s1: "addCLogWrite tid (Some ?a) (g, ?h, out) = Inr (True, g1, h1, out)" "log_rep (g1, h1, out) (xs @ [?a])"
      "note_of h1 = (note_of ?h)(?a := (tid, msg))"
    using addCLogWrite_ok[of g ?h out xs ?a tid] a by (auto simp: ok_iff)
  have m: "map (note_of h1) (xs @ [?a]) = map (note_of h) xs @ [n]"
    using s1(3) a xs old(3) n by (auto intro!: map_cong)
  have "ok (note_all mem ns (g1, h1, out)) (\<lambda>(g', h', out'). \<exists>ys. log_rep (g', h', out') ((xs @ [?a]) @ ys) \<and> out' = out \<and>
     map (note_of h') ((xs @ [?a]) @ ys) = map (note_of h1) (xs @ [?a]) @ ns)" by (rule Cons.IH[OF s1(2)])
  then have "ok (note_all mem ns (g1, h1, out)) (\<lambda>(g', h', out'). \<exists>ys. log_rep (g', h', out') (xs @ ys) \<and> out' = out \<and>
     map (note_of h') (xs @ ys) = map (note_of h) xs @ n # ns)"
    unfolding m by (rule ok_mono) (force intro: exI[of _ "?a # _"])
  then show ?case using s1(1) n by (simp add: CLogNote_def)
qed

lemma log_turn_ok:
  assumes "log_rep (g, h, out) (x # xs)"
  shows "\<exists>g1. log_turn st (g, h, out) = Inr (g1, h, out @ log_line st (note_of h x)) \<and> log_rep (g1, h, out @ log_line st (note_of h x)) xs"
proof -
  obtain g1 where g1: "getCLogWrite (g, h, out) = Inr (Some x, g1, h, out)" "log_rep (g1, h, out) xs"
    using getCLogWrite_ok[OF assms] by (auto simp: ok_iff)
  have x: "live h x" using assms by (simp add: log_rep_def)
  have "log_turn st (g, h, out) = Inr (g1, h, out @ log_line st (note_of h x))"
    using g1(1) x by (simp add: log_turn_def writeLogFile_def Let_def log_line_def note_of_def)
  moreover have "log_rep (g1, h, out @ log_line st (note_of h x)) xs" using g1(2) by (simp add: log_rep_def)
  ultimately show ?thesis by blast
qed

lemma log_turn_sleeps: "log_rep s [] \<Longrightarrow> log_turn st s = Inr s"
  using lq.get_empty[of s] by (simp add: log_turn_def)

lemma turn_all_ok:
  assumes "log_rep (g, h, out) xs" "length sts = length xs"
  shows "ok (turn_all sts (g, h, out)) (\<lambda>(g', h', out'). log_rep (g', h', out') [] \<and>
     out' = out @ concat (map2 log_line sts (map (note_of h) xs)))"
  using assms
proof (induction xs arbitrary: g out sts)
  case (Cons x xs)
  obtain st sts' where sts: "sts = st # sts'" using Cons.prems(2) by (cases sts) auto
  obtain g1 where "log_turn st (g, h, out) = Inr (g1, h, out @ log_line st (note_of h x))" "log_rep (g1, h, out @ log_line st (note_of h x)) xs"
    using log_turn_ok[OF Cons.prems(1)] by blast
  then show ?case using Cons.IH[of g1 "out @ log_line st (note_of h x)" sts'] Cons.prems(2) sts by simp
qed simp

text \<open>
  The log keeps its order: notes made one after the other are written by the turns of the
  log thread in the order in which they were made, one line each, with the thread that made
  them.
\<close>

theorem log_keeps_order:
  assumes "length stamps = length ns"
  shows "sbind (CLog_new 0 h) (\<lambda>s. sbind (note_all mem ns s) (\<lambda>s. sbind (turn_all stamps s) (\<lambda>(_, _, out). Inr out))) =
     Inr (concat (map2 log_line stamps ns))"
proof -
  obtain g where g: "CLog_new 0 h = Inr (g, h, [])" "log_rep (g, h, []) []"
    by (auto simp: CLog_new_def CLock_new_def log_rep_def lock_free_def)
  obtain g1 h1 ys where n: "note_all mem ns (g, h, []) = Inr (g1, h1, [])" "log_rep (g1, h1, []) ys" "map (note_of h1) ys = ns"
    using note_all_ok[OF g(2), of mem ns] by (auto simp: ok_iff)
  have "length stamps = length ys" using assms n(3) by auto
  then obtain g2 h2 where "turn_all stamps (g1, h1, []) = Inr (g2, h2, concat (map2 log_line stamps ns))"
    using turn_all_ok[OF n(2), of stamps] n(3) by (auto simp: ok_iff)
  then show ?thesis using g(1) n(1) by simp
qed

theorem log_keeps_order_witness:
  "sbind (CLog_new 0 []) (\<lambda>s. sbind (note_all (\<lambda>_. Some 9) [(''1'', ''a''), (''2'', ''b'')] s) (\<lambda>s. sbind (turn_all [''t'', ''u''] s) (\<lambda>(_, _, out). Inr out))) =
     Inr (''t '' @ [CHR 0x0D] @ '' 1 '' @ [CHR 0x0D] @ '' a'' @ [NL] @ ''u '' @ [CHR 0x0D] @ '' 2 '' @ [CHR 0x0D] @ '' b'' @ [NL])"
  using log_keeps_order[of "[''t'', ''u'']" "[(''1'', ''a''), (''2'', ''b'')]" "[]" "\<lambda>_. Some 9"]
  by (simp add: log_line_def GenerateTimeStamp_def NUL_def)

end
