(* ===== verification/Pipeline.thy ===== *)
theory Pipeline
  imports JobQueue
begin

text \<open>
  The threads that work on the test cases: one thread for reading and writing
  (\<open>CMgrJob::dwLoopIOWork\<close>), two for parsing and modelling (\<open>CMgrJob::dwLoopWork\<close>), one that
  waits for the word \<open>exit\<close>, and the main thread that waits for the first of the two
  (\<open>src/CArchitecture/CMgrJob.cpp\<close>, \<open>Architecture.cpp\<close>, \<open>CThread.cpp\<close>). Threads interleave at
  every lock, and between the statements outside the locks; what stands between \<open>Lock()\<close>
  and \<open>Unlock()\<close> is one step of the thread that holds the lock.
\<close>

section \<open>The code\<close>

datatype tid = IO | W1 | W2 | Stop | Main

text \<open>
  Where a thread is: at the test of \<open>loopWorking\<close>, before and inside the lock of its get,
  working on a job, before and inside the lock of its add, at its end.
\<close>

datatype pc = Check | GetWait | GetIn | Run nat | AddWait nat | AddIn nat | Finished

text \<open>The virtual functions of a test case, on its data; a failure ends the process.\<close>

record 'd actions =
  doReading :: "'d \<Rightarrow> error + 'd"
  doParsing :: "'d \<Rightarrow> error + 'd"
  doWriting :: "'d \<Rightarrow> error + 'd"

datatype event = EvRead nat | EvParse nat | EvWrite nat

record 'd sys =
  s_mgr :: CMgrJob
  s_jobs :: "'d jobs"
  s_pc :: "tid \<Rightarrow> pc"
  s_input :: "string list"
  s_trace :: "event list"
  s_exited :: bool

subsection \<open>The two queues, seen from a thread\<close>

datatype qside = Work | InOut

definition q_lock :: "qside \<Rightarrow> CMgrJob \<Rightarrow> CLock" where
  "q_lock sd m = (case sd of Work \<Rightarrow> mpLock m | InOut \<Rightarrow> mpIOLock m)"

definition q_set_lock :: "qside \<Rightarrow> CLock \<Rightarrow> CMgrJob \<Rightarrow> CMgrJob" where
  "q_set_lock sd l m = (case sd of Work \<Rightarrow> m\<lparr>mpLock := l\<rparr> | InOut \<Rightarrow> m\<lparr>mpIOLock := l\<rparr>)"

definition q_get :: "qside \<Rightarrow> CMgrJob \<times> 'd jobs \<Rightarrow> error + nat option \<times> CMgrJob \<times> 'd jobs" where
  "q_get sd = (case sd of Work \<Rightarrow> getJob_body | InOut \<Rightarrow> getIOJob_body)"

definition q_add :: "qside \<Rightarrow> nat option \<Rightarrow> CMgrJob \<times> 'd jobs \<Rightarrow> error + bool \<times> CMgrJob \<times> 'd jobs" where
  "q_add sd = (case sd of Work \<Rightarrow> addJob_body | InOut \<Rightarrow> addIOJob_body)"

definition goto :: "tid \<Rightarrow> pc \<Rightarrow> 'd sys \<Rightarrow> 'd sys" where
  "goto t p s = s\<lparr>s_pc := (s_pc s)(t := p)\<rparr>"

definition acquire :: "qside \<Rightarrow> tid \<Rightarrow> pc \<Rightarrow> 'd sys \<Rightarrow> error + 'd sys option" where
  "acquire sd t p s =
     (if mutex_rc (q_lock sd (s_mgr s)) = 0 \<and> locked (q_lock sd (s_mgr s)) then Inr None
      else sbind (CLock_Lock (q_lock sd (s_mgr s))) (\<lambda>l. Inr (Some (goto t p (s\<lparr>s_mgr := q_set_lock sd l (s_mgr s)\<rparr>)))))"

definition release :: "qside \<Rightarrow> tid \<Rightarrow> pc \<Rightarrow> CMgrJob \<times> 'd jobs \<Rightarrow> 'd sys \<Rightarrow> error + 'd sys option" where
  "release sd t p = (\<lambda>(m, h) s. sbind (CLock_Unlock (q_lock sd m)) (\<lambda>l.
     Inr (Some (goto t p (s\<lparr>s_mgr := q_set_lock sd l m, s_jobs := h\<rparr>)))))"

text \<open>
  The frame that both loops have: \<open>while(loopWorking) if(job = get()) { ... }\<close>, where the body
  says where the thread goes with the job. \<open>None\<close> is a thread that has to wait.
\<close>

definition loop_step :: "qside \<Rightarrow> qside \<Rightarrow> (nat \<Rightarrow> 'd sys \<Rightarrow> error + pc \<times> 'd sys) \<Rightarrow> tid \<Rightarrow> 'd sys \<Rightarrow> error + 'd sys option" where
  "loop_step src dst body t s = (case s_pc s t of
     Check \<Rightarrow> Inr (Some (goto t (if loopWorking (s_mgr s) then GetWait else Finished) s))
   | GetWait \<Rightarrow> acquire src t GetIn s
   | GetIn \<Rightarrow> sbind (q_get src (s_mgr s, s_jobs s)) (\<lambda>(r, mh).
       release src t (case r of None \<Rightarrow> Check | Some j \<Rightarrow> Run j) mh s)
   | Run j \<Rightarrow> sbind (body j s) (\<lambda>(p, s). Inr (Some (goto t p s)))
   | AddWait j \<Rightarrow> acquire dst t (AddIn j) s
   | AddIn j \<Rightarrow> sbind (q_add dst (Some j) (s_mgr s, s_jobs s)) (\<lambda>(_, mh). release dst t Check mh s)
   | Finished \<Rightarrow> Inr None)"

definition apply_action :: "('d \<Rightarrow> error + 'd) \<Rightarrow> nat \<Rightarrow> 'd jobs \<Rightarrow> error + 'd jobs" where
  "apply_action f j h = sbind (load h (Some j)) (\<lambda>c. sbind (f (tc_data c)) (\<lambda>d. store h (Some j) (c\<lparr>tc_data := d\<rparr>)))"

definition deal_job :: "'d actions \<Rightarrow> nat \<Rightarrow> 'd sys \<Rightarrow> error + pc \<times> 'd sys" where
  "deal_job act j s =
     sbind (getStage (s_jobs s) (Some j)) (\<lambda>st.
       if st = READ_END_STAGE then
         sbind (apply_action (doParsing act) j (s_jobs s)) (\<lambda>h.
         sbind (setStage h (Some j) MODEL_END_STAGE) (\<lambda>h.
           Inr (AddWait j, s\<lparr>s_jobs := h, s_trace := s_trace s @ [EvParse j]\<rparr>)))
       else Inr (Check, s))"

definition dwLoopWork :: "'d actions \<Rightarrow> tid \<Rightarrow> 'd sys \<Rightarrow> error + 'd sys option" where
  "dwLoopWork act = loop_step Work InOut (deal_job act)"

definition io_job :: "'d actions \<Rightarrow> nat \<Rightarrow> 'd sys \<Rightarrow> error + pc \<times> 'd sys" where
  "io_job act j s =
     sbind (getStage (s_jobs s) (Some j)) (\<lambda>st. case st of
       INIT_STAGE \<Rightarrow>
         sbind (apply_action (doReading act) j (s_jobs s)) (\<lambda>h.
         sbind (setStage h (Some j) READ_END_STAGE) (\<lambda>h.
           Inr (AddWait j, s\<lparr>s_jobs := h, s_trace := s_trace s @ [EvRead j]\<rparr>)))
     | MODEL_END_STAGE \<Rightarrow>
         sbind (apply_action (doWriting act) j (s_jobs s)) (\<lambda>h.
         sbind (setStage h (Some j) WRITE_END_STAGE) (\<lambda>h.
           Inr (Check, s\<lparr>s_jobs := h[j := None], s_trace := s_trace s @ [EvWrite j]\<rparr>)))
     | _ \<Rightarrow> Inr (Check, s))"

definition dwLoopIOWork :: "'d actions \<Rightarrow> tid \<Rightarrow> 'd sys \<Rightarrow> error + 'd sys option" where
  "dwLoopIOWork act = loop_step InOut Work (io_job act)"

text \<open>\<open>StopThread\<close>: words are read into a buffer of 1024 characters until one is \<open>exit\<close>.\<close>

definition StopThread :: "'d sys \<Rightarrow> error + 'd sys option" where
  "StopThread s = (if s_pc s Stop = Finished then Inr None
     else case s_input s of
       [] \<Rightarrow> Inr None
     | w # ws \<Rightarrow>
         if length w \<ge> 1024 then Inl BadIndex
         else if w = ''exit'' then Inr (Some (goto Stop Finished (s\<lparr>s_input := ws, s_mgr := setLoopWorking (s_mgr s)\<rparr>)))
         else Inr (Some (s\<lparr>s_input := ws\<rparr>)))"

text \<open>\<open>wait4ThisThread\<close>: the caller goes on when the thread has ended.\<close>

definition wait4ThisThread :: "tid \<Rightarrow> tid \<Rightarrow> pc \<Rightarrow> 'd sys \<Rightarrow> error + 'd sys option" where
  "wait4ThisThread other t p s = (if s_pc s other = Finished then Inr (Some (goto t p s)) else Inr None)"

text \<open>
  The end of \<open>OnParserOpenfiles\<close>: two waits, both for \<open>cpDealThread\<close>, and the process ends. What
  the second \<open>pthread_join\<close> of a joined thread does is left open by its specification; its result is
  not looked at, and here it returns, as a wait for a thread that has ended.
\<close>

definition main_wait :: "'d sys \<Rightarrow> error + 'd sys option" where
  "main_wait s = (case s_pc s Main of
     Check \<Rightarrow> wait4ThisThread W1 Main GetWait s
   | GetWait \<Rightarrow> sbind (wait4ThisThread W1 Main Finished s) (\<lambda>r. Inr (map_option (\<lambda>s. s\<lparr>s_exited := True\<rparr>) r))
   | _ \<Rightarrow> Inr None)"

definition thread_step :: "'d actions \<Rightarrow> tid \<Rightarrow> 'd sys \<Rightarrow> error + 'd sys option" where
  "thread_step act t s = (if s_exited s then Inr None
     else case t of
       IO \<Rightarrow> dwLoopIOWork act IO s
     | W1 \<Rightarrow> dwLoopWork act W1 s
     | W2 \<Rightarrow> dwLoopWork act W2 s
     | Stop \<Rightarrow> StopThread s
     | Main \<Rightarrow> main_wait s)"

inductive reachable :: "'d actions \<Rightarrow> 'd sys \<Rightarrow> 'd sys \<Rightarrow> bool" for act s0 where
  init: "reachable act s0 s0"
| step: "reachable act s0 s \<Longrightarrow> thread_step act t s = Inr (Some s') \<Longrightarrow> reachable act s0 s'"

subsection \<open>The start\<close>

text \<open>The menu file: every line with \<open>path:\<close> names a test case, by the text that follows.\<close>

definition menu_line :: "string \<Rightarrow> error + string list" where
  "menu_line testFilePath = (let posPath = str_find testFilePath ''path:'' 0 in
     if posPath \<noteq> - 1 then sbind (str_substr testFilePath (posPath + 5) (- 1)) (\<lambda>n. Inr [n]) else Inr [])"

definition menu :: "string list \<Rightarrow> error + string list" where
  "menu ls = mfold (\<lambda>acc l. sbind (menu_line l) (\<lambda>n. Inr (acc @ n))) [] ls"

text \<open>
  A job is created for every line and put into the I/O queue; its links are unset memory. Then
  the threads are created.
\<close>

definition add_case :: "(string \<Rightarrow> error + 'd) \<Rightarrow> (nat \<Rightarrow> nat option \<times> nat option) \<Rightarrow> CMgrJob \<times> 'd jobs \<Rightarrow> string \<Rightarrow>
    error + CMgrJob \<times> 'd jobs" where
  "add_case new mem = (\<lambda>(m, h) name. sbind (new name) (\<lambda>d.
     let a = length h in
     sbind (addIOJob (Some a) (m, h @ [Some \<lparr>stage = INIT_STAGE, m_pNext_test = fst (mem a), m_pIONext_test = snd (mem a), tc_data = d\<rparr>]))
       (\<lambda>(_, mh). Inr mh)))"

definition OnParserOpenfiles :: "(string \<Rightarrow> error + 'd) \<Rightarrow> (nat \<Rightarrow> nat option \<times> nat option) \<Rightarrow> string list \<Rightarrow> string list \<Rightarrow> error + 'd sys" where
  "OnParserOpenfiles new mem menufile input =
     sbind (menu menufile) (\<lambda>ary_fileName.
     sbind (CMgrJob_new 0) (\<lambda>m.
     sbind (mfold (add_case new mem) (m, []) ary_fileName) (\<lambda>(m, h).
       Inr \<lparr>s_mgr = m, s_jobs = h, s_pc = (\<lambda>_. Check), s_input = input, s_trace = [], s_exited = False\<rparr>)))"

section \<open>Who has a job, who has a lock\<close>

definition loops :: "tid set" where
  "loops = {IO, W1, W2}"

definition get_side :: "tid \<Rightarrow> qside" where
  "get_side t = (if t = IO then InOut else Work)"

definition add_side :: "tid \<Rightarrow> qside" where
  "add_side t = (if t = IO then Work else InOut)"

definition in_lock :: "qside \<Rightarrow> tid \<Rightarrow> pc \<Rightarrow> bool" where
  "in_lock sd t p \<longleftrightarrow> t \<in> loops \<and> (p = GetIn \<and> sd = get_side t \<or> (\<exists>j. p = AddIn j) \<and> sd = add_side t)"

text \<open>A lock is taken exactly while a thread is inside it, and at most one thread is.\<close>

definition lock_inv :: "'d sys \<Rightarrow> bool" where
  "lock_inv s \<longleftrightarrow> (\<forall>sd. mutex_rc (q_lock sd (s_mgr s)) = 0 \<and>
     (locked (q_lock sd (s_mgr s)) \<longleftrightarrow> (\<exists>t. in_lock sd t (s_pc s t))) \<and>
     (\<forall>t t'. in_lock sd t (s_pc s t) \<longrightarrow> in_lock sd t' (s_pc s t') \<longrightarrow> t = t'))"

definition heldm :: "pc \<Rightarrow> nat multiset" where
  "heldm p = (case p of Run j \<Rightarrow> {#j#} | AddWait j \<Rightarrow> {#j#} | AddIn j \<Rightarrow> {#j#} | _ \<Rightarrow> {#})"

text \<open>All the places a job can be at.\<close>

definition places :: "'d sys \<Rightarrow> (qside \<Rightarrow> nat list) \<Rightarrow> nat multiset" where
  "places s Q = mset (Q Work) + mset (Q InOut) + heldm (s_pc s IO) + heldm (s_pc s W1) + heldm (s_pc s W2)"

definition q_rep :: "qside \<Rightarrow> CMgrJob \<Rightarrow> 'd jobs \<Rightarrow> nat list \<Rightarrow> bool" where
  "q_rep sd m h xs = (case sd of Work \<Rightarrow> queue_rep (next_of h) (mpHead m) (mpTail m) xs
     | InOut \<Rightarrow> queue_rep (ionext_of h) (mpIOHead m) (mpIOTail m) xs)"

definition side_stages :: "qside \<Rightarrow> stage set" where
  "side_stages sd = (case sd of Work \<Rightarrow> {READ_END_STAGE} | InOut \<Rightarrow> {INIT_STAGE, MODEL_END_STAGE})"

definition at_stage :: "'d jobs \<Rightarrow> nat \<Rightarrow> qside \<Rightarrow> bool" where
  "at_stage h j sd \<longleftrightarrow> (\<exists>st d. tag h j = Some (st, d) \<and> st \<in> side_stages sd)"

definition pc_stage :: "'d jobs \<Rightarrow> tid \<Rightarrow> pc \<Rightarrow> bool" where
  "pc_stage h t p = (case p of Run j \<Rightarrow> at_stage h j (get_side t) | AddWait j \<Rightarrow> at_stage h j (add_side t)
     | AddIn j \<Rightarrow> at_stage h j (add_side t) | _ \<Rightarrow> True)"

lemma pc_stage_simps [simp]:
  "pc_stage h t Check" "pc_stage h t GetWait" "pc_stage h t GetIn" "pc_stage h t Finished"
  "pc_stage h t (Run j) = at_stage h j (get_side t)" "pc_stage h t (AddWait j) = at_stage h j (add_side t)"
  "pc_stage h t (AddIn j) = at_stage h j (add_side t)"
  by (simp_all add: pc_stage_def)

lemma heldm_simps [simp]:
  "heldm Check = {#}" "heldm GetWait = {#}" "heldm GetIn = {#}" "heldm Finished = {#}"
  "heldm (Run j) = {#j#}" "heldm (AddWait j) = {#j#}" "heldm (AddIn j) = {#j#}"
  by (simp_all add: heldm_def)

text \<open>The queues and the threads share out the live jobs, each at a stage that fits its place.\<close>

definition jobs_inv :: "'d sys \<Rightarrow> (qside \<Rightarrow> nat list) \<Rightarrow> bool" where
  "jobs_inv s Q \<longleftrightarrow> (\<forall>sd. q_rep sd (s_mgr s) (s_jobs s) (Q sd)) \<and>
     (\<forall>j. count (places s Q) j = (if live (s_jobs s) j then 1 else 0)) \<and>
     (\<forall>sd. \<forall>j \<in> set (Q sd). at_stage (s_jobs s) j sd) \<and> (\<forall>t \<in> loops. pc_stage (s_jobs s) t (s_pc s t))"

fun ev_job :: "event \<Rightarrow> nat" where
  "ev_job (EvRead j) = j"
| "ev_job (EvParse j) = j"
| "ev_job (EvWrite j) = j"

definition ev_of :: "nat \<Rightarrow> event list \<Rightarrow> event list" where
  "ev_of j tr = filter (\<lambda>e. ev_job e = j) tr"

text \<open>What has happened to a job so far, by its stage; a deleted one is read, parsed and written.\<close>

definition history :: "'d actions \<Rightarrow> 'd \<Rightarrow> nat \<Rightarrow> (stage \<times> 'd) option \<Rightarrow> event list \<Rightarrow> bool" where
  "history act d0 j tg tr = (case tg of
     None \<Rightarrow> tr = [EvRead j, EvParse j, EvWrite j] \<and> (\<exists>d1 d2 d3. doReading act d0 = Inr d1 \<and> doParsing act d1 = Inr d2 \<and> doWriting act d2 = Inr d3)
   | Some (st, d) \<Rightarrow> (case st of
       INIT_STAGE \<Rightarrow> tr = [] \<and> d = d0
     | READ_END_STAGE \<Rightarrow> tr = [EvRead j] \<and> doReading act d0 = Inr d
     | MODEL_END_STAGE \<Rightarrow> tr = [EvRead j, EvParse j] \<and> (\<exists>d1. doReading act d0 = Inr d1 \<and> doParsing act d1 = Inr d)
     | WRITE_END_STAGE \<Rightarrow> False))"

definition data_inv :: "'d actions \<Rightarrow> 'd list \<Rightarrow> 'd sys \<Rightarrow> bool" where
  "data_inv act ds s \<longleftrightarrow> length (s_jobs s) = length ds \<and>
     (\<forall>j < length ds. history act (ds ! j) j (tag (s_jobs s) j) (ev_of j (s_trace s)))"

definition pipe_inv :: "'d actions \<Rightarrow> 'd list \<Rightarrow> 'd sys \<Rightarrow> bool" where
  "pipe_inv act ds s \<longleftrightarrow> lock_inv s \<and> (\<exists>Q. jobs_inv s Q) \<and> data_inv act ds s"

subsection \<open>Moving a thread\<close>

lemma goto_simps [simp]:
  "s_mgr (goto t p s) = s_mgr s" "s_jobs (goto t p s) = s_jobs s" "s_trace (goto t p s) = s_trace s"
  "s_pc (goto t p s) = (s_pc s)(t := p)" "s_exited (goto t p s) = s_exited s" "s_input (goto t p s) = s_input s"
  by (simp_all add: goto_def)

lemma places_goto: "t \<in> loops \<Longrightarrow> places (goto t p s) Q + heldm (s_pc s t) = places s Q + heldm p"
  by (auto simp: loops_def places_def ac_simps)

lemma places_upd [simp]:
  "places (s\<lparr>s_mgr := m\<rparr>) Q = places s Q" "places (s\<lparr>s_jobs := h\<rparr>) Q = places s Q" "places (s\<lparr>s_trace := tr\<rparr>) Q = places s Q"
  "places (s\<lparr>s_input := i\<rparr>) Q = places s Q" "places (s\<lparr>s_exited := b\<rparr>) Q = places s Q"
  by (simp_all add: places_def)

lemma q_lock_set [simp]: "q_lock sd (q_set_lock sd' l m) = (if sd = sd' then l else q_lock sd m)"
  by (cases sd; cases sd') (simp_all add: q_lock_def q_set_lock_def)

lemma q_rep_set_lock [simp]: "q_rep sd (q_set_lock sd' l m) h xs = q_rep sd m h xs"
  by (cases sd; cases sd') (simp_all add: q_rep_def q_set_lock_def)

lemma get_add_side [simp]: "get_side t \<noteq> add_side t" "add_side t \<noteq> get_side t"
  by (simp_all add: get_side_def add_side_def)

text \<open>The queue operations, for both sides.\<close>

lemma q_get_ok:
  assumes "q_rep sd m h xs" "\<forall>x \<in> set xs. live h x" "\<forall>sd'. q_rep sd' m h (Q sd')"
  shows "ok (q_get sd (m, h)) (\<lambda>(r, m', h'). h' = h \<and> r = (if xs = [] then None else Some (hd xs)) \<and> q_rep sd m' h (tl xs) \<and>
     (\<forall>sd'. sd' \<noteq> sd \<longrightarrow> q_rep sd' m' h (Q sd')) \<and> (\<forall>sd'. q_lock sd' m' = q_lock sd' m) \<and> loopWorking m' = loopWorking m)"
proof (cases sd)
  case Work
  obtain r m' where b: "getJob_body (m, h) = Inr (r, m', h)" "r = (if xs = [] then None else Some (hd xs))"
      "queue_rep (next_of h) (mpHead m') (mpTail m') (tl xs)" "m' = m\<lparr>mpHead := mpHead m', mpTail := mpTail m'\<rparr>"
    using getJob_body_ok[of h m xs] assms Work by (auto simp: ok_iff q_rep_def)
  have f: "mpIOHead m' = mpIOHead m" "mpIOTail m' = mpIOTail m" "mpLock m' = mpLock m" "mpIOLock m' = mpIOLock m" "loopWorking m' = loopWorking m"
    by (subst b(4), simp)+
  have "q_rep InOut m h (Q InOut)" using assms(3) by blast
  then show ?thesis using b(1-3) f Work by (auto simp: q_get_def q_rep_def q_lock_def split: qside.splits)
next
  case InOut
  obtain r m' where b: "getIOJob_body (m, h) = Inr (r, m', h)" "r = (if xs = [] then None else Some (hd xs))"
      "queue_rep (ionext_of h) (mpIOHead m') (mpIOTail m') (tl xs)" "m' = m\<lparr>mpIOHead := mpIOHead m', mpIOTail := mpIOTail m'\<rparr>"
    using getIOJob_body_ok[of h m xs] assms InOut by (auto simp: ok_iff q_rep_def)
  have f: "mpHead m' = mpHead m" "mpTail m' = mpTail m" "mpLock m' = mpLock m" "mpIOLock m' = mpIOLock m" "loopWorking m' = loopWorking m"
    by (subst b(4), simp)+
  have "q_rep Work m h (Q Work)" using assms(3) by blast
  then show ?thesis using b(1-3) f InOut by (auto simp: q_get_def q_rep_def q_lock_def split: qside.splits)
qed

lemma q_add_ok:
  assumes "q_rep sd m h xs" "\<forall>x \<in> set xs. live h x" "a \<notin> set xs" "\<forall>sd'. q_rep sd' m h (Q sd')"
  shows "ok (q_add sd (Some a) (m, h)) (\<lambda>(r, m', h'). tag h' = tag h \<and> q_rep sd m' h' (xs @ [a]) \<and>
     (\<forall>sd'. sd' \<noteq> sd \<longrightarrow> q_rep sd' m' h' (Q sd')) \<and> (\<forall>sd'. q_lock sd' m' = q_lock sd' m) \<and> loopWorking m' = loopWorking m \<and>
     length h' = length h)"
proof (cases sd)
  case Work
  obtain m' h' where b: "addJob_body (Some a) (m, h) = Inr (True, m', h')" "queue_rep (next_of h') (mpHead m') (mpTail m') (xs @ [a])"
      "m' = m\<lparr>mpHead := mpHead m', mpTail := mpTail m'\<rparr>" "tag h' = tag h" "ionext_of h' = ionext_of h"
    using addJob_body_ok[of h m xs a] assms Work by (auto simp: ok_iff q_rep_def)
  have f: "mpIOHead m' = mpIOHead m" "mpIOTail m' = mpIOTail m" "mpLock m' = mpLock m" "mpIOLock m' = mpIOLock m" "loopWorking m' = loopWorking m"
    by (subst b(3), simp)+
  have "length h' = length h" using b(1) by (auto simp: addJob_body_def setNext_def store_def sbind_eq_Inr split: if_splits option.splits)
  moreover have "q_rep InOut m h (Q InOut)" using assms(4) by blast
  ultimately show ?thesis using b f Work by (auto simp: q_add_def q_rep_def q_lock_def split: qside.splits)
next
  case InOut
  obtain m' h' where b: "addIOJob_body (Some a) (m, h) = Inr (True, m', h')" "queue_rep (ionext_of h') (mpIOHead m') (mpIOTail m') (xs @ [a])"
      "m' = m\<lparr>mpIOHead := mpIOHead m', mpIOTail := mpIOTail m'\<rparr>" "tag h' = tag h" "next_of h' = next_of h"
    using addIOJob_body_ok[of h m xs a] assms InOut by (auto simp: ok_iff q_rep_def)
  have f: "mpHead m' = mpHead m" "mpTail m' = mpTail m" "mpLock m' = mpLock m" "mpIOLock m' = mpIOLock m" "loopWorking m' = loopWorking m"
    by (subst b(3), simp)+
  have "length h' = length h" using b(1) by (auto simp: addIOJob_body_def setIONext_def store_def sbind_eq_Inr split: if_splits option.splits)
  moreover have "q_rep Work m h (Q Work)" using assms(4) by blast
  ultimately show ?thesis using b f InOut by (auto simp: q_add_def q_rep_def q_lock_def split: qside.splits)
qed

subsection \<open>Locks are taken and given back\<close>

lemma lock_inv_cong: "(\<And>sd. q_lock sd (s_mgr s') = q_lock sd (s_mgr s)) \<Longrightarrow> s_pc s' = s_pc s \<Longrightarrow> lock_inv s \<Longrightarrow> lock_inv s'"
  by (simp add: lock_inv_def)

lemma lock_move:
  assumes "lock_inv s" "\<And>sd. in_lock sd t p = in_lock sd t (s_pc s t)"
  shows "lock_inv (goto t p s)"
proof -
  have "in_lock sd x (s_pc (goto t p s) x) = in_lock sd x (s_pc s x)" for sd x using assms(2) by simp
  then show ?thesis using assms(1) unfolding lock_inv_def by simp
qed

lemma lock_acquire:
  assumes "lock_inv s" "\<not> locked (q_lock sd (s_mgr s))" "\<And>sd'. \<not> in_lock sd' t (s_pc s t)" "\<And>sd'. in_lock sd' t p \<longleftrightarrow> sd' = sd"
  shows "lock_inv (goto t p (s\<lparr>s_mgr := q_set_lock sd ((q_lock sd (s_mgr s))\<lparr>locked := True\<rparr>) (s_mgr s)\<rparr>))"
proof -
  have n: "\<not> in_lock sd x (s_pc s x)" for x using assms(1,2) by (auto simp: lock_inv_def)
  have "in_lock sd' x (((s_pc s)(t := p)) x) \<longleftrightarrow> (if x = t then sd' = sd else in_lock sd' x (s_pc s x))" for sd' x
    using assms(4) by simp
  then show ?thesis using assms(1,3) n unfolding lock_inv_def goto_simps by (simp del: fun_upd_apply) metis
qed

lemma lock_release:
  assumes "lock_inv s" "\<And>sd'. in_lock sd' t (s_pc s t) \<longleftrightarrow> sd' = sd" "\<And>sd'. \<not> in_lock sd' t p" "\<And>sd'. q_lock sd' m = q_lock sd' (s_mgr s)"
  shows "lock_inv (goto t p (s\<lparr>s_mgr := q_set_lock sd ((q_lock sd m)\<lparr>locked := False\<rparr>) m, s_jobs := h\<rparr>))"
proof -
  have only: "in_lock sd x (s_pc s x) \<Longrightarrow> x = t" for x using assms(1,2) unfolding lock_inv_def by blast
  have "in_lock sd' x (((s_pc s)(t := p)) x) \<longleftrightarrow> x \<noteq> t \<and> in_lock sd' x (s_pc s x)" for sd' x
    using assms(3) by simp
  then show ?thesis using assms(1,2,4) only unfolding lock_inv_def goto_simps by (simp del: fun_upd_apply) metis
qed

subsection \<open>Jobs change their places\<close>

lemma jobs_invD:
  assumes "jobs_inv s Q"
  shows "q_rep sd (s_mgr s) (s_jobs s) (Q sd)" "x \<in> set (Q sd) \<Longrightarrow> live (s_jobs s) x"
    "count (places s Q) j = (if live (s_jobs s) j then 1 else 0)"
    "x \<in> set (Q sd) \<Longrightarrow> at_stage (s_jobs s) x sd" "t \<in> loops \<Longrightarrow> pc_stage (s_jobs s) t (s_pc s t)"
proof -
  show "q_rep sd (s_mgr s) (s_jobs s) (Q sd)" "count (places s Q) j = (if live (s_jobs s) j then 1 else 0)"
    "t \<in> loops \<Longrightarrow> pc_stage (s_jobs s) t (s_pc s t)" and a: "x \<in> set (Q sd) \<Longrightarrow> at_stage (s_jobs s) x sd"
    using assms by (auto simp: jobs_inv_def)
  show "x \<in> set (Q sd) \<Longrightarrow> live (s_jobs s) x" using a by (auto simp: at_stage_def tag_def split: if_splits)
qed

text \<open>A job that a thread holds is nowhere else.\<close>

lemma held_alone:
  assumes "jobs_inv s Q" "t \<in> loops" "j \<in># heldm (s_pc s t)"
  shows "j \<notin> set (Q sd)" "t' \<in> loops \<Longrightarrow> t' \<noteq> t \<Longrightarrow> j \<notin># heldm (s_pc s t')" "live (s_jobs s) j"
proof -
  have c: "count (places s Q) j \<le> 1" using jobs_invD(3)[OF assms(1)] by simp
  have h: "0 < count (heldm (s_pc s t)) j" using assms(3) by simp
  have e: "count (mset (Q Work)) j + count (mset (Q InOut)) j + count (heldm (s_pc s IO)) j + count (heldm (s_pc s W1)) j +
      count (heldm (s_pc s W2)) j \<le> 1" using c unfolding places_def by simp
  have t: "t = IO \<or> t = W1 \<or> t = W2" using assms(2) by (simp add: loops_def)
  have "count (mset (Q Work)) j = 0 \<and> count (mset (Q InOut)) j = 0" using e h t by (elim disjE; hypsubst; linarith)
  then have q: "count (mset (Q sd)) j = 0" by (cases sd) simp_all
  then show "j \<notin> set (Q sd)" by (metis count_eq_zero_iff set_mset_mset)
  show "j \<notin># heldm (s_pc s t')" if "t' \<in> loops" "t' \<noteq> t"
  proof -
    have "t' = IO \<or> t' = W1 \<or> t' = W2" using that(1) by (simp add: loops_def)
    then have "count (heldm (s_pc s t')) j = 0" using e h t that(2) by (elim disjE; hypsubst; (linarith | simp))
    then show ?thesis by (simp add: count_eq_zero_iff)
  qed
  have "0 < count (places s Q) j" using h t unfolding places_def count_union by (elim disjE; hypsubst; linarith)
  then show "live (s_jobs s) j" using jobs_invD(3)[OF assms(1), of j] by (auto split: if_splits)
qed

lemma at_stage_tag: "tag h' j = tag h j \<Longrightarrow> at_stage h' j sd = at_stage h j sd"
  by (simp add: at_stage_def)

lemma pc_stage_tag: "(\<And>j. j \<in># heldm p \<Longrightarrow> tag h' j = tag h j) \<Longrightarrow> pc_stage h' t p = pc_stage h t p"
  by (cases p) (auto simp: pc_stage_def heldm_def at_stage_def)

lemma jobs_move:
  assumes "jobs_inv s Q" "t \<in> loops" "heldm p = heldm (s_pc s t)" "pc_stage (s_jobs s) t p"
    and "\<And>sd. q_rep sd m (s_jobs s) (Q sd)"
  shows "jobs_inv (goto t p (s\<lparr>s_mgr := m\<rparr>)) Q"
proof -
  have "places (goto t p (s\<lparr>s_mgr := m\<rparr>)) Q = places s Q" using places_goto[OF assms(2), of p "s\<lparr>s_mgr := m\<rparr>" Q] assms(3) by simp
  then show ?thesis using assms unfolding jobs_inv_def by simp
qed

lemma jobs_take:
  assumes "jobs_inv s Q" "t \<in> loops" "s_pc s t = GetIn" "Q (get_side t) = j # xs"
    and "q_rep (get_side t) m (s_jobs s) xs" "\<And>sd. sd \<noteq> get_side t \<Longrightarrow> q_rep sd m (s_jobs s) (Q sd)"
  shows "jobs_inv (goto t (Run j) (s\<lparr>s_mgr := m, s_jobs := s_jobs s\<rparr>)) (Q(get_side t := xs))"
proof -
  have "mset (Q Work) + mset (Q InOut) = {#j#} + (mset ((Q(get_side t := xs)) Work) + mset ((Q(get_side t := xs)) InOut))"
    using assms(4) by (cases "get_side t") auto
  then have "places (goto t (Run j) s) (Q(get_side t := xs)) = places s Q"
    using assms(2,3) by (auto simp: places_def loops_def heldm_def ac_simps)
  moreover have "places (goto t (Run j) (s\<lparr>s_mgr := m, s_jobs := s_jobs s\<rparr>)) (Q(get_side t := xs)) = places (goto t (Run j) s) (Q(get_side t := xs))"
    by (simp add: places_def)
  moreover have "at_stage (s_jobs s) j (get_side t)" using jobs_invD(4)[OF assms(1)] assms(4) by simp
  ultimately show ?thesis using assms unfolding jobs_inv_def by auto
qed

lemma jobs_put:
  assumes "jobs_inv s Q" "t \<in> loops" "s_pc s t = AddIn j" "tag h = tag (s_jobs s)"
    and "q_rep (add_side t) m h (Q (add_side t) @ [j])" "\<And>sd. sd \<noteq> add_side t \<Longrightarrow> q_rep sd m h (Q sd)"
  shows "jobs_inv (goto t Check (s\<lparr>s_mgr := m, s_jobs := h\<rparr>)) (Q(add_side t := Q (add_side t) @ [j]))"
proof -
  let ?Q = "Q(add_side t := Q (add_side t) @ [j])"
  have "mset (?Q Work) + mset (?Q InOut) = {#j#} + (mset (Q Work) + mset (Q InOut))"
    by (cases "add_side t") auto
  then have p: "places (goto t Check s) ?Q = places s Q"
    using assms(2,3) by (auto simp: places_def loops_def heldm_def ac_simps)
  have p': "places (goto t Check (s\<lparr>s_mgr := m, s_jobs := h\<rparr>)) ?Q = places (goto t Check s) ?Q" by (simp add: places_def)
  have tg: "at_stage h x sd = at_stage (s_jobs s) x sd" "pc_stage h t' p' = pc_stage (s_jobs s) t' p'" "live h x = live (s_jobs s) x" for x sd t' p'
    using assms(4) at_stage_tag[of h x "s_jobs s" sd] pc_stage_tag[of p' h "s_jobs s" t'] tag_live[OF assms(4)] by auto
  have j: "at_stage (s_jobs s) j (add_side t)" using jobs_invD(5)[OF assms(1,2)] assms(3) by (simp add: pc_stage_def)
  show ?thesis
    using assms j unfolding jobs_inv_def p' p goto_simps by (auto simp: tg)
qed

subsection \<open>A thread works on its job\<close>

lemma q_rep_next:
  "(\<And>x. x \<in> set xs \<Longrightarrow> next_of h' x = next_of h x \<and> ionext_of h' x = ionext_of h x) \<Longrightarrow> q_rep sd m h' xs = q_rep sd m h xs"
  using queue_rep_cong[of xs "next_of h'" "next_of h"] queue_rep_cong[of xs "ionext_of h'" "ionext_of h"]
  by (cases sd) (auto simp: q_rep_def)

text \<open>The tag of the job of a thread changes, or the job is deleted; the thread goes on without a lock.\<close>

lemma jobs_work:
  assumes "jobs_inv s Q" "t \<in> loops" "s_pc s t = Run j"
    and "\<And>x. x \<noteq> j \<Longrightarrow> tag h x = tag (s_jobs s) x \<and> next_of h x = next_of (s_jobs s) x \<and> ionext_of h x = ionext_of (s_jobs s) x"
    and "p = AddWait j \<and> at_stage h j (add_side t) \<or> p = Check \<and> tag h j = None"
  shows "jobs_inv (goto t p (s\<lparr>s_jobs := h, s_trace := tr\<rparr>)) Q"
proof -
  have hj: "j \<in># heldm (s_pc s t)" using assms(3) by (simp add: heldm_def)
  note al = held_alone[OF assms(1,2) hj]
  have l: "live h x = live (s_jobs s) x" if "x \<noteq> j" for x
    using assms(4)[OF that] by (auto simp: tag_def split: if_splits)
  have "places (goto t p (s\<lparr>s_jobs := h, s_trace := tr\<rparr>)) Q + {#j#} = places s Q + heldm p"
    using places_goto[OF assms(2), of p "s\<lparr>s_jobs := h, s_trace := tr\<rparr>" Q] assms(3) by (simp add: heldm_def)
  then have cnt: "count (places (goto t p (s\<lparr>s_jobs := h, s_trace := tr\<rparr>)) Q) x + count {#j#} x = count (places s Q) x + count (heldm p) x" for x
    by (metis count_union)
  have "live h j \<longleftrightarrow> p = AddWait j" using assms(5) by (auto simp: at_stage_def tag_def split: if_splits)
  then have c: "count (places (goto t p (s\<lparr>s_jobs := h, s_trace := tr\<rparr>)) Q) x = (if live h x then 1 else 0)" for x
    using cnt[of x] jobs_invD(3)[OF assms(1), of x] al(3) l[of x] assms(5) by (cases "x = j") (auto simp: heldm_def)
  have q: "q_rep sd (s_mgr s) h (Q sd)" for sd
    using q_rep_next[of "Q sd" h "s_jobs s" sd "s_mgr s"] assms(4) al(1)[of sd] jobs_invD(1)[OF assms(1), of sd] by metis
  have st: "at_stage h x sd" if "x \<in> set (Q sd)" for x sd
    using at_stage_tag[of h x "s_jobs s" sd] assms(4)[of x] al(1)[of sd] that jobs_invD(4)[OF assms(1), of x sd] by metis
  have ps: "pc_stage h t' (s_pc s t')" if "t' \<in> loops" "t' \<noteq> t" for t'
  proof -
    have "pc_stage h t' (s_pc s t') = pc_stage (s_jobs s) t' (s_pc s t')"
      by (rule pc_stage_tag) (use al(2)[OF that] assms(4) in metis)
    then show ?thesis using jobs_invD(5)[OF assms(1)] that by simp
  qed
  have "pc_stage h t p" using assms(5) by (auto simp: pc_stage_def)
  then show ?thesis using c q st ps unfolding jobs_inv_def by simp
qed

lemma set_tag:
  assumes "live h j" "h' = h[j := Some ((the (h ! j))\<lparr>tc_data := d, stage := st\<rparr>)]"
  shows "tag h' = (tag h)(j \<mapsto> (st, d))" "next_of h' = next_of h" "ionext_of h' = ionext_of h" "length h' = length h"
proof -
  have j: "j < length h" using assms(1) by (simp add: live_def)
  have l: "live (h[j := Some ((the (h ! j))\<lparr>tc_data := d, stage := st\<rparr>)]) x = live h x" for x using assms(1) j by auto
  show "tag h' = (tag h)(j \<mapsto> (st, d))" "next_of h' = next_of h" "ionext_of h' = ionext_of h"
    using assms(1) j by (auto simp: tag_def next_of_def ionext_of_def l fun_eq_iff assms(2) nth_list_update simp del: live_upd)
  show "length h' = length h" by (simp add: assms(2))
qed

text \<open>An action and the new stage, in one go.\<close>

lemma act_and_stage:
  assumes "tag h j = Some (st0, d0)" "f d0 = Inr d"
  shows "\<exists>h'. sbind (apply_action f j h) (\<lambda>h. setStage h (Some j) st) = Inr h' \<and> tag h' = (tag h)(j \<mapsto> (st, d)) \<and>
     next_of h' = next_of h \<and> ionext_of h' = ionext_of h \<and> length h' = length h"
proof -
  have l: "live h j" and d0: "tc_data (the (h ! j)) = d0" using assms(1) by (auto simp: tag_def split: if_splits)
  then have j: "j < length h" by (simp add: live_def)
  let ?h = "h[j := Some ((the (h ! j))\<lparr>tc_data := d\<rparr>)]"
  have "apply_action f j h = Inr ?h" using l d0 assms(2) by (simp add: apply_action_def)
  moreover have "setStage ?h (Some j) st = Inr (h[j := Some ((the (h ! j))\<lparr>tc_data := d, stage := st\<rparr>)])"
    using l j by (simp add: setStage_def)
  ultimately show ?thesis using set_tag[where d = d and st = st, OF l refl] by simp
qed

lemma getStage_tag: "tag h j = Some (st, d) \<Longrightarrow> getStage h (Some j) = Inr st"
  by (auto simp: tag_def getStage_def split: if_splits)

lemma apply_fails: "tag h j = Some (st, d) \<Longrightarrow> f d = Inl e \<Longrightarrow> apply_action f j h = Inl e"
  by (auto simp: tag_def apply_action_def split: if_splits)

lemma ev_of_snoc: "ev_of j (tr @ [e]) = (if ev_job e = j then ev_of j tr @ [e] else ev_of j tr)"
  by (simp add: ev_of_def)

text \<open>The process ends abnormally only by an action of a test case.\<close>

definition action_error :: "'d actions \<Rightarrow> error \<Rightarrow> bool" where
  "action_error act e \<longleftrightarrow> (\<exists>d. doReading act d = Inl e \<or> doParsing act d = Inl e \<or> doWriting act d = Inl e)"

definition good :: "'d actions \<Rightarrow> ('r \<Rightarrow> bool) \<Rightarrow> error + 'r \<Rightarrow> bool" where
  "good act P m \<longleftrightarrow> (case m of Inl e \<Rightarrow> action_error act e | Inr r \<Rightarrow> P r)"

lemma good_ok: "ok m P \<Longrightarrow> good act P m"
  by (cases m) (simp_all add: good_def)

lemma data_invD: "data_inv act ds s \<Longrightarrow> j < length ds \<Longrightarrow> history act (ds ! j) j (tag (s_jobs s) j) (ev_of j (s_trace s))"
  by (simp add: data_inv_def)

lemma data_step:
  assumes "data_inv act ds s" "tag h = (tag (s_jobs s))(j := tg)" "length h = length (s_jobs s)" "ev_job e = j" "j < length ds"
    and "history act (ds ! j) j tg (ev_of j (s_trace s) @ [e])"
  shows "data_inv act ds (s\<lparr>s_jobs := h, s_trace := s_trace s @ [e]\<rparr>)"
  using assms unfolding data_inv_def by (auto simp: ev_of_snoc)

lemma data_inv_goto [simp]: "data_inv act ds (goto t p s) = data_inv act ds s"
  by (simp add: data_inv_def)

lemma lock_work:
  assumes "lock_inv s" "s_pc s t = Run j" "p = AddWait j \<or> p = Check"
  shows "lock_inv (goto t p (s\<lparr>s_jobs := h, s_trace := tr\<rparr>))"
proof (rule lock_move)
  show "lock_inv (s\<lparr>s_jobs := h, s_trace := tr\<rparr>)" using assms(1) by (rule lock_inv_cong[rotated 2]) simp_all
qed (use assms(2,3) in \<open>auto simp: in_lock_def\<close>)

lemma live_length: "data_inv act ds s \<Longrightarrow> tag (s_jobs s) j = Some x \<Longrightarrow> j < length ds"
  by (auto simp: data_inv_def tag_def live_def split: if_splits)

text \<open>A thread whose action has worked sets the stage and goes to the other queue with the test case.\<close>

lemma hand_over:
  assumes inv: "pipe_inv act ds s" and t: "t \<in> loops" "s_pc s t = Run j" and d: "tag (s_jobs s) j = Some (st, d)" "f d = Inr d'"
    and st': "st' \<in> side_stages (add_side t)" and e: "ev_job e = j" "history act (ds ! j) j (Some (st', d')) (ev_of j (s_trace s) @ [e])"
  obtains h' where "sbind (apply_action f j (s_jobs s)) (\<lambda>h. setStage h (Some j) st') = Inr h'"
    "pipe_inv act ds (goto t (AddWait j) (s\<lparr>s_jobs := h', s_trace := s_trace s @ [e]\<rparr>))"
proof -
  obtain Q where Q: "jobs_inv s Q" and L: "lock_inv s" and D: "data_inv act ds s" using inv by (auto simp: pipe_inv_def)
  obtain h' where h': "sbind (apply_action f j (s_jobs s)) (\<lambda>h. setStage h (Some j) st') = Inr h'"
    "tag h' = (tag (s_jobs s))(j \<mapsto> (st', d'))" "next_of h' = next_of (s_jobs s)" "ionext_of h' = ionext_of (s_jobs s)"
    "length h' = length (s_jobs s)" using act_and_stage[where f = f and st = st', OF d(1)] d(2) by blast
  let ?s = "s\<lparr>s_jobs := h', s_trace := s_trace s @ [e]\<rparr>"
  have "jobs_inv (goto t (AddWait j) ?s) Q" by (rule jobs_work[OF Q t]) (use h' st' in \<open>auto simp: at_stage_def\<close>)
  moreover have "lock_inv (goto t (AddWait j) ?s)" by (rule lock_work[OF L t(2)]) simp
  moreover have "data_inv act ds ?s" by (rule data_step[OF D h'(2,5) e(1) live_length[OF D d(1)] e(2)])
  ultimately show thesis using that[OF h'(1)] by (auto simp: pipe_inv_def)
qed

lemma deal_job_inv:
  assumes "pipe_inv act ds s" "t \<in> loops" "t \<noteq> IO" "s_pc s t = Run j"
  shows "good act (\<lambda>(p, s'). pipe_inv act ds (goto t p s')) (deal_job act j s)"
proof -
  obtain Q where Q: "jobs_inv s Q" and D: "data_inv act ds s" using assms(1) by (auto simp: pipe_inv_def)
  have "at_stage (s_jobs s) j Work" using jobs_invD(5)[OF Q assms(2)] assms(3,4) by (simp add: get_side_def)
  then obtain d where d: "tag (s_jobs s) j = Some (READ_END_STAGE, d)" by (auto simp: at_stage_def side_stages_def)
  have h: "ev_of j (s_trace s) = [EvRead j]" "doReading act (ds ! j) = Inr d"
    using data_invD[OF D live_length[OF D d]] d by (auto simp: history_def)
  show ?thesis
  proof (cases "doParsing act d")
    case (Inl e)
    then show ?thesis using apply_fails[where f = "doParsing act", OF d Inl] getStage_tag[OF d]
      by (auto simp: deal_job_def good_def action_error_def)
  next
    case (Inr d')
    obtain h' where h': "sbind (apply_action (doParsing act) j (s_jobs s)) (\<lambda>h. setStage h (Some j) MODEL_END_STAGE) = Inr h'"
      "pipe_inv act ds (goto t (AddWait j) (s\<lparr>s_jobs := h', s_trace := s_trace s @ [EvParse j]\<rparr>))"
      by (rule hand_over[where f = "doParsing act" and st' = MODEL_END_STAGE and e = "EvParse j", OF assms(1,2,4) d Inr])
        (use h Inr assms(3) in \<open>auto simp: history_def side_stages_def add_side_def\<close>)
    have "deal_job act j s = Inr (AddWait j, s\<lparr>s_jobs := h', s_trace := s_trace s @ [EvParse j]\<rparr>)"
      using h'(1) getStage_tag[OF d] by (auto simp: deal_job_def sbind_eq_Inr)
    then show ?thesis using h'(2) by (simp add: good_def)
  qed
qed

lemma io_read_inv:
  assumes "pipe_inv act ds s" "s_pc s IO = Run j" and d: "tag (s_jobs s) j = Some (INIT_STAGE, d)"
  shows "good act (\<lambda>(p, s'). pipe_inv act ds (goto IO p s')) (io_job act j s)"
proof -
  have D: "data_inv act ds s" using assms(1) by (simp add: pipe_inv_def)
  have h: "ev_of j (s_trace s) = []" "d = ds ! j" using data_invD[OF D live_length[OF D d]] d by (auto simp: history_def)
  show ?thesis
  proof (cases "doReading act d")
    case (Inl e)
    then show ?thesis using apply_fails[where f = "doReading act", OF d Inl] getStage_tag[OF d]
      by (auto simp: io_job_def good_def action_error_def)
  next
    case (Inr d')
    have io: "IO \<in> loops" by (simp add: loops_def)
    obtain h' where h': "sbind (apply_action (doReading act) j (s_jobs s)) (\<lambda>h. setStage h (Some j) READ_END_STAGE) = Inr h'"
      "pipe_inv act ds (goto IO (AddWait j) (s\<lparr>s_jobs := h', s_trace := s_trace s @ [EvRead j]\<rparr>))"
      by (rule hand_over[where f = "doReading act" and st' = READ_END_STAGE and e = "EvRead j", OF assms(1) io assms(2) d Inr])
        (use h Inr in \<open>auto simp: history_def side_stages_def add_side_def\<close>)
    have "io_job act j s = Inr (AddWait j, s\<lparr>s_jobs := h', s_trace := s_trace s @ [EvRead j]\<rparr>)"
      using h'(1) getStage_tag[OF d] by (auto simp: io_job_def sbind_eq_Inr)
    then show ?thesis using h'(2) by (simp add: good_def)
  qed
qed

lemma io_write_inv:
  assumes "pipe_inv act ds s" "s_pc s IO = Run j" and d: "tag (s_jobs s) j = Some (MODEL_END_STAGE, d)"
  shows "good act (\<lambda>(p, s'). pipe_inv act ds (goto IO p s')) (io_job act j s)"
proof -
  obtain Q where Q: "jobs_inv s Q" and L: "lock_inv s" and D: "data_inv act ds s" using assms(1) by (auto simp: pipe_inv_def)
  have jl: "j < length ds" by (rule live_length[OF D d])
  obtain d1 where h: "ev_of j (s_trace s) = [EvRead j, EvParse j]" "doReading act (ds ! j) = Inr d1" "doParsing act d1 = Inr d"
    using data_invD[OF D jl] d by (auto simp: history_def)
  show ?thesis
  proof (cases "doWriting act d")
    case (Inl e)
    then show ?thesis using apply_fails[where f = "doWriting act", OF d Inl] getStage_tag[OF d]
      by (auto simp: io_job_def good_def action_error_def)
  next
    case (Inr d')
    then obtain h1 where h1: "sbind (apply_action (doWriting act) j (s_jobs s)) (\<lambda>h. setStage h (Some j) WRITE_END_STAGE) = Inr h1"
      "tag h1 = (tag (s_jobs s))(j \<mapsto> (WRITE_END_STAGE, d'))" "next_of h1 = next_of (s_jobs s)" "ionext_of h1 = ionext_of (s_jobs s)"
      "length h1 = length (s_jobs s)" using act_and_stage[where f = "doWriting act" and st = WRITE_END_STAGE, OF d] by blast
    let ?h = "h1[j := None]" and ?s = "s\<lparr>s_jobs := h1[j := None], s_trace := s_trace s @ [EvWrite j]\<rparr>"
    have j: "j < length h1" using h1(5) D jl by (simp add: data_inv_def)
    have del: "tag ?h = (tag h1)(j := None)" "x \<noteq> j \<Longrightarrow> next_of ?h x = next_of h1 x" "x \<noteq> j \<Longrightarrow> ionext_of ?h x = ionext_of h1 x" for x
      using j by (auto simp: tag_def next_of_def ionext_of_def live_def fun_eq_iff nth_list_update)
    have tg: "tag ?h = (tag (s_jobs s))(j := None)" using del(1) h1(2) by auto
    have "io_job act j s = Inr (Check, ?s)" using h1(1) getStage_tag[OF d] by (auto simp: io_job_def sbind_eq_Inr)
    moreover have "jobs_inv (goto IO Check ?s) Q"
      by (rule jobs_work[OF Q _ assms(2)]) (use tg del h1 in \<open>auto simp: loops_def\<close>)
    moreover have "lock_inv (goto IO Check ?s)" by (rule lock_work[OF L assms(2)]) simp
    moreover have "data_inv act ds ?s" by (rule data_step[OF D tg]) (use h1(5) h Inr jl in \<open>auto simp: history_def\<close>)
    ultimately show ?thesis by (auto simp: good_def pipe_inv_def)
  qed
qed

lemma io_job_inv:
  assumes "pipe_inv act ds s" "s_pc s IO = Run j"
  shows "good act (\<lambda>(p, s'). pipe_inv act ds (goto IO p s')) (io_job act j s)"
proof -
  obtain Q where Q: "jobs_inv s Q" using assms(1) by (auto simp: pipe_inv_def)
  have "at_stage (s_jobs s) j InOut" using jobs_invD(5)[OF Q, of IO] assms(2) by (simp add: get_side_def loops_def)
  then obtain st d where "tag (s_jobs s) j = Some (st, d)" "st = INIT_STAGE \<or> st = MODEL_END_STAGE" by (auto simp: at_stage_def side_stages_def)
  then show ?thesis using io_read_inv[OF assms] io_write_inv[OF assms] by blast
qed

subsection \<open>Every step keeps the order\<close>

lemma goodI: "m = Inr r \<Longrightarrow> P r \<Longrightarrow> good act P m"
  by (simp add: good_def)

lemma acquire_inv:
  assumes "pipe_inv act ds s" "t \<in> loops" "s_pc s t = GetWait \<and> p = GetIn \<and> sd = get_side t \<or> (\<exists>j. s_pc s t = AddWait j \<and> p = AddIn j) \<and> sd = add_side t"
  shows "ok (acquire sd t p s) (\<lambda>r. \<forall>s'. r = Some s' \<longrightarrow> pipe_inv act ds s')"
proof -
  obtain Q where Q: "jobs_inv s Q" and L: "lock_inv s" and D: "data_inv act ds s" using assms(1) by (auto simp: pipe_inv_def)
  have rc: "mutex_rc (q_lock sd (s_mgr s)) = 0" using L by (simp add: lock_inv_def)
  let ?m = "q_set_lock sd ((q_lock sd (s_mgr s))\<lparr>locked := True\<rparr>) (s_mgr s)"
  have "lock_inv (goto t p (s\<lparr>s_mgr := ?m\<rparr>))" if "\<not> locked (q_lock sd (s_mgr s))"
    by (rule lock_acquire[OF L that]) (use assms(2,3) in \<open>auto simp: in_lock_def\<close>)
  moreover have "jobs_inv (goto t p (s\<lparr>s_mgr := ?m\<rparr>)) Q"
    by (rule jobs_move[OF Q assms(2)]) (use assms(3) jobs_invD(1)[OF Q] jobs_invD(5)[OF Q assms(2)] in auto)
  moreover have "data_inv act ds (goto t p (s\<lparr>s_mgr := ?m\<rparr>))" using D by (simp add: data_inv_def)
  ultimately show ?thesis using rc by (auto simp: acquire_def CLock_Lock_def pipe_inv_def)
qed

lemma get_inv:
  assumes "pipe_inv act ds s" "t \<in> loops" "s_pc s t = GetIn"
  shows "ok (sbind (q_get (get_side t) (s_mgr s, s_jobs s)) (\<lambda>(r, mh).
       release (get_side t) t (case r of None \<Rightarrow> Check | Some j \<Rightarrow> Run j) mh s)) (\<lambda>r. \<forall>s'. r = Some s' \<longrightarrow> pipe_inv act ds s')"
proof -
  let ?sd = "get_side t"
  obtain Q where Q: "jobs_inv s Q" and L: "lock_inv s" and D: "data_inv act ds s" using assms(1) by (auto simp: pipe_inv_def)
  obtain r m where g: "q_get ?sd (s_mgr s, s_jobs s) = Inr (r, m, s_jobs s)" "r = (if Q ?sd = [] then None else Some (hd (Q ?sd)))"
      "q_rep ?sd m (s_jobs s) (tl (Q ?sd))" "\<forall>sd'. sd' \<noteq> ?sd \<longrightarrow> q_rep sd' m (s_jobs s) (Q sd')" "\<forall>sd'. q_lock sd' m = q_lock sd' (s_mgr s)"
    using q_get_ok[of ?sd "s_mgr s" "s_jobs s" "Q ?sd" Q] jobs_invD(1,2)[OF Q] by (auto simp: ok_iff)
  have rc: "mutex_rc (q_lock ?sd m) = 0" using L g(5) by (simp add: lock_inv_def)
  let ?m = "q_set_lock ?sd ((q_lock ?sd m)\<lparr>locked := False\<rparr>) m" and ?p = "case r of None \<Rightarrow> Check | Some j \<Rightarrow> Run j"
  let ?s = "goto t ?p (s\<lparr>s_mgr := ?m, s_jobs := s_jobs s\<rparr>)"
  have "lock_inv ?s"
    by (rule lock_release[OF L]) (use assms(2,3) g(5) in \<open>auto simp: in_lock_def split: option.splits\<close>)
  moreover have "\<exists>Q'. jobs_inv ?s Q'"
  proof (cases "Q ?sd")
    case Nil
    have "q_rep sd ?m (s_jobs s) (Q sd)" for sd using g(3,4) Nil by (cases "sd = ?sd") auto
    then have "jobs_inv (goto t Check (s\<lparr>s_mgr := ?m\<rparr>)) Q" using assms(3) by (intro jobs_move[OF Q assms(2)]) auto
    then show ?thesis using Nil g(2) by auto
  next
    case (Cons j xs)
    have "jobs_inv (goto t (Run j) (s\<lparr>s_mgr := ?m, s_jobs := s_jobs s\<rparr>)) (Q(?sd := xs))"
      by (rule jobs_take[OF Q assms(2,3) Cons]) (use g(3,4) Cons in auto)
    then show ?thesis using Cons g(2) by auto
  qed
  moreover have "data_inv act ds ?s" using D by (simp add: data_inv_def)
  ultimately show ?thesis using g(1) rc by (auto simp: release_def CLock_Unlock_def pipe_inv_def)
qed

lemma add_inv:
  assumes "pipe_inv act ds s" "t \<in> loops" "s_pc s t = AddIn j"
  shows "ok (sbind (q_add (add_side t) (Some j) (s_mgr s, s_jobs s)) (\<lambda>(_, mh). release (add_side t) t Check mh s))
     (\<lambda>r. \<forall>s'. r = Some s' \<longrightarrow> pipe_inv act ds s')"
proof -
  let ?sd = "add_side t"
  obtain Q where Q: "jobs_inv s Q" and L: "lock_inv s" and D: "data_inv act ds s" using assms(1) by (auto simp: pipe_inv_def)
  have nj: "j \<notin> set (Q ?sd)" using held_alone(1)[OF Q assms(2)] assms(3) by simp
  obtain b m h where g: "q_add ?sd (Some j) (s_mgr s, s_jobs s) = Inr (b, m, h)" "tag h = tag (s_jobs s)" "q_rep ?sd m h (Q ?sd @ [j])"
      "\<forall>sd'. sd' \<noteq> ?sd \<longrightarrow> q_rep sd' m h (Q sd')" "\<forall>sd'. q_lock sd' m = q_lock sd' (s_mgr s)" "length h = length (s_jobs s)"
    using q_add_ok[of ?sd "s_mgr s" "s_jobs s" "Q ?sd" j Q] jobs_invD(1,2)[OF Q] nj by (auto simp: ok_iff)
  have rc: "mutex_rc (q_lock ?sd m) = 0" using L g(5) by (simp add: lock_inv_def)
  let ?m = "q_set_lock ?sd ((q_lock ?sd m)\<lparr>locked := False\<rparr>) m"
  let ?s = "goto t Check (s\<lparr>s_mgr := ?m, s_jobs := h\<rparr>)"
  have "lock_inv ?s" by (rule lock_release[OF L]) (use assms(2,3) g(5) in \<open>auto simp: in_lock_def\<close>)
  moreover have "jobs_inv ?s (Q(?sd := Q ?sd @ [j]))"
    by (rule jobs_put[OF Q assms(2,3) g(2)]) (use g(3,4) in auto)
  moreover have "data_inv act ds ?s" using D g(2,6) by (simp add: data_inv_def)
  ultimately show ?thesis using g(1) rc by (auto simp: release_def CLock_Unlock_def pipe_inv_def)
qed

lemma check_inv:
  assumes "pipe_inv act ds s" "t \<in> loops" "s_pc s t = Check" "p = GetWait \<or> p = Finished"
  shows "pipe_inv act ds (goto t p s)"
proof -
  obtain Q where Q: "jobs_inv s Q" and L: "lock_inv s" and D: "data_inv act ds s" using assms(1) by (auto simp: pipe_inv_def)
  have "jobs_inv (goto t p (s\<lparr>s_mgr := s_mgr s\<rparr>)) Q"
    by (rule jobs_move[OF Q assms(2)]) (use assms(3,4) jobs_invD(1)[OF Q] in auto)
  moreover have "lock_inv (goto t p s)" by (rule lock_move[OF L]) (use assms(3,4) in \<open>auto simp: in_lock_def\<close>)
  ultimately show ?thesis using D by (auto simp: pipe_inv_def)
qed

lemma loop_step_inv:
  assumes "pipe_inv act ds s" "t \<in> loops"
    and body: "\<And>j. s_pc s t = Run j \<Longrightarrow> good act (\<lambda>(p, s'). pipe_inv act ds (goto t p s')) (body j s)"
  shows "good act (\<lambda>r. \<forall>s'. r = Some s' \<longrightarrow> pipe_inv act ds s') (loop_step (get_side t) (add_side t) body t s)"
proof (cases "s_pc s t")
  case Check
  then show ?thesis using check_inv[OF assms(1,2) Check] by (auto simp: loop_step_def good_def)
next
  case GetWait
  then show ?thesis using acquire_inv[OF assms(1,2), of GetIn "get_side t"] by (simp add: loop_step_def good_ok)
next
  case GetIn
  show ?thesis unfolding loop_step_def GetIn pc.case by (rule good_ok[OF get_inv[OF assms(1,2) GetIn]])
next
  case (Run j)
  then show ?thesis using body[OF Run] by (cases "body j s") (auto simp: loop_step_def good_def)
next
  case (AddWait j)
  then show ?thesis using acquire_inv[OF assms(1,2), of "AddIn j" "add_side t"] by (simp add: loop_step_def good_ok)
next
  case (AddIn j)
  show ?thesis unfolding loop_step_def AddIn pc.case by (rule good_ok[OF add_inv[OF assms(1,2) AddIn]])
next
  case Finished
  then show ?thesis by (simp add: loop_step_def good_def)
qed

lemma pipe_inv_cong:
  assumes "pipe_inv act ds s" "\<And>sd. q_lock sd (s_mgr s') = q_lock sd (s_mgr s)" "\<And>t. t \<in> loops \<Longrightarrow> s_pc s' t = s_pc s t"
    "s_jobs s' = s_jobs s" "s_trace s' = s_trace s" "\<And>sd xs. q_rep sd (s_mgr s') (s_jobs s) xs = q_rep sd (s_mgr s) (s_jobs s) xs"
  shows "pipe_inv act ds s'"
proof -
  obtain Q where Q: "jobs_inv s Q" and L: "lock_inv s" and D: "data_inv act ds s" using assms(1) by (auto simp: pipe_inv_def)
  have "in_lock sd t (s_pc s' t) = in_lock sd t (s_pc s t)" for sd t using assms(3) by (cases "t \<in> loops") (auto simp: in_lock_def)
  then have "lock_inv s'" using L assms(2) by (simp add: lock_inv_def)
  moreover have "places s' Q = places s Q" using assms(3) by (simp add: places_def loops_def)
  then have "jobs_inv s' Q" using Q assms(3,4,6) by (simp add: jobs_inv_def)
  moreover have "data_inv act ds s'" using D assms(4,5) by (simp add: data_inv_def)
  ultimately show ?thesis by (auto simp: pipe_inv_def)
qed

lemma step_inv:
  assumes "pipe_inv act ds s" "thread_step act t s = Inr (Some s')"
  shows "pipe_inv act ds s'"
proof -
  have loop: "x \<in> loops \<Longrightarrow> loop_step (get_side x) (add_side x) body x s = Inr (Some s') \<Longrightarrow>
     (\<And>j. s_pc s x = Run j \<Longrightarrow> good act (\<lambda>(p, s'). pipe_inv act ds (goto x p s')) (body j s)) \<Longrightarrow> pipe_inv act ds s'" for x body
    using loop_step_inv[OF assms(1), of x body] by (auto simp: good_def)
  have ne: "\<not> s_exited s" using assms(2) by (auto simp: thread_step_def)
  show ?thesis
  proof (cases t)
    case IO
    then show ?thesis using loop[of IO "io_job act"] assms(2) ne io_job_inv[OF assms(1)]
      by (simp add: thread_step_def dwLoopIOWork_def get_side_def add_side_def loops_def)
  next
    case W1
    then show ?thesis using loop[of W1 "deal_job act"] assms(2) ne deal_job_inv[OF assms(1), of W1]
      by (simp add: thread_step_def dwLoopWork_def get_side_def add_side_def loops_def)
  next
    case W2
    then show ?thesis using loop[of W2 "deal_job act"] assms(2) ne deal_job_inv[OF assms(1), of W2]
      by (simp add: thread_step_def dwLoopWork_def get_side_def add_side_def loops_def)
  next
    case Stop
    have q: "q_lock sd (setLoopWorking (s_mgr s)) = q_lock sd (s_mgr s)" "q_rep sd (setLoopWorking (s_mgr s)) h xs = q_rep sd (s_mgr s) h xs" for sd h xs
      by (cases sd; simp add: q_lock_def q_rep_def setLoopWorking_def)+
    show ?thesis
      by (rule pipe_inv_cong[OF assms(1)])
        (use assms(2) ne Stop in \<open>auto simp: thread_step_def StopThread_def loops_def q split: if_splits list.splits\<close>)
  next
    case Main
    show ?thesis
      by (rule pipe_inv_cong[OF assms(1)])
        (use assms(2) ne Main in \<open>auto simp: thread_step_def main_wait_def wait4ThisThread_def loops_def split: if_splits pc.splits\<close>)
  qed
qed

section \<open>The start of the program\<close>

lemma add_case_ok:
  assumes "io_rep (m, h) [0..<length h]" "mpHead m = None" "mpTail m = None" "lock_free (mpLock m)" "new name = Inr d"
    and "\<forall>j < length h. tag h j = Some (INIT_STAGE, ds ! j)" "length ds = length h"
  shows "ok (add_case new mem (m, h) name) (\<lambda>(m', h'). io_rep (m', h') [0..<length h'] \<and> mpHead m' = None \<and> mpTail m' = None \<and>
     lock_free (mpLock m') \<and> length h' = length h + 1 \<and> (\<forall>j < length h'. tag h' j = Some (INIT_STAGE, (ds @ [d]) ! j)))"
proof -
  let ?o = "Some \<lparr>stage = INIT_STAGE, m_pNext_test = fst (mem (length h)), m_pIONext_test = snd (mem (length h)), tc_data = d\<rparr>"
  let ?h = "h @ [?o]" and ?a = "length h"
  have old: "live ?h x = live h x" "ionext_of ?h x = ionext_of h x" "tag ?h x = tag h x" if "x < length h" for x
    using that by (auto simp: live_def ionext_of_def tag_def nth_append)
  have l: "lock_free (mpIOLock m)" and q: "queue_rep (ionext_of ?h) (mpIOHead m) (mpIOTail m) [0..<length h]" "\<forall>x \<in> set [0..<length h]. live ?h x"
    using assms(1) old queue_rep_cong[of "[0..<length h]" "ionext_of ?h" "ionext_of h"] by (auto simp: io_rep_def)
  let ?m = "m\<lparr>mpIOLock := (mpIOLock m)\<lparr>locked := True\<rparr>\<rparr>"
  have q': "queue_rep (ionext_of ?h) (mpIOHead ?m) (mpIOTail ?m) [0..<length h]" using q(1) by simp
  obtain m' h' where b: "addIOJob_body (Some ?a) (?m, ?h) = Inr (True, m', h')" "queue_rep (ionext_of h') (mpIOHead m') (mpIOTail m') ([0..<length h] @ [?a])"
      "m' = ?m\<lparr>mpIOHead := mpIOHead m', mpIOTail := mpIOTail m'\<rparr>" "tag h' = tag ?h"
    using addIOJob_body_ok[OF q' q(2), of ?a] by (auto simp: ok_iff)
  have f: "mpHead m' = None" "mpTail m' = None" "mpLock m' = mpLock m" "mpIOLock m' = (mpIOLock m)\<lparr>locked := True\<rparr>"
    by (subst b(3), simp add: assms(2,3))+
  have len: "length h' = length ?h" using b(1) by (auto simp: addIOJob_body_def setIONext_def store_def sbind_eq_Inr split: if_splits option.splits)
  have la: "live ?h x" if "x < Suc (length h)" for x using q(2) that by (cases "x = ?a") (auto simp: live_def nth_append)
  have "tag ?h ?a = Some (INIT_STAGE, d)" by (simp add: tag_def live_def)
  then have tg: "\<forall>j < length h'. tag h' j = Some (INIT_STAGE, (ds @ [d]) ! j)"
    using b(4) len old(3) assms(6,7) by (auto simp: less_Suc_eq nth_append)
  have "live h' x" if "x < Suc (length h)" for x using la[OF that] tag_live[OF b(4)] by simp
  then show ?thesis using assms(4,5) l b(1,2) f len tg
    by (auto simp: add_case_def Let_def addIOJob_def with_IOlock_def io_rep_def)
qed

text \<open>A start state: every job is in the I/O queue in order, at its first stage.\<close>

definition started :: "'d list \<Rightarrow> 'd sys \<Rightarrow> bool" where
  "started ds s \<longleftrightarrow> io_rep (s_mgr s, s_jobs s) [0..<length ds] \<and> mpHead (s_mgr s) = None \<and> mpTail (s_mgr s) = None \<and>
     lock_free (mpLock (s_mgr s)) \<and> length (s_jobs s) = length ds \<and> (\<forall>j < length ds. tag (s_jobs s) j = Some (INIT_STAGE, ds ! j)) \<and>
     s_pc s = (\<lambda>_. Check) \<and> s_trace s = [] \<and> \<not> s_exited s"

lemma add_cases_ok:
  assumes "mfold (add_case new mem) (m, h) names = Inr (m', h')" "io_rep (m, h) [0..<length h]" "mpHead m = None" "mpTail m = None" "lock_free (mpLock m)"
    and "\<forall>j < length h. tag h j = Some (INIT_STAGE, ds ! j)" "length ds = length h"
  shows "\<exists>es. map new names = map Inr es \<and> io_rep (m', h') [0..<length h'] \<and> mpHead m' = None \<and> mpTail m' = None \<and>
     lock_free (mpLock m') \<and> length h' = length (ds @ es) \<and> (\<forall>j < length h'. tag h' j = Some (INIT_STAGE, (ds @ es) ! j))"
  using assms
proof (induction names arbitrary: m h ds)
  case Nil
  then show ?case by (intro exI[of _ "[]"]) auto
next
  case (Cons name names)
  obtain d where d: "new name = Inr d" using Cons.prems(1) by (auto simp: add_case_def sbind_eq_Inr)
  obtain m1 h1 where s1: "add_case new mem (m, h) name = Inr (m1, h1)" "io_rep (m1, h1) [0..<length h1]" "mpHead m1 = None" "mpTail m1 = None"
     "lock_free (mpLock m1)" "length h1 = length h + 1" "\<forall>j < length h1. tag h1 j = Some (INIT_STAGE, (ds @ [d]) ! j)"
    using add_case_ok[where new = new, OF Cons.prems(2-5) d Cons.prems(6,7), of mem] by (auto simp: ok_iff)
  have "mfold (add_case new mem) (m1, h1) names = Inr (m', h')" using Cons.prems(1) s1(1) by simp
  then obtain es where "map new names = map Inr es \<and> io_rep (m', h') [0..<length h'] \<and> mpHead m' = None \<and> mpTail m' = None \<and>
     lock_free (mpLock m') \<and> length h' = length ((ds @ [d]) @ es) \<and> (\<forall>j < length h'. tag h' j = Some (INIT_STAGE, ((ds @ [d]) @ es) ! j))"
    using Cons.IH[OF _ s1(2-5,7)] s1(6) Cons.prems(7) by fastforce
  then show ?case using d by (intro exI[of _ "d # es"]) auto
qed

lemma menu_append: "menu (ls @ [l]) = sbind (menu ls) (\<lambda>a. sbind (menu_line l) (\<lambda>n. Inr (a @ n)))"
  by (simp add: menu_def mfold_append)

lemma OnParserOpenfiles_started:
  fixes s :: "'d sys"
  assumes "OnParserOpenfiles new mem menufile input = Inr s"
  shows "\<exists>nms ds. menu menufile = Inr nms \<and> map new nms = map Inr ds \<and> started ds s"
proof -
  obtain nms m0 m h where o: "menu menufile = Inr nms" "CMgrJob_new 0 = Inr m0" "mfold (add_case new mem) (m0, []) nms = Inr (m, h)"
     "s = \<lparr>s_mgr = m, s_jobs = h, s_pc = (\<lambda>_. Check), s_input = input, s_trace = [], s_exited = False\<rparr>"
    using assms by (auto simp: OnParserOpenfiles_def sbind_eq_Inr)
  have "io_rep (m0, [] :: 'd jobs) [0..<length ([] :: 'd jobs)]" "mpHead m0 = None" "mpTail m0 = None" "lock_free (mpLock m0)"
    using o(2) by (auto simp: CMgrJob_new_def CLock_new_def io_rep_def lock_free_def)
  then obtain es where "map new nms = map Inr es" "io_rep (m, h) [0..<length h]" "mpHead m = None" "mpTail m = None"
     "lock_free (mpLock m)" "length h = length es" "\<forall>j < length h. tag h j = Some (INIT_STAGE, es ! j)"
    using add_cases_ok[OF o(3), of "[]"] by auto
  then show ?thesis using o(1,4) by (auto simp: started_def)
qed

lemma started_inv:
  assumes "started ds s"
  shows "pipe_inv act ds s"
proof -
  have S: "io_rep (s_mgr s, s_jobs s) [0..<length ds]" "mpHead (s_mgr s) = None" "mpTail (s_mgr s) = None" "lock_free (mpLock (s_mgr s))"
    "length (s_jobs s) = length ds" "\<forall>j < length ds. tag (s_jobs s) j = Some (INIT_STAGE, ds ! j)" "s_pc s = (\<lambda>_. Check)" "s_trace s = []"
    using assms by (auto simp: started_def)
  have "lock_inv s" using S(1,4,7) by (auto simp: lock_inv_def in_lock_def q_lock_def io_rep_def lock_free_def split: qside.splits)
  moreover have "data_inv act ds s" using S(5,6,8) by (simp add: data_inv_def history_def ev_of_def)
  moreover have "jobs_inv s (\<lambda>sd. case sd of Work \<Rightarrow> [] | InOut \<Rightarrow> [0..<length ds])"
  proof -
    have lv: "live (s_jobs s) j \<longleftrightarrow> j < length ds" for j
      using S(5,6) by (metis live_def option.distinct(1) tag_def)
    have "count (mset [0..<length ds]) j = (if j < length ds then 1 else 0)" for j
      by (metis atLeastLessThan_iff count_mset_0_iff distinct_count_atmost_1 distinct_upt le0 set_upt)
    then show ?thesis
      using S lv by (auto simp: jobs_inv_def q_rep_def io_rep_def places_def at_stage_def side_stages_def split: qside.splits)
  qed
  ultimately show ?thesis by (auto simp: pipe_inv_def)
qed

lemma reachable_inv:
  assumes "started ds s0" "reachable act s0 s"
  shows "pipe_inv act ds s"
  using assms(2)
proof (induction rule: reachable.induct)
  case init
  then show ?case using started_inv[OF assms(1)] .
next
  case (step s t s')
  then show ?case using step_inv by blast
qed

section \<open>Properties of the pipeline\<close>

lemma step_errors:
  assumes "pipe_inv act ds s" "thread_step act t s = Inl e"
  shows "action_error act e \<or> t = Stop"
proof -
  have loop: "x \<in> loops \<Longrightarrow> loop_step (get_side x) (add_side x) body x s = Inl e \<Longrightarrow>
     (\<And>j. s_pc s x = Run j \<Longrightarrow> good act (\<lambda>(p, s'). pipe_inv act ds (goto x p s')) (body j s)) \<Longrightarrow> action_error act e" for x body
    using loop_step_inv[OF assms(1), of x body] by (auto simp: good_def)
  have ne: "\<not> s_exited s" using assms(2) by (auto simp: thread_step_def)
  show ?thesis
  proof (cases t)
    case IO
    then show ?thesis using loop[of IO "io_job act"] assms(2) ne io_job_inv[OF assms(1)]
      by (simp add: thread_step_def dwLoopIOWork_def get_side_def add_side_def loops_def)
  next
    case W1
    then show ?thesis using loop[of W1 "deal_job act"] assms(2) ne deal_job_inv[OF assms(1), of W1]
      by (simp add: thread_step_def dwLoopWork_def get_side_def add_side_def loops_def)
  next
    case W2
    then show ?thesis using loop[of W2 "deal_job act"] assms(2) ne deal_job_inv[OF assms(1), of W2]
      by (simp add: thread_step_def dwLoopWork_def get_side_def add_side_def loops_def)
  next
    case Main
    then show ?thesis using assms(2) ne by (auto simp: thread_step_def main_wait_def wait4ThisThread_def split: pc.splits if_splits)
  qed simp
qed

lemma job_history:
  assumes "data_inv act ds s" "j < length ds"
  shows "(\<exists>k. ev_of j (s_trace s) = take k [EvRead j, EvParse j, EvWrite j]) \<and>
     (s_jobs s ! j = None \<longleftrightarrow> EvWrite j \<in> set (s_trace s)) \<and>
     (EvWrite j \<in> set (s_trace s) \<longrightarrow> (\<exists>d1 d2 d3. doReading act (ds ! j) = Inr d1 \<and> doParsing act d1 = Inr d2 \<and> doWriting act d2 = Inr d3))"
proof -
  have h: "history act (ds ! j) j (tag (s_jobs s) j) (ev_of j (s_trace s))" by (rule data_invD[OF assms])
  have w: "EvWrite j \<in> set (s_trace s) \<longleftrightarrow> EvWrite j \<in> set (ev_of j (s_trace s))" by (auto simp: ev_of_def)
  have n: "s_jobs s ! j = None \<longleftrightarrow> tag (s_jobs s) j = None" using assms by (simp add: data_inv_def tag_def live_def)
  consider "tag (s_jobs s) j = None" | st d where "tag (s_jobs s) j = Some (st, d)" by (cases "tag (s_jobs s) j") auto
  then have "(\<exists>k \<in> {0, 1, 2, 3}. ev_of j (s_trace s) = take k [EvRead j, EvParse j, EvWrite j]) \<and>
      (tag (s_jobs s) j = None \<longleftrightarrow> EvWrite j \<in> set (ev_of j (s_trace s))) \<and>
      (EvWrite j \<in> set (ev_of j (s_trace s)) \<longrightarrow> (\<exists>d1 d2 d3. doReading act (ds ! j) = Inr d1 \<and> doParsing act d1 = Inr d2 \<and> doWriting act d2 = Inr d3))"
  proof cases
    case 1
    then show ?thesis using h by (auto simp: history_def)
  next
    case 2
    then show ?thesis using h by (cases st) (simp_all add: history_def)
  qed
  then show ?thesis unfolding w n by blast
qed

text \<open>
  C16. Whatever the threads do in whatever order, every test case of the menu goes through its
  stages exactly once and in order: what has happened to it is a beginning of reading, parsing,
  writing; it is deleted exactly when all three have happened, each on the result of the one
  before; and no thread ever follows a null or dangling pointer or fails on a lock (the process
  ends abnormally only by a failing action of a test case or by the input of the stop thread).
\<close>

theorem pipeline_exactly_once:
  assumes "OnParserOpenfiles new mem menufile input = Inr s0" "reachable act s0 s"
  shows "\<exists>nms ds. menu menufile = Inr nms \<and> map new nms = map Inr ds \<and> length (s_jobs s) = length ds \<and>
     (\<forall>j < length ds. (\<exists>k. ev_of j (s_trace s) = take k [EvRead j, EvParse j, EvWrite j]) \<and>
        (s_jobs s ! j = None \<longleftrightarrow> EvWrite j \<in> set (s_trace s)) \<and>
        (EvWrite j \<in> set (s_trace s) \<longrightarrow>
           (\<exists>d1 d2 d3. doReading act (ds ! j) = Inr d1 \<and> doParsing act d1 = Inr d2 \<and> doWriting act d2 = Inr d3))) \<and>
     (\<forall>t e. thread_step act t s = Inl e \<longrightarrow> action_error act e \<or> t = Stop)"
proof -
  obtain nms ds where o: "menu menufile = Inr nms" "map new nms = map Inr ds" "started ds s0"
    using OnParserOpenfiles_started[OF assms(1)] by blast
  have I: "pipe_inv act ds s" by (rule reachable_inv[OF o(3) assms(2)])
  then have D: "data_inv act ds s" by (simp add: pipe_inv_def)
  have len: "length (s_jobs s) = length ds" using D by (simp add: data_inv_def)
  show ?thesis using o(1,2) len step_errors[OF I] job_history[OF D] by blast
qed

definition sample_actions :: "unit actions" where
  "sample_actions = \<lparr>doReading = Inr, doParsing = Inr, doWriting = Inr\<rparr>"

definition sample_start :: "error + unit sys" where
  "sample_start = OnParserOpenfiles (\<lambda>_. Inr ()) (\<lambda>a. (Some 7, Some a)) [''path:a 2 10'', ''x'', ''path:b 2 10''] [''go'', ''exit'']"

lemma sample_start_ok: obtains s0 where "sample_start = Inr s0"
proof -
  have "sbind sample_start (\<lambda>s. Inr (length (s_jobs s))) = Inr 2" by code_simp
  then show thesis using that by (auto simp: sbind_eq_Inr)
qed

text \<open>Threads taking steps in a given order, for concrete executions.\<close>

fun run_sched :: "'d actions \<Rightarrow> tid list \<Rightarrow> 'd sys \<Rightarrow> error + 'd sys" where
  "run_sched act [] s = Inr s"
| "run_sched act (t # ts) s = sbind (thread_step act t s) (\<lambda>r. case r of None \<Rightarrow> Inl OutOfFuel | Some s' \<Rightarrow> run_sched act ts s')"

lemma run_sched_reachable: "reachable act s0 s \<Longrightarrow> run_sched act ts s = Inr s' \<Longrightarrow> reachable act s0 s'"
proof (induction ts arbitrary: s)
  case (Cons t ts)
  then obtain s1 where "thread_step act t s = Inr (Some s1)" "run_sched act ts s1 = Inr s'"
    by (auto simp: sbind_eq_Inr split: option.splits)
  then show ?case using Cons reachable.step by blast
qed simp

lemma sample_sched:
  assumes "sbind sample_start (\<lambda>s. sbind (run_sched sample_actions ts s) (\<lambda>s. Inr (f s))) = Inr v"
  obtains s0 s where "sample_start = Inr s0" "reachable sample_actions s0 s" "f s = v"
proof -
  obtain s0 where s0: "sample_start = Inr s0" by (rule sample_start_ok)
  have "sbind (run_sched sample_actions ts s0) (\<lambda>s. Inr (f s)) = Inr v" using assms by (simp add: s0)
  then obtain s where s: "run_sched sample_actions ts s0 = Inr s" "f s = v" by (cases "run_sched sample_actions ts s0") auto
  show thesis by (rule that[OF s0 run_sched_reachable[OF reachable.init s(1)] s(2)])
qed

theorem pipeline_exactly_once_witness:
  "\<exists>s0 s. sample_start = Inr s0 \<and> reachable sample_actions s0 s \<and> s_trace s = [EvRead 0, EvParse 0, EvRead 1, EvWrite 0] \<and>
     length (s_jobs s) = 2 \<and> s_jobs s ! 0 = None \<and> s_jobs s ! 1 \<noteq> None \<and> (\<exists>k. ev_of 1 (s_trace s) = take k [EvRead 1, EvParse 1, EvWrite 1])"
proof -
  have r: "sbind sample_start (\<lambda>s. sbind (run_sched sample_actions (replicate 6 IO @ replicate 6 W1 @ replicate 10 IO) s)
      (\<lambda>s. Inr (s_trace s, length (s_jobs s)))) = Inr ([EvRead 0, EvParse 0, EvRead 1, EvWrite 0], 2)" by code_simp
  obtain s0 s where s: "sample_start = Inr s0" "reachable sample_actions s0 s"
      "(s_trace s, length (s_jobs s)) = ([EvRead 0, EvParse 0, EvRead 1, EvWrite 0], 2)" by (rule sample_sched[OF r])
  have t: "s_trace s = [EvRead 0, EvParse 0, EvRead 1, EvWrite 0]" "length (s_jobs s) = 2" using s(3) by simp_all
  have p: "(\<exists>k. ev_of j (s_trace s) = take k [EvRead j, EvParse j, EvWrite j]) \<and> (s_jobs s ! j = None \<longleftrightarrow> EvWrite j \<in> set (s_trace s))"
    if "j < 2" for j
    using pipeline_exactly_once[OF s(1)[unfolded sample_start_def] s(2)] that t(2) by fastforce
  have p1: "\<exists>k. ev_of 1 (s_trace s) = take k [EvRead 1, EvParse 1, EvWrite 1]" by (rule conjunct1[OF p]) simp
  have "s_jobs s ! 0 = None" "s_jobs s ! 1 \<noteq> None" using p[of 0] p[of 1] by (simp_all add: t)
  then show ?thesis using s(1,2) t p1 by blast
qed

text \<open>
  C17. The locks do what they are for: at no time are two threads inside the same lock, and the
  threads never wait for each other forever: as long as the process has not ended and one of
  the three loops has not finished, one of them can take a step.
\<close>

theorem pipeline_no_deadlock:
  assumes "OnParserOpenfiles new mem menufile input = Inr s0" "reachable act s0 s"
  shows "(\<forall>sd t t'. in_lock sd t (s_pc s t) \<longrightarrow> in_lock sd t' (s_pc s t') \<longrightarrow> t = t') \<and>
     (\<not> s_exited s \<longrightarrow> (\<exists>t \<in> loops. s_pc s t \<noteq> Finished) \<longrightarrow> (\<exists>t \<in> loops. thread_step act t s \<noteq> Inr None))"
proof -
  obtain nms ds where "started ds s0" using OnParserOpenfiles_started[OF assms(1)] by blast
  then have L: "lock_inv s" using reachable_inv[OF _ assms(2)] by (auto simp: pipe_inv_def)
  let ?body = "\<lambda>t. if t = IO then io_job act else deal_job act"
  have ts: "thread_step act t s = loop_step (get_side t) (add_side t) (?body t) t s" if "\<not> s_exited s" "t \<in> loops" for t
    using that by (auto simp: thread_step_def dwLoopIOWork_def dwLoopWork_def get_side_def add_side_def loops_def)
  have rel: "release sd t p mh s \<noteq> Inr None" for sd t p mh by (cases mh) (auto simp: release_def sbind_eq_Inr)
  have go: "loop_step (get_side t) (add_side t) b t s \<noteq> Inr None" if "in_lock sd t (s_pc s t)" for sd t b
    using that rel by (auto simp: in_lock_def loop_step_def sbind_eq_Inr)
  have "\<exists>t' \<in> loops. thread_step act t' s \<noteq> Inr None" if t: "\<not> s_exited s" "t \<in> loops" "s_pc s t \<noteq> Finished" for t
  proof (rule ccontr)
    assume n: "\<not> (\<exists>t' \<in> loops. thread_step act t' s \<noteq> Inr None)"
    then have "loop_step (get_side t) (add_side t) (?body t) t s = Inr None" using t ts by fastforce
    then obtain sd where "locked (q_lock sd (s_mgr s))"
      using t(3) rel by (auto simp: loop_step_def acquire_def sbind_eq_Inr split: pc.splits if_splits)
    then obtain t' where t': "in_lock sd t' (s_pc s t')" using L by (auto simp: lock_inv_def)
    then have "t' \<in> loops" by (simp add: in_lock_def)
    then show False using n go[OF t', of "?body t'"] ts[OF t(1)] by fastforce
  qed
  moreover have "\<forall>sd t t'. in_lock sd t (s_pc s t) \<longrightarrow> in_lock sd t' (s_pc s t') \<longrightarrow> t = t'" using L unfolding lock_inv_def by blast
  ultimately show ?thesis by blast
qed

theorem pipeline_no_deadlock_witness:
  "\<exists>s0. sample_start = Inr s0 \<and> reachable sample_actions s0 s0 \<and> \<not> s_exited s0 \<and> s_pc s0 IO = Check \<and>
     (\<exists>t \<in> loops. thread_step sample_actions t s0 \<noteq> Inr None)"
proof -
  obtain s0 where s0: "sample_start = Inr s0" by (rule sample_start_ok)
  have r: "reachable sample_actions s0 s0" by (rule reachable.init)
  have c: "\<not> s_exited s0" "s_pc s0 IO = Check" using s0 by (auto simp: sample_start_def OnParserOpenfiles_def sbind_eq_Inr)
  have "\<exists>t \<in> loops. s_pc s0 t \<noteq> Finished" by (rule bexI[of _ IO]) (simp_all add: c loops_def)
  then show ?thesis using pipeline_no_deadlock[OF s0[unfolded sample_start_def] r] s0 r c by blast
qed

end
