(* ===== verification/TestCase.thy ===== *)
theory TestCase
  imports Symbols Folder Pipeline "HOL-Library.Signed_Division"
begin

text \<open>
  \<open>CTestCaseCpp\<close> of \<open>src/CArchitecture/TestCase.cpp\<close>: the three actions of a test case, reading,
  parsing with modelling, and writing, put together from the readers, the parser, the creation
  of the hypergraph and the splitting; and the program, which runs them in the pipeline.
\<close>

section \<open>The code\<close>

record timeval =
  tv_sec :: int
  tv_usec :: int

text \<open>
  What a file is asked of the system while a test case is written: a folder, a new file with
  a text, a text at the end of a file.
\<close>

datatype effect = MakeFolder string | WriteFile string string | AppendFile string string

record CTestCaseCpp =
  t_head :: "CReadCpp list"
  strTestPath :: string
  strPara :: string
  testcasename :: string
  t_lastans :: string
  pHyper :: "CHypergraph option"
  cutnum :: int
  allTime :: int
  runtime :: timeval
  writeTime :: string
  t_calledrelation :: relation
  t_mapForTypeDef :: "(string, string) smap"
  arycpp_fileName :: "string list"
  aryh_fileName :: "string list"
  t_hmap :: headers
  fathermap :: "(string, string) smap"
  mapForLastPart :: "(int, int) smap"
  t_effects :: "effect list"

text \<open>
  What the code takes from outside: the folders and files, the answers of \<open>gettimeofday\<close>, and
  the contents of fresh memory.
\<close>

record world =
  w_opendir :: directories
  w_files :: filesystem
  w_clock :: "nat \<Rightarrow> timeval"
  w_hyper :: hyper_mem
  w_rounds :: "nat \<Rightarrow> round_mem"

subsection \<open>Construction\<close>

definition base_name :: "string \<Rightarrow> string" where
  "base_name path = rev (takeWhile (\<lambda>c. c \<noteq> CHR ''/'') (rev path))"

definition CTestCaseCpp_new :: "timeval \<Rightarrow> string \<Rightarrow> error + CTestCaseCpp" where
  "CTestCaseCpp_new now strNameTest =
     sbind (str_substr strNameTest 0 (str_find strNameTest '' '' 0)) (\<lambda>path.
       Inr \<lparr>t_head = [], strTestPath = path, strPara = strNameTest, testcasename = base_name path, t_lastans = [],
         pHyper = None, cutnum = 0, allTime = 0, runtime = now, writeTime = [], t_calledrelation = [], t_mapForTypeDef = [],
         arycpp_fileName = [], aryh_fileName = [], t_hmap = [], fathermap = [], mapForLastPart = [], t_effects = []\<rparr>)"

text \<open>The measured time of a phase, in milliseconds; the division of C++ truncates towards zero.\<close>

definition elapsed :: "timeval \<Rightarrow> timeval \<Rightarrow> int" where
  "elapsed start endtime = 1000 * (tv_sec endtime - tv_sec start) + (tv_usec endtime - tv_usec start) sdiv 1000"

definition note_time :: "string \<Rightarrow> timeval \<Rightarrow> timeval \<Rightarrow> CTestCaseCpp \<Rightarrow> CTestCaseCpp" where
  "note_time label start endtime tc =
     (let now = elapsed start endtime in
      tc\<lparr>runtime := start, writeTime := writeTime tc @ label @ sprintf_d now @ ''ms'' @ [NL], allTime := allTime tc + now\<rparr>)"

subsection \<open>Reading\<close>

text \<open>The name of a header without its path: the search for the slash is not bounded below.\<close>

definition head_key :: "string \<Rightarrow> error + string" where
  "head_key name = sbind (skip_bwd (\<lambda>c. c \<noteq> CHR ''/'') name (int (length name) - 1)) (\<lambda>k.
     str_substr name (k + 1) (int (length name) - 1 - k))"

definition read_header :: "filesystem \<Rightarrow> headers \<Rightarrow> string \<Rightarrow> error + headers" where
  "read_header fs hm name = sbind (CReadH_new fs name) (\<lambda>p. sbind (head_key name) (\<lambda>headname. Inr (sinsert headname p hm)))"

definition read_source :: "filesystem \<Rightarrow> CReadCpp list \<Rightarrow> string \<Rightarrow> error + CReadCpp list" where
  "read_source fs srcs name = sbind (CReadCpp_new fs name) (\<lambda>p. Inr (p # srcs))"

definition readEachfile :: "world \<Rightarrow> CTestCaseCpp \<Rightarrow> error + CTestCaseCpp" where
  "readEachfile w tc =
     sbind (mfold (read_header (w_files w)) (t_hmap tc) (aryh_fileName tc)) (\<lambda>hm.
     sbind (mfold (read_source (w_files w)) (t_head tc) (arycpp_fileName tc)) (\<lambda>srcs.
       Inr (note_time ''readfile time : '' (w_clock w 2) (w_clock w 3) (tc\<lparr>t_hmap := hm, t_head := srcs\<rparr>))))"

definition CTestCaseCpp_doReading :: "world \<Rightarrow> CTestCaseCpp \<Rightarrow> error + CTestCaseCpp" where
  "CTestCaseCpp_doReading w tc =
     sbind (dfsFolder (w_opendir w) (strTestPath tc) (arycpp_fileName tc, aryh_fileName tc)) (\<lambda>(arycpp, aryh).
       readEachfile w (note_time ''read path time : '' (w_clock w 0) (w_clock w 1)
         (tc\<lparr>arycpp_fileName := arycpp, aryh_fileName := aryh\<rparr>)))"

subsection \<open>Parsing\<close>

definition collect_typedefs :: "CTestCaseCpp \<Rightarrow> error + (string, string) smap" where
  "collect_typedefs tc =
     sbind (mfold (\<lambda>m (_, H). dealwithTypeDef (h_globalStr H) m) (t_mapForTypeDef tc) (t_hmap tc)) (\<lambda>m.
       mfold (\<lambda>m p. dealwithTypeDef (p_globalStr p) m) m (t_head tc))"

text \<open>A loop that replaces every element.\<close>

definition each :: "('a \<Rightarrow> error + 'b) \<Rightarrow> 'a list \<Rightarrow> error + 'b list" where
  "each f xs = mfold (\<lambda>ys x. sbind (f x) (\<lambda>y. Inr (ys @ [y]))) [] xs"

definition init_class :: "string \<times> CMethodBody list \<Rightarrow> error + string \<times> CMethodBody list" where
  "init_class = (\<lambda>(classname, qs). sbind (each InitCalledParameter qs) (\<lambda>qs. Inr (classname, qs)))"

definition init_source :: "CReadCpp \<Rightarrow> error + CReadCpp" where
  "init_source p = sbind (each init_class (cppclass p)) (\<lambda>c. Inr (p\<lparr>cppclass := c\<rparr>))"

definition find_in_method :: "parse_env \<Rightarrow> CReadCpp \<Rightarrow> string \<Rightarrow> parse_state \<Rightarrow> CMethodBody \<Rightarrow> error + parse_state" where
  "find_in_method env p classname st q =
     sbind (findsymbol env ''->'' (m_body q) classname p st) (findsymbol env ''.'' (m_body q) classname p)"

definition find_in_class :: "parse_env \<Rightarrow> CReadCpp \<Rightarrow> parse_state \<Rightarrow> string \<times> CMethodBody list \<Rightarrow> error + parse_state" where
  "find_in_class env p st = (\<lambda>(classname, qs). mfold (find_in_method env p classname) st qs)"

definition find_in_source :: "parse_env \<Rightarrow> parse_state \<Rightarrow> CReadCpp \<Rightarrow> error + parse_state" where
  "find_in_source env st p = mfold (find_in_class env p) st (cppclass p)"

definition add_fathers :: "(string, string) smap \<Rightarrow> string \<times> CReadH \<Rightarrow> (string, string) smap" where
  "add_fathers fm = (\<lambda>(_, H). foldl (\<lambda>fm (sonclass, c). if fatherclass c \<noteq> [] then sinsert sonclass (fatherclass c) fm else fm) fm (classdef H))"

text \<open>\<open>doParsing\<close> up to the call of \<open>doModeling\<close>.\<close>

definition parse_all :: "CTestCaseCpp \<Rightarrow> error + CTestCaseCpp" where
  "parse_all tc =
     sbind (collect_typedefs tc) (\<lambda>tds.
     sbind (each init_source (t_head tc)) (\<lambda>srcs.
     let env = \<lparr>hmap = t_hmap tc, mapForTypeDef = tds, cpps = srcs\<rparr>;
         st = \<lparr>calledrelation = t_calledrelation tc, lastans = t_lastans tc, objectrelation = []\<rparr> in
     sbind (mfold (find_in_source env) st srcs) (\<lambda>st.
       Inr (tc\<lparr>t_mapForTypeDef := tds, t_head := srcs, t_calledrelation := calledrelation st, t_lastans := lastans st,
         fathermap := foldl add_fathers (fathermap tc) (t_hmap tc)\<rparr>))))"

text \<open>
  Of the root that \<open>doHmetis\<close> works on, only the array \<open>part\<close> is read afterwards.
\<close>

definition CTestCaseCpp_doModeling :: "world \<Rightarrow> CTestCaseCpp \<Rightarrow> error + CTestCaseCpp" where
  "CTestCaseCpp_doModeling w tc =
     sbind (createHypergraph (w_hyper w) (fathermap tc) (t_calledrelation tc) (strPara tc)) (\<lambda>p.
     sbind (doHmetis (w_rounds w) p) (\<lambda>(partnum, prt, M).
       Inr (note_time ''modeling and cuting time : '' (w_clock w 6) (w_clock w 7)
         (tc\<lparr>pHyper := Some (p\<lparr>part := prt\<rparr>), mapForLastPart := M\<rparr>))))"

definition CTestCaseCpp_doParsing :: "world \<Rightarrow> CTestCaseCpp \<Rightarrow> error + CTestCaseCpp" where
  "CTestCaseCpp_doParsing w tc =
     sbind (parse_all tc) (\<lambda>tc. CTestCaseCpp_doModeling w (note_time ''parsing time : '' (w_clock w 4) (w_clock w 5) tc))"

subsection \<open>Writing\<close>

text \<open>\<open>if(NULL==opendir(path)) mkdir(path, 0755);\<close>\<close>

definition make_folder :: "world \<Rightarrow> string \<Rightarrow> effect list" where
  "make_folder w path = (if w_opendir w path = None then [MakeFolder path] else [])"

definition part_lines :: "nat list \<Rightarrow> string" where
  "part_lines ks = concat (map (\<lambda>k. sprintf_d (int k) @ [NL]) ks)"

definition excel_line :: "CTestCaseCpp \<Rightarrow> string" where
  "excel_line tc = testcasename tc @ [TAB] @ sprintf_d (cutnum tc) @ [TAB] @ ''000000'' @ [TAB] @ ''000000'' @ [TAB] @
     sprintf_d (allTime tc) @ [NL]"

definition out_folder :: "CTestCaseCpp \<Rightarrow> string" where
  "out_folder tc = ''..//output'' @ ''//'' @ testcasename tc"

definition CTestCaseCpp_doWriting :: "world \<Rightarrow> CTestCaseCpp \<Rightarrow> error + CTestCaseCpp" where
  "CTestCaseCpp_doWriting w tc = (case pHyper tc of
     None \<Rightarrow> Inl BadIndex
   | Some p \<Rightarrow>
       let d = out_folder tc in
       sbind (write_parts (nvtxs p) (part p) (mapForLastPart tc)) (\<lambda>out.
       let tc = note_time ''writing time : '' (w_clock w 8) (w_clock w 9) tc;
           tc = tc\<lparr>writeTime := ''testcase name : '' @ strTestPath tc @ [NL] @ writeTime tc\<rparr> in
       Inr (tc\<lparr>t_effects := t_effects tc @ make_folder w ''..//output'' @ make_folder w d @
         [WriteFile (d @ ''//ans.txt'') (t_lastans tc), WriteFile (d @ ''//relation.txt'') (answerstring p),
          WriteFile (d @ ''//hypergraph.hgr'') (hyperstring p), WriteFile (d @ ''//vertice.txt'') (verticestring p),
          WriteFile (d @ ''//partition.txt'') (part_lines out), WriteFile (d @ ''//time.txt'') (writeTime tc),
          AppendFile ''..//recordsForExcel.txt'' (excel_line tc)]\<rparr>)))"

subsection \<open>The program\<close>

text \<open>
  Every line of the menu meets a world of its own: files, folders, clock, random numbers and fresh
  memory. Test cases of equal lines share it, and read the same files.
\<close>

definition program_actions :: "(string \<Rightarrow> world) \<Rightarrow> CTestCaseCpp actions" where
  "program_actions W = \<lparr>doReading = (\<lambda>tc. CTestCaseCpp_doReading (W (strPara tc)) tc),
     doParsing = (\<lambda>tc. CTestCaseCpp_doParsing (W (strPara tc)) tc), doWriting = (\<lambda>tc. CTestCaseCpp_doWriting (W (strPara tc)) tc)\<rparr>"

definition main :: "(string \<Rightarrow> timeval) \<Rightarrow> (nat \<Rightarrow> nat option \<times> nat option) \<Rightarrow> string list \<Rightarrow> string list \<Rightarrow> error + CTestCaseCpp sys" where
  "main now mem menufile input = OnParserOpenfiles (\<lambda>name. CTestCaseCpp_new (now name) name) mem menufile input"

section \<open>What the parts of a test case keep\<close>

lemma note_time_simps [simp]:
  "t_head (note_time l a b tc) = t_head tc" "strTestPath (note_time l a b tc) = strTestPath tc"
  "strPara (note_time l a b tc) = strPara tc" "testcasename (note_time l a b tc) = testcasename tc"
  "t_lastans (note_time l a b tc) = t_lastans tc" "pHyper (note_time l a b tc) = pHyper tc"
  "t_calledrelation (note_time l a b tc) = t_calledrelation tc" "t_hmap (note_time l a b tc) = t_hmap tc"
  "fathermap (note_time l a b tc) = fathermap tc" "mapForLastPart (note_time l a b tc) = mapForLastPart tc"
  "t_effects (note_time l a b tc) = t_effects tc" "t_mapForTypeDef (note_time l a b tc) = t_mapForTypeDef tc"
  by (simp_all add: note_time_def Let_def)

lemma doReading_keeps:
  assumes "CTestCaseCpp_doReading w tc = Inr tc'"
  shows "strPara tc' = strPara tc \<and> testcasename tc' = testcasename tc \<and> t_calledrelation tc' = t_calledrelation tc \<and>
     t_effects tc' = t_effects tc"
  using assms by (auto simp: CTestCaseCpp_doReading_def readEachfile_def sbind_eq_Inr)

lemma new_simps:
  assumes "CTestCaseCpp_new now name = Inr tc"
  shows "strPara tc = name" "t_calledrelation tc = []" "t_effects tc = []"
  using assms by (auto simp: CTestCaseCpp_new_def sbind_eq_Inr)

subsection \<open>The relation of all methods\<close>

definition known :: "headers \<Rightarrow> string \<Rightarrow> bool" where
  "known hm t \<longleftrightarrow> (\<exists>(_, H) \<in> set hm. sfind (classdef H) t \<noteq> None)"

definition sound :: "headers \<Rightarrow> relation \<Rightarrow> bool" where
  "sound hm rel \<longleftrightarrow> wf_relation rel \<and> callers rel \<subseteq> {(t, c). known hm t \<and> t \<noteq> c}"

lemma sound_Nil [simp]: "sound hm []"
  by (simp add: sound_def wf_relation_def callers_def)

lemma find_in_method_sound:
  assumes "find_in_method env p cls st q = Inr st'" "sound (hmap env) (calledrelation st)"
  shows "sound (hmap env) (calledrelation st')"
proof -
  obtain st1 where "findsymbol env ''->'' (m_body q) cls p st = Inr st1" "findsymbol env ''.'' (m_body q) cls p st1 = Inr st'"
    using assms(1) by (auto simp: find_in_method_def sbind_eq_Inr)
  then have "extends env cls (calledrelation st) (calledrelation st')" using findsymbol_extends extends_trans by blast
  then show ?thesis using assms(2) unfolding extends_def sound_def known_def declared_def by blast
qed

lemma find_in_source_sound:
  assumes "find_in_source env st p = Inr st'" "sound (hmap env) (calledrelation st)"
  shows "sound (hmap env) (calledrelation st')"
proof -
  have c: "sound (hmap env) (calledrelation b)"
    if "find_in_class env p a e = Inr b" "sound (hmap env) (calledrelation a)" for a e b
    using mfold_keeps[where R = "\<lambda>_ t. sound (hmap env) (calledrelation t)", of "find_in_method env p (fst e)" a "snd e" b]
      that find_in_method_sound by (auto simp: find_in_class_def case_prod_beta)
  show ?thesis
    using mfold_keeps[where R = "\<lambda>_ t. sound (hmap env) (calledrelation t)", of "find_in_class env p" st "cppclass p" st'] assms c
    by (auto simp: find_in_source_def)
qed

lemma parse_all_sound_from:
  assumes "parse_all tc = Inr tc'" "sound (t_hmap tc) (t_calledrelation tc)"
  shows "sound (t_hmap tc) (t_calledrelation tc')"
proof -
  obtain tds srcs st where st: "mfold (find_in_source \<lparr>hmap = t_hmap tc, mapForTypeDef = tds, cpps = srcs\<rparr>)
      \<lparr>calledrelation = t_calledrelation tc, lastans = t_lastans tc, objectrelation = []\<rparr> srcs = Inr st" "t_calledrelation tc' = calledrelation st"
    using assms by (auto simp: parse_all_def sbind_eq_Inr Let_def)
  let ?env = "\<lparr>hmap = t_hmap tc, mapForTypeDef = tds, cpps = srcs\<rparr>"
  have "sound (hmap ?env) (calledrelation st)"
    using mfold_keeps[where R = "\<lambda>_ t. sound (hmap ?env) (calledrelation t)", OF st(1)] find_in_source_sound[of ?env] assms(2) by simp
  then show ?thesis using st by simp
qed

lemma parse_all_sound:
  assumes "parse_all tc = Inr tc'" "t_calledrelation tc = []"
  shows "sound (t_hmap tc) (t_calledrelation tc') \<and> strPara tc' = strPara tc \<and> testcasename tc' = testcasename tc \<and>
     t_effects tc' = t_effects tc"
  using parse_all_sound_from[OF assms(1)] assms by (auto simp: parse_all_def sbind_eq_Inr Let_def)

subsection \<open>The number of words\<close>

lemma para_loop_blanks:
  assumes "para_loop fuel s str n lastpos (str_find s '' '' (int p)) = Inr r" "p \<le> length s" "n \<le> length str"
  shows "n + count_list (drop p s) CHR '' '' \<le> length str"
  using assms
proof (induction fuel arbitrary: str n lastpos p)
  case (Suc fuel)
  show ?case
  proof (cases "CHR '' '' \<in> set (drop p s)")
    case False
    then show ?thesis using Suc.prems(3) by (simp add: count_list_0_iff)
  next
    case True
    then obtain A B where AB: "drop p s = A @ CHR '' '' # B" "CHR '' '' \<notin> set A" by (metis split_list_first)
    have s: "s = take p s @ A @ CHR '' '' # B" using AB(1) by (metis append_take_drop_id)
    have lp: "length (take p s) = p" using Suc.prems(2) by simp
    let ?q = "p + length A + 1"
    have f: "str_find s '' '' (int p) = int (p + length A)" using str_find_char[OF AB(2), of "take p s" B] s lp by metis
    have "drop ?q s = drop (length A + 1) (drop p s)" by (simp add: add.commute)
    then have d: "drop ?q s = B" using AB(1) by simp
    have q: "?q \<le> length s" using arg_cong[OF AB(1), of length] Suc.prems(2) by simp
    show ?thesis
    proof (cases "n < length str")
      case True
      have "\<exists>w. para_loop fuel s (str[n := w]) (n + 1) (int (p + length A)) (str_find s '' '' (int ?q)) = Inr r"
        using Suc.prems(1) True unfolding f by (auto simp: sbind_eq_Inr add.commute)
      then obtain w where "para_loop fuel s (str[n := w]) (n + 1) (int (p + length A)) (str_find s '' '' (int ?q)) = Inr r" by blast
      from Suc.IH[OF this q] show ?thesis using True AB d by (simp add: count_list_append)
    next
      case False
      then show ?thesis using Suc.prems(1) unfolding f by (auto simp: sbind_eq_Inr aset_def)
    qed
  qed
qed simp

lemma createHypergraph_blanks:
  assumes "createHypergraph mem fm rel s = Inr p"
  shows "count_list s CHR '' '' \<le> 10"
proof -
  obtain r where "para_words s = Inr r" using assms by (auto simp: createHypergraph_def set_options_def Let_def sbind_eq_Inr)
  then show ?thesis using para_loop_blanks[of "length s + 1" s "replicate 10 []" 0 0 0 r] by (simp add: para_words_def)
qed

section \<open>The architecture\<close>

definition classes :: "relation \<Rightarrow> string set" where
  "classes rel = (\<Union>e \<in> set rel. set (names e))"

text \<open>
  The partition \<open>out\<close> of the classes \<open>cls\<close>: the parts are numbered from 0 without gaps, and two
  different parts have at most one called class in common, where a called class and its
  callers belong together.
\<close>

definition related :: "relation \<Rightarrow> string list \<Rightarrow> nat list \<Rightarrow> nat \<Rightarrow> nat set" where
  "related rel cls out a = {e. e < length rel \<and> (\<exists>i < length cls. cls ! i \<in> set (names (rel ! e)) \<and> out ! i = a)}"

definition architecture :: "relation \<Rightarrow> string list \<Rightarrow> nat list \<Rightarrow> bool" where
  "architecture rel cls out \<longleftrightarrow> distinct cls \<and> set cls = classes rel \<and> length out = length cls \<and> (\<exists>c. set out = {..<c}) \<and>
     (\<forall>a b. a \<noteq> b \<longrightarrow> card (related rel cls out a \<inter> related rel cls out b) \<le> 1)"

lemma pins_of_names:
  assumes "distinct cls" "map ((!) cls) ps = ns" "\<forall>u \<in> set ps. u < length cls" "i < length cls"
  shows "cls ! i \<in> set ns \<longleftrightarrow> i \<in> set ps"
proof -
  have "set ns = (!) cls ` set ps" using assms(2) by auto
  then show ?thesis using assms(1,3,4) by (auto simp: nth_eq_iff_index_eq)
qed

lemma architectureI:
  assumes p: "fresh_root p" "nhedges p = length rel" "length cls = nvtxs p" "distinct cls" "set cls = classes rel"
    and pins: "\<forall>e < nhedges p. map ((!) cls) (edge_pins p e) = names (rel ! e)"
    and out: "length out = nvtxs p" "\<exists>c. set out = {..<c}"
      "\<forall>u v. u < nvtxs p \<longrightarrow> v < nvtxs p \<longrightarrow> (out ! u = out ! v \<longleftrightarrow> whichpart M (prt ! u) = whichpart M (prt ! v))"
    and val: "\<forall>v < nvtxs p. \<exists>w. whichpart M (prt ! v) = Inr w"
    and sep: "\<forall>a b. a \<noteq> b \<longrightarrow> card {e. e < nhedges p \<and> (\<exists>u \<in> set (edge_pins p e). whichpart M (prt ! u) = Inr a) \<and>
        (\<exists>u \<in> set (edge_pins p e). whichpart M (prt ! u) = Inr b)} \<le> 1"
  shows "architecture rel cls out"
proof -
  have wf: "wf_hyper p" using p(1) by (simp add: fresh_root_def)
  have pb: "\<forall>u \<in> set (edge_pins p e). u < length cls" if "e < nhedges p" for e using kpins_bound(1)[OF wf that] p(3) by auto
  have r: "related rel cls out a = {e. e < nhedges p \<and> (\<exists>u \<in> set (edge_pins p e). out ! u = a)}" for a
  proof -
    have "(\<exists>i < length cls. cls ! i \<in> set (names (rel ! e)) \<and> out ! i = a) \<longleftrightarrow> (\<exists>u \<in> set (edge_pins p e). out ! u = a)" if "e < nhedges p" for e
      using pins_of_names[OF p(4) _ pb[OF that]] pins that pb[OF that] by blast
    then show ?thesis using p(2) by (auto simp: related_def)
  qed
  have "card (related rel cls out a \<inter> related rel cls out b) \<le> 1" if "a \<noteq> b" for a b
  proof (cases "related rel cls out a \<inter> related rel cls out b = {}")
    case False
    then obtain e u v where e: "e < nhedges p" "u \<in> set (edge_pins p e)" "v \<in> set (edge_pins p e)" "out ! u = a" "out ! v = b"
      unfolding r by blast
    have uv: "u < nvtxs p" "v < nvtxs p" using pb[OF e(1)] e(2,3) p(3) by auto
    obtain x y where xy: "whichpart M (prt ! u) = Inr x" "whichpart M (prt ! v) = Inr y" using val uv by blast
    have "x \<noteq> y" using out(3) uv xy e(4,5) that by auto
    have x: "whichpart M (prt ! z) = Inr x" if "z < nvtxs p" "out ! z = a" for z using out(3) that uv(1) e(4) xy(1) by metis
    have y: "whichpart M (prt ! z) = Inr y" if "z < nvtxs p" "out ! z = b" for z using out(3) that uv(2) e(5) xy(2) by metis
    let ?S = "{e. e < nhedges p \<and> (\<exists>u \<in> set (edge_pins p e). whichpart M (prt ! u) = Inr x) \<and>
        (\<exists>u \<in> set (edge_pins p e). whichpart M (prt ! u) = Inr y)}"
    have "related rel cls out a \<inter> related rel cls out b \<subseteq> ?S"
    proof
      fix d assume "d \<in> related rel cls out a \<inter> related rel cls out b"
      then obtain i j where d: "d < nhedges p" "i \<in> set (edge_pins p d)" "out ! i = a" "j \<in> set (edge_pins p d)" "out ! j = b"
        unfolding r by blast
      then show "d \<in> ?S" using x[of i] y[of j] pb[OF d(1)] p(3) by auto
    qed
    then have "card (related rel cls out a \<inter> related rel cls out b) \<le> card ?S" by (rule card_mono[rotated]) simp
    then show ?thesis using sep \<open>x \<noteq> y\<close> by (meson order_trans)
  qed simp
  then show ?thesis using p(3-5) out(1,2) by (simp add: architecture_def)
qed

lemma doModeling_ok:
  assumes "wf_relation (t_calledrelation tc)" "count_list (strPara tc) CHR '' '' \<le> 10"
  shows "if card (classes (t_calledrelation tc)) < END_NUM then CTestCaseCpp_doModeling w tc = Inl BadIndex
     else \<exists>tc' tc'' cls out. CTestCaseCpp_doModeling w tc = Inr tc' \<and> CTestCaseCpp_doWriting w' tc' = Inr tc'' \<and>
       t_calledrelation tc' = t_calledrelation tc \<and> architecture (t_calledrelation tc) cls out \<and>
       {WriteFile (out_folder tc @ ''//partition.txt'') (part_lines out),
        WriteFile (out_folder tc @ ''//relation.txt'') (concat (map answer_text (t_calledrelation tc)))} \<subseteq> set (t_effects tc'')"
proof -
  let ?rel = "t_calledrelation tc"
  obtain p cls where p: "createHypergraph (w_hyper w) (fathermap tc) ?rel (strPara tc) = Inr p" "fresh_root p" "nvtxs p = card (classes ?rel)"
     "nhedges p = length ?rel" "answerstring p = concat (map answer_text ?rel)"
     and cls: "distinct cls" "length cls = nvtxs p" "set cls = classes ?rel" "\<forall>e < nhedges p. map ((!) cls) (edge_pins p e) = names (?rel ! e)"
    using createHypergraph_root[OF assms, of "w_hyper w" "fathermap tc"] unfolding classes_def by blast
  show ?thesis
  proof (cases "nvtxs p < END_NUM")
    case True
    then show ?thesis using p doHmetis_small[OF p(2)] by (simp add: CTestCaseCpp_doModeling_def)
  next
    case False
    then obtain n prt M g where dh: "doHmetis (w_rounds w) p = Inr (n, prt, M)" and g: "mygraph_spec p g" "merged p g (n, prt, M)"
      using doHmetis_ok[OF p(2), of "w_rounds w"] by (metis not_less)
    obtain out where out: "write_parts (nvtxs p) prt M = Inr out" "length out = nvtxs p" "\<exists>c. set out = {..<c}"
      "\<forall>u v. u < nvtxs p \<longrightarrow> v < nvtxs p \<longrightarrow> (out ! u = out ! v \<longleftrightarrow> whichpart M (prt ! u) = whichpart M (prt ! v))"
      using merged_written[OF g] by blast
    note S = merged_separates[OF p(2) g]
    have A: "architecture ?rel cls out"
      by (rule architectureI[OF p(2,4) cls(2,1,3,4) out(2-4)]) (use S in blast)+
    define tc' where "tc' = note_time ''modeling and cuting time : '' (w_clock w 6) (w_clock w 7)
        (tc\<lparr>pHyper := Some (p\<lparr>part := prt\<rparr>), mapForLastPart := M\<rparr>)"
    have m: "CTestCaseCpp_doModeling w tc = Inr tc'" using p(1) dh by (simp add: CTestCaseCpp_doModeling_def tc'_def)
    have f: "out_folder tc' = out_folder tc" "pHyper tc' = Some (p\<lparr>part := prt\<rparr>)" "mapForLastPart tc' = M" "t_calledrelation tc' = ?rel"
      by (simp_all add: tc'_def out_folder_def)
    obtain tc'' where "CTestCaseCpp_doWriting w' tc' = Inr tc''"
       "{WriteFile (out_folder tc @ ''//partition.txt'') (part_lines out),
         WriteFile (out_folder tc @ ''//relation.txt'') (answerstring p)} \<subseteq> set (t_effects tc'')"
      using out(1) f by (simp add: CTestCaseCpp_doWriting_def Let_def)
    then show ?thesis using False p(3,5) m f(4) A by auto
  qed
qed

lemma doParsing_ok:
  assumes "CTestCaseCpp_doParsing w tc = Inr tc2" "t_calledrelation tc = []"
  shows "\<exists>tc3 cls out. CTestCaseCpp_doWriting w' tc2 = Inr tc3 \<and> sound (t_hmap tc) (t_calledrelation tc2) \<and>
     architecture (t_calledrelation tc2) cls out \<and>
     {WriteFile (out_folder tc @ ''//partition.txt'') (part_lines out),
      WriteFile (out_folder tc @ ''//relation.txt'') (concat (map answer_text (t_calledrelation tc2)))} \<subseteq> set (t_effects tc3)"
proof -
  obtain tc1 where p: "parse_all tc = Inr tc1"
    and m: "CTestCaseCpp_doModeling w (note_time ''parsing time : '' (w_clock w 4) (w_clock w 5) tc1) = Inr tc2"
    using assms(1) by (auto simp: CTestCaseCpp_doParsing_def sbind_eq_Inr)
  let ?tc = "note_time ''parsing time : '' (w_clock w 4) (w_clock w 5) tc1"
  note S = parse_all_sound[OF p assms(2)]
  have f: "out_folder ?tc = out_folder tc" "t_calledrelation ?tc = t_calledrelation tc1" "wf_relation (t_calledrelation ?tc)"
    using S by (simp_all add: out_folder_def sound_def)
  have "count_list (strPara ?tc) CHR '' '' \<le> 10"
    using m createHypergraph_blanks by (auto simp: CTestCaseCpp_doModeling_def sbind_eq_Inr)
  note M = doModeling_ok[OF f(3) this, of w w']
  have n: "\<not> card (classes (t_calledrelation ?tc)) < END_NUM" using M m by auto
  obtain tc3 cls out where "CTestCaseCpp_doWriting w' tc2 = Inr tc3" "t_calledrelation tc2 = t_calledrelation ?tc"
      "architecture (t_calledrelation ?tc) cls out" "{WriteFile (out_folder ?tc @ ''//partition.txt'') (part_lines out),
        WriteFile (out_folder ?tc @ ''//relation.txt'') (concat (map answer_text (t_calledrelation ?tc)))} \<subseteq> set (t_effects tc3)"
    using M[unfolded if_not_P[OF n]] m by auto
  then show ?thesis using S unfolding f(1,2) by metis
qed

section \<open>A test case to run\<close>

text \<open>A folder with one header of three classes and one source, in which a method of \<open>A\<close> calls \<open>B\<close> and \<open>C\<close>.\<close>

definition sample_text :: "string \<Rightarrow> file_data" where
  "sample_text s = \<lparr>f_data = s, f_malloc = True, f_read = length s, f_after = [NUL]\<rparr>"

definition sample_files :: filesystem where
  "sample_files name = (if name = ''t//a.h'' then Some (sample_text ([NL] @ ''class A{};'' @ [NL] @ ''class B{};'' @ [NL] @ ''class C{};''))
     else if name = ''t//a.cpp'' then Some (sample_text (''#include '' @ [QUOTE] @ ''a.h'' @ [QUOTE, NL, NL] @ ''void A::m(){B *b; b->f(); C *c; c->g();}'' @ [NL]))
     else None)"

definition sample_world :: world where
  "sample_world = \<lparr>w_opendir = (\<lambda>d. if d = ''t'' then
       Some [\<lparr>d_name = ''.'', d_type = 4\<rparr>, \<lparr>d_name = ''a.h'', d_type = 8\<rparr>, \<lparr>d_name = ''a.cpp'', d_type = 8\<rparr>] else None),
     w_files = sample_files, w_clock = (\<lambda>n. \<lparr>tv_sec = int n, tv_usec = 0\<rparr>),
     w_hyper = sample_hyper_mem, w_rounds = sample_rounds\<rparr>"

definition sample_new :: "error + CTestCaseCpp" where
  "sample_new = CTestCaseCpp_new \<lparr>tv_sec = 0, tv_usec = 0\<rparr> ''t 2 10''"

definition sample_read :: "error + CTestCaseCpp" where
  "sample_read = sbind sample_new (CTestCaseCpp_doReading sample_world)"

lemma sample_relation_read:
  "sbind sample_read (\<lambda>tc. sbind (parse_all tc) (\<lambda>tc1. Inr (t_calledrelation tc, strPara tc, testcasename tc,
      map names (t_calledrelation tc1)))) = Inr ([], ''t 2 10'', ''t'', [[''B'', ''A''], [''C'', ''A'']])"
  by code_simp

lemma sample_parsed:
  obtains tc tc1 where "sample_read = Inr tc" "parse_all tc = Inr tc1" "t_calledrelation tc = []" "count_list (strPara tc) CHR '' '' \<le> 10"
     "out_folder tc = ''..//output//t''" "classes (t_calledrelation tc1) = {''A'', ''B'', ''C''}"
proof -
  obtain tc tc1 where t: "sample_read = Inr tc" "parse_all tc = Inr tc1" "t_calledrelation tc = []" "strPara tc = ''t 2 10''"
     "testcasename tc = ''t''" "map names (t_calledrelation tc1) = [[''B'', ''A''], [''C'', ''A'']]"
    using sample_relation_read by (auto simp: sbind_eq_Inr)
  have "classes (t_calledrelation tc1) = \<Union> (set ` set (map names (t_calledrelation tc1)))" by (simp add: classes_def)
  then have "classes (t_calledrelation tc1) = {''A'', ''B'', ''C''}" unfolding t(6) by auto
  moreover have "count_list (strPara tc) CHR '' '' \<le> 10" unfolding t(4) by simp
  moreover have "out_folder tc = ''..//output//t''" by (simp add: out_folder_def t(5))
  ultimately show thesis using that t(1-3) by blast
qed

lemma three_classes: "\<not> card {''A'', ''B'', ''C''} < END_NUM"
  by (simp add: END_NUM_def)

lemma sample_actions_ok:
  assumes "sample_read = Inr tc"
  shows "\<exists>tc2 tc3. CTestCaseCpp_doParsing sample_world tc = Inr tc2 \<and> CTestCaseCpp_doWriting sample_world tc2 = Inr tc3"
proof -
  obtain tc1 where t: "parse_all tc = Inr tc1" "t_calledrelation tc = []" "count_list (strPara tc) CHR '' '' \<le> 10"
     "classes (t_calledrelation tc1) = {''A'', ''B'', ''C''}"
    using assms sample_parsed by (metis sum.inject(2))
  let ?tc = "note_time ''parsing time : '' (w_clock sample_world 4) (w_clock sample_world 5) tc1"
  have "wf_relation (t_calledrelation ?tc)" "count_list (strPara ?tc) CHR '' '' \<le> 10"
    using parse_all_sound[OF t(1,2)] t(3) by (simp_all add: sound_def)
  from doModeling_ok[OF this, of sample_world sample_world] show ?thesis
    using three_classes t(1,4) by (auto simp: CTestCaseCpp_doParsing_def split: if_splits)
qed

end
