(* ===== verification/Endings.thy ===== *)
theory Endings
  imports TestCase
begin

text \<open>
  Every loop of a test case ends: the searches through the folders and texts, the readers, the
  parser, the construction of the hypergraph, its splitting and the output.
\<close>

section \<open>The readers\<close>

lemma ends_Inl [simp]: "ends (Inl e) \<longleftrightarrow> e \<noteq> OutOfFuel"
  by (simp add: ends_def)

lemma ends_skip_fwd [simp]: "ends (skip_fwd P s i)"
  unfolding skip_fwd_def by (intro ends_sbind) auto

lemma ends_collect_end [simp]: "ends (collect_end P s i acc)"
  by (induction P s i acc rule: collect_end.induct) (subst collect_end.simps, auto intro!: ends_sbind)

lemma ends_close_brace [simp]: "ends (close_brace s k n)"
  by (induction s k n rule: close_brace.induct) (subst close_brace.simps, auto simp: Let_def intro!: ends_sbind)

lemma ends_str_erase [simp]: "ends (str_erase s i n)"
  by (simp add: str_erase_def)

lemma ends_last_semicolon [simp]: "ends (last_semicolon s i)"
  by (induction s i rule: last_semicolon.induct) (subst last_semicolon.simps, auto intro!: ends_sbind)

lemma ends_cut_statement [simp]: "ends (cut_statement g)"
  unfolding cut_statement_def by (intro ends_sbind) auto

lemma ends_global_loop [simp]: "ends (global_loop s i n g)"
proof (induction s i n g rule: global_loop.induct)
  case (1 s i n g)
  show ?case by (subst global_loop.simps) (auto simp: Let_def intro!: ends_sbind 1)
qed

lemma ends_head_loop [simp]: "ends (head_loop s i hs)"
proof (induction s i hs rule: head_loop.induct)
  case (1 s i hs)
  show ?case by (subst head_loop.simps) (auto simp: Let_def intro!: ends_sbind 1)
qed

lemma ends_father_loop [simp]: "ends (father_loop s i ans)"
proof (induction s i ans rule: father_loop.induct)
  case (1 s i ans)
  show ?case using 1 by (subst father_loop.simps) (auto simp: Let_def intro!: ends_sbind)
qed

lemma ends_readallfile [simp]: "ends (CReadH_readallfile fs name)" "ends (CReadCpp_readallfile fs name)"
  by (auto simp: CReadH_readallfile_def CReadCpp_readallfile_def c_string_def Let_def split: option.splits)

lemma ends_class_at [simp]: "ends (class_at s pos h)"
  unfolding class_at_def CReadH_getclassname_def CReadH_getfatherclassname_def CReadH_getclassbody_def
  by (auto simp: Let_def intro!: ends_sbind)

lemma ends_class_loop [simp]: "ends (class_loop s pos h)"
proof (induction s pos h rule: class_loop.induct)
  case (1 s pos h)
  show ?case by (subst class_loop.simps) (auto intro!: ends_sbind 1)
qed

lemma ends_CReadH_new [simp]: "ends (CReadH_new fs name)"
  unfolding CReadH_new_def CReadH_getclass_def CReadH_getheadfile_def CReadH_findGlobal_def by (auto simp: Let_def intro!: ends_sbind)

lemma ends_line_start [simp]: "ends (line_start s i)"
  by (induction s i rule: line_start.induct) (subst line_start.simps, auto intro!: ends_sbind)

lemma ends_findclasses [simp]: "ends (findclasses pos s r)"
  unfolding findclasses_eq class_line_def class_of_method_def method_head_def
  by (auto simp: Let_def intro!: ends_sbind)

lemma ends_relation_loop [simp]: "ends (relation_loop s pos c r)"
proof (induction s pos c r rule: relation_loop.induct)
  case (1 s pos c r)
  show ?case by (subst relation_loop.simps) (auto simp: Let_def intro!: ends_sbind 1)
qed

lemma ends_CReadCpp_new [simp]: "ends (CReadCpp_new fs name)"
  unfolding CReadCpp_new_def getrelation_def CReadCpp_getheadfile_def CReadCpp_findGlobal_def by (auto intro!: ends_sbind)

lemma ends_dfs_entries [simp]: "ends (dfs_entries od path es acc)"
proof (induction od path es acc rule: dfs_entries.induct)
  case (2 od path ent ents acc)
  show ?case using 2 by (auto simp: Let_def intro!: ends_sbind split: option.splits)
qed simp

lemma doReading_ends: "ends (CTestCaseCpp_doReading w tc)"
  unfolding CTestCaseCpp_doReading_def dfsFolder_def readEachfile_def read_header_def read_source_def head_key_def
  by (auto intro!: ends_sbind ends_mfold split: option.splits)

section \<open>The parser\<close>

lemma ends_split [simp]: "ends (Symbols.split line pat)"
  unfolding Symbols.split_def by (auto simp: Let_def split_char_def intro!: ends_sbind ends_mfold)

lemma ends_typedef_loop [simp]: "ends (typedef_loop s a b m)"
proof (induction s a b m rule: typedef_loop.induct)
  case (1 s a b m)
  show ?case by (subst typedef_loop.simps) (auto simp: Let_def intro!: ends_sbind 1)
qed

lemma ends_dealwithTypeDef [simp]: "ends (dealwithTypeDef s m)"
  by (simp add: dealwithTypeDef_def Let_def)

lemma ends_InitCalledParameter [simp]: "ends (InitCalledParameter p)"
  using InitCalledParameter_bounds[of p] by (simp add: ends_def)

lemma ends_each: "(\<And>x. ends (f x)) \<Longrightarrow> ends (each f xs)"
  unfolding each_def by (auto intro!: ends_mfold ends_sbind)

lemma parse_all_ends: "ends (parse_all tc)"
  unfolding parse_all_def collect_typedefs_def init_source_def init_class_def find_in_source_def find_in_class_def find_in_method_def
  by (auto simp: Let_def intro!: ends_sbind ends_mfold ends_each findsymbol_ends)

section \<open>The hypergraph\<close>

lemma para_loop_ends:
  assumes "pos = - 1 \<or> 0 \<le> pos \<and> pos < int (length s) \<and> int (length s) < pos + int fuel" "0 < fuel"
  shows "ends (para_loop fuel s str n lastpos pos)"
  using assms
proof (induction fuel arbitrary: pos str n lastpos)
  case (Suc fuel)
  let ?n = "str_find s '' '' (pos + 1)"
  have "ends (para_loop fuel s str' (n + 1) pos ?n)" if p: "pos \<noteq> - 1" for str'
  proof (rule Suc.IH)
    show "?n = - 1 \<or> 0 \<le> ?n \<and> ?n < int (length s) \<and> int (length s) < ?n + int fuel"
    proof (cases "?n = - 1")
      case False
      then show ?thesis using str_find_found(1,3)[OF False] p Suc.prems(1) by simp
    qed simp
    show "0 < fuel" using Suc.prems(1) p by (cases fuel) auto
  qed
  then show ?case by (auto intro!: ends_sbind)
qed simp

lemma createHypergraph_ends: "ends (createHypergraph mem fm rel s)"
proof -
  let ?p = "str_find s '' '' 0"
  have "?p = - 1 \<or> 0 \<le> ?p \<and> ?p < int (length s) \<and> int (length s) < ?p + int (length s + 1)"
    using str_find_found(1,3)[of s "'' ''" 0] by (cases "?p = - 1") auto
  then have "ends (para_words s)" unfolding para_words_def by (rule para_loop_ends) simp
  then show ?thesis unfolding createHypergraph_def set_options_def put_edge_def put_class_def
    by (auto simp: Let_def intro!: ends_sbind ends_mfold split: option.splits)
qed

lemma doModeling_ends:
  assumes "wf_relation (t_calledrelation tc)"
  shows "ends (CTestCaseCpp_doModeling w tc)"
proof (cases "createHypergraph (w_hyper w) (fathermap tc) (t_calledrelation tc) (strPara tc)")
  case (Inl e)
  then show ?thesis using createHypergraph_ends[of "w_hyper w" "fathermap tc" "t_calledrelation tc" "strPara tc"]
    by (simp add: CTestCaseCpp_doModeling_def)
next
  case (Inr p)
  have "count_list (strPara tc) CHR '' '' \<le> 10" using createHypergraph_blanks[OF Inr] .
  from doModeling_ok[OF assms this, of w w] show ?thesis by (auto split: if_splits)
qed

lemma doParsing_ends:
  assumes "t_calledrelation tc = []"
  shows "ends (CTestCaseCpp_doParsing w tc)"
  unfolding CTestCaseCpp_doParsing_def
proof (rule ends_sbind[OF parse_all_ends])
  fix tc1 assume "parse_all tc = Inr tc1"
  from parse_all_sound[OF this assms] show "ends (CTestCaseCpp_doModeling w (note_time ''parsing time : '' (w_clock w 4) (w_clock w 5) tc1))"
    by (intro doModeling_ends) (simp add: sound_def)
qed

end
