(* ===== verification/Invariants.thy ===== *)
theory Invariants
  imports TestCase
begin

text \<open>
  The representation invariant of a test case. The model keeps a \<open>std::map\<close> as a list of pairs
  with increasing keys; here it is shown that every action of a test case keeps its maps in
  that form, and what else the fields of a test case satisfy at every moment of the program.
\<close>

section \<open>Well-formed parts\<close>

definition wf_source :: "CReadCpp \<Rightarrow> bool" where
  "wf_source p \<longleftrightarrow> smap_ok (cppclass p) \<and> (\<forall>(_, ms) \<in> set (cppclass p). ms \<noteq> [] \<and> (\<forall>m \<in> set ms. \<forall>n \<in> set (CallParemeter m). 1 \<le> n))"

definition wf_headers :: "headers \<Rightarrow> bool" where
  "wf_headers hm \<longleftrightarrow> smap_ok hm \<and> (\<forall>(name, H) \<in> set hm. CHR ''/'' \<notin> set name \<and> smap_ok (classdef H))"

text \<open>The root after the splitting: numbers of parts that the merged parts lead down to 0.\<close>

definition wf_root :: "CHypergraph option \<Rightarrow> (int, int) smap \<Rightarrow> bool" where
  "wf_root r M = (case r of None \<Rightarrow> M = []
     | Some p \<Rightarrow> wf_hyper p \<and> END_NUM \<le> nvtxs p \<and> (\<exists>n. forest n M \<and> (\<forall>v < nvtxs p. 0 \<le> part p ! v \<and> part p ! v < int n)))"

definition wf_case :: "CTestCaseCpp \<Rightarrow> bool" where
  "wf_case tc \<longleftrightarrow> wf_headers (t_hmap tc) \<and> (\<forall>p \<in> set (t_head tc). wf_source p) \<and> smap_ok (t_mapForTypeDef tc) \<and>
     smap_ok (fathermap tc) \<and> (\<forall>(son, father) \<in> set (fathermap tc). father \<noteq> [] \<and> known (t_hmap tc) son) \<and>
     sound (t_hmap tc) (t_calledrelation tc) \<and> wf_root (pHyper tc) (mapForLastPart tc)"

lemma set_sinsert_sub: "set (sinsert k v m) \<subseteq> insert (k, v) (set m)" "set m \<subseteq> set (sinsert k v m)"
  by (induction m) (auto split: if_splits)

subsection \<open>Headers\<close>

lemma class_loop_ok: "class_loop s pos h = Inr h' \<Longrightarrow> smap_ok (classdef h) \<Longrightarrow> smap_ok (classdef h')"
proof (induction s pos h rule: class_loop.induct)
  case (1 s pos h)
  show ?case
  proof (cases "pos = - 1")
    case True
    then show ?thesis using 1(2,3) by (simp add: class_loop.simps)
  next
    case False
    then obtain h1 where h1: "class_at s pos h = Inr h1" "class_loop s (str_find s CLASS (pos + int (length CLASS))) h1 = Inr h'"
      using 1(2) by (subst (asm) class_loop.simps) (auto simp: sbind_eq_Inr)
    have "smap_ok (classdef h1)" using h1(1) 1(3) by (auto simp: class_at_def sbind_eq_Inr split: if_splits)
    then show ?thesis using 1(1)[OF False h1] by simp
  qed
qed

lemma CReadH_new_ok: "CReadH_new fs name = Inr H \<Longrightarrow> smap_ok (classdef H)"
  by (auto simp: CReadH_new_def CReadH_getclass_def CReadH_getheadfile_def sbind_eq_Inr dest!: class_loop_ok)

lemma head_key_ok:
  assumes "head_key name = Inr k"
  shows "CHR ''/'' \<notin> set k"
proof -
  let ?w = "takeWhile (\<lambda>c. c \<noteq> CHR ''/'') (rev name)"
  have e: "collect_bwd (\<lambda>c. c \<noteq> CHR ''/'') name (int (length name) - 1) [] =
      (if int (length ?w) \<le> int (length name) - 1 then Inr (rev ?w, int (length name) - 1 - int (length ?w)) else Inl OutOfRange)"
    using collect_bwd_eq[of "int (length name) - 1" name "\<lambda>c. c \<noteq> CHR ''/''" "[]"] by (simp add: Let_def)
  let ?n = "length name - length ?w"
  have k: "str_substr name (int (length name) - int (length ?w)) (int (length ?w)) = Inr k"
    using assms e by (auto simp: head_key_def skip_bwd_def split: if_splits)
  have d: "drop ?n name = rev ?w"
  proof -
    have "rev name = ?w @ dropWhile (\<lambda>c. c \<noteq> CHR ''/'') (rev name)" by simp
    then have "name = rev (dropWhile (\<lambda>c. c \<noteq> CHR ''/'') (rev name)) @ rev ?w" by (metis rev_append rev_rev_ident)
    then show ?thesis by (metis append_eq_conv_conj diff_add_inverse2 length_append length_rev)
  qed
  have n: "nat (int (length name) - int (length ?w)) = ?n" by simp
  have "k = take (nat (int (length ?w))) (drop (nat (int (length name) - int (length ?w))) name)"
    using k unfolding str_substr_def by (simp split: if_splits)
  then have "k = rev ?w" unfolding n d by simp
  then show ?thesis by (auto dest: set_takeWhileD)
qed

lemma read_headers_ok:
  assumes "mfold (read_header fs) hm nms = Inr hm'" "wf_headers hm"
  shows "wf_headers hm' \<and> (\<forall>t. known hm t \<longrightarrow> known hm' t)"
  using assms
proof (induction nms arbitrary: hm)
  case (Cons n ns)
  obtain hm1 where "read_header fs hm n = Inr hm1" "mfold (read_header fs) hm1 ns = Inr hm'"
    using Cons.prems(1) by (auto simp: sbind_eq_Inr)
  then obtain H k where h: "CReadH_new fs n = Inr H" "head_key n = Inr k" "mfold (read_header fs) (sinsert k H hm) ns = Inr hm'"
    unfolding read_header_def sbind_eq_Inr by auto
  have "wf_headers (sinsert k H hm)"
    using Cons.prems(2) CReadH_new_ok[OF h(1)] head_key_ok[OF h(2)] set_sinsert_sub(1)[of k H hm] by (fastforce simp: wf_headers_def)
  moreover have "known (sinsert k H hm) t" if "known hm t" for t
    using that set_sinsert_sub(2)[of hm k H] by (auto simp: known_def)
  ultimately show ?case using Cons.IH[OF h(3)] by blast
qed simp

subsection \<open>Sources\<close>

lemma set_supdate: "set (supdate k v m) \<subseteq> insert (k, v) (set m)"
  by (induction m) (auto split: if_splits)

lemma add_method_ok:
  assumes "wf_source p" "CallParemeter m = []"
  shows "wf_source (p\<lparr>cppclass := add_method c m (cppclass p), p_classposition := k\<rparr>)"
proof (cases "sfind (cppclass p) c")
  case None
  then show ?thesis using assms set_sinsert_sub(1)[of c "[m]" "cppclass p"] by (fastforce simp: wf_source_def add_method_def)
next
  case (Some q)
  have "(c, q) \<in> set (cppclass p)" using Some by (rule map_of_SomeD)
  then have q: "\<forall>m \<in> set q. \<forall>n \<in> set (CallParemeter m). 1 \<le> n" using assms(1) by (auto simp: wf_source_def)
  have "ms \<noteq> [] \<and> (\<forall>m \<in> set ms. \<forall>n \<in> set (CallParemeter m). 1 \<le> n)" if "(x, ms) \<in> set (supdate c (q @ [m]) (cppclass p))" for x ms
  proof -
    have "(x, ms) = (c, q @ [m]) \<or> (x, ms) \<in> set (cppclass p)" using set_supdate[of c "q @ [m]" "cppclass p"] that by blast
    then show ?thesis using q assms by (auto simp: wf_source_def)
  qed
  then show ?thesis using assms(1) Some by (auto simp: wf_source_def add_method_def)
qed

lemma findclasses_ok: "findclasses i s r = Inr (pos, r') \<Longrightarrow> wf_source r \<Longrightarrow> wf_source r'"
  by (auto simp: findclasses_eq Let_def sbind_eq_Inr CMethodBody_new_def intro: add_method_ok split: if_splits)

lemma relation_loop_ok: "relation_loop s pos c r = Inr (c', r') \<Longrightarrow> wf_source r \<Longrightarrow> wf_source r'"
proof (induction s pos c r rule: relation_loop.induct)
  case (1 s pos c r)
  show ?case
  proof (cases "pos = - 1")
    case True
    then show ?thesis using 1(2,3) by (simp add: relation_loop.simps)
  next
    case False
    let ?c = "if p_classposition r \<noteq> - 1 \<and> c = - 1 then p_classposition r else c"
    obtain pos1 r1 where r1: "findclasses pos s r = Inr (pos1, r1)" "relation_loop s pos1 ?c r1 = Inr (c', r')"
      using 1(2) False by (subst (asm) relation_loop.simps) (auto simp: Let_def sbind_eq_Inr)
    show ?thesis using 1(1)[OF False refl r1(1) refl r1(2) findclasses_ok[OF r1(1) 1(3)]] .
  qed
qed

lemma wf_source_upd [simp]:
  "wf_source (r\<lparr>p_globalStr := g\<rparr>) = wf_source r" "wf_source (r\<lparr>p_headfile := hf\<rparr>) = wf_source r"
  by (simp_all add: wf_source_def)

lemma CReadCpp_new_ok: "CReadCpp_new fs name = Inr p \<Longrightarrow> wf_source p"
proof -
  assume "CReadCpp_new fs name = Inr p"
  then obtain content pos r c r2 r3 g where r: "findclasses 0 content \<lparr>CppName = name, imatch = 0, p_classposition = - 1, p_globalStr = [],
     p_headfile = [], cppclass = []\<rparr> = Inr (pos, r)" "relation_loop content pos (- 1) r = Inr (c, r2)"
     "(if c \<noteq> - 1 then CReadCpp_getheadfile c content r2 else Inr r2) = Inr r3" "p = r3\<lparr>p_globalStr := g\<rparr>"
    by (auto simp: CReadCpp_new_def getrelation_def sbind_eq_Inr)
  have "wf_source r" by (rule findclasses_ok[OF r(1)]) (simp add: wf_source_def)
  then have "wf_source r2" by (rule relation_loop_ok[OF r(2)])
  then have "wf_source r3" using r(3) by (auto simp: CReadCpp_getheadfile_def sbind_eq_Inr split: if_splits)
  then show ?thesis using r(4) by simp
qed

lemma read_sources_ok:
  assumes "mfold (read_source fs) srcs nms = Inr srcs'" "\<forall>p \<in> set srcs. wf_source p"
  shows "\<forall>p \<in> set srcs'. wf_source p"
  using mfold_keeps[where R = "\<lambda>_ t. \<forall>p \<in> set t. wf_source p", OF assms(1)] assms(2) CReadCpp_new_ok
  by (fastforce simp: read_source_def sbind_eq_Inr)

subsection \<open>Type definitions and base classes\<close>

lemma add_names_ok: "smap_ok m \<Longrightarrow> smap_ok (add_names n ws m)"
  unfolding add_names_def by (induction ws arbitrary: m) auto

lemma typedef_loop_ok: "typedef_loop s a b m = Inr m' \<Longrightarrow> smap_ok m \<Longrightarrow> smap_ok m'"
proof (induction s a b m rule: typedef_loop.induct)
  case (1 s a b m)
  show ?case
  proof (cases "a \<noteq> - 1 \<and> b \<noteq> - 1")
    case False
    then show ?thesis using 1(2,3) by (subst (asm) typedef_loop.simps) auto
  next
    case True
    let ?a = "str_find s ''typedef'' (a + 7)"
    obtain line ws where l: "str_substr s a (b - a) = Inr line" "Symbols.split line blanks_pattern = Inr ws"
        "typedef_loop s ?a (str_find s '';'' ?a) (typedef_words ws m) = Inr m'"
      using 1(2) True by (subst (asm) typedef_loop.simps) (auto simp: Let_def sbind_eq_Inr)
    have "smap_ok (typedef_words ws m)" using 1(3) by (simp add: typedef_words_def add_names_ok)
    then show ?thesis using 1(1)[OF True l(1,2) refl l(3)] by simp
  qed
qed

lemma dealwithTypeDef_ok: "dealwithTypeDef s m = Inr m' \<Longrightarrow> smap_ok m \<Longrightarrow> smap_ok m'"
  unfolding dealwithTypeDef_def Let_def by (rule typedef_loop_ok)

lemma collect_typedefs_ok:
  assumes "collect_typedefs tc = Inr m" "smap_ok (t_mapForTypeDef tc)"
  shows "smap_ok m"
proof -
  obtain m1 where m1: "mfold (\<lambda>m (_, H). dealwithTypeDef (h_globalStr H) m) (t_mapForTypeDef tc) (t_hmap tc) = Inr m1"
      "mfold (\<lambda>m p. dealwithTypeDef (p_globalStr p) m) m1 (t_head tc) = Inr m"
    using assms(1) by (auto simp: collect_typedefs_def sbind_eq_Inr)
  have "smap_ok m1" using mfold_keeps[where R = "\<lambda>_ t. smap_ok t", OF m1(1)] assms(2) dealwithTypeDef_ok by auto
  then show ?thesis using mfold_keeps[where R = "\<lambda>_ t. smap_ok t", OF m1(2)] dealwithTypeDef_ok by auto
qed

definition fathers_ok :: "headers \<Rightarrow> (string, string) smap \<Rightarrow> bool" where
  "fathers_ok hm fm \<longleftrightarrow> smap_ok fm \<and> (\<forall>(son, father) \<in> set fm. father \<noteq> [] \<and> known hm son)"

lemma add_fathers_ok:
  assumes "fathers_ok hm fm" "e \<in> set hm"
  shows "fathers_ok hm (add_fathers fm e)"
proof -
  obtain k H where e: "e = (k, H)" by (cases e)
  have "fathers_ok hm (foldl (\<lambda>fm (sonclass, c). if fatherclass c \<noteq> [] then sinsert sonclass (fatherclass c) fm else fm) fm cs)"
    if "set cs \<subseteq> set (classdef H)" "fathers_ok hm fm" for cs fm
    using that
  proof (induction cs arbitrary: fm)
    case (Cons x cs)
    obtain son c where x: "x = (son, c)" by (cases x)
    have "sfind (classdef H) son \<noteq> None" using Cons.prems(1) x by (simp add: map_of_eq_None_iff image_iff) force
    then have "known hm son" using assms(2) e by (auto simp: known_def)
    then have "fathers_ok hm (if fatherclass c \<noteq> [] then sinsert son (fatherclass c) fm else fm)"
      using Cons.prems(2) set_sinsert_sub(1)[of son "fatherclass c" fm] by (auto simp: fathers_ok_def)
    then show ?case using Cons x by simp
  qed simp
  then show ?thesis using assms(1) by (simp add: add_fathers_def e)
qed

lemma add_all_fathers_ok: "set es \<subseteq> set hm \<Longrightarrow> fathers_ok hm fm \<Longrightarrow> fathers_ok hm (foldl add_fathers fm es)"
  by (induction es arbitrary: fm) (auto intro: add_fathers_ok)

subsection \<open>The parameters a method dereferences\<close>

lemma each_all2:
  assumes "each f xs = Inr ys"
  shows "list_all2 (\<lambda>x y. f x = Inr y) xs ys"
proof -
  have "mfold (\<lambda>ys x. sbind (f x) (\<lambda>y. Inr (ys @ [y]))) zs xs = Inr ys \<Longrightarrow> \<exists>ws. ys = zs @ ws \<and> list_all2 (\<lambda>x y. f x = Inr y) xs ws" for zs
  proof (induction xs arbitrary: zs)
    case (Cons x xs)
    then obtain y where y: "f x = Inr y" "mfold (\<lambda>ys x. sbind (f x) (\<lambda>y. Inr (ys @ [y]))) (zs @ [y]) xs = Inr ys" by (auto simp: sbind_eq_Inr)
    then obtain ws where "ys = (zs @ [y]) @ ws" "list_all2 (\<lambda>x y. f x = Inr y) xs ws" using Cons.IH by blast
    then show ?case using y(1) by (intro exI[of _ "y # ws"]) simp
  qed simp
  then show ?thesis using assms unfolding each_def by fastforce
qed

lemma each_from:
  assumes "each f xs = Inr ys" "y \<in> set ys"
  obtains x where "x \<in> set xs" "f x = Inr y"
proof -
  note L = each_all2[OF assms(1)]
  obtain i where i: "i < length ys" "y = ys ! i" using assms(2) by (auto simp: in_set_conv_nth)
  then have "i < length xs" using list_all2_lengthD[OF L] by simp
  then show thesis using that[OF nth_mem] list_all2_nthD[OF L] i(2) by simp
qed

lemma InitCalledParameter_ok:
  assumes "InitCalledParameter m = Inr m'" "\<forall>n \<in> set (CallParemeter m). 1 \<le> n"
  shows "\<forall>n \<in> set (CallParemeter m'). 1 \<le> n"
  using InitCalledParameter_bounds[of m] assms by fastforce

lemma init_class_ok:
  assumes "init_class e = Inr e'" "snd e \<noteq> []" "\<forall>m \<in> set (snd e). \<forall>n \<in> set (CallParemeter m). 1 \<le> n"
  shows "fst e' = fst e \<and> snd e' \<noteq> [] \<and> (\<forall>m \<in> set (snd e'). \<forall>n \<in> set (CallParemeter m). 1 \<le> n)"
proof -
  obtain qs where q: "each InitCalledParameter (snd e) = Inr qs" "e' = (fst e, qs)"
    using assms(1) by (auto simp: init_class_def case_prod_beta sbind_eq_Inr)
  have "\<forall>n \<in> set (CallParemeter m'). 1 \<le> n" if "m' \<in> set qs" for m'
    using each_from[OF q(1) that] assms(3) InitCalledParameter_ok by metis
  moreover have "qs \<noteq> []" using each_all2[OF q(1)] assms(2) by auto
  ultimately show ?thesis using q(2) by simp
qed

lemma init_source_ok:
  assumes "init_source p = Inr p'" "wf_source p"
  shows "wf_source p'"
proof -
  obtain c where c: "each init_class (cppclass p) = Inr c" "p' = p\<lparr>cppclass := c\<rparr>" using assms(1) by (auto simp: init_source_def sbind_eq_Inr)
  note L = each_all2[OF c(1)]
  have E: "fst e' = fst e \<and> snd e' \<noteq> [] \<and> (\<forall>m \<in> set (snd e'). \<forall>n \<in> set (CallParemeter m). 1 \<le> n)"
    if "e \<in> set (cppclass p)" "init_class e = Inr e'" for e e'
    using init_class_ok[OF that(2)] assms(2) that(1) by (auto simp: wf_source_def)
  have len: "length c = length (cppclass p)" using L by (simp add: list_all2_lengthD)
  have "fst (c ! i) = fst (cppclass p ! i)" if "i < length (cppclass p)" for i
    using E[OF nth_mem[OF that] list_all2_nthD[OF L that]] by simp
  then have "map fst c = map fst (cppclass p)" using len by (simp add: list_eq_iff_nth_eq)
  moreover have "snd e \<noteq> [] \<and> (\<forall>m \<in> set (snd e). \<forall>n \<in> set (CallParemeter m). 1 \<le> n)" if "e \<in> set c" for e
    using each_from[OF c(1) that] E by metis
  ultimately show ?thesis using assms(2) c(2) by (simp add: wf_source_def smap_ok_def case_prod_beta)
qed

section \<open>The actions keep the invariant\<close>

lemma wf_note_time [simp]: "wf_case (note_time l a b tc) = wf_case tc"
  by (simp add: wf_case_def)

lemma new_wf: "CTestCaseCpp_new now name = Inr tc \<Longrightarrow> wf_case tc \<and> pHyper tc = None"
  by (auto simp: CTestCaseCpp_new_def sbind_eq_Inr wf_case_def wf_headers_def wf_root_def)

lemma sound_mono: "sound hm rel \<Longrightarrow> (\<And>t. known hm t \<Longrightarrow> known hm' t) \<Longrightarrow> sound hm' rel"
  by (auto simp: sound_def)

lemma doReading_wf:
  assumes "CTestCaseCpp_doReading w tc = Inr tc'" "wf_case tc"
  shows "wf_case tc' \<and> pHyper tc' = pHyper tc"
proof -
  obtain a h hm srcs where r: "mfold (read_header (w_files w)) (t_hmap tc) h = Inr hm" "mfold (read_source (w_files w)) (t_head tc) a = Inr srcs"
      "t_hmap tc' = hm" "t_head tc' = srcs" "t_mapForTypeDef tc' = t_mapForTypeDef tc" "fathermap tc' = fathermap tc"
      "t_calledrelation tc' = t_calledrelation tc" "pHyper tc' = pHyper tc" "mapForLastPart tc' = mapForLastPart tc"
    using assms(1) by (auto simp: CTestCaseCpp_doReading_def readEachfile_def sbind_eq_Inr note_time_def Let_def)
  have W: "wf_headers (t_hmap tc)" "\<forall>p \<in> set (t_head tc). wf_source p" using assms(2) by (auto simp: wf_case_def)
  note H = read_headers_ok[OF r(1) W(1)]
  then have "sound hm (t_calledrelation tc)" "\<forall>(son, father) \<in> set (fathermap tc). father \<noteq> [] \<and> known hm son"
    using assms(2) sound_mono[of "t_hmap tc" "t_calledrelation tc" hm] by (auto simp: wf_case_def)
  then show ?thesis using H read_sources_ok[OF r(2) W(2)] assms(2) by (simp add: wf_case_def r(3-9))
qed

lemma parse_all_wf:
  assumes "parse_all tc = Inr tc'" "wf_case tc"
  shows "wf_case tc' \<and> pHyper tc' = pHyper tc"
proof -
  obtain tds srcs where r: "collect_typedefs tc = Inr tds" "each init_source (t_head tc) = Inr srcs" "t_mapForTypeDef tc' = tds" "t_head tc' = srcs"
      "t_hmap tc' = t_hmap tc" "fathermap tc' = foldl add_fathers (fathermap tc) (t_hmap tc)" "pHyper tc' = pHyper tc" "mapForLastPart tc' = mapForLastPart tc"
    using assms(1) by (auto simp: parse_all_def sbind_eq_Inr Let_def)
  have W: "wf_source p" if "p \<in> set (t_head tc)" for p using that assms(2) by (simp add: wf_case_def)
  then have "\<forall>p \<in> set srcs. wf_source p" using each_from[OF r(2)] init_source_ok by metis
  moreover have "fathers_ok (t_hmap tc) (fathermap tc')"
    using add_all_fathers_ok[of "t_hmap tc" "t_hmap tc" "fathermap tc"] assms(2) by (simp add: r(6) fathers_ok_def wf_case_def)
  moreover have "sound (t_hmap tc) (t_calledrelation tc')" using parse_all_sound_from[OF assms(1)] assms(2) by (simp add: wf_case_def)
  moreover have "smap_ok tds" using collect_typedefs_ok[OF r(1)] assms(2) by (simp add: wf_case_def)
  ultimately show ?thesis using assms(2) r(3-8) by (simp add: wf_case_def fathers_ok_def)
qed

lemma doModeling_wf:
  assumes "CTestCaseCpp_doModeling w tc = Inr tc'" "wf_case tc"
  shows "wf_case tc' \<and> pHyper tc' \<noteq> None"
proof -
  obtain p n prt M where p: "createHypergraph (w_hyper w) (fathermap tc) (t_calledrelation tc) (strPara tc) = Inr p" "doHmetis (w_rounds w) p = Inr (n, prt, M)"
     and tc': "tc' = note_time ''modeling and cuting time : '' (w_clock w 6) (w_clock w 7) (tc\<lparr>pHyper := Some (p\<lparr>part := prt\<rparr>), mapForLastPart := M\<rparr>)"
    using assms(1) by (auto simp: CTestCaseCpp_doModeling_def sbind_eq_Inr)
  have wf: "wf_relation (t_calledrelation tc)" using assms(2) by (simp add: wf_case_def sound_def)
  have root: "fresh_root p" using createHypergraph_root[OF wf createHypergraph_blanks[OF p(1)], of "w_hyper w" "fathermap tc"] p(1) by auto
  have n: "END_NUM \<le> nvtxs p" using doHmetis_small[OF root, of "w_rounds w"] p(2) by (metis Inr_Inl_False not_less)
  obtain g where g: "mygraph_spec p g" "merged p g (n, prt, M)" using doHmetis_ok[OF root n, of "w_rounds w"] p(2) by auto
  have "nvetes g = nvtxs p" using g(1) by (simp add: mygraph_spec_def)
  then have m: "forest n M" "nvtxs p \<le> length prt" "\<forall>v < nvtxs p. 0 \<le> prt ! v \<and> prt ! v < int n"
    using g(2) by (auto simp: merged_def in_range_def)
  have "wf_hyper (p\<lparr>part := prt\<rparr>)" using root m(2) by (simp add: fresh_root_def wf_hyper_def edge_pins_def)
  then show ?thesis using assms(2) n m(1,3) by (auto simp: tc' wf_case_def wf_root_def)
qed

lemma doParsing_wf:
  assumes "CTestCaseCpp_doParsing w tc = Inr tc'" "wf_case tc"
  shows "wf_case tc' \<and> pHyper tc' \<noteq> None"
proof -
  obtain tc1 where "parse_all tc = Inr tc1"
      "CTestCaseCpp_doModeling w (note_time ''parsing time : '' (w_clock w 4) (w_clock w 5) tc1) = Inr tc'"
    using assms(1) by (auto simp: CTestCaseCpp_doParsing_def sbind_eq_Inr)
  then show ?thesis using parse_all_wf[of tc tc1] doModeling_wf assms(2) by (metis wf_note_time)
qed

lemma doWriting_wf: "CTestCaseCpp_doWriting w tc = Inr tc' \<Longrightarrow> wf_case tc \<Longrightarrow> wf_case tc'"
  by (auto simp: CTestCaseCpp_doWriting_def Let_def sbind_eq_Inr wf_case_def split: option.splits)

lemma job_wf:
  assumes "data_inv (program_actions W) ds s" "\<forall>d \<in> set ds. wf_case d \<and> pHyper d = None" "j < length ds" "s_jobs s ! j = Some c"
  shows "wf_case (tc_data c) \<and> (pHyper (tc_data c) \<noteq> None \<longleftrightarrow> stage c = MODEL_END_STAGE)"
proof -
  have t: "tag (s_jobs s) j = Some (stage c, tc_data c)" using assms(1,3,4) by (simp add: tag_def live_def data_inv_def)
  have d: "wf_case (ds ! j)" "pHyper (ds ! j) = None" using assms(2,3) by auto
  have h: "history (program_actions W) (ds ! j) j (Some (stage c, tc_data c)) (ev_of j (s_trace s))"
    using data_invD[OF assms(1,3)] unfolding t .
  show ?thesis
  proof (cases "stage c")
    case READ_END_STAGE
    then have "CTestCaseCpp_doReading (W (strPara (ds ! j))) (ds ! j) = Inr (tc_data c)" using h by (simp add: history_def program_actions_def)
    from doReading_wf[OF this d(1)] show ?thesis using d(2) READ_END_STAGE by simp
  next
    case MODEL_END_STAGE
    then obtain d1 where "CTestCaseCpp_doReading (W (strPara (ds ! j))) (ds ! j) = Inr d1" "CTestCaseCpp_doParsing (W (strPara d1)) d1 = Inr (tc_data c)"
      using h by (auto simp: history_def program_actions_def)
    then show ?thesis using doReading_wf d(1) doParsing_wf MODEL_END_STAGE by blast
  qed (use h d in \<open>simp_all add: history_def\<close>)
qed

end
