(* ===== verification/Progress.thy ===== *)
theory Progress
  imports Pipeline
begin

text \<open>
  The pipeline can always be brought to its end: as long as the word \<open>exit\<close> has not been read,
  whatever the threads have done so far, they can go on in such a way that every test case
  is written. The locks and the busy loops never lead into a state from which this is impossible.
\<close>

section \<open>The shape of a step\<close>

definition body_of :: "'d actions \<Rightarrow> tid \<Rightarrow> nat \<Rightarrow> 'd sys \<Rightarrow> error + pc \<times> 'd sys" where
  "body_of act t = (if t = IO then io_job act else deal_job act)"

lemma thread_step_loop:
  "\<not> s_exited s \<Longrightarrow> t \<in> loops \<Longrightarrow> thread_step act t s = loop_step (get_side t) (add_side t) (body_of act t) t s"
  by (auto simp: thread_step_def dwLoopIOWork_def dwLoopWork_def get_side_def add_side_def body_of_def loops_def)

lemma loopWorking_set_lock [simp]: "loopWorking (q_set_lock sd l m) = loopWorking m"
  by (cases sd) (simp_all add: q_set_lock_def)

lemma q_get_working: "q_get sd (m, h) = Inr (r, m', h') \<Longrightarrow> loopWorking m' = loopWorking m \<and> h' = h"
  by (cases sd) (auto simp: q_get_def getJob_body_def getIOJob_body_def sbind_eq_Inr split: if_splits)

lemma q_add_working: "q_add sd a (m, h) = Inr (r, m', h') \<Longrightarrow> loopWorking m' = loopWorking m"
  by (cases sd) (auto simp: q_add_def addJob_body_def addIOJob_body_def sbind_eq_Inr split: if_splits)

lemma body_of_keeps:
  assumes "body_of act t j s = Inr (p, s')"
  shows "s_mgr s' = s_mgr s \<and> s_pc s' = s_pc s \<and> s_exited s' = s_exited s \<and> (p = Check \<or> p = AddWait j)"
proof (cases "t = IO")
  case True
  then obtain st where st: "getStage (s_jobs s) (Some j) = Inr st" using assms by (auto simp: body_of_def io_job_def sbind_eq_Inr)
  show ?thesis using assms True st by (cases st) (auto simp: body_of_def io_job_def sbind_eq_Inr)
qed (use assms in \<open>auto simp: body_of_def deal_job_def sbind_eq_Inr split: if_splits\<close>)

text \<open>How far a thread is from the head of its loop.\<close>

fun rank :: "pc \<Rightarrow> nat" where
  "rank Check = 0"
| "rank GetWait = 5"
| "rank GetIn = 4"
| "rank (Run j) = 3"
| "rank (AddWait j) = 2"
| "rank (AddIn j) = 1"
| "rank Finished = 0"

definition running :: "'d sys \<Rightarrow> bool" where
  "running s \<longleftrightarrow> loopWorking (s_mgr s) \<and> \<not> s_exited s \<and> (\<forall>t \<in> loops. s_pc s t \<noteq> Finished)"

lemma step_shape:
  assumes "running s" "t \<in> loops" "thread_step act t s = Inr (Some s')"
  shows "running s' \<and> (\<exists>p. s_pc s' = (s_pc s)(t := p) \<and> p \<noteq> Finished \<and> (if s_pc s t = Check then p = GetWait else rank p < rank (s_pc s t)))"
proof -
  have r: "loopWorking (s_mgr s)" "\<not> s_exited s" "\<forall>x \<in> loops. s_pc s x \<noteq> Finished" using assms(1) by (auto simp: running_def)
  have st: "loop_step (get_side t) (add_side t) (body_of act t) t s = Inr (Some s')" using assms(3) thread_step_loop[OF r(2) assms(2)] by simp
  have "loopWorking (s_mgr s') \<and> \<not> s_exited s' \<and>
     (\<exists>p. s_pc s' = (s_pc s)(t := p) \<and> p \<noteq> Finished \<and> (if s_pc s t = Check then p = GetWait else rank p < rank (s_pc s t)))"
  proof (cases "s_pc s t")
    case (Run j)
    then obtain p s1 where b: "body_of act t j s = Inr (p, s1)" "s' = goto t p s1" using st by (auto simp: loop_step_def sbind_eq_Inr)
    then show ?thesis using body_of_keeps[OF b(1)] r Run by auto
  next
    case GetIn
    then obtain x m h where g: "q_get (get_side t) (s_mgr s, s_jobs s) = Inr (x, m, h)"
       "release (get_side t) t (case x of None \<Rightarrow> Check | Some j \<Rightarrow> Run j) (m, h) s = Inr (Some s')"
      using st by (auto simp: loop_step_def sbind_eq_Inr)
    then show ?thesis using q_get_working[OF g(1)] r GetIn by (auto simp: release_def sbind_eq_Inr split: option.splits)
  next
    case (AddIn j)
    then obtain x m h where g: "q_add (add_side t) (Some j) (s_mgr s, s_jobs s) = Inr (x, m, h)" "release (add_side t) t Check (m, h) s = Inr (Some s')"
      using st by (auto simp: loop_step_def sbind_eq_Inr)
    then show ?thesis using q_add_working[OF g(1)] r AddIn by (auto simp: release_def sbind_eq_Inr)
  qed (use st r assms(2) in \<open>auto simp: loop_step_def acquire_def sbind_eq_Inr split: if_splits\<close>)
  then show ?thesis using r(3) unfolding running_def by (metis fun_upd_apply)
qed

section \<open>A step that is possible\<close>

text \<open>All three actions work on every test case of the menu.\<close>

definition workable :: "'d actions \<Rightarrow> 'd \<Rightarrow> bool" where
  "workable act d \<longleftrightarrow> (\<exists>d1 d2 d3. doReading act d = Inr d1 \<and> doParsing act d1 = Inr d2 \<and> doWriting act d2 = Inr d3)"

lemma body_of_works:
  assumes "pipe_inv act ds s" "\<forall>d \<in> set ds. workable act d" "t \<in> loops" "s_pc s t = Run j"
  shows "\<exists>p s' e. body_of act t j s = Inr (p, s') \<and> s_trace s' = s_trace s @ [e] \<and> ev_job e = j \<and> j < length ds"
proof -
  obtain Q where Q: "jobs_inv s Q" and D: "data_inv act ds s" using assms(1) by (auto simp: pipe_inv_def)
  have "at_stage (s_jobs s) j (get_side t)" using jobs_invD(5)[OF Q assms(3)] assms(4) by simp
  then obtain st d where d: "tag (s_jobs s) j = Some (st, d)" "st \<in> side_stages (get_side t)" by (auto simp: at_stage_def)
  have jl: "j < length ds" by (rule live_length[OF D d(1)])
  have w: "workable act (ds ! j)" using assms(2) jl by simp
  have h: "history act (ds ! j) j (Some (st, d)) (ev_of j (s_trace s))" using data_invD[OF D jl] d(1) by simp
  have go: "sbind (apply_action f j (s_jobs s)) (\<lambda>h. setStage h (Some j) st') \<noteq> Inl e" if "f d = Inr d'" for f d' st' e
    using act_and_stage[where f = f and st = st', OF d(1) that] by auto
  consider "st = INIT_STAGE" "t = IO" | "st = MODEL_END_STAGE" "t = IO" | "st = READ_END_STAGE" "t \<noteq> IO"
    using d(2) by (auto simp: side_stages_def get_side_def split: if_splits)
  then show ?thesis
  proof cases
    case 1
    then obtain d' where "doReading act d = Inr d'" using h w by (auto simp: history_def workable_def)
    then show ?thesis using act_and_stage[where f = "doReading act" and st = READ_END_STAGE, OF d(1)] getStage_tag[OF d(1)] 1 jl
      by (auto simp: body_of_def io_job_def sbind_eq_Inr)
  next
    case 2
    then obtain d' where "doWriting act d = Inr d'" using h w by (auto simp: history_def workable_def)
    then show ?thesis using act_and_stage[where f = "doWriting act" and st = WRITE_END_STAGE, OF d(1)] getStage_tag[OF d(1)] 2 jl
      by (auto simp: body_of_def io_job_def sbind_eq_Inr)
  next
    case 3
    then obtain d' where "doParsing act d = Inr d'" using h w by (auto simp: history_def workable_def)
    then show ?thesis using act_and_stage[where f = "doParsing act" and st = MODEL_END_STAGE, OF d(1)] getStage_tag[OF d(1)] 3 jl
      by (auto simp: body_of_def deal_job_def sbind_eq_Inr)
  qed
qed

text \<open>A thread can take its step unless it waits for a lock that is taken.\<close>

lemma step_possible:
  assumes "pipe_inv act ds s" "\<forall>d \<in> set ds. workable act d" "running s" "t \<in> loops"
    and "s_pc s t = GetWait \<Longrightarrow> \<not> locked (q_lock (get_side t) (s_mgr s))"
    and "\<And>j. s_pc s t = AddWait j \<Longrightarrow> \<not> locked (q_lock (add_side t) (s_mgr s))"
  shows "\<exists>s'. thread_step act t s = Inr (Some s')"
proof -
  have e: "\<not> s_exited s" and f: "s_pc s t \<noteq> Finished" and rc: "mutex_rc (q_lock sd (s_mgr s)) = 0" for sd
    using assms(1,3,4) by (auto simp: running_def pipe_inv_def lock_inv_def)
  have rel: "r \<noteq> None" if "release sd t p mh s = Inr r" for sd p mh r using that by (cases mh) (auto simp: release_def sbind_eq_Inr)
  show ?thesis unfolding thread_step_loop[OF e assms(4)]
  proof (cases "s_pc s t")
    case (Run j)
    then show "\<exists>s'. loop_step (get_side t) (add_side t) (body_of act t) t s = Inr (Some s')"
      using body_of_works[OF assms(1,2,4) Run] by (auto simp: loop_step_def)
  next
    case GetIn
    then show "\<exists>s'. loop_step (get_side t) (add_side t) (body_of act t) t s = Inr (Some s')"
      using get_inv[OF assms(1,4) GetIn] rel by (fastforce simp: loop_step_def ok_iff sbind_eq_Inr)
  next
    case (AddIn j)
    then show "\<exists>s'. loop_step (get_side t) (add_side t) (body_of act t) t s = Inr (Some s')"
      using add_inv[OF assms(1,4) AddIn] rel by (fastforce simp: loop_step_def ok_iff sbind_eq_Inr)
  qed (use assms(5,6) f rc in \<open>auto simp: loop_step_def acquire_def CLock_Lock_def\<close>)
qed

section \<open>Back to the head of the loops\<close>

lemma reachable_trans: "reachable act b c \<Longrightarrow> reachable act a b \<Longrightarrow> reachable act a c"
  by (induction rule: reachable.induct) (auto intro: reachable.step)

lemma reachable_keeps_inv: "reachable act s s' \<Longrightarrow> pipe_inv act ds s \<Longrightarrow> pipe_inv act ds s'"
  by (induction rule: reachable.induct) (auto intro: step_inv)

text \<open>The number of things that have happened to the test cases.\<close>

definition events :: "'d list \<Rightarrow> 'd sys \<Rightarrow> nat" where
  "events ds s = (\<Sum>j < length ds. length (ev_of j (s_trace s)))"

lemma events_snoc:
  assumes "s_trace s' = s_trace s @ [e]" "ev_job e < length ds"
  shows "events ds s' = Suc (events ds s)"
proof -
  let ?f = "\<lambda>j. length (ev_of j (s_trace s))"
  have "events ds s' = (\<Sum>j < length ds. ?f j + (if j = ev_job e then 1 else 0))"
    unfolding events_def assms(1) by (rule sum.cong) (auto simp: ev_of_snoc)
  also have "\<dots> = events ds s + (\<Sum>j < length ds. if j = ev_job e then 1 else 0)" by (simp add: events_def sum.distrib)
  also have "(\<Sum>j < length ds. if j = ev_job e then 1 else 0) = (1 :: nat)" using assms(2) by (simp add: sum.delta)
  finally show ?thesis by simp
qed

lemma events_bound: "pipe_inv act ds s \<Longrightarrow> events ds s \<le> 3 * length ds"
proof -
  assume "pipe_inv act ds s"
  then have D: "data_inv act ds s" by (simp add: pipe_inv_def)
  have "length (ev_of j (s_trace s)) \<le> 3" if "j < length ds" for j using job_history[OF D that] by auto
  then have "events ds s \<le> (\<Sum>j < length ds. 3)" unfolding events_def by (intro sum_mono) auto
  then show ?thesis by simp
qed

lemma loop_trace:
  assumes "pipe_inv act ds s" "\<forall>d \<in> set ds. workable act d" "running s" "t \<in> loops" "thread_step act t s = Inr (Some s')"
  shows "events ds s' = (if \<exists>j. s_pc s t = Run j then Suc (events ds s) else events ds s)"
proof -
  have e: "\<not> s_exited s" using assms(3) by (simp add: running_def)
  have st: "loop_step (get_side t) (add_side t) (body_of act t) t s = Inr (Some s')" using assms(5) thread_step_loop[OF e assms(4)] by simp
  show ?thesis
  proof (cases "s_pc s t")
    case (Run j)
    obtain p s1 x where b: "body_of act t j s = Inr (p, s1)" "s_trace s1 = s_trace s @ [x]" "ev_job x = j" "j < length ds"
      using body_of_works[OF assms(1,2,4) Run] by blast
    then have "s_trace s' = s_trace s @ [x]" using st Run by (auto simp: loop_step_def)
    then show ?thesis using events_snoc[of s' s x ds] b(3,4) Run by simp
  qed (use st in \<open>auto simp: loop_step_def acquire_def release_def sbind_eq_Inr events_def split: if_splits\<close>)
qed

definition distance :: "'d sys \<Rightarrow> nat" where
  "distance s = rank (s_pc s IO) + rank (s_pc s W1) + rank (s_pc s W2)"

lemma distance_goto:
  assumes "t \<in> loops" "s_pc s' = (s_pc s)(t := p)" "rank p < rank (s_pc s t)"
  shows "distance s' < distance s"
  using assms by (auto simp: distance_def loops_def)

text \<open>If a thread is inside its loop then some thread can come closer to the head of its loop.\<close>

lemma closer:
  assumes "pipe_inv act ds s" "\<forall>d \<in> set ds. workable act d" "running s" "t \<in> loops" "s_pc s t \<noteq> Check"
  shows "\<exists>t' s'. t' \<in> loops \<and> thread_step act t' s = Inr (Some s') \<and> distance s' < distance s"
proof -
  have L: "lock_inv s" using assms(1) by (simp add: pipe_inv_def)
  have step: "\<exists>s'. thread_step act x s = Inr (Some s') \<and> distance s' < distance s"
    if x: "x \<in> loops" "s_pc s x \<noteq> Check" "\<exists>s'. thread_step act x s = Inr (Some s')" for x
  proof -
    obtain s' where s': "thread_step act x s = Inr (Some s')" using x(3) by blast
    show ?thesis using step_shape[OF assms(3) x(1) s'] s' x distance_goto[OF x(1)] by auto
  qed
  show ?thesis
  proof (cases "\<exists>sd x. in_lock sd x (s_pc s x)")
    case True
    then obtain sd x where x: "in_lock sd x (s_pc s x)" by blast
    have xl: "x \<in> loops" and xn: "s_pc s x \<noteq> Check" "s_pc s x \<noteq> GetWait" "\<And>j. s_pc s x \<noteq> AddWait j"
      using x by (auto simp: in_lock_def)
    show ?thesis using step[OF xl xn(1)] step_possible[OF assms(1-3) xl] xn(2,3) xl by blast
  next
    case False
    then have "\<not> locked (q_lock sd (s_mgr s))" for sd using L by (auto simp: lock_inv_def)
    then show ?thesis using step[OF assms(4,5)] step_possible[OF assms(1-4)] assms(4) by blast
  qed
qed

lemma drain:
  assumes "pipe_inv act ds s" "\<forall>d \<in> set ds. workable act d" "running s"
  shows "\<exists>s'. reachable act s s' \<and> running s' \<and> (\<forall>t \<in> loops. s_pc s' t = Check) \<and> events ds s \<le> events ds s'"
  using assms
proof (induction "distance s" arbitrary: s rule: less_induct)
  case less
  show ?case
  proof (cases "\<forall>t \<in> loops. s_pc s t = Check")
    case True
    then show ?thesis using less.prems(3) reachable.init by blast
  next
    case False
    then obtain t s1 where s1: "t \<in> loops" "thread_step act t s = Inr (Some s1)" "distance s1 < distance s"
      using closer[OF less.prems] by blast
    have r: "running s1" using step_shape[OF less.prems(3) s1(1,2)] by blast
    have "\<exists>s'. reachable act s1 s' \<and> running s' \<and> (\<forall>t \<in> loops. s_pc s' t = Check) \<and> events ds s1 \<le> events ds s'"
      by (rule less.hyps[OF s1(3) step_inv[OF less.prems(1) s1(2)] less.prems(2) r])
    moreover have "events ds s \<le> events ds s1" using loop_trace[OF less.prems s1(1,2)] by simp
    moreover have "reachable act s s1" using reachable.step[OF reachable.init s1(2)] .
    ultimately show ?thesis using reachable_trans order_trans by blast
  qed
qed

section \<open>One more event\<close>

lemma job_in_queue:
  assumes "pipe_inv act ds s" "\<forall>t \<in> loops. heldm (s_pc s t) = {#}" "live (s_jobs s) j" "at_stage (s_jobs s) j sd" "jobs_inv s Q"
  shows "j \<in> set (Q sd)"
proof -
  have "places s Q = mset (Q Work) + mset (Q InOut)" using assms(2) by (simp add: places_def loops_def)
  then have "0 < count (mset (Q Work) + mset (Q InOut)) j" using jobs_invD(3)[OF assms(5), of j] assms(3) by simp
  then obtain sd' where sd': "j \<in> set (Q sd')" by (auto simp: count_greater_zero_iff)
  have "at_stage (s_jobs s) j sd'" by (rule jobs_invD(4)[OF assms(5) sd'])
  then have "sd' = sd" using assms(4) by (cases sd; cases sd') (auto simp: at_stage_def side_stages_def)
  then show ?thesis using sd' by simp
qed

lemma silent_step:
  assumes "running s" "t \<in> loops" "thread_step act t s = Inr (Some s')" "s_pc s t = Check \<or> s_pc s t = GetWait"
  shows "s_jobs s' = s_jobs s" "s_pc s' = (s_pc s)(t := (if s_pc s t = Check then GetWait else GetIn))"
proof -
  have r: "loopWorking (s_mgr s)" "\<not> s_exited s" using assms(1) by (auto simp: running_def)
  have "loop_step (get_side t) (add_side t) (body_of act t) t s = Inr (Some s')" using assms(3) thread_step_loop[OF r(2) assms(2)] by simp
  then show "s_jobs s' = s_jobs s" "s_pc s' = (s_pc s)(t := (if s_pc s t = Check then GetWait else GetIn))"
    using assms(4) r(1) by (auto simp: loop_step_def acquire_def sbind_eq_Inr split: if_splits)
qed

lemma get_runs:
  assumes "running s" "t \<in> loops" "thread_step act t s = Inr (Some s')" "s_pc s t = GetIn" "jobs_inv s Q" "Q (get_side t) \<noteq> []"
  shows "\<exists>j. s_pc s' t = Run j"
proof -
  have e: "\<not> s_exited s" using assms(1) by (simp add: running_def)
  have st: "loop_step (get_side t) (add_side t) (body_of act t) t s = Inr (Some s')" using assms(3) thread_step_loop[OF e assms(2)] by simp
  obtain m where "q_get (get_side t) (s_mgr s, s_jobs s) = Inr (Some (hd (Q (get_side t))), m, s_jobs s)"
    using q_get_ok[of "get_side t" "s_mgr s" "s_jobs s" "Q (get_side t)" Q] jobs_invD(1,2)[OF assms(5)] assms(6) by (auto simp: ok_iff)
  then show ?thesis using st assms(4) by (auto simp: loop_step_def release_def sbind_eq_Inr)
qed

lemma at_some_side:
  assumes "pipe_inv act ds s" "live (s_jobs s) j"
  shows "\<exists>t \<in> loops. at_stage (s_jobs s) j (get_side t)"
proof -
  have D: "data_inv act ds s" using assms(1) by (simp add: pipe_inv_def)
  obtain st d where t: "tag (s_jobs s) j = Some (st, d)" using assms(2) by (auto simp: tag_def)
  have "history act (ds ! j) j (Some (st, d)) (ev_of j (s_trace s))" using data_invD[OF D live_length[OF D t]] t by simp
  then have "at_stage (s_jobs s) j (get_side (if st = READ_END_STAGE then W1 else IO))"
    using t by (cases st) (auto simp: history_def at_stage_def side_stages_def get_side_def)
  then show ?thesis by (auto simp: loops_def split: if_splits)
qed

lemma one_event:
  assumes "pipe_inv act ds s" "\<forall>d \<in> set ds. workable act d" "running s" "\<forall>t \<in> loops. s_pc s t = Check" "live (s_jobs s) j"
  shows "\<exists>s'. reachable act s s' \<and> running s' \<and> events ds s < events ds s'"
proof -
  obtain t where t: "t \<in> loops" "at_stage (s_jobs s) j (get_side t)" using at_some_side[OF assms(1,5)] by blast
  have free: "\<not> locked (q_lock sd (s_mgr x))" if "pipe_inv act ds x" "\<forall>y \<in> loops. s_pc x y = Check \<or> s_pc x y = GetWait" for x sd
    using that by (auto simp: pipe_inv_def lock_inv_def in_lock_def)
  obtain s1 where s1: "thread_step act t s = Inr (Some s1)" using step_possible[OF assms(1-3) t(1)] assms(4) t(1) by auto
  have I1: "pipe_inv act ds s1" and r1: "running s1" using step_inv[OF assms(1) s1] step_shape[OF assms(3) t(1) s1] by auto
  have p1: "s_pc s1 = (s_pc s)(t := GetWait)" "s_jobs s1 = s_jobs s" using silent_step[OF assms(3) t(1) s1] assms(4) t(1) by auto
  obtain s2 where s2: "thread_step act t s1 = Inr (Some s2)"
    using step_possible[OF I1 assms(2) r1 t(1)] free[OF I1] p1(1) assms(4) by auto
  have I2: "pipe_inv act ds s2" and r2: "running s2" using step_inv[OF I1 s2] step_shape[OF r1 t(1) s2] by auto
  have p2: "s_pc s2 = (s_pc s)(t := GetIn)" "s_jobs s2 = s_jobs s" using silent_step[OF r1 t(1) s2] p1 by auto
  obtain s3 where s3: "thread_step act t s2 = Inr (Some s3)" using step_possible[OF I2 assms(2) r2 t(1)] p2(1) by auto
  obtain Q where Q: "jobs_inv s2 Q" using I2 by (auto simp: pipe_inv_def)
  have "j \<in> set (Q (get_side t))" by (rule job_in_queue[OF I2 _ _ _ Q]) (use p2 assms(4,5) t in auto)
  then have "Q (get_side t) \<noteq> []" by auto
  then obtain k where k: "s_pc s3 t = Run k" using get_runs[OF r2 t(1) s3 _ Q] p2(1) by auto
  have I3: "pipe_inv act ds s3" and r3: "running s3" using step_inv[OF I2 s3] step_shape[OF r2 t(1) s3] by auto
  obtain s4 where s4: "thread_step act t s3 = Inr (Some s4)" using step_possible[OF I3 assms(2) r3 t(1)] k by auto
  have "events ds s1 = events ds s" "events ds s2 = events ds s1" "events ds s3 = events ds s2" "events ds s4 = Suc (events ds s3)"
    using loop_trace[OF assms(1-3) t(1) s1] loop_trace[OF I1 assms(2) r1 t(1) s2] loop_trace[OF I2 assms(2) r2 t(1) s3]
      loop_trace[OF I3 assms(2) r3 t(1) s4] assms(4) t(1) p1(1) p2(1) k by auto
  moreover have "reachable act s s4" using reachable.step[OF reachable.step[OF reachable.step[OF reachable.step[OF reachable.init s1] s2] s3] s4] .
  moreover have "running s4" using step_shape[OF r3 t(1) s4] by blast
  ultimately show ?thesis by auto
qed

lemma finish:
  assumes "pipe_inv act ds s" "\<forall>d \<in> set ds. workable act d" "running s"
  shows "\<exists>s'. reachable act s s' \<and> running s' \<and> (\<forall>j. \<not> live (s_jobs s') j)"
  using assms
proof (induction "3 * length ds - events ds s" arbitrary: s rule: less_induct)
  case less
  obtain s1 where s1: "reachable act s s1" "running s1" "\<forall>t \<in> loops. s_pc s1 t = Check" "events ds s \<le> events ds s1"
    using drain[OF less.prems] by blast
  have I1: "pipe_inv act ds s1" by (rule reachable_keeps_inv[OF s1(1) less.prems(1)])
  show ?case
  proof (cases "\<exists>j. live (s_jobs s1) j")
    case False
    then show ?thesis using s1 by blast
  next
    case True
    then obtain s2 where s2: "reachable act s1 s2" "running s2" "events ds s1 < events ds s2"
      using one_event[OF I1 less.prems(2) s1(2,3)] by blast
    have I2: "pipe_inv act ds s2" by (rule reachable_keeps_inv[OF s2(1) I1])
    have "3 * length ds - events ds s2 < 3 * length ds - events ds s" using s1(4) s2(3) events_bound[OF I2] by linarith
    from less.hyps[OF this I2 less.prems(2) s2(2)] obtain s3 where "reachable act s2 s3" "running s3" "\<forall>j. \<not> live (s_jobs s3) j" by blast
    moreover have "reachable act s s3" if "reachable act s2 s3" for s3
      using reachable_trans[OF that reachable_trans[OF s2(1) s1(1)]] .
    ultimately show ?thesis by blast
  qed
qed

section \<open>The word exit\<close>

definition stop_inv :: "'d sys \<Rightarrow> bool" where
  "stop_inv s \<longleftrightarrow> (loopWorking (s_mgr s) \<longleftrightarrow> s_pc s Stop \<noteq> Finished) \<and> (loopWorking (s_mgr s) \<longrightarrow> running s)"

lemma stop_inv_step:
  assumes "stop_inv s" "thread_step act t s = Inr (Some s')"
  shows "stop_inv s'"
proof -
  have e: "\<not> s_exited s" using assms(2) by (auto simp: thread_step_def)
  show ?thesis
  proof (cases "t \<in> loops")
    case True
    then have t: "t \<noteq> Stop" by (auto simp: loops_def)
    show ?thesis
    proof (cases "loopWorking (s_mgr s)")
      case w: True
      then have "running s" using assms(1) by (simp add: stop_inv_def)
      from step_shape[OF this True assms(2)] show ?thesis using assms(1) t w unfolding stop_inv_def running_def by (metis fun_upd_apply)
    next
      case False
      have st: "loop_step (get_side t) (add_side t) (body_of act t) t s = Inr (Some s')" using assms(2) thread_step_loop[OF e True] by simp
      then have "loopWorking (s_mgr s') = loopWorking (s_mgr s) \<and> s_pc s' Stop = s_pc s Stop"
        using t by (auto simp: loop_step_def acquire_def release_def sbind_eq_Inr dest!: q_get_working q_add_working body_of_keeps
            split: pc.splits if_splits)
      then show ?thesis using False assms(1) by (simp add: stop_inv_def)
    qed
  next
    case False
    then have "t = Stop \<or> t = Main" by (cases t) (auto simp: loops_def)
    then show ?thesis
    proof
      assume "t = Stop"
      then show ?thesis using assms e
        by (auto simp: stop_inv_def thread_step_def StopThread_def running_def setLoopWorking_def loops_def split: if_splits list.splits)
    next
      assume "t = Main"
      then show ?thesis using assms e
        by (auto simp: stop_inv_def thread_step_def main_wait_def wait4ThisThread_def running_def loops_def split: if_splits pc.splits)
    qed
  qed
qed

lemma reachable_stop_inv: "reachable act s0 s \<Longrightarrow> stop_inv s0 \<Longrightarrow> stop_inv s"
  by (induction rule: reachable.induct) (auto intro: stop_inv_step)

lemma mfold_add_case_working: "mfold (add_case new mem) (m, h) names = Inr (m', h') \<Longrightarrow> loopWorking m' = loopWorking m"
proof (induction names arbitrary: m h)
  case (Cons n ns)
  then obtain m1 h1 where s: "add_case new mem (m, h) n = Inr (m1, h1)" "mfold (add_case new mem) (m1, h1) ns = Inr (m', h')"
    by (auto simp: sbind_eq_Inr)
  have "loopWorking m1 = loopWorking m" using s(1)
    by (auto simp: add_case_def addIOJob_def with_IOlock_def addIOJob_body_def Let_def sbind_eq_Inr split: if_splits)
  then show ?case using Cons.IH[OF s(2)] by simp
qed simp

lemma start_stop_inv: "OnParserOpenfiles new mem menufile input = Inr s0 \<Longrightarrow> stop_inv s0"
  by (auto simp: OnParserOpenfiles_def CMgrJob_new_def stop_inv_def running_def sbind_eq_Inr dest!: mfold_add_case_working)

text \<open>
  C18. As long as the word \<open>exit\<close> has not been read, the work can be brought to its end: if the three
  actions work on every test case that can be created, then from every state that the threads
  can reach they can go on to a state in which every test case is read, parsed, written
  and deleted.
\<close>

theorem pipeline_can_finish:
  assumes "OnParserOpenfiles new mem menufile input = Inr s0" "reachable act s0 s" "loopWorking (s_mgr s)"
    and "\<And>name d. new name = Inr d \<Longrightarrow> workable act d"
  shows "\<exists>s'. reachable act s s' \<and> length (s_jobs s') = length (s_jobs s0) \<and>
     (\<forall>j < length (s_jobs s'). s_jobs s' ! j = None \<and> ev_of j (s_trace s') = [EvRead j, EvParse j, EvWrite j])"
proof -
  obtain nms ds where o: "map new nms = map Inr ds" "started ds s0" using OnParserOpenfiles_started[OF assms(1)] by blast
  have I: "pipe_inv act ds s" by (rule reachable_inv[OF o(2) assms(2)])
  have w: "\<forall>d \<in> set ds. workable act d"
  proof
    fix d assume "d \<in> set ds"
    then obtain name where "new name = Inr d" using arg_cong[OF o(1), of set] by (metis imageE imageI set_map)
    then show "workable act d" by (rule assms(4))
  qed
  have "running s" using reachable_stop_inv[OF assms(2) start_stop_inv[OF assms(1)]] assms(3) by (simp add: stop_inv_def)
  then obtain s' where s': "reachable act s s'" "\<forall>j. \<not> live (s_jobs s') j" using finish[OF I w] by blast
  have D: "data_inv act ds s'" "length (s_jobs s0) = length ds"
    using reachable_keeps_inv[OF s'(1) I] o(2) by (simp_all add: pipe_inv_def started_def)
  have len: "length (s_jobs s') = length ds" using D(1) by (simp add: data_inv_def)
  have "s_jobs s' ! j = None \<and> ev_of j (s_trace s') = [EvRead j, EvParse j, EvWrite j]" if "j < length ds" for j
    using data_invD[OF D(1) that] s'(2) that len by (auto simp: tag_def live_def history_def)
  then show ?thesis using s'(1) len D(2) by auto
qed

theorem pipeline_can_finish_witness:
  "\<exists>s0 s s'. sample_start = Inr s0 \<and> reachable sample_actions s0 s \<and> s_trace s = [EvRead 0, EvParse 0] \<and> reachable sample_actions s s' \<and>
     s_jobs s' = [None, None]"
proof -
  have r: "sbind sample_start (\<lambda>s. sbind (run_sched sample_actions (replicate 6 IO @ replicate 5 W2) s)
      (\<lambda>s. Inr (s_trace s, length (s_jobs s), loopWorking (s_mgr s)))) = Inr ([EvRead 0, EvParse 0], 2, True)" by code_simp
  obtain s0 s where s: "sample_start = Inr s0" "reachable sample_actions s0 s"
      "(s_trace s, length (s_jobs s), loopWorking (s_mgr s)) = ([EvRead 0, EvParse 0], 2, True)" by (rule sample_sched[OF r])
  have w: "workable sample_actions d" for d by (simp add: workable_def sample_actions_def)
  have l: "loopWorking (s_mgr s)" using s(3) by simp
  obtain s' where s': "reachable sample_actions s s'" "length (s_jobs s') = length (s_jobs s0)"
     "\<forall>j < length (s_jobs s'). s_jobs s' ! j = None"
    using pipeline_can_finish[OF s(1)[unfolded sample_start_def] s(2) l w] by blast
  have "sbind sample_start (\<lambda>s. Inr (length (s_jobs s))) = Inr 2" by code_simp
  then have "length (s_jobs s') = 2" unfolding s(1) s'(2) by simp
  then have "s_jobs s' = [None, None]" using s'(3) by (intro nth_equalityI) (auto simp: less_Suc_eq numeral_2_eq_2)
  then show ?thesis using s s'(1) by auto
qed

section \<open>The end of the process\<close>

lemma thread_step_others:
  assumes "thread_step act t s = Inr (Some s')" "u \<noteq> t"
  shows "s_pc s' u = s_pc s u"
proof -
  have e: "\<not> s_exited s" using assms(1) by (auto simp: thread_step_def)
  show ?thesis
  proof (cases "t \<in> loops")
    case True
    then have "loop_step (get_side t) (add_side t) (body_of act t) t s = Inr (Some s')" using assms(1) thread_step_loop[OF e True] by simp
    then show ?thesis using assms(2)
      by (auto simp: loop_step_def acquire_def release_def sbind_eq_Inr dest!: body_of_keeps split: pc.splits if_splits)
  next
    case False
    then have "t = Stop \<or> t = Main" by (cases t) (auto simp: loops_def)
    then show ?thesis using assms e
      by (auto simp: thread_step_def StopThread_def main_wait_def wait4ThisThread_def split: if_splits list.splits pc.splits)
  qed
qed

text \<open>The main thread is behind its first wait only when the first parsing thread has ended.\<close>

definition main_inv :: "'d sys \<Rightarrow> bool" where
  "main_inv s \<longleftrightarrow> (s_pc s Main \<noteq> Check \<or> s_exited s \<longrightarrow> s_pc s W1 = Finished)"

lemma main_inv_step:
  assumes "main_inv s" "thread_step act t s = Inr (Some s')"
  shows "main_inv s'"
proof (cases "t = Main")
  case True
  then show ?thesis using assms
    by (auto simp: main_inv_def thread_step_def main_wait_def wait4ThisThread_def split: if_splits pc.splits)
next
  case False
  have e: "\<not> s_exited s" using assms(2) by (auto simp: thread_step_def)
  have m: "s_pc s' Main = s_pc s Main" using thread_step_others[OF assms(2), of Main] False by simp
  have "\<not> s_exited s'"
  proof (cases "t \<in> loops")
    case True
    then have "loop_step (get_side t) (add_side t) (body_of act t) t s = Inr (Some s')" using assms(2) thread_step_loop[OF e True] by simp
    then show ?thesis using e
      by (auto simp: loop_step_def acquire_def release_def sbind_eq_Inr dest!: body_of_keeps split: pc.splits if_splits)
  next
    case nl: False
    then have "t = Stop" using False by (cases t) (auto simp: loops_def)
    then show ?thesis using assms(2) e by (auto simp: thread_step_def StopThread_def split: if_splits list.splits)
  qed
  moreover have "s_pc s' W1 = Finished" if "s_pc s W1 = Finished"
  proof -
    have "t \<noteq> W1" using assms(2) that e by (auto simp: thread_step_def dwLoopWork_def loop_step_def)
    then show ?thesis using thread_step_others[OF assms(2)] that by metis
  qed
  ultimately show ?thesis using assms(1) m by (simp add: main_inv_def)
qed

lemma reachable_main_inv: "reachable act s0 s \<Longrightarrow> main_inv s0 \<Longrightarrow> main_inv s"
  by (induction rule: reachable.induct) (auto intro: main_inv_step)

lemma start_main_inv: "OnParserOpenfiles new mem menufile input = Inr s0 \<Longrightarrow> main_inv s0"
  by (auto simp: OnParserOpenfiles_def main_inv_def sbind_eq_Inr)

text \<open>The stop thread reads on to the word \<open>exit\<close>, and nothing else happens meanwhile.\<close>

lemma stop_reads_exit:
  assumes "\<not> s_exited s" "s_pc s Stop \<noteq> Finished" "s_input s = ws @ ''exit'' # rest" "\<forall>w \<in> set ws. length w < 1024 \<and> w \<noteq> ''exit''"
  shows "reachable act s (goto Stop Finished (s\<lparr>s_input := rest, s_mgr := setLoopWorking (s_mgr s)\<rparr>))"
  using assms
proof (induction ws arbitrary: s)
  case Nil
  then have "thread_step act Stop s = Inr (Some (goto Stop Finished (s\<lparr>s_input := rest, s_mgr := setLoopWorking (s_mgr s)\<rparr>)))"
    by (simp add: thread_step_def StopThread_def)
  then show ?case by (rule reachable.step[OF reachable.init])
next
  case (Cons w ws)
  let ?s = "s\<lparr>s_input := ws @ ''exit'' # rest\<rparr>"
  have "thread_step act Stop s = Inr (Some ?s)" using Cons.prems by (simp add: thread_step_def StopThread_def)
  then have r: "reachable act s ?s" by (rule reachable.step[OF reachable.init])
  have "reachable act ?s (goto Stop Finished (?s\<lparr>s_input := rest, s_mgr := setLoopWorking (s_mgr ?s)\<rparr>))"
    by (rule Cons.IH) (use Cons.prems in simp_all)
  then show ?case using reachable_trans[OF _ r] by simp
qed

lemma exits_early:
  assumes "OnParserOpenfiles new mem menufile input = Inr s0" "reachable act s0 s" "loopWorking (s_mgr s)" "s_pc s W1 = Check"
    and "s_input s = ws @ ''exit'' # rest" "\<forall>w \<in> set ws. length w < 1024 \<and> w \<noteq> ''exit''"
  shows "\<exists>s1 s'. reachable act s s1 \<and> s_pc s1 Main = GetWait \<and> s_pc s1 W1 = Finished \<and>
     thread_step act Main s1 = Inr (Some s') \<and> s_exited s' \<and> (\<forall>t. thread_step act t s' = Inr None) \<and>
     s_jobs s' = s_jobs s \<and> s_trace s' = s_trace s \<and> s_pc s' W2 = s_pc s W2 \<and> s_pc s' IO = s_pc s IO"
proof -
  have i: "stop_inv s" "main_inv s"
    using reachable_stop_inv[OF assms(2) start_stop_inv[OF assms(1)]] reachable_main_inv[OF assms(2) start_main_inv[OF assms(1)]] by blast+
  have e: "\<not> s_exited s" "s_pc s Stop \<noteq> Finished" "s_pc s Main = Check"
    using i assms(3,4) by (auto simp: stop_inv_def running_def main_inv_def)
  let ?a = "goto Stop Finished (s\<lparr>s_input := rest, s_mgr := setLoopWorking (s_mgr s)\<rparr>)"
  let ?b = "goto W1 Finished ?a" and ?c = "goto Main GetWait (goto W1 Finished ?a)"
  have ra: "reachable act s ?a" by (rule stop_reads_exit[OF e(1,2) assms(5,6)])
  have "thread_step act W1 ?a = Inr (Some ?b)"
    using assms(3,4) e(1) by (simp add: thread_step_def dwLoopWork_def loop_step_def setLoopWorking_def)
  then have rb: "reachable act s ?b" by (rule reachable.step[OF ra])
  have "thread_step act Main ?b = Inr (Some ?c)" using e by (simp add: thread_step_def main_wait_def wait4ThisThread_def)
  then have rc: "reachable act s ?c" by (rule reachable.step[OF rb])
  have "thread_step act Main ?c = Inr (Some ((goto Main Finished ?c)\<lparr>s_exited := True\<rparr>))"
    using e by (simp add: thread_step_def main_wait_def wait4ThisThread_def)
  then show ?thesis using rc by (intro exI[of _ ?c] exI[of _ "(goto Main Finished ?c)\<lparr>s_exited := True\<rparr>"]) (simp add: thread_step_def)
qed

end
