(* ===== verification/Application.thy ===== *)
theory Application
  imports Invariants Progress
begin

text \<open>
  The application of \<open>src/CArchitecture/Architecture.cpp\<close> as a whole: the creation of the log, of the
  jobs and of the threads one by one (\<open>CThread.cpp\<close>), the log thread beside the other threads, and
  the files that the process leaves behind. Every execution is one of the pipeline, and
  the files are those of the test cases that were written, in the order of writing.
\<close>

section \<open>The code\<close>

text \<open>
  The object of \<open>main.cpp\<close>: its pointer to the job manager, the only object of its kind (address 0
  here, its value in the state of the pipeline); the other members are never used.
\<close>

record CArchitectureApp =
  m_pMgrJob :: "nat option"

definition CArchitectureApp_new :: CArchitectureApp where
  "CArchitectureApp_new = \<lparr>m_pMgrJob = None\<rparr>"

datatype thread_fun = CLogThread | Loop tid

text \<open>The result of \<open>pthread_create\<close> is looked at and nothing is done about a failure.\<close>

definition CThread_new :: "int \<Rightarrow> thread_fun \<Rightarrow> thread_fun list \<Rightarrow> thread_fun list" where
  "CThread_new rc fn ths = (if rc \<noteq> 0 then ths else ths @ [fn])"

text \<open>
  What a file system does with the requests of a test case. The code does not look at whether a file
  could be opened; here every request succeeds, so that what is shown of the files holds as long as
  the folders can be made and the files be written.
\<close>

fun do_effect :: "(string \<rightharpoonup> string) \<Rightarrow> effect \<Rightarrow> (string \<rightharpoonup> string)" where
  "do_effect disk (MakeFolder d) = disk"
| "do_effect disk (WriteFile f c) = disk(f \<mapsto> c)"
| "do_effect disk (AppendFile f c) = disk(f \<mapsto> (case disk f of None \<Rightarrow> c | Some old \<Rightarrow> old @ c))"

definition excel_header :: string where
  "excel_header = ''file name '' @ [TAB] @ '' hcut '' @ [TAB] @ '' coupling '' @ [TAB] @ '' cohesion '' @ [TAB] @ '' time'' @
     [CHR 0x28, CHR 0x5C] @ ''ms) '' @ [NL]"

definition excel_start :: "effect list" where
  "excel_start = [WriteFile ''..//recordsForExcel.txt'' [], AppendFile ''..//recordsForExcel.txt'' excel_header]"

record app =
  a_obj :: CArchitectureApp
  a_sys :: "CTestCaseCpp sys"
  a_log :: log_state
  a_disk :: "string \<rightharpoonup> string"
  a_todo :: "thread_fun list"
  a_threads :: "thread_fun list"

text \<open>
  \<open>main\<close> up to the creation of the threads. The constructor of a test case makes a note, whose
  text ends at the first NUL; \<open>self\<close> is the text of the number of the main thread, and \<open>lmem\<close> the memory
  that the unset links of the notes are in.
\<close>

definition first_note :: "string \<Rightarrow> string \<Rightarrow> string \<times> string" where
  "first_note self name = (self, takeWhile (\<lambda>c. c \<noteq> NUL) (''now class name: '' @ name))"

definition app_start :: "(string \<Rightarrow> timeval) \<Rightarrow> (nat \<Rightarrow> nat option \<times> nat option) \<Rightarrow> (nat \<Rightarrow> nat option) \<Rightarrow> string \<Rightarrow> (string \<rightharpoonup> string) \<Rightarrow> string list \<Rightarrow> string list \<Rightarrow> error + app" where
  "app_start now mem lmem self disk menufile input =
     sbind (CLog_new 0 []) (\<lambda>dataLog.
     sbind (menu menufile) (\<lambda>ary_fileName.
     sbind (main now mem menufile input) (\<lambda>s.
     sbind (note_all lmem (map (first_note self) ary_fileName) dataLog) (\<lambda>dataLog.
       Inr \<lparr>a_obj = CArchitectureApp_new\<lparr>m_pMgrJob := Some 0\<rparr>, a_sys = s, a_log = dataLog, a_disk = foldl do_effect disk excel_start,
         a_todo = [CLogThread, Loop IO, Loop W1, Loop W2, Loop Stop], a_threads = []\<rparr>))))"

text \<open>What a step of the pipeline asks of the files: the requests of a test case that it writes.\<close>

definition effects_of :: "CTestCaseCpp actions \<Rightarrow> CTestCaseCpp sys \<Rightarrow> event \<Rightarrow> effect list" where
  "effects_of act s e = (case e of
     EvWrite j \<Rightarrow> (case s_jobs s ! j of
        None \<Rightarrow> []
      | Some c \<Rightarrow> (case doWriting act (tc_data c) of Inl _ \<Rightarrow> [] | Inr d \<Rightarrow> t_effects d))
   | _ \<Rightarrow> [])"

text \<open>A step of a thread function, and what \<open>doWriting\<close> has asked of the files in it.\<close>

definition run_thread :: "CTestCaseCpp actions \<Rightarrow> tid \<Rightarrow> app \<Rightarrow> error + app option" where
  "run_thread act t a = sbind (thread_step act t (a_sys a)) (\<lambda>r. Inr (map_option (\<lambda>s.
     a\<lparr>a_sys := s, a_disk := foldl do_effect (a_disk a)
        (concat (map (effects_of act (a_sys a)) (drop (length (s_trace (a_sys a))) (s_trace s))))\<rparr>) r))"

text \<open>
  The moves: the main thread creates the next thread, or waits when all are created, for
  \<open>cpDealThread\<close>, whose handle is unset memory when its creation failed; the log thread takes a turn;
  a thread that works on a test case makes a note; a thread of the pipeline makes a step.
\<close>

datatype move = Create int | LogTurn string | MakeNote tid "nat option" string string | Act tid

definition app_move :: "CTestCaseCpp actions \<Rightarrow> move \<Rightarrow> app \<Rightarrow> error + app option" where
  "app_move act mv a = (if s_exited (a_sys a) then Inr None else case mv of
     Create rc \<Rightarrow> (case a_todo a of
        [] \<Rightarrow> Inr None
      | fn # fns \<Rightarrow> Inr (Some (a\<lparr>a_todo := fns, a_threads := CThread_new rc fn (a_threads a)\<rparr>)))
   | LogTurn formatted \<Rightarrow>
       if CLogThread \<in> set (a_threads a) \<and> loopwork (fst (a_log a)) then
         sbind (log_turn formatted (a_log a)) (\<lambda>l. Inr (Some (a\<lparr>a_log := l\<rparr>)))
       else Inr None
   | MakeNote t nx self words \<Rightarrow>
       (case s_pc (a_sys a) t of
          Run j \<Rightarrow> if Loop t \<in> set (a_threads a) \<and> t \<in> {W1, W2} then
            sbind (CLogNote self [] nx (takeWhile (\<lambda>c. c \<noteq> NUL) words) (a_log a)) (\<lambda>l. Inr (Some (a\<lparr>a_log := l\<rparr>)))
          else Inr None
        | _ \<Rightarrow> Inr None)
   | Act t \<Rightarrow>
       if t = Main then
         if a_todo a \<noteq> [] then Inr None
         else if Loop W1 \<notin> set (a_threads a) then Inl NullDeref
         else run_thread act Main a
       else if Loop t \<in> set (a_threads a) then
         if m_pMgrJob (a_obj a) = None \<and> t \<noteq> Stop then Inl NullDeref else run_thread act t a
       else Inr None)"

inductive app_run :: "CTestCaseCpp actions \<Rightarrow> app \<Rightarrow> move list \<Rightarrow> app \<Rightarrow> bool" for act a0 where
  start: "app_run act a0 [] a0"
| move: "app_run act a0 ms a \<Longrightarrow> app_move act mv a = Inr (Some a') \<Longrightarrow> app_run act a0 (ms @ [mv]) a'"

section \<open>Executions of the application are executions of the pipeline\<close>

lemma run_thread_step:
  assumes "run_thread act t a = Inr (Some a')"
  shows "thread_step act t (a_sys a) = Inr (Some (a_sys a'))" "a_log a' = a_log a" "a_todo a' = a_todo a" "a_threads a' = a_threads a"
    "a_disk a' = foldl do_effect (a_disk a) (concat (map (effects_of act (a_sys a)) (drop (length (s_trace (a_sys a))) (s_trace (a_sys a')))))"
  using assms by (auto simp: run_thread_def sbind_eq_Inr)

text \<open>The forms of a move that can be made.\<close>

lemma app_move_cases:
  assumes "app_move act mv a = Inr (Some a')"
  obtains (create) rc fn fns where "mv = Create rc" "a_todo a = fn # fns" "a' = a\<lparr>a_todo := fns, a_threads := CThread_new rc fn (a_threads a)\<rparr>"
  | (turn) st l where "mv = LogTurn st" "log_turn st (a_log a) = Inr l" "a' = a\<lparr>a_log := l\<rparr>"
  | (makenote) t nx self words l where "mv = MakeNote t nx self words" "CLogNote self [] nx (takeWhile (\<lambda>c. c \<noteq> NUL) words) (a_log a) = Inr l" "a' = a\<lparr>a_log := l\<rparr>"
  | (act) t where "mv = Act t" "run_thread act t a = Inr (Some a')"
proof (cases mv)
  case (Create rc)
  then show thesis using assms that(1) by (auto simp: app_move_def split: if_splits list.splits)
next
  case (LogTurn st)
  then show thesis using assms that(2) by (auto simp: app_move_def sbind_eq_Inr split: if_splits)
next
  case (MakeNote t nx self words)
  then show thesis using assms that(3) by (auto simp: app_move_def sbind_eq_Inr split: if_splits pc.splits)
next
  case (Act t)
  then show thesis using assms that(4) by (auto simp: app_move_def split: if_splits)
qed

lemma app_run_reachable: "app_run act a0 ms a \<Longrightarrow> reachable act (a_sys a0) (a_sys a)"
proof (induction rule: app_run.induct)
  case (move ms a mv a')
  show ?case using move(2)
  proof (cases rule: app_move_cases)
    case (act t)
    then show ?thesis using run_thread_step(1) move(3) by (blast intro: reachable.step)
  qed (use move(3) in auto)
qed (rule reachable.init)

section \<open>The log\<close>

fun note_of_move :: "move \<Rightarrow> (string \<times> string) list" where
  "note_of_move (MakeNote t nx self words) = [(self, takeWhile (\<lambda>c. c \<noteq> NUL) words)]"
| "note_of_move _ = []"

text \<open>The notes made so far are those written to \<open>clog.txt\<close> and, behind them, those of the queue.\<close>

definition log_inv :: "log_state \<Rightarrow> (string \<times> string) list \<Rightarrow> bool" where
  "log_inv = (\<lambda>(g, h, out) ns. \<exists>xs sts old. log_rep (g, h, out) xs \<and> ns = old @ map (note_of h) xs \<and> length sts = length old \<and>
     out = concat (map2 log_line sts old))"

lemma log_inv_turn:
  assumes "log_inv l ns" "log_turn st l = Inr l'"
  shows "log_inv l' ns"
proof -
  obtain g h out where l: "l = (g, h, out)" by (cases l)
  obtain xs sts old where i: "log_rep (g, h, out) xs" "ns = old @ map (note_of h) xs" "length sts = length old" "out = concat (map2 log_line sts old)"
    using assms(1) by (auto simp: l log_inv_def)
  show ?thesis
  proof (cases xs)
    case Nil
    then show ?thesis using log_turn_sleeps i(1) assms l by auto
  next
    case (Cons x ys)
    obtain g1 where g1: "l' = (g1, h, out @ log_line st (note_of h x))" "log_rep l' ys"
      using log_turn_ok[of g h out x ys st] i(1) assms(2) by (auto simp: l Cons)
    show ?thesis unfolding g1(1) log_inv_def
      using g1 i(2-4) by (auto simp: Cons intro!: exI[of _ ys] exI[of _ "sts @ [st]"] exI[of _ "old @ [note_of h x]"])
  qed
qed

lemma log_inv_notes:
  assumes "log_inv l ns" "note_all mem ms l = Inr l'"
  shows "log_inv l' (ns @ ms)"
proof -
  obtain g h out where l: "l = (g, h, out)" by (cases l)
  obtain xs sts old where i: "log_rep (g, h, out) xs" "ns = old @ map (note_of h) xs" "length sts = length old" "out = concat (map2 log_line sts old)"
    using assms(1) by (auto simp: l log_inv_def)
  obtain g1 h1 ys where "l' = (g1, h1, out)" "log_rep l' (xs @ ys)" "map (note_of h1) (xs @ ys) = map (note_of h) xs @ ms"
    using note_all_ok[OF i(1), of mem ms] assms(2) by (auto simp: ok_iff l)
  then show ?thesis using i(2-4) unfolding log_inv_def by (auto intro!: exI[of _ "xs @ ys"] exI[of _ sts] exI[of _ old])
qed

lemma app_run_log:
  assumes "app_run act a0 ms a" "log_inv (a_log a0) ns"
  shows "log_inv (a_log a) (ns @ concat (map note_of_move ms))"
  using assms
proof (induction rule: app_run.induct)
  case (move ms a mv a')
  show ?case using move(2)
  proof (cases rule: app_move_cases)
    case (makenote t nx self words l)
    then have "note_all (\<lambda>_. nx) [(self, takeWhile (\<lambda>c. c \<noteq> NUL) words)] (a_log a) = Inr l" by simp
    then show ?thesis using log_inv_notes move(3,4) makenote(1,3) by fastforce
  qed (use move(3,4) log_inv_turn run_thread_step(2) in auto)
qed simp

section \<open>The files\<close>

lemma loop_step_trace:
  assumes "loop_step src dst body t s = Inr (Some s')"
  shows "s_trace s' = s_trace s \<or> (\<exists>j p s1. body j s = Inr (p, s1) \<and> s_trace s' = s_trace s1)"
proof (cases "s_pc s t")
  case (Run j)
  then obtain p s1 where "body j s = Inr (p, s1)" "s_trace s' = s_trace s1" using assms by (auto simp: loop_step_def sbind_eq_Inr)
  then show ?thesis by blast
qed (use assms in \<open>auto simp: loop_step_def acquire_def release_def sbind_eq_Inr split: if_splits\<close>)

lemma deal_job_trace: "deal_job act j s = Inr (p, s') \<Longrightarrow> s_trace s' = s_trace s \<or> s_trace s' = s_trace s @ [EvParse j]"
  by (auto simp: deal_job_def sbind_eq_Inr split: if_splits)

text \<open>The test case \<open>j\<close> can be written: it is modelled, and its output succeeds.\<close>

definition writes_ok :: "CTestCaseCpp actions \<Rightarrow> CTestCaseCpp sys \<Rightarrow> nat \<Rightarrow> bool" where
  "writes_ok act s j \<longleftrightarrow> (\<exists>c d. s_jobs s ! j = Some c \<and> j < length (s_jobs s) \<and> stage c = MODEL_END_STAGE \<and> doWriting act (tc_data c) = Inr d)"

lemma load_SomeD: "load h (Some j) = Inr c \<Longrightarrow> j < length h \<and> h ! j = Some c"
  by (auto simp: load_def aget_def sbind_eq_Inr split: option.splits if_splits)

lemma io_job_trace:
  assumes "io_job act j s = Inr (p, s')"
  shows "s_trace s' = s_trace s \<or> s_trace s' = s_trace s @ [EvRead j] \<or> s_trace s' = s_trace s @ [EvWrite j] \<and> writes_ok act s j"
proof -
  obtain c where c: "load (s_jobs s) (Some j) = Inr c" using assms by (auto simp: io_job_def getStage_def sbind_eq_Inr)
  show ?thesis
  proof (cases "stage c")
    case MODEL_END_STAGE
    then show ?thesis using assms c load_SomeD[OF c]
      by (auto simp: io_job_def getStage_def apply_action_def sbind_eq_Inr writes_ok_def)
  qed (use assms c in \<open>auto simp: io_job_def getStage_def sbind_eq_Inr\<close>)
qed

lemma thread_step_trace:
  assumes "thread_step act t s = Inr (Some s')"
  shows "s_trace s' = s_trace s \<or> (\<exists>j. s_trace s' = s_trace s @ [EvRead j]) \<or> (\<exists>j. s_trace s' = s_trace s @ [EvParse j]) \<or>
     (\<exists>j. s_trace s' = s_trace s @ [EvWrite j] \<and> writes_ok act s j)"
proof -
  have "\<not> s_exited s" using assms by (auto simp: thread_step_def)
  then consider "loop_step InOut Work (io_job act) t s = Inr (Some s')" | "loop_step Work InOut (deal_job act) t s = Inr (Some s')"
    | "StopThread s = Inr (Some s')" | "main_wait s = Inr (Some s')"
    using assms by (cases t) (auto simp: thread_step_def dwLoopIOWork_def dwLoopWork_def)
  then show ?thesis
  proof cases
    case 1
    then show ?thesis using loop_step_trace[OF 1] io_job_trace by metis
  next
    case 2
    then show ?thesis using loop_step_trace[OF 2] deal_job_trace by metis
  next
    case 3
    then show ?thesis by (auto simp: StopThread_def split: if_splits list.splits)
  next
    case 4
    then show ?thesis by (auto simp: main_wait_def wait4ThisThread_def sbind_eq_Inr split: if_splits pc.splits)
  qed
qed

text \<open>The test cases that have been written, and what a test case is in the end.\<close>

fun written :: "event list \<Rightarrow> nat list" where
  "written [] = []"
| "written (EvWrite j # es) = j # written es"
| "written (_ # es) = written es"

lemma written_append [simp]: "written (es @ es') = written es @ written es'"
  by (induction es rule: written.induct) auto

lemma set_written [simp]: "j \<in> set (written es) \<longleftrightarrow> EvWrite j \<in> set es"
  by (induction es rule: written.induct) auto

definition case_result :: "'d actions \<Rightarrow> 'd \<Rightarrow> error + 'd" where
  "case_result act d = sbind (doReading act d) (\<lambda>d. sbind (doParsing act d) (doWriting act))"

definition disk_inv :: "CTestCaseCpp actions \<Rightarrow> CTestCaseCpp list \<Rightarrow> (string \<rightharpoonup> string) \<Rightarrow> app \<Rightarrow> bool" where
  "disk_inv act ds disk a \<longleftrightarrow> (\<forall>j \<in> set (written (s_trace (a_sys a))). j < length ds) \<and> (\<exists>tcs. map (\<lambda>j. case_result act (ds ! j)) (written (s_trace (a_sys a))) = map Inr tcs \<and>
     a_disk a = foldl do_effect disk (concat (map t_effects tcs)))"

lemma disk_inv_thread:
  assumes "disk_inv act ds disk a" "run_thread act t a = Inr (Some a')" "data_inv act ds (a_sys a)"
  shows "disk_inv act ds disk a'"
proof -
  let ?s = "a_sys a" and ?s' = "a_sys a'"
  note R = run_thread_step[OF assms(2)]
  obtain tcs where tcs: "map (\<lambda>j. case_result act (ds ! j)) (written (s_trace ?s)) = map Inr tcs" "a_disk a = foldl do_effect disk (concat (map t_effects tcs))"
    using assms(1) by (auto simp: disk_inv_def)
  consider "s_trace ?s' = s_trace ?s" | e where "s_trace ?s' = s_trace ?s @ [e]" "effects_of act ?s e = []" "written [e] = []"
    | j where "s_trace ?s' = s_trace ?s @ [EvWrite j]" "writes_ok act ?s j"
    using thread_step_trace[OF R(1)] by (fastforce simp: effects_of_def)
  then show ?thesis
  proof cases
    case 1
    then show ?thesis using tcs R(5) assms(1) by (auto simp: disk_inv_def)
  next
    case (2 e)
    then have "written (s_trace ?s') = written (s_trace ?s)" by simp
    then show ?thesis using tcs R(5) 2(1,2) assms(1) by (auto simp: disk_inv_def simp del: set_written)
  next
    case (3 j)
    obtain c d where c: "s_jobs ?s ! j = Some c" "j < length (s_jobs ?s)" "stage c = MODEL_END_STAGE" "doWriting act (tc_data c) = Inr d"
      using 3(2) by (auto simp: writes_ok_def)
    then have j: "j < length ds" "tag (s_jobs ?s) j = Some (MODEL_END_STAGE, tc_data c)"
      using assms(3) by (simp_all add: data_inv_def tag_def live_def)
    then have "case_result act (ds ! j) = Inr d" using data_invD[OF assms(3) j(1)] c(4) by (auto simp: history_def case_result_def)
    moreover have "effects_of act ?s (EvWrite j) = t_effects d" using c by (simp add: effects_of_def)
    ultimately show ?thesis using tcs R(5) 3(1) assms(1) j(1) unfolding disk_inv_def by (intro conjI exI[of _ "tcs @ [d]"]) auto
  qed
qed

lemma app_run_disk:
  assumes "app_run act a0 ms a" "started ds (a_sys a0)"
  shows "disk_inv act ds (a_disk a0) a"
  using assms(1)
proof (induction rule: app_run.induct)
  case start
  show ?case using assms(2) by (simp add: disk_inv_def started_def)
next
  case (move ms a mv a')
  have D: "data_inv act ds (a_sys a)" using reachable_inv[OF assms(2) app_run_reachable[OF move(1)]] by (simp add: pipe_inv_def)
  show ?case using move(2)
  proof (cases rule: app_move_cases)
    case (act t)
    then show ?thesis using disk_inv_thread[OF move(3) _ D] by blast
  qed (use move(3) in \<open>auto simp: disk_inv_def\<close>)
qed

subsection \<open>What one test case leaves\<close>

fun touches :: "string \<Rightarrow> effect \<Rightarrow> bool" where
  "touches f (MakeFolder d) = False"
| "touches f (WriteFile g c) = (g = f)"
| "touches f (AppendFile g c) = (g = f)"

lemma do_effect_untouched: "\<not> touches f e \<Longrightarrow> do_effect disk e f = disk f"
  by (cases e) auto

lemma effects_untouched: "\<forall>e \<in> set es. \<not> touches f e \<Longrightarrow> foldl do_effect disk es f = disk f"
  by (induction es arbitrary: disk) (auto simp: do_effect_untouched)

text \<open>A file that is only written with one text holds it.\<close>

lemma effects_written:
  assumes "WriteFile f c \<in> set es" "\<forall>e \<in> set es. touches f e \<longrightarrow> e = WriteFile f c"
  shows "foldl do_effect disk es f = Some c"
  using assms
proof (induction es rule: rev_induct)
  case (snoc e es)
  then show ?case by (cases "touches f e") (auto simp: do_effect_untouched)
qed simp

definition case_name :: "string \<Rightarrow> string" where
  "case_name line = base_name (takeWhile (\<lambda>c. c \<noteq> CHR '' '') line)"

lemma new_name:
  assumes "CTestCaseCpp_new now n = Inr tc"
  shows "testcasename tc = case_name n"
proof -
  let ?w = "takeWhile (\<lambda>c. c \<noteq> CHR '' '') n"
  have "str_substr n 0 (str_find n '' '' 0) = Inr ?w"
  proof (cases "CHR '' '' \<in> set n")
    case True
    then obtain b m where n: "n = b @ CHR '' '' # m" "CHR '' '' \<notin> set b" using split_list_first by metis
    have "str_find n '' '' 0 = int (length b)" using str_find_char[OF n(2), of "[]" m] by (simp add: n(1))
    moreover have "?w = b" using n(2) by (auto simp: n(1) takeWhile_append)
    ultimately show ?thesis by (simp add: n(1) str_substr_def)
  next
    case False
    have "str_find n '' '' 0 = - 1" using str_find_char_none[OF False, of "[]"] by simp
    moreover have w: "?w = n" using False by (auto simp: takeWhile_eq_all_conv)
    ultimately show ?thesis unfolding w by (simp add: str_substr_def)
  qed
  then show ?thesis using assms by (auto simp: CTestCaseCpp_new_def case_name_def)
qed

definition case_folder :: "string \<Rightarrow> string" where
  "case_folder line = ''..//output'' @ ''//'' @ case_name line"

abbreviation excel_file :: string where
  "excel_file \<equiv> ''..//recordsForExcel.txt''"

text \<open>The requests of a test case, in their order.\<close>

definition output_effects :: "world \<Rightarrow> string \<Rightarrow> string \<Rightarrow> CHypergraph \<Rightarrow> nat list \<Rightarrow> CTestCaseCpp \<Rightarrow> effect list" where
  "output_effects w d ans p out tc = make_folder w ''..//output'' @ make_folder w d @ [WriteFile (d @ ''//ans.txt'') ans,
     WriteFile (d @ ''//relation.txt'') (answerstring p), WriteFile (d @ ''//hypergraph.hgr'') (hyperstring p),
     WriteFile (d @ ''//vertice.txt'') (verticestring p), WriteFile (d @ ''//partition.txt'') (part_lines out),
     WriteFile (d @ ''//time.txt'') (writeTime tc), AppendFile excel_file (excel_line tc)]"

lemma doWriting_effects:
  assumes "CTestCaseCpp_doWriting w tc = Inr tc'"
  shows "\<exists>p out. t_effects tc' = t_effects tc @ output_effects w (out_folder tc) (t_lastans tc) p out tc'"
proof -
  obtain p out where "pHyper tc = Some p" "write_parts (nvtxs p) (part p) (mapForLastPart tc) = Inr out"
    using assms by (auto simp: CTestCaseCpp_doWriting_def Let_def sbind_eq_Inr split: option.splits)
  then have "t_effects tc' = t_effects tc @ output_effects w (out_folder tc) (t_lastans tc) p out tc'"
    using assms by (auto simp: CTestCaseCpp_doWriting_def Let_def excel_line_def output_effects_def)
  then show ?thesis by blast
qed

lemma doParsing_keeps:
  assumes "CTestCaseCpp_doParsing w tc = Inr tc'"
  shows "testcasename tc' = testcasename tc \<and> t_effects tc' = t_effects tc"
  using assms by (auto simp: CTestCaseCpp_doParsing_def CTestCaseCpp_doModeling_def parse_all_def sbind_eq_Inr Let_def)

definition whole_case :: "(string \<Rightarrow> timeval) \<Rightarrow> (string \<Rightarrow> world) \<Rightarrow> string \<Rightarrow> error + CTestCaseCpp" where
  "whole_case now W n = sbind (CTestCaseCpp_new (now n) n) (case_result (program_actions W))"

lemma make_folder_touches [simp]: "e \<in> set (make_folder w d) \<Longrightarrow> \<not> touches f e"
  by (auto simp: make_folder_def split: if_splits)

lemma whole_case_effects:
  assumes "whole_case now W n = Inr tc"
  obtains d tc1 tc2 w ans p out where "CTestCaseCpp_new (now n) n = Inr d" "CTestCaseCpp_doReading (W n) d = Inr tc1"
     "CTestCaseCpp_doParsing (W n) tc1 = Inr tc2" "CTestCaseCpp_doWriting w tc2 = Inr tc" "t_calledrelation tc1 = []"
     "out_folder tc1 = case_folder n" "t_effects tc = output_effects w (case_folder n) ans p out tc"
proof -
  obtain d tc1 tc2 where c: "CTestCaseCpp_new (now n) n = Inr d" "CTestCaseCpp_doReading (W (strPara d)) d = Inr tc1"
      "CTestCaseCpp_doParsing (W (strPara tc1)) tc1 = Inr tc2" "CTestCaseCpp_doWriting (W (strPara tc2)) tc2 = Inr tc"
    using assms by (auto simp: whole_case_def case_result_def program_actions_def sbind_eq_Inr)
  note N = new_simps[OF c(1)] and R = doReading_keeps[OF c(2)] and P = doParsing_keeps[OF c(3)]
  have n: "strPara d = n" "strPara tc1 = n" "t_calledrelation tc1 = []" "t_effects tc2 = []" using N R P by simp_all
  have f: "out_folder tc1 = case_folder n" "out_folder tc2 = case_folder n"
    using new_name[OF c(1)] R P by (simp_all add: out_folder_def case_folder_def)
  obtain p out where "t_effects tc = output_effects (W (strPara tc2)) (case_folder n) (t_lastans tc2) p out tc"
    using doWriting_effects[OF c(4)] n(4) f(2) by auto
  then show thesis by (rule that[OF c(1) c(2)[unfolded n] c(3)[unfolded n] c(4) n(3) f(1)])
qed

lemma output_effects_excel:
  "foldl do_effect disk (output_effects w (case_folder n) ans p out tc) excel_file =
     Some ((case disk excel_file of None \<Rightarrow> [] | Some old \<Rightarrow> old) @ excel_line tc)"
proof -
  obtain es where es: "output_effects w (case_folder n) ans p out tc = es @ [AppendFile excel_file (excel_line tc)]" "\<forall>e \<in> set es. \<not> touches excel_file e"
    by (rule that[of "butlast (output_effects w (case_folder n) ans p out tc)"]) (auto simp: output_effects_def butlast_append case_folder_def)
  then show ?thesis using effects_untouched[OF es(2), of disk] by (simp split: option.splits)
qed

lemma disk_records:
  assumes "map (whole_case now W) ns = map Inr tcs" "disk excel_file = Some t"
  shows "foldl do_effect disk (concat (map t_effects tcs)) excel_file = Some (t @ concat (map excel_line tcs))"
  using assms
proof (induction tcs arbitrary: ns disk t)
  case (Cons tc tcs)
  then obtain n ns' where n: "ns = n # ns'" "whole_case now W n = Inr tc" "map (whole_case now W) ns' = map Inr tcs" by (cases ns) auto
  obtain w ans p out where "t_effects tc = output_effects w (case_folder n) ans p out tc" using whole_case_effects[OF n(2)] by metis
  then have "foldl do_effect disk (t_effects tc) excel_file = Some (t @ excel_line tc)" using Cons.prems(2) by (simp add: output_effects_excel)
  then show ?case using Cons.IH[OF n(3)] by simp
qed simp

section \<open>The start\<close>

lemma log_inv_new: "CLog_new 0 h = Inr l \<Longrightarrow> log_inv l []"
  by (auto simp: CLog_new_def CLock_new_def log_inv_def log_rep_def lock_free_def)

lemma app_startD:
  assumes "app_start now mem lmem self disk menufile input = Inr a0"
  obtains nms ds where "menu menufile = Inr nms" "map (\<lambda>n. CTestCaseCpp_new (now n) n) nms = map Inr ds" "started ds (a_sys a0)"
     "log_inv (a_log a0) (map (first_note self) nms)" "a_disk a0 excel_file = Some excel_header"
proof -
  obtain nms l s where a: "CLog_new 0 [] = Inr l" "menu menufile = Inr nms" "main now mem menufile input = Inr s"
      "note_all lmem (map (first_note self) nms) l = Inr (a_log a0)" "a_sys a0 = s" "a_disk a0 = foldl do_effect disk excel_start"
    using assms by (auto simp: app_start_def sbind_eq_Inr)
  obtain ds where "map (\<lambda>n. CTestCaseCpp_new (now n) n) nms = map Inr ds" "started ds (a_sys a0)"
    using OnParserOpenfiles_started[OF a(3)[unfolded main_def]] a(2,5) by auto
  moreover have "a_disk a0 excel_file = Some excel_header" by (simp add: a(6) excel_start_def)
  ultimately show thesis using that[OF a(2)] log_inv_notes[OF log_inv_new[OF a(1)] a(4)] by simp
qed

lemma history_write_once:
  assumes "history act d j tg tr"
  shows "count_list tr (EvWrite j) \<le> 1"
proof (cases tg)
  case None
  then show ?thesis using assms by (simp add: history_def)
next
  case (Some x)
  then show ?thesis using assms by (cases "fst x") (auto simp: history_def case_prod_beta)
qed

lemma count_written: "count_list (written tr) j = count_list (ev_of j tr) (EvWrite j)"
  by (induction tr rule: written.induct) (auto simp: ev_of_def)

lemma written_once:
  assumes "data_inv act ds s" "\<forall>j \<in> set (written (s_trace s)). j < length ds"
  shows "distinct (written (s_trace s))"
proof -
  have "count_list (written (s_trace s)) j = 1" if "j \<in> set (written (s_trace s))" for j
  proof -
    have "count_list (ev_of j (s_trace s)) (EvWrite j) \<le> 1" by (rule history_write_once[OF data_invD[OF assms(1)]]) (use assms(2) that in blast)
    then show ?thesis using that count_list_0_iff[of "written (s_trace s)" j] unfolding count_written by linarith
  qed
  then show ?thesis by (simp add: distinct_count_atmost_1 count_mset count_list_0_iff del: set_written)
qed

text \<open>The files and the written test cases of a state, by the lines of the menu.\<close>

lemma app_written:
  assumes "app_start now mem lmem self disk menufile input = Inr a0" "app_run (program_actions W) a0 ms a" "menu menufile = Inr nms"
  obtains tcs where "\<forall>j \<in> set (written (s_trace (a_sys a))). j < length nms" "distinct (written (s_trace (a_sys a)))"
     "map (\<lambda>j. whole_case now W (nms ! j)) (written (s_trace (a_sys a))) = map Inr tcs"
     "a_disk a = foldl do_effect (a_disk a0) (concat (map t_effects tcs))"
proof -
  let ?js = "written (s_trace (a_sys a))"
  obtain ds where d: "map (\<lambda>n. CTestCaseCpp_new (now n) n) nms = map Inr ds" "started ds (a_sys a0)"
    using app_startD[OF assms(1)] assms(3) by (metis sum.inject(2))
  have len: "length ds = length nms" using map_eq_imp_length_eq[OF d(1)] by simp
  have D: "data_inv (program_actions W) ds (a_sys a)" using reachable_inv[OF d(2) app_run_reachable[OF assms(2)]] by (simp add: pipe_inv_def)
  obtain tcs where t: "\<forall>j \<in> set ?js. j < length ds" "map (\<lambda>j. case_result (program_actions W) (ds ! j)) ?js = map Inr tcs"
      "a_disk a = foldl do_effect (a_disk a0) (concat (map t_effects tcs))"
    using app_run_disk[OF assms(2) d(2)] by (auto simp: disk_inv_def)
  have "whole_case now W (nms ! j) = case_result (program_actions W) (ds ! j)" if "j \<in> set ?js" for j
  proof -
    have "CTestCaseCpp_new (now (nms ! j)) (nms ! j) = Inr (ds ! j)"
      using arg_cong[OF d(1), of "\<lambda>xs. xs ! j"] t(1) that len by simp
    then show ?thesis by (simp add: whole_case_def)
  qed
  then have "map (\<lambda>j. whole_case now W (nms ! j)) ?js = map (\<lambda>j. case_result (program_actions W) (ds ! j)) ?js" by (rule map_cong[OF refl])
  then show thesis using that t written_once[OF D t(1)] len by simp
qed

section \<open>Properties\<close>

text \<open>
  C19. Whatever the threads do and whichever of them can be created, \<open>recordsForExcel.txt\<close> holds at every moment its head line and then one
  line per test case that has been written, in the order of writing: no line is lost, doubled
  or mixed with another.
\<close>

theorem app_records:
  assumes "app_start now mem lmem self disk menufile input = Inr a0" "app_run (program_actions W) a0 ms a"
  shows "\<exists>nms tcs. menu menufile = Inr nms \<and> (\<forall>j \<in> set (written (s_trace (a_sys a))). j < length nms) \<and> distinct (written (s_trace (a_sys a))) \<and>
     map (\<lambda>j. whole_case now W (nms ! j)) (written (s_trace (a_sys a))) = map Inr tcs \<and>
     a_disk a ''..//recordsForExcel.txt'' = Some (excel_header @ concat (map excel_line tcs))"
proof -
  let ?js = "written (s_trace (a_sys a))"
  obtain nms where m: "menu menufile = Inr nms" "a_disk a0 excel_file = Some excel_header" using app_startD[OF assms(1)] by blast
  obtain tcs where t: "\<forall>j \<in> set ?js. j < length nms" "distinct ?js" "map (\<lambda>j. whole_case now W (nms ! j)) ?js = map Inr tcs"
      "a_disk a = foldl do_effect (a_disk a0) (concat (map t_effects tcs))" by (rule app_written[OF assms m(1)])
  have "map (whole_case now W) (map ((!) nms) ?js) = map Inr tcs" using t(3) by (simp add: comp_def)
  from disk_records[where disk = "a_disk a0", OF this m(2)] show ?thesis using m(1) t by auto
qed

text \<open>
  C36. The log in the running program: at every moment \<open>clog.txt\<close> holds the first notes of those made so
  far, in their order and one line each, with the constructors of the test cases first; as many turns of
  the log thread as there are notes left write the others, in their order; and
  neither making a note nor a turn of the log thread can fail. The links of new notes hold whatever their memory holds.
\<close>

theorem app_log:
  assumes "app_start now mem lmem self disk menufile input = Inr a0" "app_run (program_actions W) a0 ms a" "menu menufile = Inr nms"
    and "ns = map (first_note self) nms @ concat (map note_of_move ms)"
  shows "(\<exists>k stamps. k \<le> length ns \<and> length stamps = k \<and> snd (snd (a_log a)) = concat (map2 log_line stamps (take k ns)) \<and>
       (\<forall>later. length later = length ns - k \<longrightarrow>
          (\<exists>g h. turn_all later (a_log a) = Inr (g, h, concat (map2 log_line (stamps @ later) ns))))) \<and>
     (\<forall>st. \<exists>r. app_move (program_actions W) (LogTurn st) a = Inr r) \<and> (\<forall>t nx id words. \<exists>r. app_move (program_actions W) (MakeNote t nx id words) a = Inr r)"
proof -
  have "log_inv (a_log a0) (map (first_note self) nms)" using app_startD[OF assms(1)] assms(3) by (metis sum.inject(2))
  then have "log_inv (a_log a) ns" unfolding assms(4) by (rule app_run_log[OF assms(2)])
  moreover obtain g h out where l: "a_log a = (g, h, out)" by (cases "a_log a")
  ultimately obtain xs sts old where i: "log_rep (g, h, out) xs" "ns = old @ map (note_of h) xs" "length sts = length old"
      "out = concat (map2 log_line sts old)" by (auto simp: log_inv_def)
  have L: "\<exists>g h. turn_all later (a_log a) = Inr (g, h, concat (map2 log_line (sts @ later) ns))" if "length later = length ns - length old" for later
    using turn_all_ok[OF i(1), of later] that i(2-4) by (auto simp: l ok_iff)
  have "\<exists>k stamps. k \<le> length ns \<and> length stamps = k \<and> snd (snd (a_log a)) = concat (map2 log_line stamps (take k ns)) \<and>
      (\<forall>later. length later = length ns - k \<longrightarrow> (\<exists>g h. turn_all later (a_log a) = Inr (g, h, concat (map2 log_line (stamps @ later) ns))))"
    using i(2-4) L by (intro exI[of _ "length old"] exI[of _ sts]) (simp add: l)
  moreover have T: "\<exists>r. log_turn st (a_log a) = Inr r" for st
    using i(1) log_turn_sleeps[of "a_log a" st] log_turn_ok[of g h out _ _ st] unfolding l by (cases xs) blast+
  have "\<exists>r. app_move (program_actions W) (LogTurn st) a = Inr r" for st
  proof -
    obtain l where "log_turn st (a_log a) = Inr l" using T by blast
    then show ?thesis by (simp add: app_move_def)
  qed
  moreover have N: "\<exists>r. CLogNote id [] nx words (a_log a) = Inr r" for id nx words
    using note_all_ok[OF i(1), of "\<lambda>_. nx" "[(id, words)]"] by (auto simp: ok_iff l sbind_eq_Inr)
  have "\<exists>r. app_move (program_actions W) (MakeNote t nx id words) a = Inr r" for t nx id words
  proof -
    obtain l where "CLogNote id [] nx (takeWhile (\<lambda>c. c \<noteq> NUL) words) (a_log a) = Inr l" using N by blast
    then show ?thesis by (simp add: app_move_def split: pc.split)
  qed
  ultimately show ?thesis by blast
qed

text \<open>A test case that is written last under its name leaves its files.\<close>

lemma disk_last:
  assumes "WriteFile f x \<in> set (t_effects tc)" "\<And>e. e \<in> set (t_effects tc) \<Longrightarrow> touches f e \<Longrightarrow> e = WriteFile f x"
    and "\<And>tc' e. tc' \<in> set tcs1 \<Longrightarrow> e \<in> set (t_effects tc') \<Longrightarrow> \<not> touches f e"
  shows "foldl do_effect disk (concat (map t_effects (tcs0 @ tc # tcs1))) f = Some x"
proof -
  have "\<forall>e \<in> set (t_effects tc). touches f e \<longrightarrow> e = WriteFile f x" "\<forall>e \<in> set (concat (map t_effects tcs1)). \<not> touches f e"
    using assms(2,3) by auto
  then show ?thesis using effects_written[OF assms(1)] effects_untouched[of "concat (map t_effects tcs1)" f] by simp
qed

lemma name_clash: "take 9 (rev a) \<noteq> take 9 (rev b) \<Longrightarrow> 9 \<le> length a \<Longrightarrow> 9 \<le> length b \<Longrightarrow> xs @ a \<noteq> ys @ b"
proof
  assume l: "9 \<le> length a" "9 \<le> length b" and "xs @ a = ys @ b"
  then have "rev a @ rev xs = rev b @ rev ys" by (metis rev_append)
  from arg_cong[OF this, of "take 9"] have "take 9 (rev a) = take 9 (rev b)" using l by simp
  then show "take 9 (rev a) \<noteq> take 9 (rev b) \<Longrightarrow> False" by simp
qed

lemma partition_clashes:
  "d' @ ''//ans.txt'' \<noteq> d @ ''//partition.txt''" "d' @ ''//relation.txt'' \<noteq> d @ ''//partition.txt''" "d' @ ''//hypergraph.hgr'' \<noteq> d @ ''//partition.txt''"
  "d' @ ''//vertice.txt'' \<noteq> d @ ''//partition.txt''" "d' @ ''//time.txt'' \<noteq> d @ ''//partition.txt''" "excel_file \<noteq> d @ ''//partition.txt''"
  by (rule name_clash; simp)+ (rule name_clash[of _ _ "[]", simplified append_Nil]; simp)

lemma relation_clashes:
  "d' @ ''//ans.txt'' \<noteq> d @ ''//relation.txt''" "d' @ ''//partition.txt'' \<noteq> d @ ''//relation.txt''" "d' @ ''//hypergraph.hgr'' \<noteq> d @ ''//relation.txt''"
  "d' @ ''//vertice.txt'' \<noteq> d @ ''//relation.txt''" "d' @ ''//time.txt'' \<noteq> d @ ''//relation.txt''" "excel_file \<noteq> d @ ''//relation.txt''"
  by (rule name_clash; simp)+ (rule name_clash[of _ _ "[]", simplified append_Nil]; simp)

lemma output_effects_touch:
  assumes "e \<in> set (output_effects w d' ans p out tc)"
  shows "touches (d @ ''//partition.txt'') e \<Longrightarrow> d' = d \<and> e = WriteFile (d @ ''//partition.txt'') (part_lines out)"
    "touches (d @ ''//relation.txt'') e \<Longrightarrow> d' = d \<and> e = WriteFile (d @ ''//relation.txt'') (answerstring p)"
proof -
  let ?W = "[WriteFile (d' @ ''//ans.txt'') ans, WriteFile (d' @ ''//relation.txt'') (answerstring p), WriteFile (d' @ ''//hypergraph.hgr'') (hyperstring p),
     WriteFile (d' @ ''//vertice.txt'') (verticestring p), WriteFile (d' @ ''//partition.txt'') (part_lines out),
     WriteFile (d' @ ''//time.txt'') (writeTime tc), AppendFile excel_file (excel_line tc)]"
  have W: "e \<in> set ?W" if "touches f e" for f
    using assms that make_folder_touches unfolding output_effects_def set_append by blast
  show "d' = d \<and> e = WriteFile (d @ ''//partition.txt'') (part_lines out)" if "touches (d @ ''//partition.txt'') e"
    using W[OF that] that unfolding list.set insert_iff empty_iff by (elim disjE) (simp_all only: touches.simps partition_clashes append_same_eq simp_thms)
  show "d' = d \<and> e = WriteFile (d @ ''//relation.txt'') (answerstring p)" if "touches (d @ ''//relation.txt'') e"
    using W[OF that] that unfolding list.set insert_iff empty_iff by (elim disjE) (simp_all only: touches.simps relation_clashes append_same_eq simp_thms)
qed

lemma whole_case_untouched:
  assumes "whole_case now W n = Inr tc" "e \<in> set (t_effects tc)" "case_folder n \<noteq> d"
  shows "\<not> touches (d @ ''//partition.txt'') e" "\<not> touches (d @ ''//relation.txt'') e"
proof -
  obtain w ans p out where "t_effects tc = output_effects w (case_folder n) ans p out tc" using whole_case_effects[OF assms(1)] by metis
  then have e: "e \<in> set (output_effects w (case_folder n) ans p out tc)" using assms(2) by simp
  show "\<not> touches (d @ ''//partition.txt'') e" "\<not> touches (d @ ''//relation.txt'') e"
    using output_effects_touch[OF e, of d] assms(3) by auto
qed

text \<open>
  C3. The files that the program leaves, whatever its threads do: a test case that has been written, and
  after it no other of the same name, has its folder below \<open>output\<close>, in which \<open>partition.txt\<close> holds an
  architecture of the relation that was parsed from its files, and \<open>relation.txt\<close> that relation.
\<close>

theorem app_files:
  assumes "app_start now mem lmem self disk menufile input = Inr a0" "app_run (program_actions W) a0 ms a" "menu menufile = Inr nms"
    and "written (s_trace (a_sys a)) = js @ j # ks" "\<forall>k \<in> set ks. case_name (nms ! k) \<noteq> case_name (nms ! j)"
  shows "\<exists>tc tc1 tc2 cls out. CTestCaseCpp_new (now (nms ! j)) (nms ! j) = Inr tc \<and> CTestCaseCpp_doReading (W (nms ! j)) tc = Inr tc1 \<and>
     CTestCaseCpp_doParsing (W (nms ! j)) tc1 = Inr tc2 \<and> sound (t_hmap tc1) (t_calledrelation tc2) \<and> architecture (t_calledrelation tc2) cls out \<and>
     a_disk a (''..//output//'' @ case_name (nms ! j) @ ''//partition.txt'') = Some (part_lines out) \<and>
     a_disk a (''..//output//'' @ case_name (nms ! j) @ ''//relation.txt'') = Some (concat (map answer_text (t_calledrelation tc2)))"
proof -
  let ?n = "nms ! j" and ?d = "case_folder (nms ! j)"
  obtain tcs where t: "map (\<lambda>j. whole_case now W (nms ! j)) (js @ j # ks) = map Inr tcs"
      "a_disk a = foldl do_effect (a_disk a0) (concat (map t_effects tcs))"
    using app_written[OF assms(1-3)] unfolding assms(4) by metis
  then obtain tcs0 tc tcs1 where tcs: "tcs = tcs0 @ tc # tcs1" "whole_case now W ?n = Inr tc"
      "map (\<lambda>j. whole_case now W (nms ! j)) ks = map Inr tcs1"
    by (auto simp: append_eq_map_conv Cons_eq_map_conv map_eq_append_conv map_eq_Cons_conv)
  have later: "\<exists>k \<in> set ks. whole_case now W (nms ! k) = Inr tc'" if "tc' \<in> set tcs1" for tc'
    using arg_cong[OF tcs(3), of set] that by (auto simp: image_iff) (metis (no_types, lifting) image_iff)
  obtain d tc1 tc2 w ans p out where c: "CTestCaseCpp_new (now ?n) ?n = Inr d" "CTestCaseCpp_doReading (W ?n) d = Inr tc1"
     "CTestCaseCpp_doParsing (W ?n) tc1 = Inr tc2" "CTestCaseCpp_doWriting w tc2 = Inr tc" "t_calledrelation tc1 = []"
     "out_folder tc1 = ?d" "t_effects tc = output_effects w ?d ans p out tc" by (rule whole_case_effects[OF tcs(2)])
  have u: "\<not> touches (?d @ ''//partition.txt'') e" "\<not> touches (?d @ ''//relation.txt'') e" if "tc' \<in> set tcs1" "e \<in> set (t_effects tc')" for tc' e
  proof -
    from later[OF that(1)] obtain k where k: "k \<in> set ks" "whole_case now W (nms ! k) = Inr tc'" by blast
    have "case_folder (nms ! k) \<noteq> ?d" using assms(5) k(1) by (simp add: case_folder_def)
    then show "\<not> touches (?d @ ''//partition.txt'') e" "\<not> touches (?d @ ''//relation.txt'') e" by (rule whole_case_untouched[OF k(2) that(2)])+
  qed
  obtain tc3 cls out' where o: "CTestCaseCpp_doWriting w tc2 = Inr tc3" "sound (t_hmap tc1) (t_calledrelation tc2)" "architecture (t_calledrelation tc2) cls out'"
      "WriteFile (?d @ ''//partition.txt'') (part_lines out') \<in> set (t_effects tc3)"
      "WriteFile (?d @ ''//relation.txt'') (concat (map answer_text (t_calledrelation tc2))) \<in> set (t_effects tc3)"
    using doParsing_ok[OF c(3,5), of w, unfolded c(6)] unfolding insert_subset by metis
  have E: "tc3 = tc" using o(1) c(4) by simp
  note T = output_effects_touch[where d' = ?d and d = ?d and w = w and ans = ans and p = p and out = out and tc = tc, folded c(7)]
  have P: "part_lines out' = part_lines out" "concat (map answer_text (t_calledrelation tc2)) = answerstring p"
    using T(1)[OF o(4)[unfolded E]] T(2)[OF o(5)[unfolded E]] by simp_all
  have "a_disk a (?d @ ''//partition.txt'') = Some (part_lines out')" unfolding t(2) tcs(1)
    by (rule disk_last[OF o(4)[unfolded E]]) (use T(1) P(1) u(1) in metis)+
  moreover have "a_disk a (?d @ ''//relation.txt'') = Some (concat (map answer_text (t_calledrelation tc2)))" unfolding t(2) tcs(1)
    by (rule disk_last[OF o(5)[unfolded E]]) (use T(2) P(2) u(2) in metis)+
  ultimately show ?thesis using c(1-3) o(2,3) by (auto simp: case_folder_def)
qed

section \<open>A run\<close>

text \<open>One test case, taken by the threads one after the other.\<close>

definition sample_order :: "tid list" where
  "sample_order = replicate 6 IO @ replicate 6 W1 @ replicate 4 IO"

lemmas steps = OnParserOpenfiles_def CMgrJob_new_def CLock_new_def add_case_def addIOJob_def with_IOlock_def CLock_Lock_def CLock_Unlock_def
  addIOJob_body_def getIOJob_body_def addJob_body_def getJob_body_def sample_order_def thread_step_def dwLoopIOWork_def dwLoopWork_def
  loop_step_def acquire_def release_def goto_def q_lock_def q_set_lock_def q_get_def q_add_def io_job_def deal_job_def apply_action_def
  getStage_def setStage_def load_def store_def numeral_eq_Suc Let_def

lemma one_case_run:
  assumes "menu menufile = Inr [n]" "new n = Inr d0" "doReading act d0 = Inr d1" "doParsing act d1 = Inr d2" "doWriting act d2 = Inr d3"
  obtains s0 s1 s c where "OnParserOpenfiles new mem menufile input = Inr s0" "run_sched act (replicate 6 IO @ replicate 6 W1) s0 = Inr s1"
     "s_jobs s1 = [Some c]" "stage c = MODEL_END_STAGE" "run_sched act sample_order s0 = Inr s"
     "length (s_jobs s) = 1" "s_trace s = [EvRead 0, EvParse 0, EvWrite 0]"
proof -
  have "\<exists>s0. OnParserOpenfiles new mem menufile input = Inr s0 \<and> (\<exists>s1 c. run_sched act (replicate 6 IO @ replicate 6 W1) s0 = Inr s1 \<and>
      s_jobs s1 = [Some c] \<and> stage c = MODEL_END_STAGE) \<and> (\<exists>s. run_sched act sample_order s0 = Inr s \<and>
      length (s_jobs s) = 1 \<and> s_trace s = [EvRead 0, EvParse 0, EvWrite 0])"
    using assms by (simp add: steps)
  then show thesis using that by blast
qed

definition sample_main :: "error + CTestCaseCpp sys" where
  "sample_main = main (\<lambda>_. \<lparr>tv_sec = 0, tv_usec = 0\<rparr>) (\<lambda>a. (Some 7, Some a)) [''path:t 2 10''] [''exit'']"

lemma sample_main_run:
  obtains s0 s1 s c where "sample_main = Inr s0"
     "run_sched (program_actions (\<lambda>_. sample_world)) (replicate 6 IO @ replicate 6 W1) s0 = Inr s1" "s_jobs s1 = [Some c]" "stage c = MODEL_END_STAGE"
     "run_sched (program_actions (\<lambda>_. sample_world)) sample_order s0 = Inr s"
     "length (s_jobs s) = 1" "s_trace s = [EvRead 0, EvParse 0, EvWrite 0]"
proof -
  let ?act = "program_actions (\<lambda>_. sample_world)"
  obtain tc where r: "sample_read = Inr tc" using sample_parsed by blast
  then obtain tc0 where t: "sample_new = Inr tc0" "CTestCaseCpp_doReading sample_world tc0 = Inr tc"
    unfolding sample_read_def sbind_eq_Inr by blast
  obtain tc2 tc3 where d: "CTestCaseCpp_doParsing sample_world tc = Inr tc2" "CTestCaseCpp_doWriting sample_world tc2 = Inr tc3"
    using sample_actions_ok[OF r] by blast
  have m: "menu [''path:t 2 10''] = Inr [''t 2 10'']" by code_simp
  have n: "(\<lambda>name. CTestCaseCpp_new \<lparr>tv_sec = 0, tv_usec = 0\<rparr> name) ''t 2 10'' = Inr tc0" using t(1) by (simp add: sample_new_def)
  have a: "doReading ?act tc0 = Inr tc" "doParsing ?act tc = Inr tc2" "doWriting ?act tc2 = Inr tc3"
    using t(2) d by (simp_all add: program_actions_def)
  show thesis
    by (rule one_case_run[where new = "\<lambda>name. CTestCaseCpp_new \<lparr>tv_sec = 0, tv_usec = 0\<rparr> name", OF m n a])
      (rule that[unfolded sample_main_def main_def])
qed

text \<open>
  C37. The process ends without waiting for its work: both waits of \<open>OnParserOpenfiles\<close> are for the
  first parsing thread, so the process has ended only when that thread has, and whenever, in a state
  the program reaches, \<open>exit\<close> is the next ending word of the input and the first parsing thread is
  between two jobs, the program can go on so that that thread ends, the main thread gets past its
  first wait and, at the return of the second one, the process ends, with the second parsing thread
  and the input and output thread wherever they were, and no test case touched: no step of any
  thread follows. (The second wait joins a joined thread, which its specification leaves open; it
  is taken to return.)
\<close>

theorem main_exits_early:
  assumes "main now mem menufile input = Inr s0" "reachable (program_actions W) s0 s"
  shows "(s_exited s \<longrightarrow> s_pc s W1 = Finished) \<and>
    (loopWorking (s_mgr s) \<and> s_pc s W1 = Check \<and> s_input s = ws @ ''exit'' # rest \<and> (\<forall>w \<in> set ws. length w < 1024 \<and> w \<noteq> ''exit'') \<longrightarrow>
     (\<exists>s1 s'. reachable (program_actions W) s s1 \<and> s_pc s1 Main = GetWait \<and> s_pc s1 W1 = Finished \<and>
        thread_step (program_actions W) Main s1 = Inr (Some s') \<and> s_exited s' \<and> (\<forall>t. thread_step (program_actions W) t s' = Inr None) \<and>
        s_jobs s' = s_jobs s \<and> s_trace s' = s_trace s \<and> s_pc s' W2 = s_pc s W2 \<and> s_pc s' IO = s_pc s IO))"
proof -
  note s0 = assms(1)[unfolded main_def]
  have "main_inv s" by (rule reachable_main_inv[OF assms(2) start_main_inv[OF s0]])
  then show ?thesis using exits_early[OF s0 assms(2)] by (auto simp: main_inv_def)
qed

text \<open>The test case has been read and the second parsing thread has taken it when \<open>exit\<close> is read.\<close>

lemma half_case_run:
  assumes "menu menufile = Inr [n]" "new n = Inr d0" "doReading act d0 = Inr d1" "OnParserOpenfiles new mem menufile input = Inr s0"
  shows "\<exists>s. run_sched act (replicate 6 IO @ replicate 3 W2) s0 = Inr s \<and> loopWorking (s_mgr s) \<and> s_pc s W1 = Check \<and> s_input s = input \<and>
     s_pc s W2 = Run 0 \<and> s_trace s = [EvRead 0]"
  using assms by (auto simp: steps)

theorem main_exits_early_witness:
  "\<exists>s0 s1 s'. sample_main = Inr s0 \<and> reachable (program_actions (\<lambda>_. sample_world)) s0 s1 \<and>
     thread_step (program_actions (\<lambda>_. sample_world)) Main s1 = Inr (Some s') \<and> s_exited s' \<and>
     (\<forall>t. thread_step (program_actions (\<lambda>_. sample_world)) t s' = Inr None) \<and> s_trace s' = [EvRead 0] \<and> s_pc s' W2 = Run 0"
proof -
  let ?act = "program_actions (\<lambda>_. sample_world)"
  obtain s0 where s0: "sample_main = Inr s0" by (rule sample_main_run)
  obtain tc tc0 where t: "sample_new = Inr tc0" "CTestCaseCpp_doReading sample_world tc0 = Inr tc"
    using sample_parsed unfolding sample_read_def sbind_eq_Inr by blast
  have m: "menu [''path:t 2 10''] = Inr [''t 2 10'']" by code_simp
  have a: "(\<lambda>name. CTestCaseCpp_new \<lparr>tv_sec = 0, tv_usec = 0\<rparr> name) ''t 2 10'' = Inr tc0" "doReading ?act tc0 = Inr tc"
    using t by (simp_all add: sample_new_def program_actions_def)
  obtain s where s: "run_sched ?act (replicate 6 IO @ replicate 3 W2) s0 = Inr s" "loopWorking (s_mgr s)" "s_pc s W1 = Check"
      "s_input s = [''exit'']" "s_pc s W2 = Run 0" "s_trace s = [EvRead 0]"
    using half_case_run[OF m a(1) a(2) s0[unfolded sample_main_def main_def]] by blast
  have r: "reachable ?act s0 s" by (rule run_sched_reachable[OF reachable.init s(1)])
  have "loopWorking (s_mgr s) \<and> s_pc s W1 = Check \<and> s_input s = [] @ ''exit'' # [] \<and> (\<forall>w \<in> set []. length w < 1024 \<and> w \<noteq> ''exit'')"
    using s(2-4) by simp
  from mp[OF conjunct2[OF main_exits_early[OF s0[unfolded sample_main_def] r]] this] obtain s1 s' where e: "reachable ?act s s1" "thread_step ?act Main s1 = Inr (Some s')" "s_exited s'"
      "\<forall>t. thread_step ?act t s' = Inr None" "s_trace s' = s_trace s" "s_pc s' W2 = s_pc s W2"
    by blast
  have "reachable ?act s0 s1" by (rule reachable_trans[OF e(1) r])
  then show ?thesis using s0 e(2-6) s(5,6) by metis
qed

text \<open>All threads are created, and then take turns.\<close>

lemma all_created:
  assumes "a_todo a0 = [CLogThread, Loop IO, Loop W1, Loop W2, Loop Stop]" "a_threads a0 = []" "\<not> s_exited (a_sys a0)"
  shows "app_run act a0 (replicate 5 (Create 0)) (a0\<lparr>a_todo := [], a_threads := [CLogThread, Loop IO, Loop W1, Loop W2, Loop Stop]\<rparr>)"
proof -
  have "app_run act a0 (replicate k (Create 0)) (a0\<lparr>a_todo := drop k [CLogThread, Loop IO, Loop W1, Loop W2, Loop Stop],
      a_threads := take k [CLogThread, Loop IO, Loop W1, Loop W2, Loop Stop]\<rparr>)" if "k \<le> 5" for k
    using that
  proof (induction k)
    case 0
    have "a0\<lparr>a_todo := [CLogThread, Loop IO, Loop W1, Loop W2, Loop Stop], a_threads := []\<rparr> = a0" using assms(1,2) by (cases a0) simp
    then show ?case using app_run.start[of act a0] by simp
  next
    case (Suc k)
    have "k = 0 \<or> k = 1 \<or> k = 2 \<or> k = 3 \<or> k = 4" using Suc.prems by auto
    then show ?case unfolding replicate_append_same[symmetric] replicate_Suc
      by (intro app_run.move[OF Suc.IH]) (use Suc.prems assms(3) in \<open>auto simp: app_move_def CThread_new_def numeral_eq_Suc\<close>)
  qed
  from this[of 5] show ?thesis by simp
qed

lemma sched_app:
  assumes "run_sched act ts (a_sys a) = Inr s'" "a_todo a = []" "\<forall>t. t \<noteq> Main \<longrightarrow> Loop t \<in> set (a_threads a)" "m_pMgrJob (a_obj a) \<noteq> None"
    "app_run act a0 ms a"
  shows "\<exists>a'. app_run act a0 (ms @ map Act ts) a' \<and> a_sys a' = s'"
  using assms
proof (induction ts arbitrary: a ms)
  case (Cons t ts)
  obtain s1 where s1: "thread_step act t (a_sys a) = Inr (Some s1)" "run_sched act ts s1 = Inr s'"
    using Cons.prems(1) by (auto simp: sbind_eq_Inr split: option.splits)
  then obtain a1 where a1: "run_thread act t a = Inr (Some a1)" "a_sys a1 = s1" "a_obj a1 = a_obj a" by (auto simp: run_thread_def)
  have "\<not> s_exited (a_sys a)" using s1(1) by (auto simp: thread_step_def)
  then have "app_move act (Act t) a = Inr (Some a1)" using Cons.prems(2-4) a1(1) by (auto simp: app_move_def)
  then have "app_run act a0 (ms @ [Act t]) a1" by (rule app_run.move[OF Cons.prems(5)])
  from Cons.IH[OF _ _ _ _ this] show ?case using s1(2) a1 run_thread_step[OF a1(1)] Cons.prems by simp
qed auto

lemma app_start_ok:
  assumes "main now mem menufile input = Inr s" "menu menufile = Inr nms"
  obtains a0 where "app_start now mem lmem self disk menufile input = Inr a0" "a_sys a0 = s" "m_pMgrJob (a_obj a0) \<noteq> None"
     "a_todo a0 = [CLogThread, Loop IO, Loop W1, Loop W2, Loop Stop]" "a_threads a0 = []"
proof -
  obtain g where g: "CLog_new 0 [] = Inr (g, [], [])" "log_rep (g, [], []) []"
    by (auto simp: CLog_new_def CLock_new_def log_rep_def lock_free_def)
  obtain l where "note_all lmem (map (first_note self) nms) (g, [], []) = Inr l" using note_all_ok[OF g(2), of lmem "map (first_note self) nms"] by (auto simp: ok_iff)
  then show thesis using that[of "\<lparr>a_obj = CArchitectureApp_new\<lparr>m_pMgrJob := Some 0\<rparr>, a_sys = s, a_log = l, a_disk = foldl do_effect disk excel_start,
         a_todo = [CLogThread, Loop IO, Loop W1, Loop W2, Loop Stop], a_threads = []\<rparr>"] g(1) assms by (simp add: app_start_def)
qed

definition sample_app :: "error + app" where
  "sample_app = app_start (\<lambda>_. \<lparr>tv_sec = 0, tv_usec = 0\<rparr>) (\<lambda>a. (Some 7, Some a)) (\<lambda>_. Some 9) ''1'' Map.empty [''path:t 2 10''] [''exit'']"

lemma sample_app_run:
  obtains a0 a where "sample_app = Inr a0" "app_run (program_actions (\<lambda>_. sample_world)) a0 (replicate 5 (Create 0) @ map Act sample_order) a"
     "s_trace (a_sys a) = [EvRead 0, EvParse 0, EvWrite 0]"
proof -
  let ?act = "program_actions (\<lambda>_. sample_world)" and ?now = "\<lambda>_. \<lparr>tv_sec = 0, tv_usec = 0\<rparr>" and ?mem = "\<lambda>a. (Some 7, Some a)"
  obtain s0 s where s: "sample_main = Inr s0" "run_sched ?act sample_order s0 = Inr s" "s_trace s = [EvRead 0, EvParse 0, EvWrite 0]" by (rule sample_main_run)
  have m: "menu [''path:t 2 10''] = Inr [''t 2 10'']" by code_simp
  obtain a0 where a0: "sample_app = Inr a0" "a_sys a0 = s0" "m_pMgrJob (a_obj a0) \<noteq> None"
     "a_todo a0 = [CLogThread, Loop IO, Loop W1, Loop W2, Loop Stop]" "a_threads a0 = []"
    unfolding sample_app_def by (rule app_start_ok[OF s(1)[unfolded sample_main_def] m])
  have "\<not> s_exited s0" using s(2) by (auto simp: sample_order_def thread_step_def numeral_eq_Suc)
  then have "app_run ?act a0 (replicate 5 (Create 0)) (a0\<lparr>a_todo := [], a_threads := [CLogThread, Loop IO, Loop W1, Loop W2, Loop Stop]\<rparr>)"
    by (intro all_created[OF a0(4,5)]) (simp add: a0(2))
  from sched_app[OF _ _ _ _ this, of sample_order s] obtain a where
      "app_run ?act a0 (replicate 5 (Create 0) @ map Act sample_order) a" "a_sys a = s" using s(2) a0(2,3) by (auto intro: tid.exhaust)
  then show thesis using that[OF a0(1)] s(3) by simp
qed

theorem app_records_witness:
  "\<exists>a0 a tc. sample_app = Inr a0 \<and> app_run (program_actions (\<lambda>_. sample_world)) a0 (replicate 5 (Create 0) @ map Act sample_order) a \<and>
     whole_case (\<lambda>_. \<lparr>tv_sec = 0, tv_usec = 0\<rparr>) (\<lambda>_. sample_world) ''t 2 10'' = Inr tc \<and>
     a_disk a ''..//recordsForExcel.txt'' = Some (excel_header @ excel_line tc)"
proof -
  obtain a0 a where a: "sample_app = Inr a0" "app_run (program_actions (\<lambda>_. sample_world)) a0 (replicate 5 (Create 0) @ map Act sample_order) a"
     "s_trace (a_sys a) = [EvRead 0, EvParse 0, EvWrite 0]" by (rule sample_app_run)
  have w: "written (s_trace (a_sys a)) = [0]" by (simp add: a(3))
  have m: "menu [''path:t 2 10''] = Inr [''t 2 10'']" by code_simp
  obtain tc where "whole_case (\<lambda>_. \<lparr>tv_sec = 0, tv_usec = 0\<rparr>) (\<lambda>_. sample_world) ''t 2 10'' = Inr tc"
      "a_disk a ''..//recordsForExcel.txt'' = Some (excel_header @ excel_line tc)"
    using app_records[OF a(1)[unfolded sample_app_def] a(2)] unfolding w m by auto
  then show ?thesis using a(1,2) by blast
qed

theorem app_log_witness:
  "\<exists>a0 a k stamps. sample_app = Inr a0 \<and> app_run (program_actions (\<lambda>_. sample_world)) a0 (replicate 5 (Create 0) @ map Act sample_order) a \<and>
     k \<le> 1 \<and> length stamps = k \<and> snd (snd (a_log a)) = concat (map2 log_line stamps (take k [(''1'', ''now class name: t 2 10'')]))"
proof -
  obtain a0 a where a: "sample_app = Inr a0" "app_run (program_actions (\<lambda>_. sample_world)) a0 (replicate 5 (Create 0) @ map Act sample_order) a"
    by (rule sample_app_run)
  have m: "menu [''path:t 2 10''] = Inr [''t 2 10'']" by code_simp
  have n: "[(''1'', ''now class name: t 2 10'')] = map (first_note ''1'') [''t 2 10''] @
      concat (map note_of_move (replicate 5 (Create 0) @ map Act sample_order))"
    by code_simp
  obtain k stamps where "k \<le> length [(''1'', ''now class name: t 2 10'')]" "length stamps = k"
      "snd (snd (a_log a)) = concat (map2 log_line stamps (take k [(''1'', ''now class name: t 2 10'')]))"
    using app_log[OF a(1)[unfolded sample_app_def] a(2) m n] by blast
  then show ?thesis using a by (metis One_nat_def length_Cons list.size(3))
qed

theorem app_files_witness:
  "\<exists>a0 a rel cls out. sample_app = Inr a0 \<and> app_run (program_actions (\<lambda>_. sample_world)) a0 (replicate 5 (Create 0) @ map Act sample_order) a \<and>
     architecture rel cls out \<and> a_disk a ''..//output//t//partition.txt'' = Some (part_lines out) \<and>
     a_disk a ''..//output//t//relation.txt'' = Some (concat (map answer_text rel))"
proof -
  obtain a0 a where a: "sample_app = Inr a0" "app_run (program_actions (\<lambda>_. sample_world)) a0 (replicate 5 (Create 0) @ map Act sample_order) a"
     "s_trace (a_sys a) = [EvRead 0, EvParse 0, EvWrite 0]" by (rule sample_app_run)
  have w: "written (s_trace (a_sys a)) = [] @ 0 # []" by (simp add: a(3))
  have m: "menu [''path:t 2 10''] = Inr [''t 2 10'']" by code_simp
  have k: "\<forall>k \<in> set []. case_name ([''t 2 10''] ! k) \<noteq> case_name ([''t 2 10''] ! 0)" by simp
  have n: "case_name ([''t 2 10''] ! 0) = ''t''" by code_simp
  obtain rel cls out where "architecture rel cls out" "a_disk a (''..//output//'' @ ''t'' @ ''//partition.txt'') = Some (part_lines out)"
     "a_disk a (''..//output//'' @ ''t'' @ ''//relation.txt'') = Some (concat (map answer_text rel))"
    using app_files[OF a(1)[unfolded sample_app_def] a(2) m w k, unfolded n] by blast
  then have "architecture rel cls out \<and> a_disk a ''..//output//t//partition.txt'' = Some (part_lines out) \<and>
     a_disk a ''..//output//t//relation.txt'' = Some (concat (map answer_text rel))" by simp
  then show ?thesis using a(1,2) by blast
qed

end
