(* ===== verification/Occurs.thy ===== *)
theory Occurs
  imports Scan
begin

text \<open>
  Occurrences of a pattern in a text, and \<open>find\<close> as the search for the first of them: what the
  loops of the readers and of the parser visit when they call \<open>find\<close> again and again.
\<close>

definition occurs_at :: "string \<Rightarrow> string \<Rightarrow> nat \<Rightarrow> bool" where
  "occurs_at pat s i \<longleftrightarrow> i + length pat \<le> length s \<and> take (length pat) (drop i s) = pat"

text \<open>\<open>find\<close> returns the first occurrence from its start, or \<open>-1\<close> when there is none.\<close>

lemma str_find_first:
  assumes "pat \<noteq> []"
  shows "(str_find s pat (int k) = - 1 \<and> (\<forall>i \<ge> k. \<not> occurs_at pat s i)) \<or>
    (\<exists>i \<ge> k. str_find s pat (int k) = int i \<and> occurs_at pat s i \<and> (\<forall>j. k \<le> j \<longrightarrow> j < i \<longrightarrow> \<not> occurs_at pat s j))"
proof (cases "k \<le> length s")
  case False
  then have "\<not> occurs_at pat s i" if "k \<le> i" for i using that assms by (auto simp: occurs_at_def)
  then show ?thesis using False by (simp add: str_find_def)
next
  case True
  then have f: "str_find s pat (int k) = find_suf pat (drop k s) k" by (simp add: str_find_def)
  have o: "occurs_at pat s (k + i) \<longleftrightarrow> i \<le> length (drop k s) \<and> take (length pat) (drop i (drop k s)) = pat" for i
  proof -
    have "length pat \<le> length (drop (k + i) s)" if "take (length pat) (drop (k + i) s) = pat" using that by (metis length_take min.cobounded1)
    then show ?thesis using assms True by (cases pat) (auto simp: occurs_at_def add.commute)
  qed
  from find_suf_cases[of pat "drop k s" k] show ?thesis
  proof (elim disjE exE conjE)
    assume "find_suf pat (drop k s) k = - 1" "\<forall>j \<le> length (drop k s). take (length pat) (drop j (drop k s)) \<noteq> pat"
    moreover from this(2) have "\<not> occurs_at pat s i" if "k \<le> i" for i using o[of "i - k"] that by auto
    ultimately show ?thesis using f by simp
  next
    fix j assume j: "j \<le> length (drop k s)" "find_suf pat (drop k s) k = int (k + j)" "take (length pat) (drop j (drop k s)) = pat"
      and m: "\<forall>i < j. take (length pat) (drop i (drop k s)) \<noteq> pat"
    have "\<not> occurs_at pat s i" if "k \<le> i" "i < k + j" for i
    proof -
      have "i - k < j" using that by simp
      then have "take (length pat) (drop (i - k) (drop k s)) \<noteq> pat" using m by blast
      then show ?thesis using o[of "i - k"] that(1) by simp
    qed
    then show ?thesis using f j o[of j] by (intro disjI2 exI[of _ "k + j"]) auto
  qed
qed

text \<open>A pattern whose first character does not occur again in it cannot overlap itself.\<close>

lemma occurs_apart:
  assumes "occurs_at pat s i" "occurs_at pat s j" "i < j" "hd pat \<notin> set (tl pat)" "pat \<noteq> []"
  shows "i + length pat \<le> j"
proof (rule ccontr)
  assume "\<not> i + length pat \<le> j"
  then have k: "j - i < length pat" "0 < j - i" using assms(3) by auto
  have "s ! (i + n) = pat ! n" if "n < length pat" for n
    using assms(1) that unfolding occurs_at_def by (metis add_leD1 nth_drop nth_take)
  from this[OF k(1)] have "s ! j = pat ! (j - i)" using assms(3) by simp
  moreover have "s ! j = pat ! 0" using assms(2,5) unfolding occurs_at_def by (metis add.right_neutral add_leD1 length_greater_0_conv nth_drop nth_take)
  moreover have "pat ! (j - i) = tl pat ! (j - i - 1)" "j - i - 1 < length (tl pat)" using k by (simp_all add: nth_tl Suc_diff_Suc)
  ultimately show False using assms(4,5) by (metis hd_conv_nth nth_mem)
qed

text \<open>A search passes over a text in which the pattern does not start.\<close>

lemma find_suf_skip:
  "\<forall>i < length w. take (length pat) (drop i (w @ B)) \<noteq> pat \<Longrightarrow> find_suf pat (w @ B) k = find_suf pat B (k + length w)"
proof (induction w arbitrary: k)
  case (Cons c w)
  have "take (length pat) ((c # w) @ B) \<noteq> pat" using Cons.prems by (metis drop0 length_greater_0_conv list.distinct(1))
  moreover have "\<forall>i < length w. take (length pat) (drop i (w @ B)) \<noteq> pat"
  proof (intro allI impI)
    fix i assume "i < length w"
    then show "take (length pat) (drop i (w @ B)) \<noteq> pat" using Cons.prems[rule_format, of "Suc i"] by simp
  qed
  ultimately show ?case using Cons.IH[of "Suc k"] by simp
qed simp

lemma str_find_skip:
  assumes "\<forall>i < length w. take (length pat) (drop i (w @ B)) \<noteq> pat"
  shows "str_find (A @ w @ B) pat (int (length A)) = find_suf pat B (length (A @ w))"
  using find_suf_skip[OF assms, of "length A"] by (simp add: str_find_def)

lemma str_find_over:
  assumes "pat \<noteq> []" "hd pat \<notin> set w"
  shows "str_find (A @ w @ B) pat (int (length A)) = find_suf pat B (length (A @ w))"
proof (rule str_find_skip, intro allI impI notI)
  fix i assume "i < length w" "take (length pat) (drop i (w @ B)) = pat"
  then have "hd pat = w ! i" using assms(1) by (metis append_Nil2 drop_append hd_append2 hd_drop_conv_nth hd_take length_greater_0_conv length_drop zero_less_diff list.size(3) order.strict_iff_not)
  then show False using assms(2) \<open>i < length w\<close> by simp
qed

lemma find_suf_here: "find_suf pat (pat @ B) k = int k"
proof (cases "pat @ B")
  case (Cons c cs)
  have "take (length pat) (c # cs) = pat" unfolding Cons[symmetric] by simp
  then show ?thesis unfolding Cons by simp
qed simp

lemma find_suf_none: "pat \<noteq> [] \<Longrightarrow> find_suf pat [] k = - 1"
  by simp

text \<open>
  Where a pattern does not occur in \<open>w\<close>, and the text after it starts with the first character of
  the pattern or is empty, the pattern does not start in \<open>w\<close> either.
\<close>

lemma no_start:
  assumes "str_find w pat 0 = - 1" "pat \<noteq> []" "hd pat \<notin> set (tl pat)" "B = [] \<or> hd B = hd pat"
  shows "\<forall>i < length w. take (length pat) (drop i (w @ B)) \<noteq> pat"
proof (intro allI impI notI)
  fix i assume i: "i < length w" "take (length pat) (drop i (w @ B)) = pat"
  have n: "\<not> occurs_at pat w i" using str_find_first[OF assms(2), of w 0] assms(1) by auto
  have s: "length w < i + length pat"
  proof (rule ccontr)
    assume "\<not> length w < i + length pat"
    then have "take (length pat) (drop i (w @ B)) = take (length pat) (drop i w)" by simp
    then show False using n i \<open>\<not> length w < i + length pat\<close> by (simp add: occurs_at_def)
  qed
  let ?n = "length w - i"
  have l: "i + length pat \<le> length (w @ B)" using arg_cong[OF i(2), of length] i(1) s by (simp add: min_def split: if_splits)
  then have "B \<noteq> []" using s by auto
  have "pat ! ?n = drop i (w @ B) ! ?n" using i s by (metis less_diff_conv2 less_imp_le nth_take add.commute)
  also have "\<dots> = hd B" using i(1) \<open>B \<noteq> []\<close> by (simp add: hd_conv_nth nth_append)
  also have "\<dots> = hd pat" using assms(4) \<open>B \<noteq> []\<close> by simp
  finally have "hd pat = tl pat ! (?n - 1)" "?n - 1 < length (tl pat)" using i(1) s by (simp_all add: nth_tl Suc_diff_Suc)
  then show False using assms(3) nth_mem by metis
qed

end
