(* ===== verification/Calls.thy ===== *)
theory Calls
  imports TestCase Occurs
begin

text \<open>
  What the parser of methods finds: the relation of a test case is exactly the set of calls that
  its methods make, one for every place in a method where a member is taken of a variable
  whose type can be found and is declared in a header. Nothing is missed and nothing is added.
\<close>

section \<open>The calls of a method\<close>

definition word_before :: "string \<Rightarrow> nat \<Rightarrow> string" where
  "word_before s i = rev (takeWhile is_ident (rev (take i s)))"

text \<open>The type of the variable before position \<open>i\<close>, an alias replaced by its type.\<close>

definition type_at :: "headers \<Rightarrow> (string, string) smap \<Rightarrow> CReadCpp \<Rightarrow> string \<Rightarrow> string \<Rightarrow> nat \<Rightarrow> string option" where
  "type_at hm tds p cls body i =
     (if word_before body i = [] then None
      else case variable_type hm p cls body (word_before body i) (int i) of
        Inl _ \<Rightarrow> None
      | Inr (t, _) \<Rightarrow> if t = [] then None else Some (case sfind tds t of Some t' \<Rightarrow> t' | None \<Rightarrow> t))"

definition calls_in :: "headers \<Rightarrow> (string, string) smap \<Rightarrow> CReadCpp \<Rightarrow> string \<Rightarrow> string \<Rightarrow> string \<Rightarrow> (string \<times> string) set" where
  "calls_in hm tds p cls body symbol = {(t, c). c = cls \<and> t \<noteq> cls \<and> known hm t \<and> (\<exists>i. occurs_at symbol body i \<and> type_at hm tds p cls body i = Some t)}"

lemma calls_in_iff: "(t, c) \<in> calls_in hm tds p c body symbol \<longleftrightarrow>
    t \<noteq> c \<and> known hm t \<and> (\<exists>i. occurs_at symbol body i \<and> type_at hm tds p c body i = Some t)"
  by (simp add: calls_in_def)

text \<open>A step that adds a set of pairs.\<close>

definition grows :: "(string \<times> string) set \<Rightarrow> relation \<Rightarrow> relation \<Rightarrow> bool" where
  "grows X rel rel' \<longleftrightarrow> wf_relation rel' \<and> callers rel' = callers rel \<union> X"

lemma grows_trans: "grows X a b \<Longrightarrow> grows Y b c \<Longrightarrow> grows (X \<union> Y) a c"
  by (auto simp: grows_def)

lemma grows_refl: "wf_relation a \<Longrightarrow> grows {} a a"
  by (simp add: grows_def)

lemma grows_wf: "grows X a b \<Longrightarrow> wf_relation b"
  by (simp add: grows_def)

lemma relate_header_grows:
  assumes "relate_header env cls t mb v call st e = Inr st'" "wf_relation (calledrelation st)"
  shows "grows (if sfind (classdef (snd e)) t \<noteq> None \<and> t \<noteq> cls then {(t, cls)} else {}) (calledrelation st) (calledrelation st')"
proof (cases "sfind (classdef (snd e)) t")
  case None
  then show ?thesis using assms by (cases call; cases e) (simp add: relate_header_def grows_def)
next
  case (Some C)
  have "calledrelation st' = (if cls \<noteq> t then add_relation t ((calledclass_init cls)\<lparr>bIsmemberVar := mb\<rparr>) (calledrelation st) else calledrelation st)"
    using assms(1) Some by (cases call; cases e) (auto simp: relate_header_def Let_def sbind_eq_Inr split: if_splits)
  then show ?thesis using Some assms(2) add_relation_ok[of "calledrelation st" "(calledclass_init cls)\<lparr>bIsmemberVar := mb\<rparr>" t]
    by (auto simp: grows_def calledclass_init_def)
qed

text \<open>A fold of steps that each add a set adds their union.\<close>

lemma mfold_grows:
  assumes "mfold f st xs = Inr st'" "wf_relation (calledrelation st)"
    and "\<And>a x b. x \<in> set xs \<Longrightarrow> f a x = Inr b \<Longrightarrow> wf_relation (calledrelation a) \<Longrightarrow> grows (X x) (calledrelation a) (calledrelation b)"
  shows "grows (\<Union>x \<in> set xs. X x) (calledrelation st) (calledrelation st')"
  using assms
proof (induction xs arbitrary: st)
  case Nil
  then show ?case by (simp add: grows_refl)
next
  case (Cons x xs)
  obtain a where a: "f st x = Inr a" "mfold f a xs = Inr st'" using Cons.prems(1) by (auto simp: sbind_eq_Inr)
  have g: "grows (X x) (calledrelation st) (calledrelation a)" using Cons.prems(3)[OF _ a(1) Cons.prems(2)] by simp
  have "grows (\<Union>x \<in> set xs. X x) (calledrelation a) (calledrelation st')"
    by (rule Cons.IH[OF a(2) grows_wf[OF g] Cons.prems(3)]) simp_all
  from grows_trans[OF g this] show ?case by simp
qed

lemma symbol_at_grows:
  assumes "symbol_at env symbol body cls p (int i) st = Inr st'" "wf_relation (calledrelation st)" "i \<le> length body"
  shows "grows {(t, c). c = cls \<and> t \<noteq> cls \<and> known (hmap env) t \<and> type_at (hmap env) (mapForTypeDef env) p cls body i = Some t}
     (calledrelation st) (calledrelation st')"
proof -
  let ?v = "word_before body i" and ?ty = "type_at (hmap env) (mapForTypeDef env) p cls body i"
  have "collect_bwd is_ident body (int i - 1) [] = (let w = takeWhile is_ident (rev (take i body)) in
     if int (length w) \<le> int i - 1 then Inr (rev w @ [], int i - 1 - int (length w)) else Inl OutOfRange)"
    using collect_bwd_eq[of "int i - 1" body is_ident "[]"] assms(3) by simp
  then obtain k call where v: "collect_bwd is_ident body (int i - 1) [] = Inr (?v, k)" "call_of symbol body (int i) = Inr call"
    using assms(1) by (auto simp: symbol_at_def sbind_eq_Inr word_before_def Let_def split: if_splits)
  show ?thesis
  proof (cases "?v = []")
    case True
    then have "st' = st" using assms(1) v by (auto simp: symbol_at_def)
    then show ?thesis using True assms(2) by (simp add: type_at_def grows_def)
  next
    case False
    then obtain t mb where t: "variable_type (hmap env) p cls body ?v (int i) = Inr (t, mb)"
      using assms(1) v by (auto simp: symbol_at_def sbind_eq_Inr)
    show ?thesis
    proof (cases "t = []")
      case True
      then have "st' = st" using assms(1) v t False by (auto simp: symbol_at_def)
      then show ?thesis using True t assms(2) by (simp add: type_at_def grows_def)
    next
      case nonempty: False
      let ?t = "case sfind (mapForTypeDef env) t of Some t' \<Rightarrow> t' | None \<Rightarrow> t"
      have ty: "?ty = Some ?t" using False nonempty t by (simp add: type_at_def)
      have "mfold (relate_header env cls ?t mb ?v call) st (hmap env) = Inr st'"
        using assms(1) v t False nonempty by (simp add: symbol_at_def Let_def)
      then have "grows (\<Union>e \<in> set (hmap env). if sfind (classdef (snd e)) ?t \<noteq> None \<and> ?t \<noteq> cls then {(?t, cls)} else {}) (calledrelation st) (calledrelation st')"
        by (rule mfold_grows[OF _ assms(2) relate_header_grows])
      moreover have "(\<Union>e \<in> set (hmap env). if sfind (classdef (snd e)) ?t \<noteq> None \<and> ?t \<noteq> cls then {(?t, cls)} else {}) =
          {(t, c). c = cls \<and> t \<noteq> cls \<and> known (hmap env) t \<and> ?ty = Some t}"
        unfolding ty known_def by (auto simp: case_prod_beta split: if_splits)
      ultimately show ?thesis by simp
    qed
  qed
qed

lemma symbol_loop_grows:
  assumes "symbol_loop fuel env symbol body cls p (str_find body symbol (int k)) st = Inr st'" "wf_relation (calledrelation st)"
    and "symbol \<noteq> []" "hd symbol \<notin> set (tl symbol)"
  shows "grows {(t, c). c = cls \<and> t \<noteq> cls \<and> known (hmap env) t \<and>
      (\<exists>i \<ge> k. occurs_at symbol body i \<and> type_at (hmap env) (mapForTypeDef env) p cls body i = Some t)} (calledrelation st) (calledrelation st')"
  using assms(1,2)
proof (induction fuel arbitrary: k st)
  case (Suc fuel)
  let ?ty = "\<lambda>i. type_at (hmap env) (mapForTypeDef env) p cls body i"
  consider "str_find body symbol (int k) = - 1" "\<forall>i \<ge> k. \<not> occurs_at symbol body i"
    | i where "k \<le> i" "str_find body symbol (int k) = int i" "occurs_at symbol body i" "\<forall>j. k \<le> j \<longrightarrow> j < i \<longrightarrow> \<not> occurs_at symbol body j"
    using str_find_first[OF assms(3), of body k] by blast
  then show ?case
  proof cases
    case 1
    then have e: "{(t, c). c = cls \<and> t \<noteq> cls \<and> known (hmap env) t \<and> (\<exists>i \<ge> k. occurs_at symbol body i \<and> ?ty i = Some t)} = {}" by blast
    show ?thesis unfolding e using 1(1) Suc.prems by (simp add: grows_def)
  next
    case (2 i)
    then obtain st1 where s: "symbol_at env symbol body cls p (int i) st = Inr st1"
       "symbol_loop fuel env symbol body cls p (str_find body symbol (int (i + length symbol))) st1 = Inr st'"
      using Suc.prems(1) by (auto simp: sbind_eq_Inr)
    have i: "i \<le> length body" using 2(3) by (simp add: occurs_at_def)
    note G = symbol_at_grows[OF s(1) Suc.prems(2) i]
    have next_occ: "i + length symbol \<le> j" if "occurs_at symbol body j" "k \<le> j" "j \<noteq> i" for j
    proof -
      have "i < j" using 2(4) that by (metis linorder_neqE_nat)
      then show ?thesis using occurs_apart[OF 2(3) that(1)] assms(3,4) by blast
    qed
    have "{(t, c). c = cls \<and> t \<noteq> cls \<and> known (hmap env) t \<and> ?ty i = Some t} \<union>
        {(t, c). c = cls \<and> t \<noteq> cls \<and> known (hmap env) t \<and> (\<exists>j \<ge> i + length symbol. occurs_at symbol body j \<and> ?ty j = Some t)} =
        {(t, c). c = cls \<and> t \<noteq> cls \<and> known (hmap env) t \<and> (\<exists>j \<ge> k. occurs_at symbol body j \<and> ?ty j = Some t)}"
      (is "?A \<union> ?B = ?C")
    proof (intro equalityI subsetI)
      fix x assume "x \<in> ?A \<union> ?B"
      then show "x \<in> ?C" using 2(1,3) by (auto intro: exI[of _ i] le_trans[OF 2(1)] le_trans[OF le_add1])
    next
      fix x assume "x \<in> ?C"
      then obtain t j where x: "x = (t, cls)" "t \<noteq> cls" "known (hmap env) t" "k \<le> j" "occurs_at symbol body j" "?ty j = Some t" by auto
      then show "x \<in> ?A \<union> ?B" using next_occ[OF x(5,4)] by (cases "j = i") auto
    qed
    then show ?thesis using grows_trans[OF G Suc.IH[OF s(2) grows_wf[OF G]]] by simp
  qed
qed simp

lemma findsymbol_grows:
  assumes "findsymbol env symbol body cls p st = Inr st'" "wf_relation (calledrelation st)" "symbol \<in> {''->'', ''.''}"
  shows "grows (calls_in (hmap env) (mapForTypeDef env) p cls body symbol) (calledrelation st) (calledrelation st')"
proof -
  have "symbol \<noteq> []" "hd symbol \<notin> set (tl symbol)" using assms(3) by auto
  from symbol_loop_grows[OF _ _ this, of "length body + 2" env body cls p 0 "st\<lparr>objectrelation := []\<rparr>" st'] assms(1,2)
  show ?thesis by (simp add: findsymbol_def calls_in_def)
qed

section \<open>The calls of a test case\<close>

definition source_calls :: "headers \<Rightarrow> (string, string) smap \<Rightarrow> CReadCpp \<Rightarrow> (string \<times> string) set" where
  "source_calls hm tds p = (\<Union>(cls, ms) \<in> set (cppclass p). \<Union>m \<in> set ms. calls_in hm tds p cls (m_body m) ''->'' \<union> calls_in hm tds p cls (m_body m) ''.'')"

lemma source_calls_iff:
  "(t, c) \<in> source_calls hm tds p \<longleftrightarrow>
     (\<exists>ms. (c, ms) \<in> set (cppclass p) \<and> (\<exists>m \<in> set ms. \<exists>symbol \<in> {''->'', ''.''}. (t, c) \<in> calls_in hm tds p c (m_body m) symbol))"
  (is "?L \<longleftrightarrow> ?R")
proof
  assume ?L
  then obtain cls ms m where m: "(cls, ms) \<in> set (cppclass p)" "m \<in> set ms"
      "(t, c) \<in> calls_in hm tds p cls (m_body m) ''->'' \<union> calls_in hm tds p cls (m_body m) ''.''"
    unfolding source_calls_def by blast
  then have "c = cls" by (auto simp: calls_in_def)
  then show ?R using m by blast
next
  assume ?R
  then obtain ms m where m: "(c, ms) \<in> set (cppclass p)" "m \<in> set ms"
      "(t, c) \<in> calls_in hm tds p c (m_body m) ''->'' \<union> calls_in hm tds p c (m_body m) ''.''" by blast
  show ?L unfolding source_calls_def using m(2,3) by (intro UN_I[OF m(1)]) auto
qed

lemma find_in_method_grows:
  assumes "find_in_method env p cls st m = Inr st'" "wf_relation (calledrelation st)"
  shows "grows (calls_in (hmap env) (mapForTypeDef env) p cls (m_body m) ''->'' \<union> calls_in (hmap env) (mapForTypeDef env) p cls (m_body m) ''.'')
     (calledrelation st) (calledrelation st')"
proof -
  obtain st1 where s: "findsymbol env ''->'' (m_body m) cls p st = Inr st1" "findsymbol env ''.'' (m_body m) cls p st1 = Inr st'"
    using assms(1) by (auto simp: find_in_method_def sbind_eq_Inr)
  note G = findsymbol_grows[OF s(1) assms(2)]
  show ?thesis using grows_trans[OF G findsymbol_grows[OF s(2)]] grows_wf[OF G] by simp
qed

lemma find_in_source_grows:
  assumes "find_in_source env st p = Inr st'" "wf_relation (calledrelation st)"
  shows "grows (source_calls (hmap env) (mapForTypeDef env) p) (calledrelation st) (calledrelation st')"
proof -
  have c: "grows (case e of (cls, ms) \<Rightarrow> \<Union>m \<in> set ms. calls_in (hmap env) (mapForTypeDef env) p cls (m_body m) ''->'' \<union>
      calls_in (hmap env) (mapForTypeDef env) p cls (m_body m) ''.'') (calledrelation a) (calledrelation b)"
    if "find_in_class env p a e = Inr b" "wf_relation (calledrelation a)" for a e b
  proof -
    obtain cls ms where e: "e = (cls, ms)" by (cases e)
    have "mfold (find_in_method env p cls) a ms = Inr b" using that(1) by (simp add: find_in_class_def e)
    from mfold_grows[OF this that(2) find_in_method_grows] show ?thesis by (simp add: e)
  qed
  show ?thesis unfolding source_calls_def using assms(1) unfolding find_in_source_def by (rule mfold_grows[OF _ assms(2) c])
qed

lemma parse_all_calls:
  assumes "parse_all tc = Inr tc'" "t_calledrelation tc = []"
  shows "callers (t_calledrelation tc') = (\<Union>p \<in> set (t_head tc'). source_calls (t_hmap tc') (t_mapForTypeDef tc') p)"
proof -
  obtain tds srcs st where st: "mfold (find_in_source \<lparr>hmap = t_hmap tc, mapForTypeDef = tds, cpps = srcs\<rparr>)
      \<lparr>calledrelation = t_calledrelation tc, lastans = t_lastans tc, objectrelation = []\<rparr> srcs = Inr st" "t_calledrelation tc' = calledrelation st"
      "t_head tc' = srcs" "t_hmap tc' = t_hmap tc" "t_mapForTypeDef tc' = tds"
    using assms(1) by (auto simp: parse_all_def sbind_eq_Inr Let_def)
  have w: "wf_relation (t_calledrelation tc)" by (simp add: assms(2) wf_relation_def)
  have "grows (\<Union>p \<in> set srcs. source_calls (t_hmap tc) tds p) (t_calledrelation tc) (calledrelation st)"
    using mfold_grows[where X = "source_calls (t_hmap tc) tds", OF st(1)] w find_in_source_grows by fastforce
  then show ?thesis using st(2-5) by (simp add: grows_def assms(2) callers_def)
qed

text \<open>
  C6. The parser finds exactly the calls: after parsing, a class \<open>t\<close> has a class \<open>c\<close> among its callers
  exactly if some method of \<open>c\<close> takes, by an arrow or a dot, a member of a variable whose type
  is found in the method, in the class, in the source or in the included headers, is \<open>t\<close> itself
  or a name of it by a type definition, and \<open>t\<close> is declared in a header and is not \<open>c\<close>.
\<close>

theorem parse_all_exact:
  assumes "parse_all tc = Inr tc'" "t_calledrelation tc = []"
  shows "(t, c) \<in> callers (t_calledrelation tc') \<longleftrightarrow> t \<noteq> c \<and> known (t_hmap tc') t \<and>
     (\<exists>p \<in> set (t_head tc'). \<exists>ms. (c, ms) \<in> set (cppclass p) \<and> (\<exists>m \<in> set ms. \<exists>symbol \<in> {''->'', ''.''}. \<exists>i.
        occurs_at symbol (m_body m) i \<and> type_at (t_hmap tc') (t_mapForTypeDef tc') p c (m_body m) i = Some t))"
  unfolding parse_all_calls[OF assms] UN_iff source_calls_iff calls_in_iff by blast

section \<open>Declared variables\<close>

lemma word_before_app:
  assumes "\<forall>x \<in> set v. is_ident x" "\<not> is_ident e"
  shows "word_before (A @ e # v @ B) (length (A @ e # v)) = v"
proof -
  have "take (length (A @ e # v)) (A @ e # v @ B) = A @ e # v" by simp
  then show ?thesis using assms by (simp add: word_before_def takeWhile_append)
qed

lemma occurs_at_app: "occurs_at pat (A @ pat @ B) (length A)"
  by (simp add: occurs_at_def)

text \<open>
  The first occurrence of \<open>v\<close> in the text of a method is a declaration \<open>T v\<close> (blanks and stars between
  them), and later the text has \<open>v->\<close> or \<open>v.\<close>.
\<close>

definition local_call :: "string \<Rightarrow> string \<Rightarrow> string \<Rightarrow> bool" where
  "local_call T v body \<longleftrightarrow> T \<noteq> [] \<and> (\<forall>x \<in> set T. is_ident x) \<and> v \<noteq> [] \<and> (\<forall>x \<in> set v. is_ident x) \<and>
     (\<exists>A b sep d B e D symbol. body = A @ b # T @ sep @ v @ d # B @ e # v @ symbol @ D \<and> symbol \<in> {''->'', ''.''} \<and>
        str_find body v 0 = int (length (A @ b # T @ sep)) \<and> \<not> is_ident b \<and> \<not> is_star_blank b \<and>
        sep \<noteq> [] \<and> (\<forall>x \<in> set sep. is_star_blank x) \<and> \<not> is_ident d \<and> \<not> is_ident e)"

lemma local_callI:
  assumes "body = A @ b # T @ sep @ v @ d # B @ e # v @ symbol @ D" "str_find body v 0 = int (length (A @ b # T @ sep))" "symbol \<in> {''->'', ''.''}"
    and "T \<noteq> []" "\<forall>x \<in> set T. is_ident x" "v \<noteq> []" "\<forall>x \<in> set v. is_ident x" "\<not> is_ident b" "\<not> is_star_blank b"
    and "sep \<noteq> []" "\<forall>x \<in> set sep. is_star_blank x" "\<not> is_ident d" "\<not> is_ident e"
  shows "local_call T v body"
  using assms unfolding local_call_def by blast

lemma local_call_calls:
  assumes "local_call T v body" "known hm T" "sfind tds T = None" "T \<noteq> c"
  shows "\<exists>symbol \<in> {''->'', ''.''}. (T, c) \<in> calls_in hm tds p c body symbol"
proof -
  obtain A b sep d B e D symbol where s: "body = A @ b # T @ sep @ v @ d # B @ e # v @ symbol @ D" "symbol \<in> {''->'', ''.''}"
      and first: "str_find body v 0 = int (length (A @ b # T @ sep))"
      and T: "\<forall>x \<in> set T. is_ident x" "T \<noteq> []" "\<not> is_ident b" "\<not> is_star_blank b" and sep: "sep \<noteq> []" "\<forall>x \<in> set sep. is_star_blank x"
      and v: "\<forall>x \<in> set v. is_ident x" "v \<noteq> []" "\<not> is_ident d" "\<not> is_ident e"
    using assms(1) unfolding local_call_def by metis
  let ?X = "A @ b # T @ sep @ v @ d # B"
  let ?i = "length (?X @ e # v)"
  have b: "body = ?X @ e # v @ (symbol @ D)" "body = (?X @ e # v) @ symbol @ D" by (simp_all add: s(1))
  have w: "word_before body ?i = v" unfolding b(1) by (rule word_before_app[OF v(1,4)])
  have o: "occurs_at symbol body ?i" unfolding b(2) by (rule occurs_at_app)
  have "findtype body v (int ?i) = Inr T" by (rule findtype_declaration[OF s(1) first T sep v(3)]) simp
  then have "variable_type hm p c body v (int ?i) = Inr (T, False)" using T(2) by (simp add: variable_type_def)
  then have "type_at hm tds p c body ?i = Some T" unfolding type_at_def w using v(2) T(2) assms(3) by simp
  then have "(T, c) \<in> calls_in hm tds p c body symbol" using o assms(2,4) by (auto simp: calls_in_def)
  then show ?thesis using s(2) by blast
qed

lemma local_call_found:
  assumes "parse_all tc = Inr tc'" "t_calledrelation tc = []" "p \<in> set (t_head tc')" "(c, ms) \<in> set (cppclass p)" "m \<in> set ms"
    and "local_call T v (m_body m)" "known (t_hmap tc') T" "sfind (t_mapForTypeDef tc') T = None" "T \<noteq> c"
  shows "(T, c) \<in> callers (t_calledrelation tc')"
proof -
  have "(T, c) \<in> source_calls (t_hmap tc') (t_mapForTypeDef tc') p"
    unfolding source_calls_iff using local_call_calls[OF assms(6-9), of p] assms(4,5) by blast
  then show ?thesis unfolding parse_all_calls[OF assms(1,2)] using assms(3) by blast
qed

section \<open>Witnesses\<close>

definition sample_body :: string where
  "sample_body = ''void A::m(){B *b; b->f(); C *c; c->g();}''"

lemma sample_source:
  "sbind sample_read (\<lambda>tc. sbind (parse_all tc) (\<lambda>tc1. Inr (map (\<lambda>p. map (\<lambda>(c, ms). (c, map m_body ms)) (cppclass p)) (t_head tc1),
      t_mapForTypeDef tc1, map (\<lambda>(_, H). map fst (classdef H)) (t_hmap tc1)))) =
   Inr ([[(''A'', [sample_body])]], [], [[''A'', ''B'', ''C'']])"
  by code_simp

theorem parse_all_exact_witness:
  "\<exists>tc tc1. sample_read = Inr tc \<and> parse_all tc = Inr tc1 \<and> (''B'', ''A'') \<in> callers (t_calledrelation tc1) \<and>
     (\<exists>p \<in> set (t_head tc1). \<exists>i. type_at (t_hmap tc1) (t_mapForTypeDef tc1) p ''A'' sample_body i = Some ''B'')"
proof -
  obtain tc tc1 where t: "sample_read = Inr tc" "parse_all tc = Inr tc1" "t_calledrelation tc = []" by (rule sample_parsed)
  have "sbind sample_read (\<lambda>tc. sbind (parse_all tc) (\<lambda>tc1. Inr (sfind (t_calledrelation tc1) ''B'' = Some [calledclass_init ''A'']))) = Inr True"
    by code_simp
  then have c: "(''B'', ''A'') \<in> callers (t_calledrelation tc1)" by (simp add: t(1,2) callers_def calledclass_init_def)
  have v: "map (\<lambda>p. map (\<lambda>(c, ms). (c, map m_body ms)) (cppclass p)) (t_head tc1) = [[(''A'', [sample_body])]]" 
    using sample_source[unfolded t(1) sbind_Inr t(2)] by (simp only: sum.inject prod.inject)
  obtain p ms m i where p: "p \<in> set (t_head tc1)" "(''A'', ms) \<in> set (cppclass p)" "m \<in> set ms"
      "type_at (t_hmap tc1) (t_mapForTypeDef tc1) p ''A'' (m_body m) i = Some ''B''"
    using parse_all_exact[OF t(2,3), of "''B''" "''A''"] c by blast
  have "m_body m = sample_body" using v p(1-3) by (auto simp: map_eq_Cons_conv)
  then show ?thesis using t(1,2) c p(1,4) by metis
qed

end
