(* ===== verification/Documents.thy ===== *)
theory Documents
  imports ReadCpp Occurs
begin

text \<open>
  Whole files read back: a header that is written as a list of includes and of class
  declarations, and a source that is written as a list of includes and of method definitions,
  give objects with exactly these includes, classes and methods.
\<close>

section \<open>Includes\<close>

definition inc_line :: "string \<Rightarrow> string" where
  "inc_line f = INCLUDE @ f @ [QUOTE, NL]"

definition inc_ok :: "string \<Rightarrow> bool" where
  "inc_ok f \<longleftrightarrow> QUOTE \<notin> set f \<and> CHR ''#'' \<notin> set f"

lemma INCLUDE_facts: "INCLUDE \<noteq> []" "hd INCLUDE = CHR ''#''" "hd INCLUDE \<notin> set (tl INCLUDE)"
  by (simp_all add: INCLUDE_def QUOTE_def)

lemma head_loop_includes:
  assumes "\<forall>f \<in> set fs. inc_ok f" "CHR ''#'' \<notin> set W" "CHR ''#'' \<notin> set R"
  shows "head_loop (A @ W @ concat (map inc_line fs) @ R) (str_find (A @ W @ concat (map inc_line fs) @ R) INCLUDE (int (length A))) hf = Inr (hf @ fs)"
  using assms(1,2)
proof (induction fs arbitrary: A W hf)
  case Nil
  have "str_find (A @ (W @ R) @ []) INCLUDE (int (length A)) = - 1"
    using str_find_over[OF INCLUDE_facts(1), of "W @ R" A "[]"] Nil assms(3) by (simp add: INCLUDE_facts)
  then show ?case by (subst head_loop.simps) simp
next
  case (Cons f fs)
  let ?T = "concat (map inc_line fs) @ R" and ?A = "A @ W @ INCLUDE" and ?W = "f @ [QUOTE, NL]"
  let ?s = "A @ W @ concat (map inc_line (f # fs)) @ R"
  have s: "?s = A @ W @ (INCLUDE @ f @ QUOTE # NL # ?T)" "?s = (A @ W @ INCLUDE) @ f @ QUOTE # (NL # ?T)" "?s = ?A @ ?W @ ?T"
    by (simp_all add: inc_line_def)
  have f: "inc_ok f" using Cons.prems(1) by simp
  have p: "str_find ?s INCLUDE (int (length A)) = int (length (A @ W))"
    unfolding s(1) using str_find_over[OF INCLUDE_facts(1), of W A] Cons.prems(2) by (simp only: INCLUDE_facts(2) find_suf_here not_False_eq_True)
  have c: "collect_fwd (\<lambda>c. c \<noteq> QUOTE) ?s (int (length ?A)) [] = Inr (f, int (length ?A + length f))"
    unfolding s(2) using f by (subst collect_fwd_app) (auto simp: inc_ok_def)
  have "head_loop ?s (str_find ?s INCLUDE (int (length ?A))) (hf @ [f]) = Inr ((hf @ [f]) @ fs)"
    unfolding s(3) using Cons.prems(1) f by (intro Cons.IH) (auto simp: inc_ok_def QUOTE_def NL_def)
  then show ?case unfolding p using c by (subst head_loop.simps) (simp add: Let_def add.assoc)
qed

section \<open>Headers\<close>

definition decl_text :: "string \<Rightarrow> string \<Rightarrow> string \<Rightarrow> string" where
  "decl_text nm father body = CLASS @ nm @ (if father = [] then [] else '':public '' @ father) @ ''{'' @ body @ ''}''"

definition decl_ok :: "string \<Rightarrow> string \<Rightarrow> string \<Rightarrow> bool" where
  "decl_ok nm father body \<longleftrightarrow> nm \<noteq> [] \<and> (\<forall>c \<in> set nm. is_alnum c) \<and> (\<forall>c \<in> set father. is_ident c) \<and>
     str_find nm ''public'' 0 = - 1 \<and> str_find father ''public'' 0 = - 1 \<and> balanced body"

definition class_entry :: "string \<Rightarrow> string \<Rightarrow> string \<Rightarrow> CClassContent" where
  "class_entry nm father body = \<lparr>defbody = decl_text nm father body, fatherclass = (if father = [] then [] else father @ '' '')\<rparr>"

lemma CLASS_facts: "CLASS \<noteq> []" "hd CLASS = NL" "hd CLASS \<notin> set (tl CLASS)" "length CLASS = 7"
  by (simp_all add: CLASS_def NL_def)

lemma plain_name:
  assumes "decl_ok nm [] body"
  shows "CReadH_getclassname (int (length A)) (A @ decl_text nm [] body @ B) = Inr nm"
proof -
  let ?s = "A @ decl_text nm [] body @ B" and ?p = "int (length A)" and ?r = "body @ ''}'' @ B"
  obtain c cs where nm: "nm = c # cs" and al: "\<forall>c \<in> set nm. is_alnum c" using assms by (cases nm) (auto simp: decl_ok_def)
  have s: "?s = (A @ NL # ''class'') @ '' '' @ c # cs @ ''{'' @ ?r" "?s = (A @ CLASS) @ nm @ CHR ''{'' # ?r" "?s = (A @ CLASS @ nm) @ CHR ''{'' # ?r"
    by (simp_all add: nm decl_text_def CLASS_def)
  have s1: "skip_fwd is_blank ?s (?p + 6) = Inr (?p + 7)"
    unfolding s(1) using skip_fwd_app[of "?p + 6" "A @ NL # ''class''" "'' ''" is_blank c "cs @ ''{'' @ ?r"] al nm alnum_not[of c]
    by (simp add: is_blank_def)
  have s2: "collect_fwd is_alnum ?s (?p + 7) [] = Inr (nm, ?p + 7 + int (length nm))"
    unfolding s(2) using al collect_fwd_app[of "?p + 7" "A @ CLASS" nm is_alnum "CHR ''{''" ?r "[]"] by (simp add: CLASS_def is_alnum_def)
  have s3: "str_at ?s (?p + 7 + int (length nm)) = Inr CHR ''{''" unfolding s(3) by (rule str_at_app) (simp add: CLASS_def)
  show ?thesis unfolding CReadH_getclassname_def s1 sbind_Inr s2 prod.case s3 by simp
qed

lemma plain_father:
  assumes "decl_ok nm [] body"
  shows "CReadH_getfatherclassname (int (length A)) (A @ decl_text nm [] body @ B) = Inr []"
proof -
  let ?s = "A @ decl_text nm [] body @ B" and ?p = "int (length A)" and ?d = "''class '' @ nm" and ?w = "'' '' @ nm"
  have s: "?s = (A @ NL # ''class'') @ ?w @ CHR ''{'' # body @ ''}'' @ B" "?s = (A @ [NL]) @ ?d @ ''{'' @ body @ ''}'' @ B"
    by (simp_all add: decl_text_def CLASS_def)
  have 1: "skip_fwd (\<lambda>c. c \<noteq> CHR ''{'' \<and> c \<noteq> CHR '';'') ?s (?p + 6) = Inr (?p + 6 + int (length ?w))"
    unfolding s(1) using assms alnum_not by (intro skip_fwd_app) (auto simp: decl_ok_def)
  have 2: "str_substr ?s (?p + 1) (?p + 6 + int (length ?w) - ?p - 1) = Inr ?d" unfolding s(2) by (rule str_substr_app) simp_all
  have n: "find_suf ''public'' nm k = - 1" for k
    using assms find_suf_shift[of "''public''" nm k 0] by (auto simp: decl_ok_def str_find_def)
  have "find_suf ''public'' (''class'' @ CHR '' '' # nm) 0 = - 1" by (subst find_suf_sep) (simp_all add: n)
  then have 3: "str_find ?d ''public'' 0 = - 1" by (simp add: str_find_def)
  show ?thesis unfolding CReadH_getfatherclassname_def 1 sbind_Inr 2 3 by (subst father_loop.simps) simp
qed

lemma plain_body:
  assumes "decl_ok nm [] body"
  shows "CReadH_getclassbody (int (length A)) (A @ decl_text nm [] body @ B) = Inr (decl_text nm [] body)"
proof -
  let ?s = "A @ decl_text nm [] body @ B" and ?h = "CLASS @ nm"
  have h: "CHR ''{'' \<notin> set ?h" using assms alnum_not by (auto simp: decl_ok_def CLASS_def NL_def)
  have s: "?s = A @ ?h @ CHR ''{'' # body @ CHR ''}'' # B" "?s = (A @ ?h @ ''{'') @ body @ CHR ''}'' # B" by (simp_all add: decl_text_def)
  have f: "str_find ?s ''{'' (int (length A)) = int (length A + length ?h)" unfolding s(1) by (rule str_find_char[OF h])
  have "close_brace ?s (int (length (A @ ?h @ ''{''))) (int 0 + 1) = Inr (int (length (A @ ?h @ ''{'') + length body))"
    unfolding s(2) using assms by (intro close_brace_closes) (simp add: decl_ok_def)
  then have c: "close_brace ?s (int (length A + length ?h) + 1) 1 = Inr (int (length A + length (decl_text nm [] body)) - 1)"
    by (simp add: decl_text_def add.commute)
  have "str_substr ?s (int (length A)) (int (length (decl_text nm [] body))) = Inr (decl_text nm [] body)" by (rule str_substr_app) simp_all
  then show ?thesis unfolding CReadH_getclassbody_def Let_def f using c by simp
qed

lemma class_at_decl:
  assumes "decl_ok nm father body"
  shows "class_at (A @ decl_text nm father body @ B) (int (length A)) h =
     Inr (h\<lparr>h_classposition := (if h_classposition h = - 1 then int (length A) else h_classposition h),
            classdef := sinsert nm (class_entry nm father body) (classdef h)\<rparr>)"
proof (cases "father = []")
  case True
  have "nm \<noteq> []" using assms by (simp add: decl_ok_def)
  then show ?thesis using plain_name plain_father plain_body assms True
    by (simp add: class_at_def class_entry_def CClassContent_init_def)
next
  case False
  have p: "class_parts nm father body" and t: "decl_text nm father body = class_text nm father body" and n: "nm \<noteq> []"
    using assms False by (simp_all add: class_parts_def decl_ok_def decl_text_def class_text_def)
  show ?thesis using getclassname_text[OF p, of A B] getfather_text[OF p, of A B] getclassbody_text[OF p, of A B] False n
    by (simp add: t class_at_def class_entry_def CClassContent_init_def)
qed

text \<open>The declarations of a header, each with the text that follows it.\<close>

definition decls :: "(string \<times> string \<times> string \<times> string) list \<Rightarrow> string" where
  "decls ds = concat (map (\<lambda>(nm, father, body, gap). decl_text nm father body @ gap) ds)"

definition decls_ok :: "(string \<times> string \<times> string \<times> string) list \<Rightarrow> bool" where
  "decls_ok ds \<longleftrightarrow> (\<forall>(nm, father, body, gap) \<in> set ds. decl_ok nm father body \<and> str_find (drop 7 (decl_text nm father body) @ gap) CLASS 0 = - 1)"

definition add_decls :: "(string \<times> string \<times> string \<times> string) list \<Rightarrow> (string, CClassContent) smap \<Rightarrow> (string, CClassContent) smap" where
  "add_decls ds m = foldl (\<lambda>m (nm, father, body, gap). sinsert nm (class_entry nm father body) m) m ds"

lemma decls_start: "decls ds = [] \<or> hd (decls ds) = hd CLASS"
  by (cases ds) (auto simp: decls_def decl_text_def hd_append CLASS_def)

lemma class_loop_decls:
  assumes "decls_ok ds" "str_find w CLASS 0 = - 1"
  shows "class_loop (A @ w @ decls ds) (str_find (A @ w @ decls ds) CLASS (int (length A))) h =
     Inr (h\<lparr>h_classposition := (if h_classposition h = - 1 \<and> ds \<noteq> [] then int (length (A @ w)) else h_classposition h),
            classdef := add_decls ds (classdef h)\<rparr>)"
  using assms
proof (induction ds arbitrary: A w h)
  case Nil
  have "str_find (A @ w @ []) CLASS (int (length A)) = - 1"
    using str_find_skip[OF no_start[OF Nil(2) CLASS_facts(1,3)], of "[]" A] by (simp add: CLASS_facts(1))
  then show ?case by (subst class_loop.simps) (simp add: decls_def add_decls_def)
next
  case (Cons d ds)
  obtain nm father body gap where d: "d = (nm, father, body, gap)" by (cases d)
  have ok: "decl_ok nm father body" "str_find (drop 7 (decl_text nm father body) @ gap) CLASS 0 = - 1" "decls_ok ds"
    using Cons.prems(1) by (auto simp: decls_ok_def d)
  let ?s = "A @ w @ decls (d # ds)" and ?p = "int (length (A @ w))" and ?w = "drop 7 (decl_text nm father body) @ gap"
  have t: "decl_text nm father body = CLASS @ drop 7 (decl_text nm father body)" by (simp add: decl_text_def CLASS_def)
  have s: "?s = (A @ w) @ decl_text nm father body @ gap @ decls ds" by (simp add: decls_def d)
  have s': "?s = (A @ w @ CLASS) @ ?w @ decls ds" unfolding s by (subst t) simp
  have "find_suf CLASS (decls (d # ds)) (length (A @ w)) = ?p"
    using find_suf_here[of CLASS "?w @ decls ds" "length (A @ w)"] s s' by (metis append.assoc same_append_eq)
  then have f: "str_find ?s CLASS (int (length A)) = ?p"
    using str_find_skip[OF no_start[OF Cons.prems(2) CLASS_facts(1,3) decls_start], of A] by metis
  let ?h = "h\<lparr>h_classposition := (if h_classposition h = - 1 then ?p else h_classposition h), classdef := sinsert nm (class_entry nm father body) (classdef h)\<rparr>"
  have c: "class_at ?s ?p h = Inr ?h" unfolding s by (rule class_at_decl[OF ok(1)])
  have "class_loop ?s (str_find ?s CLASS (int (length (A @ w @ CLASS)))) ?h =
      Inr (?h\<lparr>h_classposition := (if h_classposition ?h = - 1 \<and> ds \<noteq> [] then int (length ((A @ w @ CLASS) @ ?w)) else h_classposition ?h),
        classdef := add_decls ds (classdef ?h)\<rparr>)"
    unfolding s' by (rule Cons.IH[OF ok(3,2)])
  moreover have "class_loop ?s ?p h = class_loop ?s (str_find ?s CLASS (int (length (A @ w @ CLASS)))) ?h"
    using c by (subst class_loop.simps) (simp add: add.assoc)
  ultimately show ?case unfolding f by (simp add: add_decls_def d)
qed

definition header_text :: "string list \<Rightarrow> string \<Rightarrow> (string \<times> string \<times> string \<times> string) list \<Rightarrow> string" where
  "header_text incs pre ds = concat (map inc_line incs) @ pre @ decls ds"

lemma add_decls_ok: "smap_ok m \<Longrightarrow> smap_ok (add_decls ds m)"
  unfolding add_decls_def by (induction ds arbitrary: m) auto

lemma sfind_add_decls:
  assumes "smap_ok m" "distinct (map fst ds)" "\<forall>d \<in> set ds. sfind m (fst d) = None"
  shows "sfind (add_decls ds m) x = (case map_of ds x of Some (father, body, gap) \<Rightarrow> Some (class_entry x father body) | None \<Rightarrow> sfind m x)"
  using assms
proof (induction ds arbitrary: m)
  case (Cons d ds)
  obtain nm father body gap where d: "d = (nm, father, body, gap)" by (cases d)
  let ?m = "sinsert nm (class_entry nm father body) m"
  have m: "sfind ?m = (sfind m)(nm \<mapsto> class_entry nm father body)" using Cons.prems(1,3) by (simp add: d sfind_sinsert fun_eq_iff)
  have n: "map_of ds nm = None" using Cons.prems(2) by (simp add: d map_of_eq_None_iff)
  have "sfind (add_decls ds ?m) x = (case map_of ds x of Some (father, body, gap) \<Rightarrow> Some (class_entry x father body) | None \<Rightarrow> sfind ?m x)"
    by (rule Cons.IH) (use Cons.prems m in \<open>auto simp: d\<close>)
  then show ?case using m n by (auto simp: add_decls_def d split: option.split)
qed (simp add: add_decls_def)

text \<open>The file of the name holds a header of the includes, the text and the declarations given.\<close>

definition header_file :: "filesystem \<Rightarrow> string \<Rightarrow> string list \<Rightarrow> string \<Rightarrow> (string \<times> string \<times> string \<times> string) list \<Rightarrow> bool" where
  "header_file fs name incs pre ds \<longleftrightarrow> CReadH_readallfile fs name = Inr (header_text incs pre ds) \<and> (\<forall>f \<in> set incs. inc_ok f) \<and>
     CHR ''#'' \<notin> set pre \<and> str_find (concat (map inc_line incs) @ pre) CLASS 0 = - 1 \<and> decls_ok ds \<and> ds \<noteq> [] \<and> distinct (map fst ds)"

lemma header_read:
  assumes "header_file fs name incs pre ds"
  shows "\<exists>H. CReadH_new fs name = Inr H \<and> h_headfile H = incs \<and>
     (\<forall>x. sfind (classdef H) x = (case map_of ds x of Some (father, body, gap) \<Rightarrow> Some (class_entry x father body) | None \<Rightarrow> None))"
proof -
  have F: "CReadH_readallfile fs name = Inr (header_text incs pre ds)" "\<forall>f \<in> set incs. inc_ok f" "CHR ''#'' \<notin> set pre"
    "str_find (concat (map inc_line incs) @ pre) CLASS 0 = - 1" "decls_ok ds" "ds \<noteq> []" "distinct (map fst ds)"
    using assms by (simp_all add: header_file_def)
  let ?i = "concat (map inc_line incs)" and ?s = "header_text incs pre ds"
  let ?h = "\<lparr>Hname = name, h_globalStr = [], h_headfile = [], h_classposition = - 1, classdef = []\<rparr>"
  let ?h1 = "?h\<lparr>h_classposition := int (length (?i @ pre)), classdef := add_decls ds []\<rparr>"
  have s: "?s = [] @ (?i @ pre) @ decls ds" by (simp add: header_text_def)
  have c: "CReadH_getclass ?s ?h = Inr ?h1"
    using class_loop_decls[OF F(5,4), of "[]" ?h] F(6) by (simp add: CReadH_getclass_def s)
  obtain d ds' where "ds = d # ds'" using F(6) by (cases ds) auto
  then obtain r where r: "decls ds = NL # r" by (cases d) (simp add: decls_def decl_text_def CLASS_def)
  have "?s = [] @ (?i @ pre @ [NL]) @ r" by (simp add: header_text_def r)
  then have u: "str_substr ?s 0 (int (length (?i @ pre)) + 1) = Inr (?i @ (pre @ [NL]))"
    by (simp only:) (subst str_substr_app, simp_all)
  have "head_loop (?i @ (pre @ [NL])) (str_find (?i @ (pre @ [NL])) INCLUDE 0) [] = Inr incs"
    using head_loop_includes[of incs "[]" "pre @ [NL]" "[]" "[]"] F(2,3) by (simp add: NL_def)
  then have g: "CReadH_getheadfile (int (length (?i @ pre))) ?s ?h1 = Inr (?h1\<lparr>h_headfile := incs\<rparr>)"
    unfolding CReadH_getheadfile_def u by simp
  obtain gl where gl: "CReadH_findGlobal ?s = Inr gl" by (simp add: CReadH_findGlobal_eq)
  have "CReadH_new fs name = Inr (?h1\<lparr>h_headfile := incs, h_globalStr := gl\<rparr>)"
    unfolding CReadH_new_def Let_def using F(1) c g gl by simp
  moreover have "sfind (add_decls ds []) x = (case map_of ds x of Some (father, body, gap) \<Rightarrow> Some (class_entry x father body) | None \<Rightarrow> None)" for x
    using sfind_add_decls[of "[]" ds x] F(7) by (simp split: option.splits)
  ultimately show ?thesis by simp
qed

text \<open>
  C32. A whole header is read back: from a file of include lines and class declarations (with or without a base class,
  with balanced bodies, and any text between them that starts no class), the reader makes an
  object with exactly these includes, and finds under every name exactly the class declared
  with it, with its text and its base class.
\<close>

theorem header_roundtrip:
  assumes "header_file fs name incs pre ds"
  shows "\<exists>H. CReadH_new fs name = Inr H \<and> h_headfile H = incs \<and>
     (\<forall>x. sfind (classdef H) x = (case map_of ds x of Some (father, body, gap) \<Rightarrow> Some (class_entry x father body) | None \<Rightarrow> None))"
  by (rule header_read[OF assms])

section \<open>Sources\<close>

type_synonym method_entry = "string \<times> string \<times> string \<times> string \<times> string \<times> string"

definition methods :: "method_entry list \<Rightarrow> string" where
  "methods ms = concat (map (\<lambda>(rt, cls, fn, para, body, gap). NL # method_text rt cls fn para body @ gap) ms)"

definition methods_ok :: "method_entry list \<Rightarrow> bool" where
  "methods_ok ms \<longleftrightarrow> (\<forall>(rt, cls, fn, para, body, gap) \<in> set ms. method_parts rt cls fn para body \<and> CHR '':'' \<notin> set gap)"

definition method_of :: "string \<Rightarrow> string \<Rightarrow> string \<Rightarrow> string \<Rightarrow> string \<Rightarrow> CMethodBody" where
  "method_of rt cls fn para body = \<lparr>m_body = method_text rt cls fn para body, funcline = fn,
     paraCnt = (if length (erase_blanks para 0) > 2 then 1 else 0) + count_commas (erase_blanks para 0), CallParemeter = []\<rparr>"

definition add_methods :: "method_entry list \<Rightarrow> (string, CMethodBody list) smap \<Rightarrow> (string, CMethodBody list) smap" where
  "add_methods ms m = foldl (\<lambda>m (rt, cls, fn, para, body, gap). add_method cls (method_of rt cls fn para body) m) m ms"

text \<open>The end of the first method, where the search for includes ends.\<close>

fun first_end :: "nat \<Rightarrow> method_entry list \<Rightarrow> int" where
  "first_end n [] = - 1"
| "first_end n ((rt, cls, fn, para, body, gap) # ms) = int (n + length (method_text rt cls fn para body))"

lemma method_heads:
  assumes "method_parts rt cls fn para body" "CHR '':'' \<notin> set w"
  shows "str_find (A @ w @ NL # method_text rt cls fn para body @ B) ''::'' (int (length A)) = int (length ((A @ w) @ NL # rt @ '' '' @ cls))"
proof -
  let ?w = "w @ NL # rt @ '' '' @ cls" and ?R = "fn @ ''('' @ para @ '')'' @ NL # ''{'' @ body @ ''}'' @ B"
  have "CHR '':'' \<notin> set ?w" using assms ident_not by (auto simp: method_parts_def NL_def)
  then have "str_find (A @ ?w @ ''::'' @ ?R) ''::'' (int (length A)) = int (length (A @ ?w))"
    using str_find_over[of "''::''" ?w A "''::'' @ ?R"] by (simp only: find_suf_here list.sel list.distinct not_False_eq_True)
  then show ?thesis by (simp add: method_text_def)
qed

lemma relation_loop_methods:
  assumes "methods_ok ms" "CHR '':'' \<notin> set w"
  shows "\<exists>r'. sbind (findclasses (int (length A)) (A @ w @ methods ms) r) (\<lambda>(pos, r). relation_loop (A @ w @ methods ms) pos c r) =
      Inr (if c = - 1 then first_end (length (A @ w)) ms else c, r') \<and> cppclass r' = add_methods ms (cppclass r) \<and> p_headfile r' = p_headfile r"
  using assms
proof (induction ms arbitrary: A w r c)
  case Nil
  have "str_find (A @ w @ []) ''::'' (int (length A)) = - 1" using str_find_over[of "''::''" w A "[]"] Nil(2) by simp
  then show ?case by (simp add: findclasses_eq methods_def add_methods_def relation_loop.simps[of _ "- 1"])
next
  case (Cons m ms)
  obtain rt cls fn para body gap where m: "m = (rt, cls, fn, para, body, gap)" by (cases m)
  have ok: "method_parts rt cls fn para body" "CHR '':'' \<notin> set (CHR ''}'' # gap)" "methods_ok ms"
    using Cons.prems(1) by (auto simp: methods_ok_def m)
  let ?s = "A @ w @ methods (m # ms)" and ?t = "method_text rt cls fn para body"
  let ?A = "(A @ w) @ NL # butlast ?t" and ?k = "int (length ((A @ w) @ NL # ?t)) - 1"
  have t: "?t = butlast ?t @ ''}''" by (simp add: method_text_def butlast_append)
  have s: "?s = (A @ w) @ NL # ?t @ gap @ methods ms" by (simp add: methods_def m)
  have s': "?s = ?A @ (CHR ''}'' # gap) @ methods ms" unfolding s by (subst t) simp
  have k: "int (length ?A) = ?k" using arg_cong[OF t, of length] by simp
  let ?r = "r\<lparr>cppclass := add_method cls (method_of rt cls fn para body) (cppclass r), p_classposition := ?k\<rparr>"
  have h: "str_find ?s ''::'' (int (length A)) = int (length ((A @ w) @ NL # rt @ '' '' @ cls))"
    using method_heads[OF ok(1) Cons.prems(2), of A "gap @ methods ms"] s by simp
  have f: "findclasses (int (length A)) ?s r = Inr (?k, ?r)"
    using findclasses_roundtrip[OF ok(1) s h, of r] by (simp add: method_of_def)
  let ?c = "if c = - 1 then ?k else c"
  have k0: "?k \<noteq> - 1" by simp
  have e: "relation_loop ?s ?k c ?r = sbind (findclasses ?k ?s ?r) (\<lambda>(pos, r). relation_loop ?s pos ?c r)"
    using k0 by (subst relation_loop.simps) (simp add: Let_def)
  obtain r' where r': "sbind (findclasses (int (length ?A)) (?A @ (CHR ''}'' # gap) @ methods ms) ?r)
        (\<lambda>(pos, r). relation_loop (?A @ (CHR ''}'' # gap) @ methods ms) pos ?c r) =
      Inr (if ?c = - 1 then first_end (length (?A @ CHR ''}'' # gap)) ms else ?c, r')" "cppclass r' = add_methods ms (cppclass ?r)" "p_headfile r' = p_headfile ?r"
    using Cons.IH[OF ok(3,2)] by blast
  have c: "?c \<noteq> - 1" using k0 by auto
  have "sbind (findclasses (int (length A)) ?s r) (\<lambda>(pos, r). relation_loop ?s pos c r) = Inr (?c, r')"
    unfolding f sbind_Inr prod.case e using r'(1) c unfolding s'[symmetric] k by simp
  moreover have "?c = (if c = - 1 then first_end (length (A @ w)) (m # ms) else c)" by (simp add: m)
  ultimately show ?case using r'(2,3) by (auto simp: add_methods_def m)
qed

definition source_text :: "string list \<Rightarrow> string \<Rightarrow> method_entry list \<Rightarrow> string" where
  "source_text incs pre ms = concat (map inc_line incs) @ pre @ methods ms"

text \<open>The methods of one class, in their order.\<close>

fun methods_of :: "string \<Rightarrow> method_entry list \<Rightarrow> CMethodBody list" where
  "methods_of x [] = []"
| "methods_of x ((rt, cls, fn, para, body, gap) # ms) = (if cls = x then [method_of rt cls fn para body] else []) @ methods_of x ms"

lemma sfind_add_method:
  assumes "smap_ok m"
  shows "smap_ok (add_method c q m)" "sfind (add_method c q m) = (sfind m)(c \<mapsto> (case sfind m c of None \<Rightarrow> [] | Some qs \<Rightarrow> qs) @ [q])"
  using assms by (auto simp: add_method_def sfind_sinsert sfind_supdate fun_eq_iff split: option.splits)

lemma sfind_add_methods:
  assumes "smap_ok m"
  shows "sfind (add_methods ms m) x = (let qs = (case sfind m x of None \<Rightarrow> [] | Some qs \<Rightarrow> qs) @ methods_of x ms in
     if sfind m x = None \<and> methods_of x ms = [] then None else Some qs)"
  using assms
proof (induction ms arbitrary: m)
  case Nil
  then show ?case by (auto simp: add_methods_def split: option.splits)
next
  case (Cons e ms)
  obtain rt cls fn para body gap where e: "e = (rt, cls, fn, para, body, gap)" by (cases e)
  let ?m = "add_method cls (method_of rt cls fn para body) m"
  note M = sfind_add_method[OF Cons.prems, of cls "method_of rt cls fn para body"]
  have "add_methods (e # ms) m = add_methods ms ?m" by (simp add: add_methods_def e)
  then show ?case using Cons.IH[OF M(1)] M(2) by (auto simp: e Let_def split: option.splits)
qed

definition source_file :: "filesystem \<Rightarrow> string \<Rightarrow> string list \<Rightarrow> string \<Rightarrow> method_entry list \<Rightarrow> bool" where
  "source_file fs name incs pre ms \<longleftrightarrow> CReadCpp_readallfile fs name = Inr (source_text incs pre ms) \<and>
     (\<forall>f \<in> set incs. inc_ok f \<and> CHR '':'' \<notin> set f) \<and> CHR ''#'' \<notin> set pre \<and> CHR '':'' \<notin> set pre \<and> methods_ok ms \<and>
     (case ms of [] \<Rightarrow> False | (rt, cls, fn, para, body, gap) # _ \<Rightarrow> CHR ''#'' \<notin> set (method_text rt cls fn para body))"

lemma source_read:
  assumes "source_file fs name incs pre ms"
  shows "\<exists>r. CReadCpp_new fs name = Inr r \<and> p_headfile r = incs \<and>
     (\<forall>x. sfind (cppclass r) x = (if methods_of x ms = [] then None else Some (methods_of x ms)))"
proof -
  obtain rt cls fn para body gap ms' where F: "CReadCpp_readallfile fs name = Inr (source_text incs pre ms)"
    "\<forall>f \<in> set incs. inc_ok f \<and> CHR '':'' \<notin> set f" "CHR ''#'' \<notin> set pre" "CHR '':'' \<notin> set pre" "methods_ok ms"
    "ms = (rt, cls, fn, para, body, gap) # ms'" "CHR ''#'' \<notin> set (method_text rt cls fn para body)"
    using assms by (auto simp: source_file_def split: list.splits)
  let ?i = "concat (map inc_line incs)" and ?s = "source_text incs pre ms" and ?t = "method_text rt cls fn para body"
  let ?r = "\<lparr>CppName = name, imatch = 0, p_classposition = - 1, p_globalStr = [], p_headfile = [], cppclass = []\<rparr>"
  have col: "CHR '':'' \<notin> set (?i @ pre)" using F(2,4) by (auto simp: inc_line_def INCLUDE_def QUOTE_def NL_def)
  let ?c = "int (length (?i @ pre @ ?t))"
  obtain r where r: "sbind (findclasses 0 ?s ?r) (\<lambda>(pos, r). relation_loop ?s pos (- 1) r) = Inr (?c, r)"
      "cppclass r = add_methods ms []" "p_headfile r = []"
    using relation_loop_methods[OF F(5) col, of "[]" ?r "- 1"] by (auto simp: source_text_def F(6))
  have "?s = [] @ (?i @ pre @ NL # ?t) @ gap @ methods ms'" by (simp add: source_text_def methods_def F(6))
  then have u: "str_substr ?s 0 (?c + 1) = Inr (?i @ (pre @ NL # ?t))"
    by (simp only:) (subst str_substr_app, simp_all)
  have "head_loop (?i @ (pre @ NL # ?t)) (str_find (?i @ (pre @ NL # ?t)) INCLUDE 0) [] = Inr incs"
    using head_loop_includes[of incs "[]" "pre @ NL # ?t" "[]" "[]"] F(2,3,7) by (simp add: NL_def)
  then have g: "CReadCpp_getheadfile ?c ?s r = Inr (r\<lparr>p_headfile := incs\<rparr>)" unfolding CReadCpp_getheadfile_def u by (simp add: r(3))
  obtain gl where gl: "CReadCpp_findGlobal ?s = Inr gl" using CReadH_findGlobal_eq[of ?s] by (simp add: CReadCpp_findGlobal_def CReadH_findGlobal_def)
  have c: "?c \<noteq> - 1" by simp
  obtain pos r0 where f: "findclasses 0 ?s ?r = Inr (pos, r0)" "relation_loop ?s pos (- 1) r0 = Inr (?c, r)"
    using r(1) by (auto simp: sbind_eq_Inr)
  have "CReadCpp_new fs name = Inr (r\<lparr>p_headfile := incs, p_globalStr := gl\<rparr>)"
    unfolding CReadCpp_new_def getrelation_def CReadCpp.select_convs F(1) sbind_Inr f prod.case if_P[OF c] g gl by simp
  moreover have "sfind (add_methods ms []) x = (if methods_of x ms = [] then None else Some (methods_of x ms))" for x
    using sfind_add_methods[of "[]" ms x] by simp
  ultimately show ?thesis using r(2) by auto
qed

text \<open>
  C31. A whole source is read back: from a file of include lines and method definitions (with balanced bodies, and any text
  without colons between them), the reader makes an object with exactly these includes, and
  finds under every class exactly its methods, in the order of the file, each with its text,
  its name and its number of parameters.
\<close>

theorem source_roundtrip:
  assumes "source_file fs name incs pre ms"
  shows "\<exists>r. CReadCpp_new fs name = Inr r \<and> p_headfile r = incs \<and>
     (\<forall>x. sfind (cppclass r) x = (if methods_of x ms = [] then None else Some (methods_of x ms)))"
  by (rule source_read[OF assms])

section \<open>Witnesses\<close>

definition disk_of :: "string \<Rightarrow> filesystem" where
  "disk_of s name = Some \<lparr>f_data = s, f_malloc = True, f_read = length s, f_after = [NUL]\<rparr>"

definition sample_decls :: "(string \<times> string \<times> string \<times> string) list" where
  "sample_decls = [(''Cat'', [], ''int a;'' @ [NL] @ ''void f(){}'', '';'' @ [NL]), (''Dog'', ''Animal'', ''Cat *c;'', '';'')]"

definition sample_methods :: "method_entry list" where
  "sample_methods = [(''void'', ''Dog'', ''f'', ''int a,int b'', ''Cat::g();'', [NL]), (''int'', ''Cat'', ''g'', [], ''{return 1;}'', [NL]),
     (''int'', ''Dog'', ''h'', [], [], [NL])]"

theorem header_roundtrip_witness:
  "\<exists>H. CReadH_new (disk_of (header_text [''x.h'', ''y.h''] ''int k;'' sample_decls)) ''d.h'' = Inr H \<and> h_headfile H = [''x.h'', ''y.h''] \<and>
     sfind (classdef H) ''Cat'' = Some (class_entry ''Cat'' [] (''int a;'' @ [NL] @ ''void f(){}'')) \<and>
     sfind (classdef H) ''Dog'' = Some (class_entry ''Dog'' ''Animal'' ''Cat *c;'') \<and> sfind (classdef H) ''Animal'' = None"
proof -
  have "header_file (disk_of (header_text [''x.h'', ''y.h''] ''int k;'' sample_decls)) ''d.h'' [''x.h'', ''y.h''] ''int k;'' sample_decls" by code_simp
  from header_roundtrip[OF this] obtain H where h: "CReadH_new (disk_of (header_text [''x.h'', ''y.h''] ''int k;'' sample_decls)) ''d.h'' = Inr H"
     "h_headfile H = [''x.h'', ''y.h'']"
     "\<And>x. sfind (classdef H) x = (case map_of sample_decls x of Some (father, body, gap) \<Rightarrow> Some (class_entry x father body) | None \<Rightarrow> None)" by blast
  then show ?thesis by (simp add: sample_decls_def)
qed

theorem source_roundtrip_witness:
  "\<exists>r. CReadCpp_new (disk_of (source_text [''d.h''] ''int k;'' sample_methods)) ''d.cpp'' = Inr r \<and> p_headfile r = [''d.h''] \<and>
     sfind (cppclass r) ''Dog'' = Some [method_of ''void'' ''Dog'' ''f'' ''int a,int b'' ''Cat::g();'', method_of ''int'' ''Dog'' ''h'' [] []] \<and>
     sfind (cppclass r) ''Cat'' = Some [method_of ''int'' ''Cat'' ''g'' [] ''{return 1;}''] \<and> sfind (cppclass r) ''Animal'' = None"
proof -
  have "source_file (disk_of (source_text [''d.h''] ''int k;'' sample_methods)) ''d.cpp'' [''d.h''] ''int k;'' sample_methods" by code_simp
  from source_roundtrip[OF this] obtain r where r: "CReadCpp_new (disk_of (source_text [''d.h''] ''int k;'' sample_methods)) ''d.cpp'' = Inr r"
     "p_headfile r = [''d.h'']"
     "\<And>x. sfind (cppclass r) x = (if methods_of x sample_methods = [] then None else Some (methods_of x sample_methods))" by blast
  then show ?thesis by (simp add: sample_methods_def)
qed

end
