(* ===== verification/Projects.thy ===== *)
theory Projects
  imports Calls Documents Invariants
begin

text \<open>
  From the texts of the files to the relation: the readers put together with the parser. A call
  that is written in a source, of a class that is declared in a header, is in the relation.
\<close>

section \<open>Reading all files\<close>

lemma read_header_Inr: "read_header fs hm n = Inr hm' \<longleftrightarrow> (\<exists>H k. CReadH_new fs n = Inr H \<and> head_key n = Inr k \<and> hm' = sinsert k H hm)"
  by (auto simp: read_header_def sbind_eq_Inr)

lemma read_source_Inr: "read_source fs srcs n = Inr srcs' \<longleftrightarrow> (\<exists>p. CReadCpp_new fs n = Inr p \<and> srcs' = p # srcs)"
  by (auto simp: read_source_def sbind_eq_Inr)

lemma read_headers_keep:
  assumes "mfold (read_header fs) hm nms = Inr hm'"
  shows "set hm \<subseteq> set hm'"
  using assms
proof (induction nms arbitrary: hm)
  case (Cons n ns)
  obtain H k where "mfold (read_header fs) (sinsert k H hm) ns = Inr hm'"
    using Cons.prems by (auto simp: read_header_Inr sbind_eq_Inr)
  then show ?case using Cons.IH set_sinsert_sub(2)[of hm k H] by blast
qed simp

lemma sinsert_new: "k \<notin> fst ` set m \<Longrightarrow> (k, v) \<in> set (sinsert k v m)"
  by (induction m) auto

lemma read_headers_entry:
  assumes "mfold (read_header fs) hm nms = Inr hm'" "n \<in> set nms" "CReadH_new fs n = Inr H" "head_key n = Inr k"
    and "distinct (map head_key nms)" "k \<notin> fst ` set hm"
  shows "(k, H) \<in> set hm'"
  using assms(1,2,5,6)
proof (induction nms arbitrary: hm)
  case (Cons a ns)
  obtain Ha ka where a: "CReadH_new fs a = Inr Ha" "head_key a = Inr ka" "mfold (read_header fs) (sinsert ka Ha hm) ns = Inr hm'"
    using Cons.prems(1) by (auto simp: read_header_Inr sbind_eq_Inr)
  show ?case
  proof (cases "n = a")
    case True
    then have "(k, H) \<in> set (sinsert ka Ha hm)" using a assms(3,4) Cons.prems(4) by (simp add: sinsert_new)
    then show ?thesis using read_headers_keep[OF a(3)] by blast
  next
    case False
    then have n: "n \<in> set ns" using Cons.prems(2) by simp
    then have "ka \<noteq> k" using Cons.prems(3) assms(4) a(2) by (auto simp: image_iff)
    then show ?thesis using Cons.IH[OF a(3) n] Cons.prems(3,4) by simp
  qed
qed simp

lemma read_sources_entry:
  assumes "mfold (read_source fs) srcs nms = Inr srcs'" "n \<in> set nms" "CReadCpp_new fs n = Inr p"
  shows "set srcs \<subseteq> set srcs' \<and> p \<in> set srcs'"
  using assms(1,2)
proof (induction nms arbitrary: srcs)
  case (Cons a ns)
  obtain pa srcs1 where a: "CReadCpp_new fs a = Inr pa" "read_source fs srcs a = Inr srcs1" "mfold (read_source fs) srcs1 ns = Inr srcs'"
    using Cons.prems(1) by (auto simp: sbind_eq_Inr read_source_Inr)
  have s: "set srcs1 = insert pa (set srcs)" using a(1,2) by (auto simp: read_source_Inr)
  have k: "set srcs1 \<subseteq> set srcs'"
  proof (cases "n \<in> set ns")
    case False
    show ?thesis using mfold_keeps[where R = "\<lambda>s t. set s \<subseteq> set t", OF a(3)] by (fastforce simp: read_source_Inr)
  qed (use Cons.IH[OF a(3)] in blast)
  show ?case
  proof (cases "n = a")
    case True
    then show ?thesis using s k a(1) assms(3) by auto
  next
    case False
    then show ?thesis using Cons.IH[OF a(3)] Cons.prems(2) s by auto
  qed
qed simp

lemma read_headers_keys:
  assumes "mfold (read_header fs) hm nms = Inr hm'" "n \<in> set nms"
  shows "\<exists>k. head_key n = Inr k"
  using assms by (induction nms arbitrary: hm) (auto simp: sbind_eq_Inr read_header_Inr)

section \<open>What the start of parsing keeps\<close>

lemma each_to:
  assumes "each f xs = Inr ys" "x \<in> set xs"
  obtains y where "y \<in> set ys" "f x = Inr y"
proof -
  note L = each_all2[OF assms(1)]
  obtain i where i: "i < length xs" "x = xs ! i" using assms(2) by (auto simp: in_set_conv_nth)
  then have "i < length ys" using list_all2_lengthD[OF L] by simp
  then show thesis using that[OF nth_mem] list_all2_nthD[OF L i(1)] i(2) by simp
qed

lemma InitCalledParameter_body: "InitCalledParameter m = Inr m' \<Longrightarrow> m_body m' = m_body m"
  by (auto simp: InitCalledParameter_def Let_def sbind_eq_Inr)

lemma init_source_keeps:
  assumes "init_source p = Inr p'" "(c, ms) \<in> set (cppclass p)" "m \<in> set ms"
  obtains ms' m' where "(c, ms') \<in> set (cppclass p')" "m' \<in> set ms'" "m_body m' = m_body m"
proof -
  obtain cs where cs: "each init_class (cppclass p) = Inr cs" "p' = p\<lparr>cppclass := cs\<rparr>" using assms(1) by (auto simp: init_source_def sbind_eq_Inr)
  obtain e where e: "e \<in> set cs" "init_class (c, ms) = Inr e" by (rule each_to[OF cs(1) assms(2)])
  obtain qs where qs: "each InitCalledParameter ms = Inr qs" "e = (c, qs)" using e(2) by (auto simp: init_class_def sbind_eq_Inr)
  obtain m' where "m' \<in> set qs" "InitCalledParameter m = Inr m'" by (rule each_to[OF qs(1) assms(3)])
  then show thesis using that[of qs m'] InitCalledParameter_body e(1) qs(2) cs(2) by simp
qed

lemma methods_of_mem: "(rt, c, fn, para, body, gap) \<in> set ms \<Longrightarrow> method_of rt c fn para body \<in> set (methods_of c ms)"
  by (induction c ms rule: methods_of.induct) auto

section \<open>From the texts to the relation\<close>

text \<open>
  C7. A call that stands in the files is found: when a test case is read and parsed without an exception, a
  header of its folder is a sequence of class declarations, one of them of \<open>T\<close>, and a source is a sequence of method
  definitions, one of them a method of another class \<open>c\<close> that declares a local variable of type \<open>T\<close> and then takes
  a member of it, then the relation has \<open>c\<close> among the callers of \<open>T\<close>, unless \<open>T\<close> is also the name of a type definition.
\<close>

theorem project_call_found:
  assumes "CTestCaseCpp_new now line = Inr tc0" "CTestCaseCpp_doReading w tc0 = Inr tc" "parse_all tc = Inr tc'"
    and "dfsFolder (w_opendir w) (strTestPath tc0) ([], []) = Inr (cs, hs)" "h \<in> set hs" "s \<in> set cs" "distinct (map head_key hs)"
    and "header_file (w_files w) h incs pre ds" "T \<in> fst ` set ds"
    and "source_file (w_files w) s incs' pre' ms" "(rt, c, fn, para, body, gap) \<in> set ms" "local_call T v (method_text rt c fn para body)"
    and "sfind (t_mapForTypeDef tc') T = None" "T \<noteq> c"
  shows "(T, c) \<in> callers (t_calledrelation tc')"
proof -
  have z: "aryh_fileName tc0 = []" "arycpp_fileName tc0 = []" "t_hmap tc0 = []" "t_head tc0 = []" "t_calledrelation tc0 = []"
    using assms(1) by (auto simp: CTestCaseCpp_new_def sbind_eq_Inr)
  obtain hm srcs where r: "mfold (read_header (w_files w)) [] hs = Inr hm" "mfold (read_source (w_files w)) [] cs = Inr srcs" "t_hmap tc = hm" "t_head tc = srcs"
    using assms(2,4) z by (auto simp: CTestCaseCpp_doReading_def readEachfile_def sbind_eq_Inr note_time_def Let_def)
  have rel: "t_calledrelation tc = []" using doReading_keeps[OF assms(2)] z(5) by simp
  obtain d where "map_of ds T = Some d" using assms(9) by (metis map_of_eq_None_iff not_None_eq)
  then obtain H where H: "CReadH_new (w_files w) h = Inr H" "sfind (classdef H) T \<noteq> None"
    using header_read[OF assms(8)] by (cases d) auto
  obtain k where "head_key h = Inr k" using read_headers_keys[OF r(1) assms(5)] by blast
  from read_headers_entry[OF r(1) assms(5) H(1) this assms(7)] have K: "known (t_hmap tc) T" using H(2) r(3) by (auto simp: known_def)
  obtain p where p: "CReadCpp_new (w_files w) s = Inr p" "\<And>x. sfind (cppclass p) x = (if methods_of x ms = [] then None else Some (methods_of x ms))"
    using source_read[OF assms(10)] by blast
  let ?m = "method_of rt c fn para body"
  have m: "?m \<in> set (methods_of c ms)" by (rule methods_of_mem[OF assms(11)])
  then have "sfind (cppclass p) c = Some (methods_of c ms)" using p(2)[of c] by auto
  then have e: "(c, methods_of c ms) \<in> set (cppclass p)" by (rule map_of_SomeD)
  have "p \<in> set (t_head tc)" using read_sources_entry[OF r(2) assms(6) p(1)] r(4) by simp
  moreover obtain srcs' where s': "each init_source (t_head tc) = Inr srcs'" "t_head tc' = srcs'" "t_hmap tc' = t_hmap tc"
    using assms(3) by (auto simp: parse_all_def sbind_eq_Inr Let_def)
  ultimately obtain p' where p': "p' \<in> set (t_head tc')" "init_source p = Inr p'" using each_to[OF s'(1)] by metis
  obtain ms' m' where "(c, ms') \<in> set (cppclass p')" "m' \<in> set ms'" "m_body m' = m_body ?m" by (rule init_source_keeps[OF p'(2) e m])
  then show ?thesis using local_call_found[OF assms(3) rel p'(1)] assms(12-14) K s'(3) by (simp add: method_of_def)
qed

section \<open>A project\<close>

definition project_decls :: "(string \<times> string \<times> string \<times> string) list" where
  "project_decls = [(''A'', [], [], '';''), (''B'', ''Base'', ''int n;'', '';'')]"

definition project_methods :: "method_entry list" where
  "project_methods = [(''void'', ''A'', ''m'', [], ''B *b; b->f();'', [NL])]"

definition project_world :: world where
  "project_world = sample_world\<lparr>w_files := (\<lambda>name.
     if name = ''t//a.h'' then Some (sample_text (header_text [] [] project_decls))
     else if name = ''t//a.cpp'' then Some (sample_text (source_text [''a.h''] [] project_methods)) else None)\<rparr>"

lemma project_files:
  "header_file (w_files project_world) ''t//a.h'' [] [] project_decls" "source_file (w_files project_world) ''t//a.cpp'' [''a.h''] [] project_methods"
  "dfsFolder (w_opendir project_world) ''t'' ([], []) = Inr ([''t//a.cpp''], [''t//a.h''])"
  by code_simp+

lemma project_read:
  "sbind sample_new (\<lambda>tc0. sbind (CTestCaseCpp_doReading project_world tc0) (\<lambda>tc. sbind (parse_all tc) (\<lambda>tc1. Inr (strTestPath tc0, t_mapForTypeDef tc1)))) = Inr (''t'', [])"
  by code_simp

theorem project_call_found_witness:
  "\<exists>tc0 tc tc'. sample_new = Inr tc0 \<and> CTestCaseCpp_doReading project_world tc0 = Inr tc \<and> parse_all tc = Inr tc' \<and>
     (''B'', ''A'') \<in> callers (t_calledrelation tc')"
proof -
  obtain tc0 tc tc' where t: "sample_new = Inr tc0" "CTestCaseCpp_doReading project_world tc0 = Inr tc" "parse_all tc = Inr tc'"
      "strTestPath tc0 = ''t''" "t_mapForTypeDef tc' = []"
    using project_read by (auto simp: sbind_eq_Inr)
  let ?t = "method_text ''void'' ''A'' ''m'' [] ''B *b; b->f();''"
  have b: "?t = (''void A::m()'' @ [NL]) @ CHR ''{'' # ''B'' @ '' *'' @ ''b'' @ CHR '';'' # [] @ CHR '' '' # ''b'' @ ''->'' @ ''f();}''"
    by (simp add: method_text_def)
  have f: "str_find ?t ''b'' 0 = int (length ((''void A::m()'' @ [NL]) @ CHR ''{'' # ''B'' @ '' *''))" by code_simp
  have i: "is_ident CHR ''B''" "is_ident CHR ''b''" "\<not> is_ident CHR ''{''" "\<not> is_star_blank CHR ''{''" "\<forall>x \<in> set '' *''. is_star_blank x"
      "\<not> is_ident CHR '';''" "\<not> is_ident CHR '' ''" by code_simp+
  have l: "local_call ''B'' ''b'' ?t" by (rule local_callI[OF b f]) (use i in simp_all)
  have d: "dfsFolder (w_opendir project_world) (strTestPath tc0) ([], []) = Inr ([''t//a.cpp''], [''t//a.h''])" unfolding t(4) by (rule project_files(3))
  have "(''B'', ''A'') \<in> callers (t_calledrelation tc')"
    by (rule project_call_found[OF t(1)[unfolded sample_new_def] t(2,3) d _ _ _ project_files(1) _ project_files(2) _ l])
      (simp_all add: t(5) project_decls_def project_methods_def)
  then show ?thesis using t(1-3) by blast
qed

end
