(* ===== verification/Chains.thy ===== *)
theory Chains
  imports JobQueue "HOL-Library.Multiset"
begin

text \<open>
  Chains of objects through their \<open>next\<close> pointers, as \<open>CReadCpp\<close>, \<open>CMethodBody\<close> and
  \<open>calledclass\<close> form them: the loops that walk, extend and delete such a chain, and that they
  do on the heap what the other theories do on lists. The heap is that of \<open>JobQueue\<close>: an address
  is a position, a deleted object leaves a hole, and touching a hole is an error; so deleting an
  object twice is one too.
\<close>

section \<open>Computations that agree\<close>

text \<open>Both fail with the same error, or both return and the results are related.\<close>

definition sim :: "('a \<Rightarrow> 'b \<Rightarrow> bool) \<Rightarrow> 'e + 'a \<Rightarrow> 'e + 'b \<Rightarrow> bool" where
  "sim R m m' \<longleftrightarrow> (case m of Inl e \<Rightarrow> m' = Inl e | Inr x \<Rightarrow> (\<exists>y. m' = Inr y \<and> R x y))"

lemma sim_simps [simp]:
  "sim R (Inl e) m' \<longleftrightarrow> m' = Inl e"
  "sim R (Inr x) m' \<longleftrightarrow> (\<exists>y. m' = Inr y \<and> R x y)"
  by (simp_all add: sim_def)

lemma sim_bind:
  assumes "sim R m m'" "\<And>x y. m = Inr x \<Longrightarrow> m' = Inr y \<Longrightarrow> R x y \<Longrightarrow> sim S (f x) (g y)"
  shows "sim S (sbind m f) (sbind m' g)"
  using assms by (cases m) auto

lemma sim_same:
  assumes "\<And>x. m = Inr x \<Longrightarrow> sim S (f x) (g x)"
  shows "sim S (sbind m f) (sbind m g)"
  using assms by (cases m) auto

lemma sim_mfold:
  assumes "\<And>s t x. x \<in> set xs \<Longrightarrow> R s t \<Longrightarrow> sim R (f s x) (g t x)" "R s t"
  shows "sim R (mfold f s xs) (mfold g t xs)"
  using assms
proof (induction xs arbitrary: s t)
  case (Cons x xs)
  show ?case
    unfolding mfold.simps by (rule sim_bind[OF Cons.prems(1)[OF _ Cons.prems(2)]]) (use Cons in auto)
qed simp

lemma sim_ok: "sim R m m' \<Longrightarrow> m' = Inr y \<Longrightarrow> \<exists>x. m = Inr x \<and> R x y"
  by (cases m) auto

section \<open>Cells and chains\<close>

record 'a node =
  n_val :: 'a
  n_next :: "nat option"

type_synonym 'a cells = "'a node option list"

definition setnext :: "'a cells \<Rightarrow> nat option \<Rightarrow> nat option \<Rightarrow> error + 'a cells" where
  "setnext h this p = sbind (load h this) (\<lambda>n. store h this (n\<lparr>n_next := p\<rparr>))"

definition getnext :: "'a cells \<Rightarrow> nat option \<Rightarrow> error + nat option" where
  "getnext h this = sbind (load h this) (\<lambda>n. Inr (n_next n))"

text \<open>\<open>delete p\<close>.\<close>

definition delete_at :: "'a option list \<Rightarrow> nat option \<Rightarrow> error + 'a option list" where
  "delete_at h p = sbind (load h p) (\<lambda>_. Inr (h[the p := None]))"

text \<open>\<open>while(q->next!=NULL) q=q->next;\<close>\<close>

fun last_node :: "nat \<Rightarrow> 'a cells \<Rightarrow> nat option \<Rightarrow> error + nat option" where
  "last_node 0 h q = Inl OutOfFuel"
| "last_node (Suc fuel) h q = sbind (getnext h q) (\<lambda>n. if n \<noteq> None then last_node fuel h n else Inr q)"

text \<open>\<open>while(p!=NULL) { q=p; p=p->next; delete q; }\<close>\<close>

fun delete_chain :: "nat \<Rightarrow> 'a cells \<Rightarrow> nat option \<Rightarrow> error + 'a cells" where
  "delete_chain 0 h p = Inl OutOfFuel"
| "delete_chain (Suc fuel) h p =
     (if p = None then Inr h
      else sbind (getnext h p) (\<lambda>n. sbind (delete_at h p) (\<lambda>h. delete_chain fuel h n)))"

text \<open>\<open>while(q!=NULL) { f(q); q=q->next; }\<close>, where \<open>f\<close> works on the fields of the object.\<close>

fun each_node :: "nat \<Rightarrow> ('a \<Rightarrow> error + 'a) \<Rightarrow> 'a cells \<Rightarrow> nat option \<Rightarrow> error + 'a cells" where
  "each_node 0 f h q = Inl OutOfFuel"
| "each_node (Suc fuel) f h q =
     (if q = None then Inr h
      else sbind (load h q) (\<lambda>n. sbind (f (n_val n)) (\<lambda>x. sbind (store h q (n\<lparr>n_val := x\<rparr>)) (\<lambda>h.
        sbind (getnext h q) (each_node fuel f h)))))"

text \<open>The addresses of a chain, in its order, and the contents of cells.\<close>

fun chain :: "'a cells \<Rightarrow> nat option \<Rightarrow> nat list \<Rightarrow> bool" where
  "chain h p [] \<longleftrightarrow> p = None"
| "chain h p (a # as) \<longleftrightarrow> p = Some a \<and> live h a \<and> chain h (n_next (the (h ! a))) as"

definition vals :: "'a cells \<Rightarrow> nat list \<Rightarrow> 'a list" where
  "vals h as = map (\<lambda>a. n_val (the (h ! a))) as"

lemma vals_simps [simp]: "vals h [] = []" "vals h (a # as) = n_val (the (h ! a)) # vals h as"
    "vals h (as @ bs) = vals h as @ vals h bs"
  by (simp_all add: vals_def)

lemma chain_live: "chain h p as \<Longrightarrow> a \<in> set as \<Longrightarrow> live h a"
  by (induction as arbitrary: p) auto

lemma chain_unique: "chain h p as \<Longrightarrow> chain h p bs \<Longrightarrow> as = bs"
proof (induction as arbitrary: p bs)
  case (Cons a as)
  then show ?case by (cases bs) auto
qed (auto elim: chain.elims)

lemma chain_append: "chain h p (as @ b # bs) \<Longrightarrow> chain h (Some b) (b # bs)"
  by (induction as arbitrary: p) auto

lemma chain_distinct: "chain h p as \<Longrightarrow> distinct as"
proof (induction as arbitrary: p)
  case (Cons a as)
  have "a \<notin> set as"
  proof
    assume "a \<in> set as"
    then obtain us vs where u: "as = us @ a # vs" by (auto simp: in_set_conv_decomp)
    have "chain h (Some a) (a # vs)" using Cons.prems chain_append[of h p "a # us" a vs] by (simp add: u)
    moreover have "chain h (Some a) (a # as)" using Cons.prems by simp
    ultimately show False using chain_unique[of h "Some a" "a # vs" "a # as"] u by auto
  qed
  then show ?case using Cons by auto
qed simp

lemma chain_length: "chain h p as \<Longrightarrow> length as \<le> length h"
proof -
  assume c: "chain h p as"
  have "set as \<subseteq> {..<length h}" using chain_live[OF c] by (auto simp: live_def)
  from card_mono[OF _ this] show ?thesis by (simp add: distinct_card[OF chain_distinct[OF c]])
qed

text \<open>A cell that another heap has as it was.\<close>

definition kept :: "'a cells \<Rightarrow> 'a cells \<Rightarrow> nat \<Rightarrow> bool" where
  "kept h h' a \<longleftrightarrow> a < length h' \<and> h' ! a = h ! a"

lemma kept_simps [simp]:
  "a < length h \<Longrightarrow> kept h (h @ xs) a"
  "a < length h \<Longrightarrow> a \<noteq> b \<Longrightarrow> kept h (h[b := x]) a"
  by (simp_all add: kept_def nth_append)

lemma live_kept: "live h a \<Longrightarrow> kept h h' a \<Longrightarrow> live h' a"
  by (simp add: live_def kept_def)

lemma chain_kept: "chain h p as \<Longrightarrow> (\<And>a. a \<in> set as \<Longrightarrow> kept h h' a) \<Longrightarrow> chain h' p as"
  by (induction as arbitrary: p) (auto intro: live_kept simp: kept_def)

lemma vals_kept: "(\<And>a. a \<in> set as \<Longrightarrow> kept h h' a) \<Longrightarrow> vals h' as = vals h as"
  by (simp add: vals_def kept_def)

lemma getnext_live [simp]: "live h a \<Longrightarrow> getnext h (Some a) = Inr (n_next (the (h ! a)))"
  by (simp add: getnext_def)

lemma setnext_live [simp]: "live h a \<Longrightarrow> setnext h (Some a) p = Inr (h[a := Some ((the (h ! a))\<lparr>n_next := p\<rparr>)])"
  by (simp add: setnext_def)

lemma delete_live [simp]: "live h a \<Longrightarrow> delete_at h (Some a) = Inr (h[a := None])"
  by (simp add: delete_at_def)

text \<open>The walk to the last cell, and a new cell behind it.\<close>

lemma last_node_ok: "chain h p as \<Longrightarrow> as \<noteq> [] \<Longrightarrow> length as \<le> fuel \<Longrightarrow> last_node fuel h p = Inr (Some (last as))"
proof (induction as arbitrary: p fuel)
  case (Cons a as)
  then obtain f where f: "fuel = Suc f" by (cases fuel) auto
  with Cons show ?case by (cases as) auto
qed simp

lemma chain_link:
  assumes "chain h p as" "as \<noteq> []" "b \<notin> set as" "live h b" "n_next (the (h ! b)) = None"
  shows "chain (h[last as := Some ((the (h ! last as))\<lparr>n_next := Some b\<rparr>)]) p (as @ [b])"
    "vals (h[last as := Some ((the (h ! last as))\<lparr>n_next := Some b\<rparr>)]) (as @ [b]) = vals h (as @ [b])"
proof -
  let ?z = "last as" and ?h = "h[last as := Some ((the (h ! last as))\<lparr>n_next := Some b\<rparr>)]"
  have "chain ?h p (as @ [b])" if "chain h p as" "as \<noteq> []" for p
    using that assms(3)
  proof (induction as arbitrary: p)
    case (Cons a as)
    have d: "a \<notin> set as" using chain_distinct[OF Cons.prems(1)] by simp
    show ?case
    proof (cases "as = []")
      case True
      then show ?thesis using Cons.prems assms(4,5) by (auto simp: live_def)
    next
      case False
      then have "a \<noteq> last as" using d last_in_set by blast
      then show ?thesis using Cons False by (auto simp: live_def)
    qed
  qed simp
  then show "chain ?h p (as @ [b])" using assms(1,2) .
  have "n_val (the (?h ! a)) = n_val (the (h ! a))" if "a \<in> set (as @ [b])" for a
    using that chain_live[OF assms(1)] assms(4) by (cases "a = ?z") (auto simp: live_def)
  then show "vals ?h (as @ [b]) = vals h (as @ [b])" unfolding vals_def by (intro map_cong) auto
qed

section \<open>Deleting a chain\<close>

definition wiped :: "'a option list \<Rightarrow> nat set \<Rightarrow> 'a option list" where
  "wiped h X = map (\<lambda>a. if a \<in> X then None else h ! a) [0..<length h]"

lemma wiped_simps [simp]:
  "length (wiped h X) = length h" "a < length h \<Longrightarrow> wiped h X ! a = (if a \<in> X then None else h ! a)"
  "wiped h {} = h" "wiped (wiped h X) Y = wiped h (X \<union> Y)" "wiped (h[a := None]) X = wiped h (insert a X)"
  by (auto simp: wiped_def map_nth nth_list_update intro!: nth_equalityI)

lemma live_wiped [simp]: "live (wiped h X) a \<longleftrightarrow> live h a \<and> a \<notin> X"
  by (auto simp: live_def split: if_splits)

lemma delete_chain_ok: "chain h p as \<Longrightarrow> length as < fuel \<Longrightarrow> delete_chain fuel h p = Inr (wiped h (set as))"
proof (induction as arbitrary: h p fuel)
  case (Cons a as)
  then obtain f where f: "fuel = Suc f" "length as < f" by (cases fuel) auto
  let ?n = "n_next (the (h ! a))"
  have a: "a \<notin> set as" using chain_distinct[OF Cons.prems(1)] by simp
  have n: "chain h ?n as" using Cons.prems(1) by simp
  have "chain (h[a := None]) ?n as"
  proof (rule chain_kept[OF n])
    fix b assume b: "b \<in> set as"
    then have "b \<noteq> a" "b < length h" using a chain_live[OF n b] by (auto simp: live_def)
    then show "kept h (h[a := None]) b" by simp
  qed
  from Cons.IH[OF this f(2)] show ?case using Cons.prems(1) f(1) by simp
next
  case Nil
  then show ?case by (cases fuel) auto
qed

section \<open>A map of chains\<close>

text \<open>
  The values of a map are pointers to chains; \<open>L\<close> has the addresses of each. \<open>lists\<close> is what the
  map means.
\<close>

definition hang :: "'a cells \<Rightarrow> ('k, nat option) smap \<Rightarrow> ('k, nat list) smap \<Rightarrow> bool" where
  "hang h = list_all2 (\<lambda>(k, p) (k', as). k = k' \<and> as \<noteq> [] \<and> chain h p as)"

definition addrs :: "('k, nat list) smap \<Rightarrow> nat list" where
  "addrs L = concat (map snd L)"

definition lists :: "'a cells \<Rightarrow> ('k, nat list) smap \<Rightarrow> ('k, 'a list) smap" where
  "lists h L = map (\<lambda>(k, as). (k, vals h as)) L"

lemma hang_simps [simp]: "hang h [] L \<longleftrightarrow> L = []"
    "hang h ((k, p) # m) L \<longleftrightarrow> (\<exists>as L'. L = (k, as) # L' \<and> as \<noteq> [] \<and> chain h p as \<and> hang h m L')"
  by (auto simp: hang_def list_all2_Cons1)

lemma addrs_simps [simp]: "addrs [] = []" "addrs ((k, as) # L) = as @ addrs L"
  by (simp_all add: addrs_def)

lemma lists_simps [simp]: "lists h [] = []" "lists h ((k, as) # L) = (k, vals h as) # lists h L"
  by (simp_all add: lists_def)

lemma lists_find: "sfind (lists h L) k = map_option (vals h) (sfind L k)"
  by (induction L) auto

lemma hang_find:
  "hang h m L \<Longrightarrow> case sfind m k of None \<Rightarrow> sfind L k = None
     | Some p \<Rightarrow> (\<exists>as. sfind L k = Some as \<and> as \<noteq> [] \<and> chain h p as)"
proof (induction m arbitrary: L)
  case (Cons e m)
  then show ?case by (cases e) (auto split: option.splits)
qed simp

lemma addrs_find: "sfind L k = Some as \<Longrightarrow> set as \<subseteq> set (addrs L)"
  by (induction L) (auto split: if_splits)

lemma hang_live: "hang h m L \<Longrightarrow> a \<in> set (addrs L) \<Longrightarrow> live h a"
proof (induction m arbitrary: L)
  case (Cons e m)
  then show ?case by (cases e) (auto dest: chain_live)
qed simp

lemma hang_kept:
  "hang h m L \<Longrightarrow> (\<And>a. a \<in> set (addrs L) \<Longrightarrow> kept h h' a) \<Longrightarrow> hang h' m L \<and> lists h' L = lists h L"
proof (induction m arbitrary: L)
  case (Cons e m)
  then show ?case by (cases e) (auto intro!: chain_kept[of h _ _ h'] vals_kept[of _ h h'])
qed simp

text \<open>One chain of the map changes, the cells of the others stay.\<close>

lemma hang_change:
  assumes "hang h m L" "distinct (addrs L)" "sfind m k = Some p" "sfind L k = Some as"
    "\<And>a. a \<in> set (addrs L) \<Longrightarrow> a \<notin> set as \<Longrightarrow> kept h h' a" "chain h' p bs" "bs \<noteq> []"
  shows "hang h' m (supdate k bs L) \<and> lists h' (supdate k bs L) = supdate k (vals h' bs) (lists h L)"
  using assms(1-5)
proof (induction m arbitrary: L)
  case (Cons e m)
  obtain k0 p0 where e: "e = (k0, p0)" by (cases e)
  then obtain as0 L0 where L: "L = (k0, as0) # L0" "as0 \<noteq> []" "chain h p0 as0" "hang h m L0" using Cons.prems(1) by auto
  show ?case
  proof (cases "k0 = k")
    case True
    have "hang h' m L0 \<and> lists h' L0 = lists h L0"
      by (rule hang_kept[OF L(4)], rule Cons.prems(5)) (use Cons.prems(2,4) L(1) True in auto)
    then show ?thesis using True e L assms(6,7) Cons.prems(3) by simp
  next
    case False
    have f: "sfind m k = Some p" "sfind L0 k = Some as" using Cons.prems(3,4) False e L(1) by auto
    have "a \<notin> set as" if "a \<in> set as0" for a using that Cons.prems(2) addrs_find[OF f(2)] L(1) by auto
    then have "chain h' p0 as0" "vals h' as0 = vals h as0"
      using Cons.prems(5) L(1) by (auto intro!: chain_kept[OF L(3)] vals_kept)
    moreover have "hang h' m (supdate k bs L0) \<and> lists h' (supdate k bs L0) = supdate k (vals h' bs) (lists h L0)"
      by (rule Cons.IH[OF L(4) _ f]) (use Cons.prems(2,5) L(1) in auto)
    ultimately show ?thesis using False e L by simp
  qed
qed simp

lemma addrs_supdate:
  "sfind L k = Some as \<Longrightarrow> mset (addrs (supdate k bs L)) + mset as = mset (addrs L) + mset bs"
  by (induction L) (auto simp: ac_simps split: if_splits)

lemma hang_sinsert:
  "hang h m L \<Longrightarrow> sfind m k = None \<Longrightarrow> chain h p as \<Longrightarrow> as \<noteq> [] \<Longrightarrow>
     hang h (sinsert k p m) (sinsert k as L) \<and> lists h (sinsert k as L) = sinsert k (vals h as) (lists h L) \<and>
     mset (addrs (sinsert k as L)) = mset as + mset (addrs L)"
proof (induction m arbitrary: L)
  case (Cons e m)
  then show ?case by (cases e) auto
qed simp

text \<open>A new cell for a key: at the end of its chain, or as the first of a new chain.\<close>

definition add_node :: "'k::linorder \<Rightarrow> 'a \<Rightarrow> 'a cells \<times> ('k, nat option) smap \<Rightarrow> error + 'a cells \<times> ('k, nat option) smap" where
  "add_node k x = (\<lambda>(h, m).
     let p = length h; h = h @ [Some \<lparr>n_val = x, n_next = None\<rparr>] in
     case sfind m k of
       Some q \<Rightarrow> sbind (last_node (length h) h q) (\<lambda>q. sbind (setnext h q (Some p)) (\<lambda>h. Inr (h, m)))
     | None \<Rightarrow> Inr (h, sinsert k (Some p) m))"

lemma add_node_ok:
  assumes "hang h m L" "distinct (addrs L)"
  shows "ok (add_node k x (h, m)) (\<lambda>(h', m'). \<exists>L'. hang h' m' L' \<and> mset (addrs L') = add_mset (length h) (mset (addrs L)) \<and>
     length h' = length h + 1 \<and> (\<forall>a < length h. a \<notin> set (addrs L) \<longrightarrow> kept h h' a) \<and>
     lists h' L' = (case sfind (lists h L) k of
       Some q \<Rightarrow> supdate k (q @ [x]) (lists h L) | None \<Rightarrow> sinsert k [x] (lists h L)))"
proof -
  let ?p = "length h" and ?h = "h @ [Some \<lparr>n_val = x, n_next = None\<rparr>]"
  have old: "a < length h" if "a \<in> set (addrs L)" for a using hang_live[OF assms(1) that] by (simp add: live_def)
  have p: "live ?h ?p" "the (?h ! ?p) = \<lparr>n_val = x, n_next = None\<rparr>" by (simp_all add: live_def)
  have H: "hang ?h m L" "lists ?h L = lists h L" using hang_kept[OF assms(1), of ?h] old by simp_all
  show ?thesis
  proof (cases "sfind m k")
    case None
    then have "sfind L k = None" using hang_find[OF H(1), of k] by simp
    moreover have c: "chain ?h (Some ?p) [?p]" "vals ?h [?p] = [x]" using p by simp_all
    note hang_sinsert[OF H(1) None c(1)]
    ultimately show ?thesis
      using None H(2) c(2) by (auto simp: add_node_def Let_def lists_find intro!: exI[of _ "sinsert k [?p] L"])
  next
    case (Some q)
    then obtain as where as: "sfind L k = Some as" "as \<noteq> []" "chain ?h q as" using hang_find[OF H(1), of k] by auto
    have sub: "set as \<subseteq> set (addrs L)" by (rule addrs_find[OF as(1)])
    then have b: "?p \<notin> set as" using old by auto
    let ?g = "?h[last as := Some ((the (?h ! last as))\<lparr>n_next := Some ?p\<rparr>)]"
    have l: "last as \<in> set as" "live ?h (last as)" using as(2) chain_live[OF as(3), of "last as"] by auto
    note C = chain_link[OF as(3,2) b p(1), unfolded p(2), simplified]
    have v: "vals ?g (as @ [?p]) = vals h as @ [x]"
    proof -
      have "vals ?h as = vals h as" by (rule vals_kept) (use sub old in auto)
      then show ?thesis using C(2) p(2) by simp
    qed
    have keep: "kept ?h ?g a" if "a < length h" "a \<notin> set as" for a using that l(1) by (cases "a = last as") (auto simp: kept_def)
    have K: "hang ?g m (supdate k (as @ [?p]) L) \<and> lists ?g (supdate k (as @ [?p]) L) = supdate k (vals ?g (as @ [?p])) (lists ?h L)"
      by (rule hang_change[OF H(1) assms(2) Some as(1)]) (use keep old C(1) in auto)
    have "mset (addrs (supdate k (as @ [?p]) L)) = add_mset ?p (mset (addrs L))"
      using addrs_supdate[OF as(1), of "as @ [?p]"] by simp
    moreover have "add_node k x (h, m) = Inr (?g, m)"
      using Some l(2) last_node_ok[OF as(3,2), of "length ?h"] chain_length[OF as(3)] by (simp add: add_node_def Let_def)
    moreover have "kept h ?g a" if "a < length h" "a \<notin> set (addrs L)" for a
    proof -
      have "kept ?h ?g a" "kept h ?h a" using that keep sub by auto
      then show ?thesis by (simp add: kept_def)
    qed
    ultimately show ?thesis
      using K v as(1) H(2) by (auto simp: lists_find intro!: exI[of _ "supdate k (as @ [?p]) L"])
  qed
qed

text \<open>All chains of a map are deleted.\<close>

definition delete_map :: "'a cells \<Rightarrow> ('k, nat option) smap \<Rightarrow> error + 'a cells" where
  "delete_map h m = mfold (\<lambda>h (_, p). delete_chain (length h + 1) h p) h m"

lemma delete_map_ok:
  "hang h m L \<Longrightarrow> distinct (addrs L) \<Longrightarrow> delete_map h m = Inr (wiped h (set (addrs L)))"
  unfolding delete_map_def
proof (induction m arbitrary: h L)
  case (Cons e m)
  obtain k p where e: "e = (k, p)" by (cases e)
  then obtain as L0 where L: "L = (k, as) # L0" "chain h p as" "hang h m L0" using Cons.prems(1) by auto
  have d: "delete_chain (length h + 1) h p = Inr (wiped h (set as))"
    using chain_length[OF L(2)] by (intro delete_chain_ok[OF L(2)]) simp
  have "hang (wiped h (set as)) m L0"
  proof (rule hang_kept[OF L(3), THEN conjunct1])
    fix a assume "a \<in> set (addrs L0)"
    moreover from this have "live h a" by (rule hang_live[OF L(3)])
    ultimately show "kept h (wiped h (set as)) a" using Cons.prems(2) L(1) by (auto simp: kept_def live_def)
  qed
  from Cons.IH[OF this] show ?case using d e L(1) Cons.prems(2) by simp
qed simp

end
