(* ===== verification/Objects.thy ===== *)
theory Objects
  imports TestCase Chains
begin

text \<open>
  The objects of a test case behind their pointers: the chain of \<open>CReadCpp\<close> objects that hangs on
  \<open>head\<close>, the chains of \<open>CMethodBody\<close> objects that hang on the classes of each of them, the
  \<open>CReadH\<close> objects of \<open>hmap\<close>, the cells of \<open>calledrelation\<close>, and the destructors of
  \<open>src/CArchitecture/TestCase.cpp\<close> and \<open>src/CArchitecture/ReadCpp.cpp\<close>. The other theories have
  lists in place of the chains; here the code with its pointers is shown to compute those lists,
  and the destructor is shown to free every object it should exactly once.
\<close>

section \<open>A source under construction\<close>

text \<open>A \<open>CReadCpp\<close> as it is in memory: the values of \<open>cppclass\<close> are pointers to the first methods.\<close>

record CppObj =
  o_CppName :: string
  o_imatch :: int
  o_classposition :: int
  o_globalStr :: string
  o_headfile :: "string list"
  o_cppclass :: "(string, nat option) smap"

type_synonym methods = "CMethodBody cells"

definition findclasses_obj :: "int \<Rightarrow> string \<Rightarrow> methods \<times> CppObj \<Rightarrow> error + int \<times> methods \<times> CppObj" where
  "findclasses_obj s content = (\<lambda>(mh, r). sbind (method_at s content) (\<lambda>(pos, found). case found of
     None \<Rightarrow> Inr (pos, mh, r)
   | Some (oneclassname, p) \<Rightarrow> sbind (add_node oneclassname p (mh, o_cppclass r)) (\<lambda>(mh, m).
       Inr (pos, mh, r\<lparr>o_cppclass := m, o_classposition := pos\<rparr>))))"

text \<open>\<open>while(pos!=string::npos)\<close>; the length of the text plus two is enough for the rounds of the loop.\<close>

fun relation_loop_obj :: "nat \<Rightarrow> string \<Rightarrow> int \<Rightarrow> int \<Rightarrow> methods \<times> CppObj \<Rightarrow> error + int \<times> methods \<times> CppObj" where
  "relation_loop_obj 0 content pos classstart s = Inl OutOfFuel"
| "relation_loop_obj (Suc fuel) content pos classstart s =
     (if pos = - 1 then Inr (classstart, s)
      else let q = o_classposition (snd s); classstart = (if q \<noteq> - 1 \<and> classstart = - 1 then q else classstart) in
        sbind (findclasses_obj pos content s) (\<lambda>(pos, s). relation_loop_obj fuel content pos classstart s))"

definition getheadfile_obj :: "int \<Rightarrow> string \<Rightarrow> CppObj \<Rightarrow> error + CppObj" where
  "getheadfile_obj classstart content r =
     sbind (str_substr content 0 (classstart + 1)) (\<lambda>mycontent.
     sbind (head_loop mycontent (str_find mycontent INCLUDE 0) (o_headfile r)) (\<lambda>hf.
       Inr (r\<lparr>o_headfile := hf\<rparr>)))"

definition getrelation_obj :: "filesystem \<Rightarrow> methods \<times> CppObj \<Rightarrow> error + methods \<times> CppObj" where
  "getrelation_obj fs s =
     sbind (CReadCpp_readallfile fs (o_CppName (snd s))) (\<lambda>content.
     sbind (findclasses_obj 0 content s) (\<lambda>(pos, s).
     sbind (relation_loop_obj (length content + 2) content pos (- 1) s) (\<lambda>(classstart, mh, r).
     sbind (if classstart \<noteq> - 1 then getheadfile_obj classstart content r else Inr r) (\<lambda>r.
     sbind (CReadCpp_findGlobal content) (\<lambda>g. Inr (mh, r\<lparr>o_globalStr := g\<rparr>))))))"

definition CReadCpp_obj :: "filesystem \<Rightarrow> string \<Rightarrow> methods \<Rightarrow> error + methods \<times> CppObj" where
  "CReadCpp_obj fs name mh = getrelation_obj fs (mh, \<lparr>o_CppName = name, o_imatch = 0, o_classposition = - 1,
     o_globalStr = [], o_headfile = [], o_cppclass = []\<rparr>)"

text \<open>What the object means, with the addresses \<open>L\<close> of its methods.\<close>

definition cpp_of :: "methods \<Rightarrow> CppObj \<Rightarrow> (string, nat list) smap \<Rightarrow> CReadCpp" where
  "cpp_of mh r L = \<lparr>CppName = o_CppName r, imatch = o_imatch r, p_classposition = o_classposition r,
     p_globalStr = o_globalStr r, p_headfile = o_headfile r, cppclass = lists mh L\<rparr>"

text \<open>The methods made since the heap \<open>h0\<close> are those of the object, and no older one is touched.\<close>

definition owns :: "methods \<Rightarrow> methods \<times> CppObj \<Rightarrow> CReadCpp \<Rightarrow> bool" where
  "owns h0 = (\<lambda>(mh, r) c. \<exists>L. hang mh (o_cppclass r) L \<and> mset (addrs L) = mset [length h0..<length mh] \<and>
     length h0 \<le> length mh \<and> (\<forall>a < length h0. kept h0 mh a) \<and> c = cpp_of mh r L)"

lemma mset_upt_distinct: "mset xs = mset [a..<b] \<Longrightarrow> distinct xs \<and> set xs = {a..<b}"
  using mset_eq_setD mset_eq_imp_distinct_iff by fastforce

lemma owns_fields:
  "owns h0 (mh, r) c \<Longrightarrow> CppName c = o_CppName r \<and> p_classposition c = o_classposition r \<and> p_headfile c = o_headfile r"
  by (auto simp: owns_def cpp_of_def)

lemma findclasses_sim:
  assumes "owns h0 s c"
  shows "sim (\<lambda>(pos, s) (pos', c). pos = pos' \<and> owns h0 s c) (findclasses_obj i content s) (findclasses i content c)"
proof -
  obtain mh r where s: "s = (mh, r)" by (cases s)
  show ?thesis
    unfolding findclasses_obj_def findclasses_def s prod.case
  proof (rule sim_same)
    fix x assume "method_at i content = Inr x"
    obtain pos found where x: "x = (pos, found)" by (cases x)
    show "sim (\<lambda>(pos, s) (pos', c). pos = pos' \<and> owns h0 s c)
        (case x of (pos, found) \<Rightarrow> case found of None \<Rightarrow> Inr (pos, mh, r)
          | Some (nm, p) \<Rightarrow> sbind (add_node nm p (mh, o_cppclass r)) (\<lambda>(mh, m). Inr (pos, mh, r\<lparr>o_cppclass := m, o_classposition := pos\<rparr>)))
        (case x of (pos, found) \<Rightarrow> Inr (pos, case found of None \<Rightarrow> c
          | Some (nm, p) \<Rightarrow> c\<lparr>cppclass := add_method nm p (cppclass c), p_classposition := pos\<rparr>))"
    proof (cases found)
      case None
      then show ?thesis using assms s x by simp
    next
      case (Some e)
      obtain nm p where e: "e = (nm, p)" by (cases e)
      obtain L where L: "hang mh (o_cppclass r) L" "mset (addrs L) = mset [length h0..<length mh]" "length h0 \<le> length mh"
          "\<forall>a < length h0. kept h0 mh a" "c = cpp_of mh r L"
        using assms s by (auto simp: owns_def)
      note d = mset_upt_distinct[OF L(2)]
      obtain mh' m' L' where n: "add_node nm p (mh, o_cppclass r) = Inr (mh', m')" "hang mh' m' L'"
          "mset (addrs L') = add_mset (length mh) (mset (addrs L))" "length mh' = length mh + 1"
          "\<forall>a < length mh. a \<notin> set (addrs L) \<longrightarrow> kept mh mh' a" "lists mh' L' = add_method nm p (lists mh L)"
        using add_node_ok[OF L(1) conjunct1[OF d], of nm p] by (auto simp: ok_iff add_method_def)
      have "kept h0 mh' a" if "a < length h0" for a
        using that L(3,4) n(5) d by (auto simp: kept_def)
      moreover have "mset (addrs L') = mset [length h0..<length mh']" using n(3,4) L(2,3) by (simp del: mset_upt)
      ultimately have "owns h0 (mh', r\<lparr>o_cppclass := m', o_classposition := pos\<rparr>)
          (c\<lparr>cppclass := add_method nm p (cppclass c), p_classposition := pos\<rparr>)"
        using n(2,4,6) L(3,5) by (auto simp: owns_def cpp_of_def simp del: mset_upt intro!: exI[of _ L'])
      then show ?thesis using Some e x n(1) by simp
    qed
  qed
qed

lemma relation_loop_sim:
  assumes "owns h0 s c" "pos = - 1 \<or> nat (int (length content) + 1 - pos) + 1 < fuel" "0 < fuel"
  shows "sim (\<lambda>(k, s) (k', c). k = k' \<and> owns h0 s c) (relation_loop_obj fuel content pos k s) (relation_loop content pos k c)"
  using assms
proof (induction content pos k c arbitrary: s fuel rule: relation_loop.induct)
  case (1 content pos k c)
  obtain f where f: "fuel = Suc f" using 1(4) by (cases fuel) auto
  obtain mh r where s: "s = (mh, r)" by (cases s)
  have cp: "p_classposition c = o_classposition r" using owns_fields[of h0 mh r c] 1(2) s by simp
  let ?k = "if p_classposition c \<noteq> - 1 \<and> k = - 1 then p_classposition c else k"
  show ?case
  proof (cases "pos = - 1")
    case True
    then show ?thesis using 1(2) f by (simp add: relation_loop.simps[of _ "- 1"])
  next
    case False
    have "sim (\<lambda>(k, s) (k', c). k = k' \<and> owns h0 s c)
       (sbind (findclasses_obj pos content s) (\<lambda>(pos, s). relation_loop_obj f content pos ?k s))
       (sbind (findclasses pos content c) (\<lambda>(pos, c). relation_loop content pos ?k c))"
    proof (rule sim_bind[OF findclasses_sim[OF 1(2)]])
      fix x y assume y: "findclasses pos content c = Inr y"
        and R: "(case x of (q, s) \<Rightarrow> \<lambda>(q', c). q = q' \<and> owns h0 s c) y"
      obtain q s' where x: "x = (q, s')" by (cases x)
      obtain c' where c': "y = (q, c')" "owns h0 s' c'" using R x by (cases y) auto
      have "q = - 1 \<or> nat (int (length content) + 1 - q) + 1 < f"
      proof (cases "q = - 1")
        case no: False
        have "nat (int (length content) + 1 - q) < nat (int (length content) + 1 - pos)"
          using findclasses_progress[OF y[unfolded c'(1)] no] by simp
        moreover have "nat (int (length content) + 1 - pos) + 1 < Suc f" using 1(3) False f by blast
        ultimately show ?thesis by linarith
      qed simp
      moreover have "0 < f" using 1(3) False f by auto
      ultimately show "sim (\<lambda>(k, s) (k', c). k = k' \<and> owns h0 s c)
          (case x of (pos, s) \<Rightarrow> relation_loop_obj f content pos ?k s) (case y of (pos, c) \<Rightarrow> relation_loop content pos ?k c)"
        unfolding x c'(1) prod.case using 1(1)[OF False refl y c'(1)[symmetric] c'(2)] by blast
    qed
    then show ?thesis
      by (simp only: f relation_loop_obj.simps relation_loop.simps[of content pos] if_not_P[OF False] Let_def s snd_conv cp)
  qed
qed

lemma getheadfile_sim:
  assumes "owns h0 (mh, r) c"
  shows "sim (\<lambda>r. owns h0 (mh, r)) (getheadfile_obj k content r) (CReadCpp_getheadfile k content c)"
  unfolding getheadfile_obj_def CReadCpp_getheadfile_def owns_fields[OF assms, THEN conjunct2, THEN conjunct2]
  by (intro sim_same) (use assms in \<open>auto simp: owns_def cpp_of_def\<close>)

lemma getrelation_sim:
  assumes "owns h0 s c" "o_CppName (snd s) = name" "CppName c = name"
  shows "sim (owns h0) (getrelation_obj fs s) (getrelation fs c)"
  unfolding getrelation_obj_def getrelation_def assms(2,3)
proof (rule sim_same, rule sim_bind[OF findclasses_sim[OF assms(1)]])
  fix content x y
  assume f: "findclasses 0 content c = Inr y" and R: "(case x of (pos, s) \<Rightarrow> \<lambda>(pos', c). pos = pos' \<and> owns h0 s c) y"
  obtain pos s1 where x: "x = (pos, s1)" by (cases x)
  obtain c1 where y: "y = (pos, c1)" "owns h0 s1 c1" using R x by (cases y) auto
  have fuel: "pos = - 1 \<or> nat (int (length content) + 1 - pos) + 1 < length content + 2"
    using findclasses_progress[OF f[unfolded y(1)]] by linarith
  have "sim (owns h0)
      (sbind (relation_loop_obj (length content + 2) content pos (- 1) s1) (\<lambda>(classstart, mh, r).
        sbind (if classstart \<noteq> - 1 then getheadfile_obj classstart content r else Inr r) (\<lambda>r.
        sbind (CReadCpp_findGlobal content) (\<lambda>g. Inr (mh, r\<lparr>o_globalStr := g\<rparr>)))))
      (sbind (relation_loop content pos (- 1) c1) (\<lambda>(classstart, r).
        sbind (if classstart \<noteq> - 1 then CReadCpp_getheadfile classstart content r else Inr r) (\<lambda>r.
        sbind (CReadCpp_findGlobal content) (\<lambda>g. Inr (r\<lparr>p_globalStr := g\<rparr>)))))"
  proof (rule sim_bind[OF relation_loop_sim[OF y(2) fuel]], simp)
    fix u :: "int \<times> methods \<times> CppObj" and v :: "int \<times> CReadCpp" assume "(case u of (k, s) \<Rightarrow> \<lambda>(k', c). k = k' \<and> owns h0 s c) v"
    then obtain k mh r c2 where uv: "u = (k, mh, r)" "v = (k, c2)" "owns h0 (mh, r) c2" by (cases u; cases v) auto
    have "sim (\<lambda>r. owns h0 (mh, r)) (if k \<noteq> - 1 then getheadfile_obj k content r else Inr r)
        (if k \<noteq> - 1 then CReadCpp_getheadfile k content c2 else Inr c2)"
      using getheadfile_sim[OF uv(3)] uv(3) by simp
    then have "sim (owns h0)
        (sbind (if k \<noteq> - 1 then getheadfile_obj k content r else Inr r) (\<lambda>r.
          sbind (CReadCpp_findGlobal content) (\<lambda>g. Inr (mh, r\<lparr>o_globalStr := g\<rparr>))))
        (sbind (if k \<noteq> - 1 then CReadCpp_getheadfile k content c2 else Inr c2) (\<lambda>r.
          sbind (CReadCpp_findGlobal content) (\<lambda>g. Inr (r\<lparr>p_globalStr := g\<rparr>))))"
      by (rule sim_bind, intro sim_same) (auto simp: owns_def cpp_of_def)
    then show "sim (owns h0)
        (case u of (classstart, mh, r) \<Rightarrow> sbind (if classstart \<noteq> - 1 then getheadfile_obj classstart content r else Inr r) (\<lambda>r.
          sbind (CReadCpp_findGlobal content) (\<lambda>g. Inr (mh, r\<lparr>o_globalStr := g\<rparr>))))
        (case v of (classstart, r) \<Rightarrow> sbind (if classstart \<noteq> - 1 then CReadCpp_getheadfile classstart content r else Inr r) (\<lambda>r.
          sbind (CReadCpp_findGlobal content) (\<lambda>g. Inr (r\<lparr>p_globalStr := g\<rparr>))))"
      using uv by simp
  qed
  then show "sim (owns h0)
      (case x of (pos, s) \<Rightarrow> sbind (relation_loop_obj (length content + 2) content pos (- 1) s) (\<lambda>(classstart, mh, r).
        sbind (if classstart \<noteq> - 1 then getheadfile_obj classstart content r else Inr r) (\<lambda>r.
        sbind (CReadCpp_findGlobal content) (\<lambda>g. Inr (mh, r\<lparr>o_globalStr := g\<rparr>)))))
      (case y of (pos, r) \<Rightarrow> sbind (relation_loop content pos (- 1) r) (\<lambda>(classstart, r).
        sbind (if classstart \<noteq> - 1 then CReadCpp_getheadfile classstart content r else Inr r) (\<lambda>r.
        sbind (CReadCpp_findGlobal content) (\<lambda>g. Inr (r\<lparr>p_globalStr := g\<rparr>)))))"
    unfolding x y(1) by simp
qed

lemma CReadCpp_sim: "sim (owns h0) (CReadCpp_obj fs name h0) (CReadCpp_new fs name)"
  unfolding CReadCpp_obj_def CReadCpp_new_def
  by (rule getrelation_sim) (simp_all add: owns_def cpp_of_def kept_def)

section \<open>The sources of a test case\<close>

type_synonym sources = "CppObj cells"

text \<open>\<open>p->setnext(head); head = p;\<close>\<close>

definition read_source_obj :: "filesystem \<Rightarrow> methods \<times> sources \<times> nat option \<Rightarrow> string \<Rightarrow> error + methods \<times> sources \<times> nat option" where
  "read_source_obj fs = (\<lambda>(mh, sh, head) name. sbind (CReadCpp_obj fs name mh) (\<lambda>(mh, r).
     let p = length sh; sh = sh @ [Some \<lparr>n_val = r, n_next = None\<rparr>] in
     sbind (setnext sh (Some p) head) (\<lambda>sh. Inr (mh, sh, Some p))))"

definition init_source_obj :: "methods \<Rightarrow> CppObj \<Rightarrow> error + methods" where
  "init_source_obj mh r = mfold (\<lambda>mh (_, q). each_node (length mh + 1) InitCalledParameter mh q) mh (o_cppclass r)"

fun init_sources :: "nat \<Rightarrow> sources \<Rightarrow> methods \<Rightarrow> nat option \<Rightarrow> error + methods" where
  "init_sources 0 sh mh p = Inl OutOfFuel"
| "init_sources (Suc fuel) sh mh p =
     (if p = None then Inr mh
      else sbind (load sh p) (\<lambda>n. sbind (init_source_obj mh (n_val n)) (\<lambda>mh.
        sbind (getnext sh p) (init_sources fuel sh mh))))"

text \<open>\<open>~CReadCpp\<close>, and the first loop of \<open>~CTestCaseCpp\<close>.\<close>

definition CReadCpp_delete :: "methods \<Rightarrow> CppObj \<Rightarrow> error + methods" where
  "CReadCpp_delete mh r = delete_map mh (o_cppclass r)"

fun delete_sources :: "nat \<Rightarrow> methods \<times> sources \<Rightarrow> nat option \<Rightarrow> error + methods \<times> sources" where
  "delete_sources 0 s p = Inl OutOfFuel"
| "delete_sources (Suc fuel) (mh, sh) p =
     (if p = None then Inr (mh, sh)
      else sbind (load sh p) (\<lambda>q. sbind (CReadCpp_delete mh (n_val q)) (\<lambda>mh. sbind (delete_at sh p) (\<lambda>sh.
        delete_sources fuel (mh, sh) (n_next q)))))"

text \<open>The sources of a chain with the addresses of their methods, and what they mean.\<close>

type_synonym owned = "(nat \<times> (string, nat list) smap) list"

abbreviation obj :: "'a cells \<Rightarrow> nat \<Rightarrow> 'a" where
  "obj h a \<equiv> n_val (the (h ! a))"

definition holds :: "methods \<Rightarrow> sources \<Rightarrow> owned \<Rightarrow> CReadCpp list \<Rightarrow> bool" where
  "holds mh sh = list_all2 (\<lambda>(a, L) c. hang mh (o_cppclass (obj sh a)) L \<and> c = cpp_of mh (obj sh a) L)"

definition owned_methods :: "owned \<Rightarrow> nat list" where
  "owned_methods G = concat (map (addrs \<circ> snd) G)"

definition sources_rep :: "methods \<times> sources \<times> nat option \<Rightarrow> CReadCpp list \<Rightarrow> bool" where
  "sources_rep = (\<lambda>(mh, sh, head) srcs. \<exists>G. chain sh head (map fst G) \<and> holds mh sh G srcs \<and>
     mset (owned_methods G) = mset [0..<length mh] \<and> mset (map fst G) = mset [0..<length sh])"

lemma holds_simps [simp]: "holds mh sh [] srcs \<longleftrightarrow> srcs = []"
    "holds mh sh ((a, L) # G) srcs \<longleftrightarrow>
       (\<exists>cs. srcs = cpp_of mh (obj sh a) L # cs \<and> hang mh (o_cppclass (obj sh a)) L \<and> holds mh sh G cs)"
  by (auto simp: holds_def list_all2_Cons1)

lemma owned_simps [simp]: "owned_methods [] = []" "owned_methods ((a, L) # G) = addrs L @ owned_methods G"
  by (simp_all add: owned_methods_def)

lemma cpp_of_kept: "hang mh m L \<Longrightarrow> (\<And>b. b \<in> set (addrs L) \<Longrightarrow> kept mh mh' b) \<Longrightarrow> cpp_of mh' r L = cpp_of mh r L"
  using hang_kept[of mh m L mh'] by (simp add: cpp_of_def)

lemma holds_live: "holds mh sh G srcs \<Longrightarrow> b \<in> set (owned_methods G) \<Longrightarrow> live mh b"
proof (induction G arbitrary: srcs)
  case (Cons e G)
  then show ?case by (cases e) (auto dest: hang_live)
qed simp

lemma holds_kept:
  "holds mh sh G srcs \<Longrightarrow> (\<And>b. b \<in> set (owned_methods G) \<Longrightarrow> kept mh mh' b) \<Longrightarrow> (\<And>a. a \<in> set (map fst G) \<Longrightarrow> sh' ! a = sh ! a) \<Longrightarrow>
     holds mh' sh' G srcs"
proof (induction G arbitrary: srcs)
  case (Cons e G)
  obtain a L where e: "e = (a, L)" by (cases e)
  with Cons.prems obtain cs where c: "srcs = cpp_of mh (obj sh a) L # cs" "hang mh (o_cppclass (obj sh a)) L" "holds mh sh G cs" by auto
  have k: "\<And>b. b \<in> set (addrs L) \<Longrightarrow> kept mh mh' b" using Cons.prems(2) e by auto
  have "holds mh' sh' G cs" by (rule Cons.IH[OF c(3)]) (use Cons.prems(2,3) e in auto)
  moreover have "sh' ! a = sh ! a" using Cons.prems(3) e by simp
  ultimately show ?case using e c(1) hang_kept[OF c(2) k] cpp_of_kept[OF c(2) k] by auto
qed simp

lemma read_source_sim:
  assumes "sources_rep s srcs"
  shows "sim sources_rep (read_source_obj fs s name) (read_source fs srcs name)"
proof -
  obtain mh sh head where s: "s = (mh, sh, head)" by (cases s)
  obtain G where G: "chain sh head (map fst G)" "holds mh sh G srcs" "mset (owned_methods G) = mset [0..<length mh]"
      "mset (map fst G) = mset [0..<length sh]"
    using assms s by (auto simp: sources_rep_def)
  show ?thesis
    unfolding read_source_obj_def read_source_def s prod.case
  proof (rule sim_bind[OF CReadCpp_sim])
    fix x c assume o: "owns mh x c"
    obtain mh' r where x: "x = (mh', r)" by (cases x)
    obtain L where L: "hang mh' (o_cppclass r) L" "mset (addrs L) = mset [length mh..<length mh']" "length mh \<le> length mh'"
        "\<forall>a < length mh. kept mh mh' a" "c = cpp_of mh' r L"
      using o x by (auto simp: owns_def)
    let ?p = "length sh" and ?sh = "sh @ [Some \<lparr>n_val = r, n_next = head\<rparr>]"
    have as: "a < length sh" if "a \<in> set (map fst G)" for a using that mset_upt_distinct[OF G(4)] by auto
    have "holds mh' ?sh G srcs"
      by (rule holds_kept[OF G(2)]) (use as L(4) mset_upt_distinct[OF G(3)] in \<open>auto simp: nth_append\<close>)
    moreover have "chain ?sh head (map fst G)" by (rule chain_kept[OF G(1)]) (use as in simp)
    moreover have "mset (addrs L @ owned_methods G) = mset [0..<length mh']"
    proof -
      have "mset ([0..<length mh] @ [length mh..<length mh']) = mset [0..<length mh']"
        using L(3) upt_add_eq_append[of 0 "length mh" "length mh' - length mh"] by simp
      then show ?thesis using L(2) G(3) by (simp del: mset_upt add: add.commute)
    qed
    moreover have "mset (?p # map fst G) = mset [0..<length ?sh]" using G(4) by (simp del: mset_upt)
    ultimately have "sources_rep (mh', ?sh, Some ?p) (c # srcs)"
      using L(1,5) unfolding sources_rep_def by (auto simp: live_def simp del: mset_upt intro!: exI[of _ "(?p, L) # G"])
    then show "sim sources_rep (case x of (mh, r) \<Rightarrow> let p = length sh; sh = sh @ [Some \<lparr>n_val = r, n_next = None\<rparr>] in
        sbind (setnext sh (Some p) head) (\<lambda>sh. Inr (mh, sh, Some p))) (Inr (c # srcs))"
      by (simp add: x Let_def live_def)
  qed
qed

section \<open>The parameters of the methods\<close>

lemma each_simps [simp]: "each f [] = Inr []"
    "each f (x # xs) = sbind (f x) (\<lambda>y. sbind (each f xs) (\<lambda>ys. Inr (y # ys)))"
proof -
  have acc: "mfold (\<lambda>ys x. sbind (f x) (\<lambda>y. Inr (ys @ [y]))) zs xs = sbind (each f xs) (\<lambda>ys. Inr (zs @ ys))" for zs xs
    unfolding each_def
  proof (induction xs arbitrary: zs)
    case (Cons x xs)
    show ?case
      unfolding mfold.simps sbind_assoc by (rule sbind_cong) (simp_all add: Cons[of "zs @ [_]"] Cons[of "[_]"] sbind_assoc)
  qed simp
  show "each f [] = Inr []" by (simp add: each_def)
  show "each f (x # xs) = sbind (f x) (\<lambda>y. sbind (each f xs) (\<lambda>ys. Inr (y # ys)))"
    using acc[of "[]" "x # xs"] acc[of "[_]" xs] by (simp add: sbind_assoc)
qed

text \<open>What a walk over some cells leaves: the links, and all other cells.\<close>

definition renewed :: "'a cells \<Rightarrow> nat set \<Rightarrow> 'a cells \<Rightarrow> bool" where
  "renewed h X h' \<longleftrightarrow> length h' = length h \<and> (\<forall>a < length h. a \<notin> X \<longrightarrow> h' ! a = h ! a)"

lemma renewed_refl [simp]: "renewed h X h"
  by (simp add: renewed_def)

lemma renewed_trans: "renewed h X h1 \<Longrightarrow> renewed h1 Y h2 \<Longrightarrow> X \<union> Y \<subseteq> Z \<Longrightarrow> renewed h Z h2"
  unfolding renewed_def by (metis (no_types, lifting) Un_iff subset_iff)

lemma renewed_kept: "renewed h X h' \<Longrightarrow> a \<notin> X \<Longrightarrow> live h a \<Longrightarrow> kept h h' a"
  by (simp add: renewed_def kept_def live_def)

lemma each_node_sim:
  "chain h p as \<Longrightarrow> length as < fuel \<Longrightarrow>
     sim (\<lambda>h' ys. chain h' p as \<and> vals h' as = ys \<and> renewed h (set as) h') (each_node fuel f h p) (each f (vals h as))"
proof (induction as arbitrary: h p fuel)
  case Nil
  then show ?case by (cases fuel) auto
next
  case (Cons a as)
  obtain k where k: "fuel = Suc k" "length as < k" using Cons.prems(2) by (cases fuel) auto
  have c: "p = Some a" "live h a" "chain h (n_next (the (h ! a))) as" using Cons.prems(1) by auto
  have d: "a \<notin> set as" using chain_distinct[OF Cons.prems(1)] by simp
  show ?case
  proof (cases "f (obj h a)")
    case (Inl e)
    then show ?thesis using k(1) c by simp
  next
    case (Inr x)
    let ?h = "h[a := Some ((the (h ! a))\<lparr>n_val := x\<rparr>)]"
    have al: "a < length h" using c(2) by (simp add: live_def)
    have kp: "kept h ?h b" if "b \<in> set as" for b using that d chain_live[OF c(3) that] by (cases "b = a") (auto simp: live_def)
    have ch: "chain ?h (n_next (the (h ! a))) as" by (rule chain_kept[OF c(3) kp])
    have v: "vals ?h as = vals h as" by (rule vals_kept[OF kp])
    have "each_node fuel f h p = each_node k f ?h (n_next (the (h ! a)))" using k(1) c Inr al by simp
    moreover have "each f (vals h (a # as)) = sbind (each f (vals ?h as)) (\<lambda>ys. Inr (x # ys))" using Inr v by simp
    moreover have "sim (\<lambda>h' ys. chain h' p (a # as) \<and> vals h' (a # as) = ys \<and> renewed h (set (a # as)) h')
        (sbind (each_node k f ?h (n_next (the (h ! a)))) Inr) (sbind (each f (vals ?h as)) (\<lambda>ys. Inr (x # ys)))"
    proof (rule sim_bind[OF Cons.IH[OF ch k(2)]])
      fix h' ys assume r: "chain h' (n_next (the (h ! a))) as \<and> vals h' as = ys \<and> renewed ?h (set as) h'"
      then have "h' ! a = ?h ! a" "length h' = length h" using d al by (auto simp: renewed_def)
      moreover have "renewed h (set (a # as)) h'" using r by (auto simp: renewed_def nth_list_update)
      ultimately show "sim (\<lambda>h' ys. chain h' p (a # as) \<and> vals h' (a # as) = ys \<and> renewed h (set (a # as)) h') (Inr h') (Inr (x # ys))"
        using r c(1) al by (simp add: live_def)
    qed
    ultimately show ?thesis by simp
  qed
qed

lemma init_source_sim:
  "hang mh m L \<Longrightarrow> distinct (addrs L) \<Longrightarrow>
     sim (\<lambda>mh' c. hang mh' m L \<and> lists mh' L = c \<and> renewed mh (set (addrs L)) mh')
       (mfold (\<lambda>mh (_, q). each_node (length mh + 1) InitCalledParameter mh q) mh m) (each init_class (lists mh L))"
proof (induction m arbitrary: mh L)
  case (Cons e m)
  obtain k p where e: "e = (k, p)" by (cases e)
  obtain as L0 where L: "L = (k, as) # L0" "as \<noteq> []" "chain mh p as" "hang mh m L0" using Cons.prems(1) e by auto
  have d: "distinct (addrs L0)" "set as \<inter> set (addrs L0) = {}" using Cons.prems(2) L(1) by auto
  have eq: "each init_class (lists mh L) = sbind (each InitCalledParameter (vals mh as)) (\<lambda>qs.
      sbind (each init_class (lists mh L0)) (\<lambda>c. Inr ((k, qs) # c)))"
    by (simp add: L(1) init_class_def sbind_assoc)
  show ?case
    unfolding eq mfold.simps e prod.case
  proof (rule sim_bind[OF each_node_sim[OF L(3)]])
    show "length as < length mh + 1" using chain_length[OF L(3)] by simp
    fix mh1 qs assume r1: "chain mh1 p as \<and> vals mh1 as = qs \<and> renewed mh (set as) mh1"
    have kp: "kept mh mh1 a" if "a \<in> set (addrs L0)" for a
      by (rule renewed_kept[of mh "set as"]) (use that d(2) r1 hang_live[OF L(4) that] in auto)
    have h1: "hang mh1 m L0" "lists mh1 L0 = lists mh L0" using hang_kept[OF L(4) kp] by auto
    have "sim (\<lambda>mh' c. hang mh' ((k, p) # m) L \<and> lists mh' L = c \<and> renewed mh (set (addrs L)) mh')
       (sbind (mfold (\<lambda>mh (_, q). each_node (length mh + 1) InitCalledParameter mh q) mh1 m) Inr)
       (sbind (each init_class (lists mh1 L0)) (\<lambda>c. Inr ((k, qs) # c)))"
    proof (rule sim_bind[OF Cons.IH[OF h1(1) d(1)]])
      fix mh2 c assume r2: "hang mh2 m L0 \<and> lists mh2 L0 = c \<and> renewed mh1 (set (addrs L0)) mh2"
      have kp: "kept mh1 mh2 a" if "a \<in> set as" for a
        by (rule renewed_kept[of mh1 "set (addrs L0)"]) (use that d(2) r2 chain_live[OF conjunct1[OF r1] that] in auto)
      have "chain mh2 p as" by (rule chain_kept[OF conjunct1[OF r1] kp])
      moreover have "vals mh2 as = qs" using r1 vals_kept[OF kp, of as] by simp
      moreover have "renewed mh (set (addrs L)) mh2"
        by (rule renewed_trans[of mh "set as" mh1 "set (addrs L0)"]) (use r1 r2 L(1) in simp_all)
      ultimately show "sim (\<lambda>mh' c. hang mh' ((k, p) # m) L \<and> lists mh' L = c \<and> renewed mh (set (addrs L)) mh') (Inr mh2) (Inr ((k, qs) # c))"
        using r2 L(1,2) by simp
    qed
    then show "sim (\<lambda>mh' c. hang mh' ((k, p) # m) L \<and> lists mh' L = c \<and> renewed mh (set (addrs L)) mh')
       (mfold (\<lambda>mh (_, q). each_node (length mh + 1) InitCalledParameter mh q) mh1 m)
       (sbind (each init_class (lists mh L0)) (\<lambda>c. Inr ((k, qs) # c)))"
      using h1(2) by simp
  qed
qed simp

lemma init_sources_sim:
  "chain sh p (map fst G) \<Longrightarrow> holds mh sh G srcs \<Longrightarrow> distinct (owned_methods G) \<Longrightarrow> length G < fuel \<Longrightarrow>
     sim (\<lambda>mh' srcs'. holds mh' sh G srcs' \<and> renewed mh (set (owned_methods G)) mh')
       (init_sources fuel sh mh p) (each init_source srcs)"
proof (induction G arbitrary: p mh srcs fuel)
  case Nil
  then show ?case by (cases fuel) auto
next
  case (Cons e G)
  obtain a L where e: "e = (a, L)" by (cases e)
  obtain k where k: "fuel = Suc k" "length G < k" using Cons.prems(4) by (cases fuel) auto
  have c: "p = Some a" "live sh a" "chain sh (n_next (the (sh ! a))) (map fst G)" using Cons.prems(1) e by auto
  obtain cs where h: "srcs = cpp_of mh (obj sh a) L # cs" "hang mh (o_cppclass (obj sh a)) L" "holds mh sh G cs"
    using Cons.prems(2) e by auto
  have d: "distinct (addrs L)" "distinct (owned_methods G)" "set (addrs L) \<inter> set (owned_methods G) = {}" using Cons.prems(3) e by auto
  have eq: "each init_source srcs = sbind (each init_class (lists mh L)) (\<lambda>m. sbind (each init_source cs) (\<lambda>cs.
      Inr ((cpp_of mh (obj sh a) L)\<lparr>cppclass := m\<rparr> # cs)))"
    by (simp add: h(1) init_source_def sbind_assoc cpp_of_def)
  have eq2: "init_sources fuel sh mh p = sbind (mfold (\<lambda>mh (_, q). each_node (length mh + 1) InitCalledParameter mh q) mh (o_cppclass (obj sh a)))
      (\<lambda>mh. init_sources k sh mh (n_next (the (sh ! a))))"
    using k(1) c(1,2) by (simp add: init_source_obj_def)
  show ?case
    unfolding eq eq2
  proof (rule sim_bind[OF init_source_sim[OF h(2) d(1)]])
    fix mh1 m assume r1: "hang mh1 (o_cppclass (obj sh a)) L \<and> lists mh1 L = m \<and> renewed mh (set (addrs L)) mh1"
    have "kept mh mh1 b" if "b \<in> set (owned_methods G)" for b
      by (rule renewed_kept[of mh "set (addrs L)"]) (use that d(3) r1 holds_live[OF h(3) that] in auto)
    then have h1: "holds mh1 sh G cs" by (rule holds_kept[OF h(3)]) simp_all
    have "sim (\<lambda>mh' srcs'. holds mh' sh (e # G) srcs' \<and> renewed mh (set (owned_methods (e # G))) mh')
        (sbind (init_sources k sh mh1 (n_next (the (sh ! a)))) Inr)
        (sbind (each init_source cs) (\<lambda>cs. Inr ((cpp_of mh (obj sh a) L)\<lparr>cppclass := m\<rparr> # cs)))"
    proof (rule sim_bind[OF Cons.IH[OF c(3) h1 d(2) k(2)]])
      fix mh2 cs' assume r2: "holds mh2 sh G cs' \<and> renewed mh1 (set (owned_methods G)) mh2"
      have kp: "kept mh1 mh2 b" if "b \<in> set (addrs L)" for b
        by (rule renewed_kept[of mh1 "set (owned_methods G)"]) (use that d(3) r2 hang_live[OF conjunct1[OF r1] that] in auto)
      have "hang mh2 (o_cppclass (obj sh a)) L" "lists mh2 L = m" using hang_kept[OF conjunct1[OF r1] kp] r1 by auto
      then have "hang mh2 (o_cppclass (obj sh a)) L" "(cpp_of mh (obj sh a) L)\<lparr>cppclass := m\<rparr> = cpp_of mh2 (obj sh a) L"
        by (simp_all add: cpp_of_def)
      moreover have "renewed mh (set (owned_methods (e # G))) mh2"
        by (rule renewed_trans[of mh "set (addrs L)" mh1 "set (owned_methods G)"]) (use r1 r2 e in simp_all)
      ultimately show "sim (\<lambda>mh' srcs'. holds mh' sh (e # G) srcs' \<and> renewed mh (set (owned_methods (e # G))) mh')
          (Inr mh2) (Inr ((cpp_of mh (obj sh a) L)\<lparr>cppclass := m\<rparr> # cs'))"
        using r2 e by simp
    qed
    then show "sim (\<lambda>mh' srcs'. holds mh' sh (e # G) srcs' \<and> renewed mh (set (owned_methods (e # G))) mh')
        (init_sources k sh mh1 (n_next (the (sh ! a))))
        (sbind (each init_source cs) (\<lambda>cs. Inr ((cpp_of mh (obj sh a) L)\<lparr>cppclass := m\<rparr> # cs)))" by simp
  qed
qed

section \<open>The destructors\<close>

lemma delete_sources_ok:
  "chain sh p (map fst G) \<Longrightarrow> holds mh sh G srcs \<Longrightarrow> distinct (owned_methods G) \<Longrightarrow> length G < fuel \<Longrightarrow>
     delete_sources fuel (mh, sh) p = Inr (wiped mh (set (owned_methods G)), wiped sh (set (map fst G)))"
proof (induction G arbitrary: p mh sh srcs fuel)
  case Nil
  then show ?case by (cases fuel) auto
next
  case (Cons e G)
  obtain a L where e: "e = (a, L)" by (cases e)
  obtain k where k: "fuel = Suc k" "length G < k" using Cons.prems(4) by (cases fuel) auto
  have c: "p = Some a" "live sh a" "chain sh (n_next (the (sh ! a))) (map fst G)" using Cons.prems(1) e by auto
  have na: "a \<notin> set (map fst G)" using chain_distinct[OF Cons.prems(1)] e by simp
  obtain cs where h: "hang mh (o_cppclass (obj sh a)) L" "holds mh sh G cs" using Cons.prems(2) e by auto
  have d: "distinct (addrs L)" "distinct (owned_methods G)" "set (addrs L) \<inter> set (owned_methods G) = {}" using Cons.prems(3) e by auto
  let ?mh = "wiped mh (set (addrs L))" and ?sh = "sh[a := None]"
  have "chain ?sh (n_next (the (sh ! a))) (map fst G)"
  proof (rule chain_kept[OF c(3)])
    fix b assume b: "b \<in> set (map fst G)"
    then have "b \<noteq> a" "b < length sh" using na chain_live[OF c(3) b] by (auto simp: live_def)
    then show "kept sh ?sh b" by simp
  qed
  moreover have "holds ?mh ?sh G cs"
  proof (rule holds_kept[OF h(2)])
    fix b assume b: "b \<in> set (owned_methods G)"
    then show "kept mh ?mh b" using d(3) holds_live[OF h(2) b] by (auto simp: kept_def live_def)
  next
    fix b assume "b \<in> set (map fst G)"
    then show "?sh ! b = sh ! b" using na by (cases "b = a") simp_all
  qed
  ultimately have "delete_sources k (?mh, ?sh) (n_next (the (sh ! a))) =
      Inr (wiped ?mh (set (owned_methods G)), wiped ?sh (set (map fst G)))"
    using d(2) k(2) by (rule Cons.IH)
  then show ?case using k(1) c(1,2) e delete_map_ok[OF h(1) d(1)] by (simp add: CReadCpp_delete_def)
qed

text \<open>
  The headers: \<open>hmap.insert\<close> leaves the map alone when a header of that name is there, and the new
  object then hangs on nothing. A \<open>CReadH\<close> has no destructor of its own.
\<close>

type_synonym heads = "CReadH option list"

definition read_header_obj :: "filesystem \<Rightarrow> heads \<times> (string, nat option) smap \<Rightarrow> string \<Rightarrow> error + heads \<times> (string, nat option) smap" where
  "read_header_obj fs = (\<lambda>(hh, hm) name. sbind (CReadH_new fs name) (\<lambda>p. sbind (head_key name) (\<lambda>headname.
     Inr (hh @ [Some p], sinsert headname (Some (length hh)) hm))))"

definition delete_heads :: "heads \<Rightarrow> (string, nat option) smap \<Rightarrow> error + heads" where
  "delete_heads hh hm = mfold (\<lambda>hh (_, m). delete_at hh m) hh hm"

definition points :: "heads \<Rightarrow> string \<times> nat option \<Rightarrow> string \<times> CReadH \<Rightarrow> bool" where
  "points hh = (\<lambda>(k, p) (k', H). k = k' \<and> (\<exists>a. p = Some a \<and> a < length hh \<and> hh ! a = Some H))"

definition heads_rep :: "heads \<times> (string, nat option) smap \<Rightarrow> headers \<Rightarrow> bool" where
  "heads_rep = (\<lambda>(hh, hm) H. list_all2 (points hh) hm H \<and> distinct (map snd hm) \<and> (\<forall>a < length hh. hh ! a \<noteq> None))"

lemma points_sinsert:
  "list_all2 (points hh) hm H \<Longrightarrow> points hh (k, p) (k, h) \<Longrightarrow> list_all2 (points hh) (sinsert k p hm) (sinsert k h H)"
proof (induction hm arbitrary: H)
  case (Cons e hm)
  then show ?case by (cases e) (auto simp: list_all2_Cons1 points_def)
qed simp

lemma sinsert_distinct: "distinct (map snd m) \<Longrightarrow> v \<notin> snd ` set m \<Longrightarrow> distinct (map snd (sinsert k v m))"
  and sinsert_vals: "snd ` set (sinsert k v m) \<subseteq> insert v (snd ` set m)"
proof -
  show s: "snd ` set (sinsert k v m) \<subseteq> insert v (snd ` set m)" for m
  proof -
    have "set (sinsert k v m) \<subseteq> insert (k, v) (set m)" by (induction m) (auto split: if_splits)
    then show ?thesis by force
  qed
  show "distinct (map snd m) \<Longrightarrow> v \<notin> snd ` set m \<Longrightarrow> distinct (map snd (sinsert k v m))"
  proof (induction m)
    case (Cons e m)
    obtain k' v' where e: "e = (k', v')" by (cases e)
    have "v' \<notin> snd ` set (sinsert k v m)" using s[of m] Cons.prems e by auto
    then show ?case using Cons e by simp
  qed simp
qed

lemma heads_old: "list_all2 (points hh) hm H \<Longrightarrow> Some a \<in> snd ` set hm \<Longrightarrow> a < length hh"
  by (induction rule: list_all2_induct) (auto simp: points_def)

lemma read_header_sim:
  assumes "heads_rep s H"
  shows "sim heads_rep (read_header_obj fs s name) (read_header fs H name)"
proof -
  obtain hh hm where s: "s = (hh, hm)" by (cases s)
  have h: "list_all2 (points hh) hm H" "distinct (map snd hm)" "\<forall>a < length hh. hh ! a \<noteq> None"
    using assms s by (auto simp: heads_rep_def)
  have "heads_rep (hh @ [Some p], sinsert k (Some (length hh)) hm) (sinsert k p H)" for p k
  proof -
    have "list_all2 (points (hh @ [Some p])) hm H"
      using h(1) by (rule list_all2_mono) (auto simp: points_def nth_append)
    then have "list_all2 (points (hh @ [Some p])) (sinsert k (Some (length hh)) hm) (sinsert k p H)"
      by (rule points_sinsert) (simp add: points_def)
    moreover have "Some (length hh) \<notin> snd ` set hm" using heads_old[OF h(1)] by blast
    ultimately show ?thesis using sinsert_distinct[OF h(2)] h(3) by (auto simp: heads_rep_def nth_append)
  qed
  then show ?thesis unfolding read_header_obj_def read_header_def s prod.case by (intro sim_same) simp
qed

lemma delete_heads_ok:
  "list_all2 (points hh0) hm H \<Longrightarrow> distinct (map snd hm) \<Longrightarrow> (\<And>a. Some a \<in> snd ` set hm \<Longrightarrow> live hh a) \<Longrightarrow>
     delete_heads hh hm = Inr (wiped hh {a. Some a \<in> snd ` set hm})"
  unfolding delete_heads_def
proof (induction hm arbitrary: H hh)
  case (Cons e hm)
  obtain k a where e: "e = (k, Some a)" using Cons.prems(1) by (cases e) (auto simp: list_all2_Cons1 points_def)
  have l: "live hh a" using Cons.prems(3) e by simp
  obtain H' where t: "list_all2 (points hh0) hm H'" using Cons.prems(1) by (auto simp: list_all2_Cons1)
  have "live (hh[a := None]) b" if "Some b \<in> snd ` set hm" for b
    using that Cons.prems(2,3) e by (cases "b = a") (auto simp: live_def)
  from Cons.IH[OF t _ this] have "mfold (\<lambda>hh (_, m). delete_at hh m) (hh[a := None]) hm = Inr (wiped (hh[a := None]) {b. Some b \<in> snd ` set hm})"
    using Cons.prems(2) by simp
  moreover have "insert a {b. Some b \<in> snd ` set hm} = {b. Some b \<in> snd ` set (e # hm)}" using e by auto
  ultimately show ?case using e l by simp
qed simp

section \<open>The life of the objects\<close>

record objects =
  ob_methods :: methods
  ob_sources :: sources
  ob_heads :: heads
  ob_head :: "nat option"
  ob_hmap :: "(string, nat option) smap"

text \<open>The two loops of \<open>readEachfile\<close> on a new test case, the first loops of \<open>doParsing\<close>, and \<open>~CTestCaseCpp\<close>.\<close>

definition read_objects :: "filesystem \<Rightarrow> string list \<Rightarrow> string list \<Rightarrow> error + objects" where
  "read_objects fs aryh arycpp =
     sbind (mfold (read_header_obj fs) ([], []) aryh) (\<lambda>(hh, hm).
     sbind (mfold (read_source_obj fs) ([], [], None) arycpp) (\<lambda>(mh, sh, head).
       Inr \<lparr>ob_methods = mh, ob_sources = sh, ob_heads = hh, ob_head = head, ob_hmap = hm\<rparr>))"

definition init_objects :: "objects \<Rightarrow> error + objects" where
  "init_objects ob = sbind (init_sources (length (ob_sources ob) + 1) (ob_sources ob) (ob_methods ob) (ob_head ob)) (\<lambda>mh.
     Inr (ob\<lparr>ob_methods := mh\<rparr>))"

definition CTestCaseCpp_delete :: "objects \<Rightarrow> error + objects" where
  "CTestCaseCpp_delete ob =
     sbind (delete_sources (length (ob_sources ob) + 1) (ob_methods ob, ob_sources ob) (ob_head ob)) (\<lambda>(mh, sh).
     sbind (delete_heads (ob_heads ob) (ob_hmap ob)) (\<lambda>hh.
       Inr (ob\<lparr>ob_methods := mh, ob_sources := sh, ob_heads := hh\<rparr>)))"

definition means :: "objects \<Rightarrow> headers \<Rightarrow> CReadCpp list \<Rightarrow> bool" where
  "means ob H srcs \<longleftrightarrow> sources_rep (ob_methods ob, ob_sources ob, ob_head ob) srcs \<and> heads_rep (ob_heads ob, ob_hmap ob) H"

lemma read_objects_ok:
  assumes "mfold (read_header fs) [] aryh = Inr H" "mfold (read_source fs) [] arycpp = Inr srcs"
  shows "\<exists>ob. read_objects fs aryh arycpp = Inr ob \<and> means ob H srcs \<and> length (ob_heads ob) = length aryh"
proof -
  have "sim (\<lambda>s H. heads_rep s H) (mfold (read_header_obj fs) ([], []) aryh) (mfold (read_header fs) [] aryh)"
    by (rule sim_mfold[OF read_header_sim]) (simp_all add: heads_rep_def)
  from sim_ok[OF this assms(1)] obtain hh hm where h: "mfold (read_header_obj fs) ([], []) aryh = Inr (hh, hm)" "heads_rep (hh, hm) H" by auto
  have "sim sources_rep (mfold (read_source_obj fs) ([], [], None) arycpp) (mfold (read_source fs) [] arycpp)"
    by (rule sim_mfold[OF read_source_sim]) (simp_all add: sources_rep_def exI[of _ "[]"])
  from sim_ok[OF this assms(2)] obtain mh sh hd where
    s: "mfold (read_source_obj fs) ([], [], None) arycpp = Inr (mh, sh, hd)" "sources_rep (mh, sh, hd) srcs" by auto
  have "mfold (read_header_obj fs) (g, m) names = Inr (hh, hm) \<Longrightarrow> length hh = length g + length names" for g m names
    by (induction names arbitrary: g m) (force simp: read_header_obj_def sbind_eq_Inr)+
  from this[OF h(1)] show ?thesis using h s by (simp add: read_objects_def means_def)
qed

lemma init_objects_ok:
  assumes "means ob H srcs" "each init_source srcs = Inr srcs'"
  shows "\<exists>ob'. init_objects ob = Inr ob' \<and> means ob' H srcs' \<and> ob_heads ob' = ob_heads ob \<and> length (ob_methods ob') = length (ob_methods ob)"
proof -
  obtain G where G: "chain (ob_sources ob) (ob_head ob) (map fst G)" "holds (ob_methods ob) (ob_sources ob) G srcs"
      "mset (owned_methods G) = mset [0..<length (ob_methods ob)]" "mset (map fst G) = mset [0..<length (ob_sources ob)]"
    using assms(1) by (auto simp: means_def sources_rep_def)
  have "length G < length (ob_sources ob) + 1" using chain_length[OF G(1)] by simp
  from init_sources_sim[OF G(1,2) conjunct1[OF mset_upt_distinct[OF G(3)]] this] sim_ok[OF _ assms(2)]
  obtain mh where mh: "init_sources (length (ob_sources ob) + 1) (ob_sources ob) (ob_methods ob) (ob_head ob) = Inr mh"
      "holds mh (ob_sources ob) G srcs'" "length mh = length (ob_methods ob)" unfolding renewed_def by blast
  then have "means (ob\<lparr>ob_methods := mh\<rparr>) H srcs'" using assms(1) G by (auto simp: means_def sources_rep_def simp del: mset_upt)
  then show ?thesis using mh(1,3) by (simp add: init_objects_def)
qed

lemma wiped_all: "{..<length h} \<subseteq> X \<Longrightarrow> wiped h X = replicate (length h) None"
  by (auto intro!: nth_equalityI)

text \<open>The destructor frees all sources with their methods, and the headers of the map.\<close>

lemma delete_ok:
  assumes "means ob H srcs"
  shows "\<exists>ob'. CTestCaseCpp_delete ob = Inr ob' \<and> ob_methods ob' = replicate (length (ob_methods ob)) None \<and>
     ob_sources ob' = replicate (length (ob_sources ob)) None \<and> card {a. live (ob_heads ob') a} = length (ob_heads ob) - length H"
proof -
  obtain G where G: "chain (ob_sources ob) (ob_head ob) (map fst G)" "holds (ob_methods ob) (ob_sources ob) G srcs"
      "mset (owned_methods G) = mset [0..<length (ob_methods ob)]" "mset (map fst G) = mset [0..<length (ob_sources ob)]"
    using assms by (auto simp: means_def sources_rep_def)
  note d = mset_upt_distinct[OF G(3)] mset_upt_distinct[OF G(4)]
  have "length G < length (ob_sources ob) + 1" using chain_length[OF G(1)] by simp
  from delete_sources_ok[OF G(1,2) conjunct1[OF d(1)] this] d
  have s: "delete_sources (length (ob_sources ob) + 1) (ob_methods ob, ob_sources ob) (ob_head ob) =
      Inr (replicate (length (ob_methods ob)) None, replicate (length (ob_sources ob)) None)"
    by (simp add: wiped_all lessThan_atLeast0)
  have h: "list_all2 (points (ob_heads ob)) (ob_hmap ob) H" "distinct (map snd (ob_hmap ob))" "\<forall>a < length (ob_heads ob). ob_heads ob ! a \<noteq> None"
    using assms by (auto simp: means_def heads_rep_def)
  let ?D = "{a. Some a \<in> snd ` set (ob_hmap ob)}"
  have live: "live (ob_heads ob) a" if "Some a \<in> snd ` set (ob_hmap ob)" for a
    using heads_old[OF h(1) that] h(3) by (simp add: live_def)
  have dh: "delete_heads (ob_heads ob) (ob_hmap ob) = Inr (wiped (ob_heads ob) ?D)" by (rule delete_heads_ok[OF h(1,2) live])
  have "Some ` ?D = snd ` set (ob_hmap ob)"
  proof -
    have "\<exists>a. p = Some a" if "p \<in> snd ` set (ob_hmap ob)" for p
      using h(1) that by (induction rule: list_all2_induct) (auto simp: points_def)
    then show ?thesis by force
  qed
  then have "card ?D = card (snd ` set (ob_hmap ob))" by (metis card_image inj_Some)
  also have "\<dots> = length H" using distinct_card[OF h(2)] list_all2_lengthD[OF h(1)] by simp
  finally have c: "card ?D = length H" .
  have "{a. live (wiped (ob_heads ob) ?D) a} = {..<length (ob_heads ob)} - ?D"
    unfolding live_wiped using h(3) by (auto simp: live_def)
  moreover have "?D \<subseteq> {..<length (ob_heads ob)}" using heads_old[OF h(1)] by auto
  ultimately have "card {a. live (wiped (ob_heads ob) ?D) a} = length (ob_heads ob) - length H"
    using c by (simp add: card_Diff_subset finite_subset[OF _ finite_lessThan])
  then show ?thesis using s dh by (simp add: CTestCaseCpp_delete_def del: live_wiped delete_sources.simps)
qed

text \<open>
  C20. The objects behind the pointers of a test case, from reading to the destructor, for a test case
  that is read and parsed without an error. The chains of sources and methods that the pointers
  form mean the lists that the parser is modelled on, after reading as after the parameters of the
  methods are collected; the destructor then goes through no null or dangling pointer and deletes
  nothing twice, no source and no method is left, and of the headers those are left whose name
  another header had before.
\<close>

theorem objects_freed:
  assumes "CTestCaseCpp_new now name = Inr tc" "CTestCaseCpp_doReading w tc = Inr tc1" "CTestCaseCpp_doParsing w tc1 = Inr tc2"
  shows "\<exists>ob ob1 ob2. read_objects (w_files w) (aryh_fileName tc1) (arycpp_fileName tc1) = Inr ob \<and> means ob (t_hmap tc1) (t_head tc1) \<and>
     init_objects ob = Inr ob1 \<and> means ob1 (t_hmap tc2) (t_head tc2) \<and>
     CTestCaseCpp_delete ob1 = Inr ob2 \<and> set (ob_methods ob2) \<subseteq> {None} \<and> set (ob_sources ob2) \<subseteq> {None} \<and>
     card {a. live (ob_heads ob2) a} = length (aryh_fileName tc1) - length (t_hmap tc1)"
proof -
  have "t_hmap tc = []" "t_head tc = []" using assms(1) by (auto simp: CTestCaseCpp_new_def sbind_eq_Inr)
  then have r: "mfold (read_header (w_files w)) [] (aryh_fileName tc1) = Inr (t_hmap tc1)"
      "mfold (read_source (w_files w)) [] (arycpp_fileName tc1) = Inr (t_head tc1)"
    using assms(2) by (auto simp: CTestCaseCpp_doReading_def readEachfile_def note_time_def Let_def sbind_eq_Inr)
  have p: "each init_source (t_head tc1) = Inr (t_head tc2)" "t_hmap tc2 = t_hmap tc1"
    using assms(3) by (auto simp: CTestCaseCpp_doParsing_def parse_all_def CTestCaseCpp_doModeling_def note_time_def Let_def sbind_eq_Inr)
  obtain ob where ob: "read_objects (w_files w) (aryh_fileName tc1) (arycpp_fileName tc1) = Inr ob" "means ob (t_hmap tc1) (t_head tc1)"
      "length (ob_heads ob) = length (aryh_fileName tc1)"
    using read_objects_ok[OF r] by blast
  obtain ob1 where ob1: "init_objects ob = Inr ob1" "means ob1 (t_hmap tc1) (t_head tc2)" "ob_heads ob1 = ob_heads ob"
    using init_objects_ok[OF ob(2) p(1)] by blast
  show ?thesis using delete_ok[OF ob1(2)] ob ob1 p(2) by auto
qed

theorem objects_freed_witness:
  "\<exists>tc tc1 tc2 ob1 ob2. sample_new = Inr tc \<and> CTestCaseCpp_doReading sample_world tc = Inr tc1 \<and>
     CTestCaseCpp_doParsing sample_world tc1 = Inr tc2 \<and> length (t_head tc1) = 1 \<and> means ob1 (t_hmap tc2) (t_head tc2) \<and>
     CTestCaseCpp_delete ob1 = Inr ob2 \<and> set (ob_methods ob2) \<subseteq> {None} \<and> set (ob_sources ob2) \<subseteq> {None}"
proof -
  obtain tc1 where t: "sample_read = Inr tc1" using sample_parsed by blast
  from t[unfolded sample_read_def sbind_eq_Inr]
  obtain tc where n: "sample_new = Inr tc" "CTestCaseCpp_doReading sample_world tc = Inr tc1" by blast
  obtain tc2 where p: "CTestCaseCpp_doParsing sample_world tc1 = Inr tc2" using sample_actions_ok[OF t] by blast
  have "sbind sample_read (\<lambda>tc. Inr (length (t_head tc))) = Inr 1" by code_simp
  from this[unfolded t] have "length (t_head tc1) = 1" by simp
  then show ?thesis using objects_freed[OF n(1)[unfolded sample_new_def] n(2) p] n p by blast
qed

section \<open>The cells of a relation\<close>

text \<open>
  \<open>while(temp!=NULL)\<close>: a cell of that name counts one more, or \<open>last\<close> is the last cell of the
  chain. \<open>last\<close> is not set before the loop.
\<close>

fun find_cell :: "nat \<Rightarrow> string \<Rightarrow> calledclass cells \<Rightarrow> nat option \<Rightarrow> nat option \<Rightarrow> error + bool \<times> nat option \<times> calledclass cells" where
  "find_cell 0 nm h lst temp = Inl OutOfFuel"
| "find_cell (Suc fuel) nm h lst temp =
     (if temp = None then Inr (False, lst, h)
      else sbind (load h temp) (\<lambda>n.
        if c_name (n_val n) = nm
        then sbind (store h temp (n\<lparr>n_val := (n_val n)\<lparr>c_count := c_count (n_val n) + 1\<rparr>\<rparr>)) (\<lambda>h. Inr (True, lst, h))
        else find_cell fuel nm h temp (n_next n)))"

definition add_relation_obj :: "nat option \<Rightarrow> string \<Rightarrow> calledclass \<Rightarrow> calledclass cells \<times> (string, nat option) smap \<Rightarrow>
    error + calledclass cells \<times> (string, nat option) smap" where
  "add_relation_obj mem key new = (\<lambda>(h, m).
     let p = length h; h = h @ [Some \<lparr>n_val = new, n_next = None\<rparr>] in
     case sfind m key of
       Some temp \<Rightarrow> sbind (find_cell (length h + 1) (c_name new) h mem temp) (\<lambda>(belong, lst, h).
         if \<not> belong then sbind (setnext h lst (Some p)) (\<lambda>h. Inr (h, m)) else Inr (h, m))
     | None \<Rightarrow> Inr (h, sinsert key (Some p) m))"

definition relation_rep :: "calledclass cells \<times> (string, nat option) smap \<Rightarrow> relation \<Rightarrow> bool" where
  "relation_rep = (\<lambda>(h, m) rel. \<exists>L. hang h m L \<and> distinct (addrs L) \<and> rel = lists h L)"

lemma find_cell_ok:
  "chain h p as \<Longrightarrow> length as < fuel \<Longrightarrow>
     (if c_name new \<in> c_name ` set (vals h as)
      then \<exists>l h'. find_cell fuel (c_name new) h lst p = Inr (True, l, h') \<and> chain h' p as \<and> renewed h (set as) h' \<and>
        vals h' as = add_cell new (vals h as)
      else find_cell fuel (c_name new) h lst p = Inr (False, if as = [] then lst else Some (last as), h))"
proof (induction as arbitrary: p lst fuel)
  case Nil
  then show ?case by (cases fuel) auto
next
  case (Cons a as)
  obtain k where k: "fuel = Suc k" "length as < k" using Cons.prems(2) by (cases fuel) auto
  have c: "p = Some a" "live h a" "chain h (n_next (the (h ! a))) as" using Cons.prems(1) by auto
  have d: "a \<notin> set as" using chain_distinct[OF Cons.prems(1)] by simp
  have al: "a < length h" using c(2) by (simp add: live_def)
  show ?case
  proof (cases "c_name (obj h a) = c_name new")
    case True
    let ?h = "h[a := Some ((the (h ! a))\<lparr>n_val := (obj h a)\<lparr>c_count := c_count (obj h a) + 1\<rparr>\<rparr>)]"
    have kp: "kept h ?h b" if "b \<in> set as" for b using that d chain_live[OF c(3) that] by (cases "b = a") (auto simp: live_def)
    have "chain ?h (n_next (the (h ! a))) as" by (rule chain_kept[OF c(3) kp])
    moreover have "vals ?h as = vals h as" by (rule vals_kept[OF kp])
    moreover have "renewed h (set (a # as)) ?h" by (auto simp: renewed_def nth_list_update)
    moreover have "find_cell fuel (c_name new) h lst p = Inr (True, lst, ?h)" using k(1) c(1,2) True by simp
    ultimately show ?thesis using True c(1) al by (auto simp: live_def)
  next
    case False
    have e: "find_cell fuel (c_name new) h lst p = find_cell k (c_name new) h p (n_next (the (h ! a)))" using k(1) c(1,2) False by simp
    note IH = Cons.IH[OF c(3) k(2), of p]
    show ?thesis
    proof (cases "c_name new \<in> c_name ` set (vals h as)")
      case True
      then obtain l h' where h': "find_cell k (c_name new) h p (n_next (the (h ! a))) = Inr (True, l, h')" "chain h' (n_next (the (h ! a))) as"
          "renewed h (set as) h'" "vals h' as = add_cell new (vals h as)"
        using IH by auto
      then have "h' ! a = h ! a" "length h' = length h" using d al by (auto simp: renewed_def)
      moreover have "renewed h (set (a # as)) h'" using h'(3) by (auto simp: renewed_def)
      ultimately show ?thesis using True False h' e c(1,2) by (auto simp: live_def)
    next
      case no: False
      then show ?thesis using False IH e c(1) by auto
    qed
  qed
qed

lemma add_cell_new: "c_name new \<notin> c_name ` set xs \<Longrightarrow> add_cell new xs = xs @ [new]"
  by (induction xs) auto

lemma add_relation_obj_ok:
  assumes "relation_rep (h, m) rel"
  shows "ok (add_relation_obj mem key new (h, m)) (\<lambda>(h', m'). relation_rep (h', m') (add_relation key new rel) \<and> length h' = length h + 1)"
proof -
  obtain L where L: "hang h m L" "distinct (addrs L)" "rel = lists h L" using assms by (auto simp: relation_rep_def)
  let ?h = "h @ [Some \<lparr>n_val = new, n_next = None\<rparr>]"
  have old: "a < length h" if "a \<in> set (addrs L)" for a using hang_live[OF L(1) that] by (simp add: live_def)
  have H: "hang ?h m L" "lists ?h L = lists h L" using hang_kept[OF L(1), of ?h] old by simp_all
  show ?thesis
  proof (cases "\<exists>as. sfind L key = Some as \<and> c_name new \<in> c_name ` set (vals ?h as)")
    case False
    have "add_relation_obj mem key new (h, m) = add_node key new (h, m)"
    proof (cases "sfind m key")
      case (Some p)
      then obtain as where as: "sfind L key = Some as" "as \<noteq> []" "chain ?h p as" using hang_find[OF H(1), of key] by auto
      have l: "length as \<le> length ?h" by (rule chain_length[OF as(3)])
      then have "find_cell (length ?h + 1) (c_name new) ?h mem p = Inr (False, Some (last as), ?h)"
        using find_cell_ok[OF as(3), of "length ?h + 1" new mem] False as(1,2) by auto
      then show ?thesis
        using Some last_node_ok[OF as(3,2) l] by (simp add: add_relation_obj_def add_node_def Let_def del: find_cell.simps last_node.simps)
    qed (simp add: add_relation_obj_def add_node_def Let_def)
    moreover have "add_relation key new rel = (case sfind (lists h L) key of
       Some q \<Rightarrow> supdate key (q @ [new]) (lists h L) | None \<Rightarrow> sinsert key [new] (lists h L))"
      using False by (cases "sfind L key") (auto simp: add_relation_def L(3) H(2)[symmetric] lists_find add_cell_new)
    moreover obtain h' m' L' where n: "add_node key new (h, m) = Inr (h', m')" "hang h' m' L'" "length h' = length h + 1"
        "mset (addrs L') = mset (length h # addrs L)" "lists h' L' = (case sfind (lists h L) key of
           Some q \<Rightarrow> supdate key (q @ [new]) (lists h L) | None \<Rightarrow> sinsert key [new] (lists h L))"
      using add_node_ok[OF L(1,2), of key new] by (auto simp: ok_iff)
    moreover have "distinct (addrs L')" using mset_eq_imp_distinct_iff[OF n(4)] L(2) old by auto
    ultimately show ?thesis unfolding relation_rep_def by auto
  next
    case True
    then obtain as where as: "sfind L key = Some as" "c_name new \<in> c_name ` set (vals ?h as)" by blast
    then obtain p where p: "sfind m key = Some p" "as \<noteq> []" "chain ?h p as" using hang_find[OF H(1), of key] by (auto split: option.splits)
    have "length as < length ?h + 1" using chain_length[OF p(3)] by simp
    from find_cell_ok[OF p(3) this, of new mem, unfolded if_P[OF as(2)]]
    obtain l h' where f: "find_cell (length ?h + 1) (c_name new) ?h mem p = Inr (True, l, h')" "chain h' p as" "renewed ?h (set as) h'"
        "vals h' as = add_cell new (vals ?h as)"
      by blast
    have "hang h' m (supdate key as L) \<and> lists h' (supdate key as L) = supdate key (vals h' as) (lists ?h L)"
    proof (rule hang_change[OF H(1) L(2) p(1) as(1) _ f(2) p(2)])
      fix a assume a: "a \<in> set (addrs L)" "a \<notin> set as"
      show "kept ?h h' a" by (rule renewed_kept[OF f(3) a(2)]) (rule hang_live[OF H(1) a(1)])
    qed
    moreover have "supdate key as L = L" using as(1) by (induction L) auto
    moreover have "add_relation key new rel = supdate key (vals h' as) (lists ?h L)"
      using as(1) f(4) by (simp add: add_relation_def L(3) H(2)[symmetric] lists_find)
    moreover have "add_relation_obj mem key new (h, m) = Inr (h', m)" using p(1) f(1) by (simp add: add_relation_obj_def Let_def del: find_cell.simps)
    moreover have "length h' = length h + 1" using f(3) by (simp add: renewed_def)
    ultimately show ?thesis using L(2) by (auto simp: relation_rep_def)
  qed
qed

lemma add_relations_obj_ok:
  assumes "relation_rep (h, m) rel"
  shows "\<exists>h' m'. mfold (\<lambda>s (mem, key, new). add_relation_obj mem key new s) (h, m) calls = Inr (h', m') \<and>
     relation_rep (h', m') (foldl (\<lambda>rel (mem, key, new). add_relation key new rel) rel calls) \<and> length h' = length h + length calls"
  using assms
proof (induction calls arbitrary: h m rel)
  case (Cons e calls)
  obtain mem key new where e: "e = (mem, key, new)" by (cases e)
  obtain h1 m1 where "add_relation_obj mem key new (h, m) = Inr (h1, m1)" "relation_rep (h1, m1) (add_relation key new rel)" "length h1 = length h + 1"
    using add_relation_obj_ok[OF Cons.prems, of mem key new] by (auto simp: ok_iff)
  then show ?case using Cons.IH[of h1 m1 "add_relation key new rel"] e by auto
qed simp

text \<open>The parser builds its relation by entering one call after the other.\<close>

definition entered :: "(string \<times> calledclass) list \<Rightarrow> relation" where
  "entered calls = foldl (\<lambda>rel (key, new). add_relation key new rel) [] calls"

definition built :: "relation \<Rightarrow> bool" where
  "built rel \<longleftrightarrow> (\<exists>calls. rel = entered calls)"

lemma built_Nil: "built []"
  unfolding built_def entered_def by (rule exI[of _ "[]"]) simp

lemma built_add: "built rel \<Longrightarrow> built (add_relation key new rel)"
proof -
  assume "built rel"
  then obtain calls where "rel = entered calls" by (auto simp: built_def)
  then have "add_relation key new rel = entered (calls @ [(key, new)])" by (simp add: entered_def)
  then show ?thesis unfolding built_def by blast
qed

lemma mfold_built:
  assumes "mfold f st xs = Inr st'" "built (calledrelation st)"
    and "\<And>a x b. f a x = Inr b \<Longrightarrow> built (calledrelation a) \<Longrightarrow> built (calledrelation b)"
  shows "built (calledrelation st')"
  using mfold_keeps[where R = "\<lambda>_ t. built (calledrelation t)", OF assms(1)] assms(2,3) by blast

lemma relate_header_built:
  "relate_header env cls t mb v call st e = Inr st' \<Longrightarrow> built (calledrelation st) \<Longrightarrow> built (calledrelation st')"
  by (cases call; cases e) (auto simp: relate_header_def Let_def sbind_eq_Inr built_add split: if_splits option.splits)

lemma symbol_at_built:
  assumes "symbol_at env symbol body cls p pos st = Inr st'" "built (calledrelation st)"
  shows "built (calledrelation st')"
proof -
  have "built (calledrelation st')" if "mfold (relate_header env cls t mb v call) st (hmap env) = Inr st'" for t mb v call
    using mfold_built[OF that assms(2)] relate_header_built by blast
  then show ?thesis using assms by (auto simp: symbol_at_def sbind_eq_Inr Let_def split: if_splits)
qed

lemma symbol_loop_built:
  "symbol_loop fuel env symbol body cls p pos st = Inr st' \<Longrightarrow> built (calledrelation st) \<Longrightarrow> built (calledrelation st')"
  by (induction fuel arbitrary: pos st) (auto simp: sbind_eq_Inr dest: symbol_at_built split: if_splits)

lemma find_in_method_built:
  assumes "find_in_method env p cls st q = Inr st'" "built (calledrelation st)"
  shows "built (calledrelation st')"
proof -
  have "findsymbol env symbol body cls p a = Inr b \<Longrightarrow> built (calledrelation a) \<Longrightarrow> built (calledrelation b)" for symbol body a b
    unfolding findsymbol_def by (drule symbol_loop_built) simp_all
  then show ?thesis using assms by (auto simp: find_in_method_def sbind_eq_Inr)
qed

lemma find_in_source_built:
  assumes "find_in_source env st p = Inr st'" "built (calledrelation st)"
  shows "built (calledrelation st')"
proof -
  have c: "built (calledrelation b)" if "find_in_class env p a e = Inr b" "built (calledrelation a)" for a e b
    using mfold_built[of "find_in_method env p (fst e)" a "snd e" b] that find_in_method_built
    by (auto simp: find_in_class_def case_prod_beta)
  show ?thesis using mfold_built[of "find_in_class env p" st "cppclass p" st'] assms c by (auto simp: find_in_source_def)
qed

lemma parse_all_built:
  assumes "parse_all tc = Inr tc1" "t_calledrelation tc = []"
  shows "built (t_calledrelation tc1)"
proof -
  obtain env srcs st where st: "mfold (find_in_source env) \<lparr>calledrelation = t_calledrelation tc, lastans = t_lastans tc, objectrelation = []\<rparr> srcs = Inr st"
      "t_calledrelation tc1 = calledrelation st"
    using assms(1) by (auto simp: parse_all_def sbind_eq_Inr Let_def)
  show ?thesis unfolding st(2) by (rule mfold_built[OF st(1)]) (auto simp: assms(2) built_Nil dest: find_in_source_built)
qed

text \<open>
  C21. The cells of the relation that the parser collects, behind their pointers. There is a sequence
  of calls by which the parser builds its relation; when they are entered by the code of
  \<open>findsymbol\<close> with its pointers, the loop through a chain of cells never goes through a null, unset
  or dangling pointer, whatever the variable \<open>last\<close> holds before, and in the end the chains mean
  the relation that was parsed. Every call takes a new cell; those of repeated calls hang on nothing.
\<close>

theorem relation_cells:
  assumes "parse_all tc = Inr tc1" "t_calledrelation tc = []"
  shows "\<exists>calls. \<forall>mem. \<exists>h m. mfold (\<lambda>s (mem, key, new). add_relation_obj mem key new s) ([], []) (zip (map mem [0..<length calls]) calls) = Inr (h, m) \<and>
     relation_rep (h, m) (t_calledrelation tc1) \<and> length h = length calls"
proof -
  obtain calls where c: "t_calledrelation tc1 = entered calls" using parse_all_built[OF assms] by (auto simp: built_def)
  have z: "foldl (\<lambda>rel (mem, key, new). add_relation key new rel) rel (zip ms cs) = foldl (\<lambda>rel (key, new). add_relation key new rel) rel cs"
    if "length ms = length cs" for ms :: "nat option list" and cs rel
    using that by (induction ms cs arbitrary: rel rule: list_induct2) (auto split: prod.splits)
  have "relation_rep ([], []) []" by (simp add: relation_rep_def)
  note r = add_relations_obj_ok[OF this]
  show ?thesis
  proof (rule exI[of _ calls], rule allI)
    fix mem :: "nat \<Rightarrow> nat option"
    show "\<exists>h m. mfold (\<lambda>s (mem, key, new). add_relation_obj mem key new s) ([], []) (zip (map mem [0..<length calls]) calls) = Inr (h, m) \<and>
        relation_rep (h, m) (t_calledrelation tc1) \<and> length h = length calls"
      using r[of "zip (map mem [0..<length calls]) calls"] z[of "map mem [0..<length calls]" calls] by (simp add: c entered_def)
  qed
qed

theorem relation_cells_witness:
  "\<exists>tc tc1 h m. sample_read = Inr tc \<and> parse_all tc = Inr tc1 \<and> classes (t_calledrelation tc1) = {''A'', ''B'', ''C''} \<and>
     relation_rep (h, m) (t_calledrelation tc1)"
proof -
  obtain tc tc1 where t: "sample_read = Inr tc" "parse_all tc = Inr tc1" "t_calledrelation tc = []"
      "classes (t_calledrelation tc1) = {''A'', ''B'', ''C''}" by (rule sample_parsed)
  from relation_cells[OF t(2,3)] obtain h m where "relation_rep (h, m) (t_calledrelation tc1)" by blast
  then show ?thesis using t by blast
qed

end
