(* ===== verification/Spec2Isabelle.thy ===== *)
theory Spec2Isabelle
  imports Endings Application Projects Objects
begin

text \<open>
  Verification of CArchitecture (\<open>src/CArchitecture\<close>), a tool that reads C++ projects, takes
  from them which class calls which, models these relations as a hypergraph and recovers an
  architecture by splitting the hypergraph again and again.

  \<^bold>\<open>The program.\<close> \<open>main\<close> reads a menu of test cases (\<open>Architecture.cpp\<close>), makes a \<open>CTestCaseCpp\<close> of
  every line and puts it into a queue of the job manager (\<open>CMgrJob.cpp\<close>). One thread reads and
  writes test cases, two threads parse and model them, one waits for the word \<open>exit\<close>; locks
  (\<open>CLock.cpp\<close>) guard the two queues. Reading (\<open>TestCase.cpp\<close>, \<open>ReadH.cpp\<close>, \<open>ReadCpp.cpp\<close>)
  finds the files of the folder and cuts them into classes and methods; parsing finds the
  types of the variables that are dereferenced and collects the relation of called classes
  and callers; modelling builds a hypergraph (\<open>CHypergraph.cpp\<close>) and splits it
  (\<open>Multilevel.cpp\<close>, \<open>HeapSort.cpp\<close>); the parts are merged, renumbered and written.

  \<^bold>\<open>The theories\<close>, in the order in which they build on each other:

  \<^item> \<open>Prelude\<close>: errors as values of a sum type (\<open>sbind\<close>, \<open>ok\<close>), arrays with checked access,
    folds that can fail, \<open>std::string\<close> and \<open>std::map\<close>, the collections of lemmas.
  \<^item> \<open>Doubles\<close>: \<open>double\<close> and \<open>float\<close> as rationals, every operation followed by rounding to the nearest
    number of 53 or 24 bits.
  \<^item> \<open>HeapSort\<close> (\<open>HeapSort.cpp\<close>): the heap of candidate moves; \<open>getMax\<close> finds a best one when it is
    told to renew the heap, and does not otherwise.
  \<^item> \<open>Hypergraph\<close> (\<open>CHypergraph.h\<close>, \<open>Multilevel.cpp\<close>): the flat arrays and the linked incidence
    structure, and that the constructor of the second represents the first.
  \<^item> \<open>Coarsening\<close>, \<open>SubPartition\<close>, \<open>Modularity\<close>, \<open>HillClimb\<close>, \<open>MyPartition\<close> (\<open>Multilevel.cpp\<close>):
    coarsening of a hypergraph, a first bipartition by breadth-first search, the value of a
    bipartition and its cut sets, the strategies of improvement, and the driver
    \<open>myPartition\<close>, which returns on every well-formed hypergraph with the best of its tries.
  \<^item> \<open>SubGraph\<close>, \<open>Splitting\<close>, \<open>Parts\<close> (\<open>TestCase.cpp\<close>): the two sons of a bipartition, the loop that
    splits until the parts are small, the numbering of the leaves, \<open>mergeParts\<close> and the
    numbers that are written. \<open>Splitting\<close> states what it needs of a partitioner as a locale,
    interpreted by \<open>myPartition\<close>.
  \<^item> \<open>Text\<close>, \<open>CreateHypergraph\<close>: decimal numbers (\<open>sprintf\<close>, \<open>atoi\<close>) and the construction of the root
    from the relation of classes, with the texts for the output files.
  \<^item> \<open>Scan\<close>, \<open>ReadH\<close>, \<open>ReadCpp\<close>, \<open>Symbols\<close>: walks through a text, the readers of headers and
    sources, and the parser of methods (\<open>findsymbol\<close>).
  \<^item> \<open>JobQueue\<close>, \<open>Pipeline\<close>, \<open>Progress\<close>: the locks, the queues of jobs and of the log, given as instances of one
    locale of a queue, the threads as steps on a shared state, that the work can always be
    brought to its end, and when the process ends.
  \<^item> \<open>Folder\<close>, \<open>TestCase\<close>: the search for the files, and the actions of a test case put together.
  \<^item> \<open>Chains\<close>, \<open>Objects\<close>: chains of objects on a heap, with the loops that walk, extend and delete
    them; the sources, methods, headers and relation cells of a test case behind their
    pointers, and the destructors \<open>~CTestCaseCpp\<close> and \<open>~CReadCpp\<close>.
  \<^item> \<open>Occurs\<close>, \<open>Documents\<close>, \<open>Calls\<close>, \<open>Projects\<close>: occurrences of a text in another; whole headers and sources are
    read back; the relation that the parser collects is exactly the set of calls in the methods;
    and both together, from the texts of the files to the relation.
  \<^item> \<open>Invariants\<close>: the representation invariant of a test case, kept by every action.
  \<^item> \<open>Endings\<close>: every loop of a test case ends.
  \<^item> \<open>Application\<close> (\<open>Architecture.cpp\<close>, \<open>CThread.cpp\<close>): the process, from the creation of the log, the jobs and
    the threads to the files it leaves; its executions refine those of the pipeline.
  \<^item> This theory: the properties of a whole test case and of the program.

  \<^bold>\<open>How code becomes definitions.\<close> A class is a record, a pointer to one of several objects an
  index into a list of objects (\<open>None\<close> the null pointer, a deleted object a hole), a chain of objects that is only
  walked through and extended a list (which \<open>Objects\<close> justifies from the pointers), an array a list with checked access: an access outside is the
  error \<open>BadIndex\<close>, a null pointer \<open>NullDeref\<close>, an exception of \<open>std::string\<close> \<open>OutOfRange\<close>, a call
  of \<open>exit\<close> \<open>ExitCode\<close>, a division by zero or a value that is not a number \<open>NotFinite\<close>. Memory that \<open>new\<close>
  returns, the numbers of \<open>rand\<close>, files, folders and the clock are parameters, and the
  theorems hold for all of their values; the links that a constructor leaves unset are such memory too.
  Where the code runs into what its language leaves undefined, the definition has an error (the
  pointer \<open>pMyGraph\<close>, which is never set when no hypergraph is split, is \<open>BadIndex\<close>), with two
  exceptions: \<open>atoi\<close> of a number that no \<open>int\<close> holds gives that number, and the second
  \<open>pthread_join\<close> of the same thread returns. A definition has the name of its function, with
  the class in front where two classes share it.

  \<^bold>\<open>The surroundings.\<close> The world of a test case (files, folders, clock, random numbers, memory) is a
  function of its line in the menu: equal lines meet the same world. Folders can be made and
  files be opened and written whenever the program asks for it, as the program itself assumes.

  \<^bold>\<open>Loops.\<close> A loop is a recursive function, total where a measure is known from its text (positions
  in a string, lengths of paths). Loops over queues and trees carry fuel, and \<open>OutOfFuel\<close> is
  shown not to occur: twice the number of vertices plus two rounds of splitting (the sons
  that are split further share out the vertices of their father), one round of merging per part, the number of objects for
  walks in the tree, the length of a text plus two for the searches in it, the number of
  names in the headers for the search through includes, and the number of objects ever made
  plus one for the walks along a chain, which visits none of them twice. The loops of the threads are single
  steps, and the executions of the program all their sequences.

  \<^bold>\<open>What is shown.\<close> The end to end property below: every written partition is an architecture of
  the relation that was parsed, for all interleavings of the threads, and the files of the process
  are those of the written test cases; every test case stays well-formed. On the way: termination
  of all loops and safety of all accesses from \<open>createHypergraph\<close> on, equivalence of the
  modularity and of the cut sets with their definitions, the breadth-first order of the first
  bipartition, which hyperedges coarsening merges, that the best of all tries is kept, refinement of the hypergraphs under
  construction and splitting, round trips of whole headers and sources through the
  readers, exactness of the relation that is parsed, first-in first-out order of the queues, mutual exclusion and absence of deadlock,
  and that the objects of a test case mean the lists of the parser until the destructor frees them,
  each once.
  Some properties state where the code does not do what it means to: reads of unset memory,
  of a cell before an array, past the end of a file buffer, a crash for fewer than three
  classes, the last option of a menu line, and that the process can end before the
  second parsing thread and the writing thread have done their work.

  \<^bold>\<open>Not modelled.\<close> The build for Windows; messages on the console; the destructors of \<open>CLock\<close>,
  \<open>CMgrJob\<close> and \<open>CLogWrite\<close>, which only free a lock or nothing; the library hMetis, which \<open>doPartition\<close> passes its arrays to and no other code calls (a
  parameter of that definition); the sleeps of the threads; the texts of the notes that the
  parser makes (any text, at any time while a thread works on a test case); wrap-around of \<open>int\<close>, which needs hypergraphs of more than two thousand million
  pins; the projects under \<open>src/testcases\<close>, which are the inputs of the tool.
\<close>

section \<open>A test case from its files to its output\<close>

text \<open>
  C1. For a test case that is parsed without an exception and a menu line with at most ten
  blanks: if the relation of the parser has fewer than three classes the program crashes, and
  otherwise modelling, splitting and writing end. The file \<open>partition.txt\<close> then holds one
  number per class, the numbers run from 0 without gaps, any two parts have at most one
  called class with its callers in common, and \<open>relation.txt\<close> holds the relation, in which
  every called class is declared in a header and calls between different classes only occur.
\<close>

theorem testcase_correct:
  assumes "parse_all tc = Inr tc1" "t_calledrelation tc = []" "count_list (strPara tc) CHR '' '' \<le> 10"
  shows "if card (classes (t_calledrelation tc1)) < END_NUM then CTestCaseCpp_doParsing w tc = Inl BadIndex
     else \<exists>tc2 tc3 cls out. CTestCaseCpp_doParsing w tc = Inr tc2 \<and> CTestCaseCpp_doWriting w tc2 = Inr tc3 \<and>
       sound (t_hmap tc) (t_calledrelation tc1) \<and> architecture (t_calledrelation tc1) cls out \<and>
       {WriteFile (out_folder tc @ ''//partition.txt'') (part_lines out),
        WriteFile (out_folder tc @ ''//relation.txt'') (concat (map answer_text (t_calledrelation tc1)))} \<subseteq> set (t_effects tc3)"
proof -
  let ?tc = "note_time ''parsing time : '' (w_clock w 4) (w_clock w 5) tc1"
  note S = parse_all_sound[OF assms(1,2)]
  have f: "out_folder ?tc = out_folder tc" "t_calledrelation ?tc = t_calledrelation tc1" "wf_relation (t_calledrelation ?tc)"
      "count_list (strPara ?tc) CHR '' '' \<le> 10"
    using S assms(3) by (simp_all add: out_folder_def sound_def)
  have "CTestCaseCpp_doParsing w tc = CTestCaseCpp_doModeling w ?tc" using assms(1) by (simp add: CTestCaseCpp_doParsing_def)
  with doModeling_ok[OF f(3,4), of w w] show ?thesis using S f(1,2) by (auto split: if_splits)
qed

text \<open>
  C2. The program, whatever its threads do: a test case whose output is written has been created
  from its line of the menu, read, parsed and written once each without an error, its relation
  only holds calls of declared classes by other classes, and the written partition is an
  architecture of that relation.
\<close>

theorem program_correct:
  assumes "main now mem menufile input = Inr s0" "reachable (program_actions W) s0 s"
    "j < length (s_jobs s)" "EvWrite j \<in> set (s_trace s)"
  shows "\<exists>nms tc tc1 tc2 tc3 cls out. menu menufile = Inr nms \<and> length (s_jobs s) = length nms \<and>
     CTestCaseCpp_new (now (nms ! j)) (nms ! j) = Inr tc \<and> CTestCaseCpp_doReading (W (nms ! j)) tc = Inr tc1 \<and>
     CTestCaseCpp_doParsing (W (nms ! j)) tc1 = Inr tc2 \<and> CTestCaseCpp_doWriting (W (nms ! j)) tc2 = Inr tc3 \<and>
     sound (t_hmap tc1) (t_calledrelation tc2) \<and> architecture (t_calledrelation tc2) cls out \<and>
     WriteFile (out_folder tc @ ''//partition.txt'') (part_lines out) \<in> set (t_effects tc3)"
proof -
  obtain nms ds where o: "menu menufile = Inr nms" "map (\<lambda>n. CTestCaseCpp_new (now n) n) nms = map Inr ds" "started ds s0"
    using OnParserOpenfiles_started[OF assms(1)[unfolded main_def]] by blast
  have D: "data_inv (program_actions W) ds s" using reachable_inv[OF o(3) assms(2)] by (simp add: pipe_inv_def)
  have len: "length (s_jobs s) = length ds" "length ds = length nms" using D map_eq_imp_length_eq[OF o(2)] by (simp_all add: data_inv_def)
  have j: "j < length ds" "j < length nms" using assms(3) len by simp_all
  have n: "CTestCaseCpp_new (now (nms ! j)) (nms ! j) = Inr (ds ! j)" using arg_cong[OF o(2), of "\<lambda>xs. xs ! j"] j by simp
  have sp: "strPara (ds ! j) = nms ! j" "t_calledrelation (ds ! j) = []" using new_simps[OF n] by auto
  obtain tc1 tc2 where r: "CTestCaseCpp_doReading (W (nms ! j)) (ds ! j) = Inr tc1" and p: "CTestCaseCpp_doParsing (W (strPara tc1)) tc1 = Inr tc2"
    using job_history[OF D j(1)] assms(4) sp(1) by (auto simp: program_actions_def)
  note K = doReading_keeps[OF r]
  have p': "CTestCaseCpp_doParsing (W (nms ! j)) tc1 = Inr tc2" using p K sp(1) by simp
  have "out_folder tc1 = out_folder (ds ! j)" using K by (simp add: out_folder_def)
  then show ?thesis using doParsing_ok[OF p', of "W (nms ! j)"] K sp(2) o(1) n r p' len by auto
qed

text \<open>
  C5. The test cases are well-formed at every moment, whatever the threads do: the maps for headers, classes, type
  definitions, base classes and parts have ordered keys, headers are found by names without a path,
  no class of a source is empty, the parameters a method dereferences are counted from 1, base
  classes and called classes are declared, and the hypergraph is there exactly after modelling,
  with part numbers that the merged parts lead to 0.
\<close>

theorem program_well_typed:
  assumes "main now mem menufile input = Inr s0" "reachable (program_actions W) s0 s" "j < length (s_jobs s)" "s_jobs s ! j = Some c"
  shows "wf_case (tc_data c) \<and> (pHyper (tc_data c) \<noteq> None \<longleftrightarrow> stage c = MODEL_END_STAGE)"
proof -
  obtain nms ds where o: "map (\<lambda>n. CTestCaseCpp_new (now n) n) nms = map Inr ds" "started ds s0"
    using OnParserOpenfiles_started[OF assms(1)[unfolded main_def]] by blast
  have D: "data_inv (program_actions W) ds s" using reachable_inv[OF o(2) assms(2)] by (simp add: pipe_inv_def)
  have "wf_case d \<and> pHyper d = None" if "d \<in> set ds" for d
  proof -
    have "Inr d \<in> set (map (\<lambda>n. CTestCaseCpp_new (now n) n) nms)" unfolding o(1) using that by simp
    then obtain n where "CTestCaseCpp_new (now n) n = Inr d" by auto
    then show ?thesis by (rule new_wf)
  qed
  then show ?thesis using job_wf[OF D _ _ assms(4)] assms(3) D by (simp add: data_inv_def)
qed

text \<open>
  C4. The work on a test case always ends, whatever its line in the menu, the folders, the files
  and their texts are: creating, reading, parsing with modelling and writing never run into a
  loop without end. They return, or the process ends by an error.
\<close>

theorem testcase_terminates:
  "sbind (CTestCaseCpp_new now name) (\<lambda>tc. sbind (CTestCaseCpp_doReading w tc) (\<lambda>tc.
     sbind (CTestCaseCpp_doParsing w tc) (CTestCaseCpp_doWriting w))) \<noteq> Inl OutOfFuel"
proof -
  have "ends (CTestCaseCpp_new now name)" unfolding CTestCaseCpp_new_def by (intro ends_sbind) auto
  moreover have "ends (sbind (CTestCaseCpp_doReading w tc) (\<lambda>tc. sbind (CTestCaseCpp_doParsing w tc) (CTestCaseCpp_doWriting w)))"
    if n: "CTestCaseCpp_new now name = Inr tc" for tc
  proof (rule ends_sbind[OF doReading_ends], rule ends_sbind)
    fix tc1 assume r: "CTestCaseCpp_doReading w tc = Inr tc1"
    have e: "t_calledrelation tc1 = []" using doReading_keeps[OF r] new_simps[OF n] by simp
    show "ends (CTestCaseCpp_doParsing w tc1)" by (rule doParsing_ends[OF e])
    show "ends (CTestCaseCpp_doWriting w tc2)" if "CTestCaseCpp_doParsing w tc1 = Inr tc2" for tc2
      using doParsing_ok[OF that e, of w] by auto
  qed
  ultimately have "ends (sbind (CTestCaseCpp_new now name) (\<lambda>tc. sbind (CTestCaseCpp_doReading w tc) (\<lambda>tc.
     sbind (CTestCaseCpp_doParsing w tc) (CTestCaseCpp_doWriting w))))" by (rule ends_sbind)
  then show ?thesis by (simp add: ends_def)
qed

section \<open>Witnesses\<close>

theorem testcase_correct_witness:
  "\<exists>tc tc1 tc2 tc3 cls out. sample_read = Inr tc \<and> parse_all tc = Inr tc1 \<and> classes (t_calledrelation tc1) = {''A'', ''B'', ''C''} \<and>
     CTestCaseCpp_doParsing sample_world tc = Inr tc2 \<and> CTestCaseCpp_doWriting sample_world tc2 = Inr tc3 \<and>
     architecture (t_calledrelation tc1) cls out \<and>
     WriteFile ''..//output//t//partition.txt'' (part_lines out) \<in> set (t_effects tc3)"
proof -
  obtain tc tc1 where t: "sample_read = Inr tc" "parse_all tc = Inr tc1" "t_calledrelation tc = []" "count_list (strPara tc) CHR '' '' \<le> 10"
     "out_folder tc = ''..//output//t''" "classes (t_calledrelation tc1) = {''A'', ''B'', ''C''}" by (rule sample_parsed)
  have n: "\<not> card (classes (t_calledrelation tc1)) < END_NUM" unfolding t(6) by (rule three_classes)
  obtain tc2 tc3 cls out where o: "CTestCaseCpp_doParsing sample_world tc = Inr tc2" "CTestCaseCpp_doWriting sample_world tc2 = Inr tc3"
      "architecture (t_calledrelation tc1) cls out" "WriteFile (out_folder tc @ ''//partition.txt'') (part_lines out) \<in> set (t_effects tc3)"
    using testcase_correct[OF t(2-4), of sample_world, unfolded if_not_P[OF n]] by blast
  have "WriteFile ''..//output//t//partition.txt'' (part_lines out) \<in> set (t_effects tc3)" using o(4) by (simp add: t(5))
  then show ?thesis using t(1,2,6) o(1-3) by blast
qed


theorem program_correct_witness:
  "\<exists>s0 s tc3 cls out. sample_main = Inr s0 \<and> reachable (program_actions (\<lambda>_. sample_world)) s0 s \<and> s_trace s = [EvRead 0, EvParse 0, EvWrite 0] \<and>
     (\<exists>tc2. CTestCaseCpp_doWriting sample_world tc2 = Inr tc3 \<and> architecture (t_calledrelation tc2) cls out) \<and>
     (\<exists>d. WriteFile d (part_lines out) \<in> set (t_effects tc3))"
proof -
  let ?act = "program_actions (\<lambda>_. sample_world)"
  obtain s0 s where s: "sample_main = Inr s0" "run_sched ?act sample_order s0 = Inr s" "length (s_jobs s) = 1" "s_trace s = [EvRead 0, EvParse 0, EvWrite 0]"
    by (rule sample_main_run)
  have r: "reachable ?act s0 s" by (rule run_sched_reachable[OF reachable.init s(2)])
  have "0 < length (s_jobs s)" "EvWrite 0 \<in> set (s_trace s)" using s(3,4) by simp_all
  from program_correct[OF s(1)[unfolded sample_main_def] r this] show ?thesis using s(1,4) r by blast
qed

theorem program_well_typed_witness:
  "\<exists>s0 s c. sample_main = Inr s0 \<and> reachable (program_actions (\<lambda>_. sample_world)) s0 s \<and> s_jobs s = [Some c] \<and> stage c = MODEL_END_STAGE \<and>
     wf_case (tc_data c) \<and> pHyper (tc_data c) \<noteq> None"
proof -
  let ?act = "program_actions (\<lambda>_. sample_world)"
  obtain s0 s c where s: "sample_main = Inr s0" "run_sched ?act (replicate 6 IO @ replicate 6 W1) s0 = Inr s" "s_jobs s = [Some c]" "stage c = MODEL_END_STAGE"
    by (rule sample_main_run)
  have r: "reachable ?act s0 s" by (rule run_sched_reachable[OF reachable.init s(2)])
  have j: "0 < length (s_jobs s)" "s_jobs s ! 0 = Some c" using s(3) by simp_all
  from program_well_typed[OF s(1)[unfolded sample_main_def] r j] show ?thesis using s(1,3,4) r by blast
qed

end
